(* ===== verification/Go_Base.thy ===== *)
theory Go_Base
  imports Main "HOL-Library.Word" "HOL-Library.Sublist"
begin

text \<open>
  What the components share: the types that name Go's fixed-width integers and byte slices,
  the arithmetic of Go's \<^verbatim>\<open>uint32\<close> written out on natural numbers, the fixed-width
  byte encodings of \<^verbatim>\<open>encoding/binary\<close>, bit-level facts about words, and the list facts
  that several component proofs use. The collections are
  \<^item> \<open>u32_simps\<close>: \<^verbatim>\<open>uint32\<close> addition and subtraction that stay in range;
  \<^item> \<open>codec_simps\<close>: encode/decode round trips of fixed-width integers.
\<close>

unbundle bit_operations_syntax

named_theorems u32_simps \<open>uint32 arithmetic inside its range\<close>
named_theorems codec_simps \<open>round trips of fixed-width byte encodings\<close>

type_synonym u8 = "8 word"
type_synonym u16 = "16 word"
type_synonym u32 = "32 word"
type_synonym u64 = "64 word"
type_synonym bytes = "u8 list"

section \<open>Go's uint32 on natural numbers\<close>

text \<open>
  Instruction numbers, positions and distances are \<^verbatim>\<open>uint32\<close> in the source. They are kept
  here as natural numbers, with the wrap-around of \<^verbatim>\<open>+\<close> and \<^verbatim>\<open>-\<close> written out.
\<close>

abbreviation u32_mod :: nat where "u32_mod \<equiv> 4294967296"

definition u32_add :: "nat \<Rightarrow> nat \<Rightarrow> nat" where
  "u32_add a b = (a + b) mod u32_mod"

definition u32_sub :: "nat \<Rightarrow> nat \<Rightarrow> nat" where
  "u32_sub a b = (a + u32_mod - b mod u32_mod) mod u32_mod"

lemma u32_add_in_range [u32_simps]: "a + b < u32_mod \<Longrightarrow> u32_add a b = a + b"
  by (simp add: u32_add_def)

lemma u32_sub_in_range [u32_simps]: "b \<le> a \<Longrightarrow> a < u32_mod \<Longrightarrow> u32_sub a b = a - b"
  by (simp add: u32_sub_def mod_if)

lemma u32_add_lt [simp]: "u32_add a b < u32_mod"
  by (simp add: u32_add_def)

lemma u32_sub_lt [simp]: "u32_sub a b < u32_mod"
  by (simp add: u32_sub_def)

section \<open>Fixed-width byte encodings\<close>

text \<open>
  \<^verbatim>\<open>binary.LittleEndian\<close> and \<^verbatim>\<open>binary.BigEndian\<close> on 16 and 32 bits. The readers take the
  first bytes of a slice; Go panics on a shorter one, which is \<open>None\<close>.
\<close>

definition le16 :: "u16 \<Rightarrow> bytes" where
  "le16 v = [ucast v, ucast (drop_bit 8 v)]"

definition le32 :: "u32 \<Rightarrow> bytes" where
  "le32 v = [ucast v, ucast (drop_bit 8 v), ucast (drop_bit 16 v), ucast (drop_bit 24 v)]"

definition be16 :: "u16 \<Rightarrow> bytes" where
  "be16 v = [ucast (drop_bit 8 v), ucast v]"

definition be32 :: "u32 \<Rightarrow> bytes" where
  "be32 v = [ucast (drop_bit 24 v), ucast (drop_bit 16 v), ucast (drop_bit 8 v), ucast v]"

fun read_le16 :: "bytes \<Rightarrow> u16 option" where
  "read_le16 (a # b # _) = Some (ucast a OR push_bit 8 (ucast b))"
| "read_le16 _ = None"

fun read_be16 :: "bytes \<Rightarrow> u16 option" where
  "read_be16 (a # b # _) = Some (push_bit 8 (ucast a) OR ucast b)"
| "read_be16 _ = None"

fun read_le32 :: "bytes \<Rightarrow> u32 option" where
  "read_le32 (a # b # c # d # _) =
     Some (ucast a OR push_bit 8 (ucast b) OR push_bit 16 (ucast c) OR push_bit 24 (ucast d))"
| "read_le32 _ = None"

fun read_be32 :: "bytes \<Rightarrow> u32 option" where
  "read_be32 (a # b # c # d # _) =
     Some (push_bit 24 (ucast a) OR push_bit 16 (ucast b) OR push_bit 8 (ucast c) OR ucast d)"
| "read_be32 _ = None"

lemma read_le16_le16 [codec_simps]: "read_le16 (le16 v @ rest) = Some v"
  by (auto simp: le16_def bit_simps intro!: bit_word_eqI)

lemma read_be16_be16 [codec_simps]: "read_be16 (be16 v @ rest) = Some v"
  by (auto simp: be16_def bit_simps intro!: bit_word_eqI)

lemma u32_from_octets:
  "ucast (ucast (v :: u32) :: u8) OR push_bit 8 (ucast (ucast (drop_bit 8 v) :: u8))
     OR push_bit 16 (ucast (ucast (drop_bit 16 v) :: u8)) OR push_bit 24 (ucast (ucast (drop_bit 24 v) :: u8)) = v"
proof (rule bit_word_eqI)
  fix n
  assume "n < LENGTH(32)"
  then consider "n < 8" | "8 \<le> n" "n < 16" | "16 \<le> n" "n < 24" | "24 \<le> n" "n < 32"
    by fastforce
  then show "bit (ucast (ucast (v :: u32) :: u8) OR push_bit 8 (ucast (ucast (drop_bit 8 v) :: u8))
     OR push_bit 16 (ucast (ucast (drop_bit 16 v) :: u8)) OR push_bit 24 (ucast (ucast (drop_bit 24 v) :: u8)) :: u32) n = bit v n"
    by cases (simp_all add: bit_simps, auto)
qed

lemma read_le32_le32 [codec_simps]: "read_le32 (le32 v @ rest) = Some v"
  using u32_from_octets [of v] by (simp add: le32_def or.assoc)

lemma read_be32_be32 [codec_simps]: "read_be32 (be32 v @ rest) = Some v"
  using u32_from_octets [of v] by (simp add: be32_def or.assoc or.commute or.left_commute)

lemma length_codec [simp]:
  "length (le16 v) = 2" "length (be16 v) = 2" "length (le32 w) = 4" "length (be32 w) = 4"
  by (simp_all add: le16_def be16_def le32_def be32_def)

section \<open>Arithmetic shared by the components\<close>

lemma div_mod_cancel:
  assumes "(a :: nat) div c = b div c" "a mod c = b mod c"
  shows "a = b"
proof -
  have "a = a div c * c + a mod c" by simp
  also have "\<dots> = b div c * c + b mod c" by (simp only: assms)
  also have "\<dots> = b" by simp
  finally show ?thesis .
qed

lemma div_mod_cancel_iff: "(a :: nat) div c = b div c \<and> a mod c = b mod c \<longleftrightarrow> a = b"
  using div_mod_cancel [of a c b] by blast

lemma sorted_le_last: "sorted xs \<Longrightarrow> x \<in> set xs \<Longrightarrow> x \<le> last xs"
  by (induction xs) auto

end
