(* ===== verification/Bitlist.thy ===== *)
theory Bitlist
  imports Go_Base
begin

text \<open>
  Model of \<^verbatim>\<open>pkg/trie/internal/bitlist/bitlist.go\<close>: a list of unsigned units of an arbitrary
  bit size, packed without padding into 16-bit words. An index panic of the Go code is
  \<open>None\<close>. The interface a client relies on is the locale \<open>unit_store\<close>: a unit that was
  appended is read back, whatever is appended later.
\<close>

section \<open>The packed list\<close>

record compact_bit_list =
  unitBitSize :: nat
  units :: "u16 list"
  unitNum :: nat

definition NewCompactBitList :: "nat \<Rightarrow> compact_bit_list" where
  "NewCompactBitList s = \<lparr>unitBitSize = s, units = [], unitNum = 0\<rparr>"

text \<open>\<^verbatim>\<open>bits.Len64\<close>: the number of bits needed to write a value.\<close>

fun bits_Len :: "nat \<Rightarrow> nat" where
  "bits_Len n = (if n = 0 then 0 else Suc (bits_Len (n div 2)))"

declare bits_Len.simps [simp del]

definition growByUnitIndex :: "compact_bit_list \<Rightarrow> nat \<Rightarrow> compact_bit_list" where
  "growByUnitIndex m i =
     (let bitBoundary = (i + 1) * unitBitSize m in
      if length (units m) * 16 < bitBoundary
      then (let needBytes = bitBoundary div 16 + (if bitBoundary mod 16 \<noteq> 0 then 1 else 0)
            in m\<lparr>units := units m @ replicate (needBytes - length (units m)) 0\<rparr>)
      else m)"

text \<open>The two inner loops of \<^verbatim>\<open>Set\<close>: the rest of the first word, then the start of the next.\<close>

function set_low :: "nat \<Rightarrow> nat \<Rightarrow> u64 \<Rightarrow> nat \<Rightarrow> u16 \<Rightarrow> nat \<times> u16" where
  "set_low unitToTravel j v k w =
     (if k < unitToTravel \<and> j + k < 16
      then set_low unitToTravel j v (Suc k)
             ((w AND NOT (push_bit (k + j) 1)) OR ucast (push_bit j (v AND push_bit k 1)))
      else (k, w))"
  by pat_completeness auto
termination
  by (relation "measure (\<lambda>(u, j, v, k, w). 16 - (j + k))") auto

function set_high :: "nat \<Rightarrow> nat \<Rightarrow> u64 \<Rightarrow> nat \<Rightarrow> u16 \<Rightarrow> u16" where
  "set_high unitToTravel j v k w =
     (if k < unitToTravel \<and> k < 16
      then set_high unitToTravel j v (Suc k)
             ((w AND NOT (push_bit (k - j) 1)) OR ucast (drop_bit j (v AND push_bit k 1)))
      else w)"
  by pat_completeness auto
termination
  by (relation "measure (\<lambda>(u, j, v, k, w). 16 - k)") auto

declare set_low.simps [simp del] set_high.simps [simp del]

function set_loop :: "nat \<Rightarrow> nat \<Rightarrow> nat \<Rightarrow> u64 \<Rightarrow> u16 list \<Rightarrow> u16 list option" where
  "set_loop unitToTravel i j v b =
     (if unitToTravel = 0 then Some b
      else if i < length b
      then (case set_low unitToTravel j v 0 (b ! i) of
              (k, w) \<Rightarrow>
                if unitToTravel \<le> k then Some (b[i := w])
                else if 16 \<le> k
                then set_loop (unitToTravel - 16) (Suc i) ((j + 16) mod 16) (drop_bit 16 v) (b[i := w])
                else if Suc i < length b
                then set_loop (unitToTravel - 16) (Suc i) ((j + 16) mod 16) (drop_bit 16 v)
                       (b[i := w, Suc i := set_high unitToTravel k v k (b ! Suc i)])
                else None)
      else None)"
  by pat_completeness auto
termination
  by (relation "measure (\<lambda>(u, i, j, v, b). u)") auto

declare set_loop.simps [simp del]

definition cbl_Set :: "compact_bit_list \<Rightarrow> nat \<Rightarrow> u64 \<Rightarrow> compact_bit_list option" where
  "cbl_Set m iUnit v =
     (if bits_Len (unat v) > unitBitSize m then None
      else let m1 = growByUnitIndex m iUnit; i = iUnit * unitBitSize m div 16; j = iUnit * unitBitSize m mod 16
           in case set_loop (unitBitSize m) i j v (units m1) of
                None \<Rightarrow> None
              | Some b \<Rightarrow> Some (m1\<lparr>units := b, unitNum := max (unitNum m) (iUnit + 1)\<rparr>))"

function get_loop :: "nat \<Rightarrow> nat \<Rightarrow> nat \<Rightarrow> u64 \<Rightarrow> u16 list \<Rightarrow> u64 option" where
  "get_loop unitToTravel i offset v b =
     (if unitToTravel \<ge> 16
      then (if i < length b
            then get_loop (unitToTravel - 16) (Suc i) (offset + 16) (v OR push_bit offset (ucast (b ! i))) b
            else None)
      else if unitToTravel = 0 then Some v
      else if i < length b
      then (let toTrimLeft = 16 - unitToTravel; top = (ucast (push_bit toTrimLeft (b ! i)) :: u64)
            in Some (v OR (if offset > toTrimLeft then push_bit (offset - toTrimLeft) top
                           else drop_bit (toTrimLeft - offset) top)))
      else None)"
  by pat_completeness auto
termination
  by (relation "measure (\<lambda>(u, i, off, v, b). u)") auto

declare get_loop.simps [simp del]

definition cbl_Get :: "compact_bit_list \<Rightarrow> nat \<Rightarrow> u64 option" where
  "cbl_Get m iUnit =
     (let bitBoundary = (iUnit + 1) * unitBitSize m; b = units m in
      if length b * 16 < bitBoundary then Some 0
      else let i = iUnit * unitBitSize m div 16; j = iUnit * unitBitSize m mod 16; byteSpace = 16 - j in
           if i \<ge> length b then None
           else if byteSpace > unitBitSize m
           then (let toTrimLeft = byteSpace - unitBitSize m
                 in Some (ucast (drop_bit (toTrimLeft + j) (push_bit toTrimLeft (b ! i)))))
           else get_loop (unitBitSize m - (16 - j)) (Suc i) (16 - j) (ucast (drop_bit j (b ! i))) b)"

definition cbl_Append :: "compact_bit_list \<Rightarrow> u64 \<Rightarrow> compact_bit_list option" where
  "cbl_Append m v = cbl_Set m (unitNum m) v"

text \<open>\<^verbatim>\<open>Tighten\<close> only drops spare capacity of the backing slice, which the list does not have.\<close>

definition cbl_Tighten :: "compact_bit_list \<Rightarrow> compact_bit_list" where
  "cbl_Tighten m = m"

text \<open>
  A loop that appends a sequence of values, as the callers of \<^verbatim>\<open>Append\<close> in
  \<^verbatim>\<open>pkg/trie/trie.go\<close> have it; a panic of one call ends it.
\<close>

fun append_all :: "('s \<Rightarrow> 'v \<Rightarrow> 's option) \<Rightarrow> 's \<Rightarrow> 'v list \<Rightarrow> 's option" where
  "append_all app s [] = Some s"
| "append_all app s (v # vs) = (case app s v of None \<Rightarrow> None | Some s' \<Rightarrow> append_all app s' vs)"

section \<open>Bits of the packed words\<close>

definition bitat :: "u16 list \<Rightarrow> nat \<Rightarrow> bool" where
  "bitat b p = bit (b ! (p div 16)) (p mod 16)"

lemma bits_Len_le_iff: "bits_Len n \<le> s \<longleftrightarrow> n < 2 ^ s"
proof (induction s arbitrary: n)
  case 0
  show ?case by (simp add: bits_Len.simps [of n])
next
  case (Suc s)
  show ?case
  proof (cases "n = 0")
    case True
    then show ?thesis by (simp add: bits_Len.simps [of 0])
  next
    case False
    then have "bits_Len n \<le> Suc s \<longleftrightarrow> bits_Len (n div 2) \<le> s" by (simp add: bits_Len.simps [of n])
    then show ?thesis using Suc [of "n div 2"] by auto
  qed
qed

lemma bit_above_len: "bits_Len (unat v) \<le> s \<Longrightarrow> s \<le> n \<Longrightarrow> \<not> bit (v :: u64) n"
proof -
  assume "bits_Len (unat v) \<le> s" "s \<le> n"
  then have "unat v < 2 ^ s" by (simp add: bits_Len_le_iff)
  also have "(2::nat) ^ s \<le> 2 ^ n" using \<open>s \<le> n\<close> by simp
  finally have "unat v < 2 ^ n" .
  then have "\<not> bit (unat v) n" by (simp add: bit_nat_def)
  then show ?thesis by (simp add: bit_unsigned_iff)
qed

lemma set_low_spec:
  "j \<le> 16 \<Longrightarrow> k \<le> unitToTravel \<Longrightarrow> j + k \<le> 16 \<Longrightarrow>
   fst (set_low unitToTravel j v k w) = min unitToTravel (16 - j) \<and>
   (\<forall>n < 16. bit (snd (set_low unitToTravel j v k w)) n =
      (if j + k \<le> n \<and> n < j + unitToTravel then bit v (n - j) else bit w n))"
proof (induction unitToTravel j v k w rule: set_low.induct)
  case (1 u j v k w)
  show ?case
  proof (cases "k < u \<and> j + k < 16")
    case True
    let ?w = "(w AND NOT (push_bit (k + j) 1)) OR ucast (push_bit j (v AND push_bit k 1))"
    have eq: "set_low u j v k w = set_low u j v (Suc k) ?w"
      using True by (simp add: set_low.simps [of u j v k w])
    have ih: "fst (set_low u j v (Suc k) ?w) = min u (16 - j) \<and>
       (\<forall>n < 16. bit (snd (set_low u j v (Suc k) ?w)) n =
          (if j + Suc k \<le> n \<and> n < j + u then bit v (n - j) else bit ?w n))"
      using "1.IH" [OF True] True "1.prems" by simp
    have w: "bit ?w n = (if n = j + k then bit v k else bit w n)" if "n < 16" for n
      using that True by (auto simp: bit_simps)
    show ?thesis unfolding eq using ih w True by (auto simp: le_Suc_eq)
  next
    case False
    then show ?thesis using "1.prems" by (auto simp: set_low.simps [of u j v k w])
  qed
qed

lemma set_high_spec:
  "j \<le> k \<Longrightarrow> n < 16 \<Longrightarrow>
   bit (set_high unitToTravel j v k w) n =
     (if k \<le> n + j \<and> n + j < min unitToTravel 16 then bit v (n + j) else bit w n)"
proof (induction unitToTravel j v k w rule: set_high.induct)
  case (1 u j v k w)
  show ?case
  proof (cases "k < u \<and> k < 16")
    case True
    let ?w = "(w AND NOT (push_bit (k - j) 1)) OR ucast (drop_bit j (v AND push_bit k 1))"
    have eq: "set_high u j v k w = set_high u j v (Suc k) ?w"
      using True by (simp add: set_high.simps [of u j v k w])
    have ih: "bit (set_high u j v (Suc k) ?w) n =
        (if Suc k \<le> n + j \<and> n + j < min u 16 then bit v (n + j) else bit ?w n)"
      using "1.IH" [OF True] "1.prems" by simp
    have w: "bit ?w n = (if n + j = k then bit v k else bit w n)"
      using "1.prems" True by (auto simp: bit_simps add.commute)
    show ?thesis unfolding eq ih w using True by auto
  next
    case False
    then show ?thesis using "1.prems" by (auto simp: set_high.simps [of u j v k w])
  qed
qed


text \<open>\<open>writes b b' q n v\<close>: the bits \<open>q .. q + n - 1\<close> of \<open>b\<close> became the low \<open>n\<close> bits of \<open>v\<close>.\<close>

definition writes :: "u16 list \<Rightarrow> u16 list \<Rightarrow> nat \<Rightarrow> nat \<Rightarrow> u64 \<Rightarrow> bool" where
  "writes b b' q n v \<longleftrightarrow> length b' = length b \<and>
     (\<forall>p. bitat b' p = (if q \<le> p \<and> p < q + n then bit v (p - q) else bitat b p))"

lemma writes_trans:
  assumes "writes b b1 q n v" and "writes b1 b2 (q + n) m (drop_bit n v)"
  shows "writes b b2 q (n + m) v"
proof -
  have "bitat b2 p = (if q \<le> p \<and> p < q + (n + m) then bit v (p - q) else bitat b p)" for p
  proof (cases "q + n \<le> p")
    case True
    then have "n + (p - (q + n)) = p - q" by simp
    then show ?thesis using assms True by (simp add: writes_def bit_drop_bit_eq add.assoc)
  next
    case False
    then show ?thesis using assms by (simp add: writes_def)
  qed
  then show ?thesis using assms by (simp add: writes_def)
qed

lemma writes_empty: "writes b b q 0 v"
  by (auto simp: writes_def)

lemma set_loop_0 [simp]: "set_loop 0 i j v b = Some b"
  by (subst set_loop.simps) simp

lemma writes_word:
  assumes i: "i < length b" and j: "j + n \<le> 16"
    and w: "\<And>r. r < 16 \<Longrightarrow> bit w r = (if j \<le> r \<and> r < j + n then bit v (r - j) else bit (b ! i) r)"
  shows "writes b (b[i := w]) (i * 16 + j) n v"
proof -
  have "bitat (b[i := w]) p = (if i * 16 + j \<le> p \<and> p < i * 16 + j + n then bit v (p - (i * 16 + j)) else bitat b p)" for p
  proof (cases "p div 16 = i")
    case True
    define r where "r = p mod 16"
    have p: "p = i * 16 + r" and r: "r < 16" using True by (auto simp: r_def)
    have "bitat (b[i := w]) p = bit w r" using True i by (simp add: bitat_def r_def)
    then show ?thesis using w [OF r] p r True by (simp add: bitat_def)
  next
    case False
    have "\<not> (i * 16 + j \<le> p \<and> p < i * 16 + j + n)"
    proof
      assume "i * 16 + j \<le> p \<and> p < i * 16 + j + n"
      then have "i * 16 \<le> p" "p < i * 16 + 16" using j by auto
      then show False using False by auto
    qed
    moreover have "bitat (b[i := w]) p = bitat b p" using False i by (simp add: bitat_def)
    ultimately show ?thesis by presburger
  qed
  then show ?thesis by (simp add: writes_def)
qed

lemma writes_low:
  assumes "i < length b" "j < 16"
  shows "writes b (b[i := snd (set_low u j v 0 (b ! i))]) (i * 16 + j) (min u (16 - j)) v"
  using assms set_low_spec [of j 0 u v "b ! i"] by (intro writes_word) auto

lemma writes_high:
  assumes "i < length b" "k \<le> 16"
  shows "writes b (b[i := set_high u k v k (b ! i)]) (i * 16) (min u 16 - k) (drop_bit k v)"
  using writes_word [of i b 0 "min u 16 - k" "set_high u k v k (b ! i)" "drop_bit k v"] assms
    set_high_spec [of k k _ u v "b ! i"]
  by (auto simp: bit_drop_bit_eq add.commute less_diff_conv)

lemma set_loop_writes:
  "j < 16 \<Longrightarrow> i * 16 + j + u \<le> 16 * length b \<Longrightarrow>
   \<exists>b'. set_loop u i j v b = Some b' \<and> writes b b' (i * 16 + j) u v"
proof (induction u arbitrary: i j v b rule: less_induct)
  case (less u)
  note eq = set_loop.simps [of u i j v b]
  obtain k w where kw: "set_low u j v 0 (b ! i) = (k, w)" by fastforce
  have k: "k = min u (16 - j)" using set_low_spec [of j 0 u v "b ! i"] kw less.prems by auto
  have j': "(j + 16) mod 16 = j" using less.prems(1) by simp
  show ?case
  proof (cases "u = 0")
    case True
    then show ?thesis by (simp add: writes_empty)
  next
    case False
    have i: "i < length b" using less.prems False by simp
    have lo: "writes b (b[i := w]) (i * 16 + j) k v" using writes_low [of i b j u v] kw k i less.prems(1) by simp
    consider "u \<le> k" | "k < u" "j = 0" | "k < u" "0 < j" by fastforce
    then show ?thesis
    proof cases
      case 1
      then show ?thesis using lo k False i by (simp add: eq kw min_def split: if_splits)
    next
      case 2
      then have "k = 16" "16 < u" using k by auto
      moreover obtain b' where "set_loop (u - 16) (Suc i) j (drop_bit 16 v) (b[i := w]) = Some b'"
          "writes (b[i := w]) b' (Suc i * 16 + j) (u - 16) (drop_bit 16 v)"
        using less.IH [of "u - 16" j "Suc i" "b[i := w]" "drop_bit 16 v"] less.prems 2 \<open>16 < u\<close> by auto
      moreover have "set_loop u i j v b = set_loop (u - 16) (Suc i) j (drop_bit 16 v) (b[i := w])"
        unfolding eq kw using False i 2 \<open>k = 16\<close> j' by simp
      ultimately show ?thesis using writes_trans [OF lo, of b' "u - 16"] 2
        by (auto simp: add.commute)
    next
      case 3
      then have k': "k = 16 - j" "k < 16" using k less.prems(1) by auto
      have si: "Suc i < length b" using less.prems 3 k' by simp
      let ?b2 = "b[i := w, Suc i := set_high u k v k (b ! Suc i)]"
      have base: "i * 16 + j + k = Suc i * 16" and sum: "k + (min u 16 - k) = min u 16"
        using k' 3 less.prems(1) by auto
      have "writes (b[i := w]) ?b2 (i * 16 + j + k) (min u 16 - k) (drop_bit k v)"
        unfolding base using writes_high [of "Suc i" "b[i := w]" k u v] si k' by simp
      from writes_trans [OF lo this] have hi: "writes b ?b2 (i * 16 + j) (min u 16) v"
        unfolding sum .
      have step: "set_loop u i j v b = set_loop (u - 16) (Suc i) j (drop_bit 16 v) ?b2"
        unfolding eq kw j' using False i si 3 \<open>k < 16\<close> by simp
      show ?thesis
      proof (cases "u \<le> 16")
        case True
        then show ?thesis using hi step by simp
      next
        case u16: False
        obtain b' where "set_loop (u - 16) (Suc i) j (drop_bit 16 v) ?b2 = Some b'"
            "writes ?b2 b' (Suc i * 16 + j) (u - 16) (drop_bit 16 v)"
          using less.IH [of "u - 16" j "Suc i" ?b2 "drop_bit 16 v"] less.prems u16 False by auto
        then show ?thesis using writes_trans [OF hi, of b' "u - 16"] u16 step by (simp add: ac_simps)
      qed
    qed
  qed
qed

lemma bit_u16_lt: "bit (w :: u16) n \<Longrightarrow> n < 16"
  using bit_imp_le_length [of w n] by simp

lemma bitat_word: "r < 16 \<Longrightarrow> bitat b (i * 16 + r) = bit (b ! i) r"
  by (simp add: bitat_def)

lemma get_loop_reads:
  "i * 16 + u \<le> 16 * length b \<Longrightarrow> offset + u \<le> 64 \<Longrightarrow>
   \<exists>r. get_loop u i offset v b = Some r \<and>
     (\<forall>n. bit r n = (bit v n \<or> offset \<le> n \<and> n < offset + u \<and> bitat b (i * 16 + (n - offset))))"
proof (induction u arbitrary: i offset v rule: less_induct)
  case (less u)
  note eq = get_loop.simps [of u i offset v b]
  consider "u = 0" | "0 < u" "u < 16" | "16 \<le> u" by linarith
  then show ?case
  proof cases
    case 1
    then show ?thesis unfolding eq by auto
  next
    case 2
    let ?t = "16 - u" and ?x = "b ! i"
    let ?top = "ucast (push_bit (16 - u) (b ! i)) :: u64"
    have top: "bit ?top n = (?t \<le> n \<and> n < 16 \<and> bit ?x (n - ?t))" for n
      by (auto simp: bit_simps)
    have sh: "bit (if offset > ?t then push_bit (offset - ?t) ?top else drop_bit (?t - offset) ?top) n
        = (offset \<le> n \<and> n < offset + u \<and> bit ?x (n - offset))" for n
    proof (cases "offset > ?t")
      case True
      then show ?thesis using less.prems(2) 2 by (auto simp: bit_push_bit_iff top less_diff_conv le_diff_conv2)
    next
      case False
      then have "?t - offset + n - ?t = n - offset" "?t \<le> ?t - offset + n \<longleftrightarrow> offset \<le> n"
        "?t - offset + n < 16 \<longleftrightarrow> n < offset + u" using 2 by auto
      then show ?thesis using False by (simp add: bit_drop_bit_eq top)
    qed
    have i: "i < length b" using less.prems 2 by simp
    have "bit (v OR (if offset > ?t then push_bit (offset - ?t) ?top else drop_bit (?t - offset) ?top)) n
        = (bit v n \<or> offset \<le> n \<and> n < offset + u \<and> bitat b (i * 16 + (n - offset)))" for n
      unfolding bit_or_iff sh using 2 bitat_word [of "n - offset" b i] by (auto simp del: add_diff_assoc2)
    then show ?thesis unfolding eq using 2 i by (auto simp: Let_def simp del: add_diff_assoc2)
  next
    case 3
    have i: "i < length b" using less.prems 3 by simp
    let ?v = "v OR push_bit offset (ucast (b ! i))"
    have v: "bit ?v n = (bit v n \<or> offset \<le> n \<and> n < offset + 16 \<and> bitat b (i * 16 + (n - offset)))" for n
      using less.prems(2) 3 bit_u16_lt [of "b ! i" "n - offset"] bitat_word [of "n - offset" b i]
      by (auto simp: bit_simps simp del: add_diff_assoc2)
    obtain r where r: "get_loop (u - 16) (Suc i) (offset + 16) ?v b = Some r"
      and bits: "\<And>n. bit r n = (bit ?v n \<or> offset + 16 \<le> n \<and> n < offset + 16 + (u - 16) \<and>
          bitat b (Suc i * 16 + (n - (offset + 16))))"
      using less.IH [of "u - 16" "Suc i" "offset + 16" ?v] less.prems 3 by auto
    have "Suc i * 16 + (n - (offset + 16)) = i * 16 + (n - offset)" if "offset + 16 \<le> n" for n
      using that by simp
    then have "bit r n = (bit v n \<or> offset \<le> n \<and> n < offset + u \<and> bitat b (i * 16 + (n - offset)))" for n
      using 3 unfolding bits v by (cases "offset + 16 \<le> n") auto
    moreover have "get_loop u i offset v b = Some r" unfolding eq using 3 i r by simp
    ultimately show ?thesis by blast
  qed
qed

lemma cbl_Get_reads:
  assumes "0 < unitBitSize m" and s: "unitBitSize m \<le> 64" and len: "(i + 1) * unitBitSize m \<le> 16 * length (units m)"
  shows "\<exists>r. cbl_Get m i = Some r \<and>
    (\<forall>n. bit r n = (n < unitBitSize m \<and> bitat (units m) (i * unitBitSize m + n)))"
proof -
  let ?s = "unitBitSize m" and ?b = "units m" and ?q = "i * unitBitSize m"
  define w j where "w = ?q div 16" and "j = ?q mod 16"
  have q: "?q = w * 16 + j" and j: "j < 16" by (simp_all add: w_def j_def)
  have w: "w < length ?b" using q len assms(1) by simp
  show ?thesis
  proof (cases "16 - j > ?s")
    case True
    let ?r = "ucast (drop_bit (16 - j - ?s + j) (push_bit (16 - j - ?s) (?b ! w))) :: u64"
    have "bit ?r n = (n < ?s \<and> bitat ?b (?q + n))" for n
      using True j bitat_word [of "j + n" ?b w] by (auto simp: bit_simps q add.assoc add.commute [of n j])
    moreover have "cbl_Get m i = Some ?r"
      using True w len by (simp add: cbl_Get_def Let_def w_def [symmetric] j_def [symmetric])
    ultimately show ?thesis by blast
  next
    case False
    have "Suc w * 16 + (?s - (16 - j)) \<le> 16 * length ?b" using q len False by simp
    then obtain r where r: "get_loop (?s - (16 - j)) (Suc w) (16 - j) (ucast (drop_bit j (?b ! w))) ?b = Some r"
      and bits: "\<And>n. bit r n = (bit (ucast (drop_bit j (?b ! w)) :: u64) n \<or> 16 - j \<le> n \<and> n < 16 - j + (?s - (16 - j))
          \<and> bitat ?b (Suc w * 16 + (n - (16 - j))))"
      using get_loop_reads [of "Suc w" "?s - (16 - j)" ?b "16 - j"] s False by fastforce
    have "bit r n = (n < ?s \<and> bitat ?b (?q + n))" for n
    proof (cases "16 - j \<le> n")
      case True
      then have "Suc w * 16 + (n - (16 - j)) = ?q + n" using q j by simp
      then show ?thesis using True False bit_u16_lt [of "?b ! w" "j + n"] by (auto simp: bits bit_simps)
    next
      case n: False
      then show ?thesis using bitat_word [of "j + n" ?b w] False by (auto simp: bits bit_simps q add.assoc)
    qed
    moreover have "cbl_Get m i = Some r"
      using False w len r by (simp add: cbl_Get_def Let_def w_def [symmetric] j_def [symmetric])
    ultimately show ?thesis by blast
  qed
qed

section \<open>The contents of the list\<close>

definition cbl_invar :: "compact_bit_list \<Rightarrow> bool" where
  "cbl_invar m \<longleftrightarrow> 0 < unitBitSize m \<and> unitBitSize m \<le> 64 \<and>
     unitNum m * unitBitSize m \<le> 16 * length (units m)"

definition cbl_content :: "compact_bit_list \<Rightarrow> u64 list" where
  "cbl_content m = map (\<lambda>i. the (cbl_Get m i)) [0..<unitNum m]"

lemma unit_ranges_disjoint:
  assumes "(i :: nat) \<noteq> j" "n < s"
  shows "\<not> (i * s \<le> j * s + n \<and> j * s + n < i * s + s)"
proof (cases "i < j")
  case True
  then have "i * s + s \<le> j * s" using mult_le_mono1 [of "Suc i" j s] by simp
  then show ?thesis by simp
next
  case False
  then have "j * s + s \<le> i * s" using assms mult_le_mono1 [of "Suc j" i s] by simp
  then show ?thesis using assms(2) by simp
qed

lemma unit_in_range: "i < k \<Longrightarrow> k * s \<le> (n :: nat) \<Longrightarrow> (i + 1) * s \<le> n"
  using mult_le_mono1 [of "i + 1" k s] by linarith

lemma growByUnitIndex_spec:
  "unitBitSize (growByUnitIndex m i) = unitBitSize m \<and> unitNum (growByUnitIndex m i) = unitNum m \<and>
   length (units m) \<le> length (units (growByUnitIndex m i)) \<and>
   (i + 1) * unitBitSize m \<le> 16 * length (units (growByUnitIndex m i)) \<and>
   (\<forall>p < 16 * length (units m). bitat (units (growByUnitIndex m i)) p = bitat (units m) p)"
  by (auto simp: growByUnitIndex_def Let_def bitat_def nth_append)

lemma cbl_Get_unique:
  assumes "cbl_invar m" "(i + 1) * unitBitSize m \<le> 16 * length (units m)"
    and "bits_Len (unat v) \<le> unitBitSize m"
    and "\<And>n. n < unitBitSize m \<Longrightarrow> bitat (units m) (i * unitBitSize m + n) = bit v n"
  shows "cbl_Get m i = Some v"
proof -
  obtain r where r: "cbl_Get m i = Some r"
    and bits: "\<And>n. bit r n = (n < unitBitSize m \<and> bitat (units m) (i * unitBitSize m + n))"
    using cbl_Get_reads [of m i] assms(1,2) by (auto simp: cbl_invar_def)
  have "r = v"
    by (rule bit_word_eqI) (use bits assms(4) bit_above_len [OF assms(3)] not_less in blast)
  with r show ?thesis by simp
qed

lemma cbl_Get_cong:
  assumes "cbl_invar m" "cbl_invar m'" "unitBitSize m' = unitBitSize m"
    and "(i + 1) * unitBitSize m \<le> 16 * length (units m)" "(i + 1) * unitBitSize m \<le> 16 * length (units m')"
    and "\<And>n. n < unitBitSize m \<Longrightarrow> bitat (units m') (i * unitBitSize m + n) = bitat (units m) (i * unitBitSize m + n)"
  shows "cbl_Get m' i = cbl_Get m i"
proof -
  obtain r r' where r: "cbl_Get m i = Some r" "cbl_Get m' i = Some r'"
    and bits: "\<And>n. bit r n = (n < unitBitSize m \<and> bitat (units m) (i * unitBitSize m + n))"
      "\<And>n. bit r' n = (n < unitBitSize m \<and> bitat (units m') (i * unitBitSize m + n))"
    using cbl_Get_reads [of m i] cbl_Get_reads [of m' i] assms(1-5) by (auto simp: cbl_invar_def)
  have "r' = r" by (rule bit_word_eqI) (use bits assms(6) in blast)
  with r show ?thesis by simp
qed

text \<open>
  \<^verbatim>\<open>Set\<close> with a value that fits in a unit never panics; the unit is then read back, every other
  unit is unchanged, and the list grows to hold the unit.
\<close>

lemma cbl_Set_spec:
  assumes inv: "cbl_invar m" and fits: "bits_Len (unat v) \<le> unitBitSize m"
  shows "\<exists>m'. cbl_Set m i v = Some m' \<and> cbl_invar m' \<and> unitBitSize m' = unitBitSize m \<and>
    unitNum m' = max (unitNum m) (i + 1) \<and> cbl_Get m' i = Some v \<and>
    (\<forall>j < unitNum m. j \<noteq> i \<longrightarrow> cbl_Get m' j = cbl_Get m j)"
proof -
  let ?s = "unitBitSize m" and ?g = "growByUnitIndex m i"
  note grow = growByUnitIndex_spec [of m i]
  have pos: "0 < ?s" "?s \<le> 64" "unitNum m * ?s \<le> 16 * length (units m)" using inv by (auto simp: cbl_invar_def)
  have q: "i * ?s div 16 * 16 + i * ?s mod 16 = i * ?s" by simp
  obtain b where b: "set_loop ?s (i * ?s div 16) (i * ?s mod 16) v (units ?g) = Some b"
    and wr: "writes (units ?g) b (i * ?s) ?s v"
    using set_loop_writes [of "i * ?s mod 16" "i * ?s div 16" ?s "units ?g" v] grow unfolding q by auto
  define m' where "m' = ?g\<lparr>units := b, unitNum := max (unitNum m) (i + 1)\<rparr>"
  have len: "length b = length (units ?g)" using wr by (simp add: writes_def)
  have m': "cbl_Set m i v = Some m'" using fits b by (simp add: cbl_Set_def m'_def Let_def)
  have f: "unitBitSize m' = ?s" "unitNum m' = max (unitNum m) (i + 1)" "units m' = b"
    using grow by (auto simp: m'_def)
  have inv': "cbl_invar m'"
    using pos f grow len by (auto simp: cbl_invar_def max_def intro: order_trans)
  have bound: "(i + 1) * ?s \<le> 16 * length b" using grow len by simp
  have "cbl_Get m' i = Some v"
    using cbl_Get_unique [OF inv', of i v] f fits bound wr by (simp add: writes_def)
  moreover have "cbl_Get m' j = cbl_Get m j" if "j < unitNum m" "j \<noteq> i" for j
  proof (rule cbl_Get_cong [OF inv inv' f(1)])
    show jr: "(j + 1) * ?s \<le> 16 * length (units m)" using unit_in_range [OF that(1)] pos(3) by simp
    then show "(j + 1) * ?s \<le> 16 * length (units m')" using f len grow by simp
    fix n assume n: "n < ?s"
    have "\<not> (i * ?s \<le> j * ?s + n \<and> j * ?s + n < i * ?s + ?s)"
      using unit_ranges_disjoint [of i j n ?s] that n by simp
    then have "bitat b (j * ?s + n) = bitat (units ?g) (j * ?s + n)"
      using wr unfolding writes_def by presburger
    moreover have "j * ?s + n < 16 * length (units m)" using jr n by simp
    ultimately show "bitat (units m') (j * ?s + n) = bitat (units m) (j * ?s + n)" using grow f by simp
  qed
  ultimately show ?thesis using m' inv' f by blast
qed

section \<open>The interface of a unit store\<close>

text \<open>
  What the trie relies on: appending a value that fits never fails, adds it at the end, and every
  unit of the contents can be read.
\<close>

locale unit_store =
  fixes empty :: "nat \<Rightarrow> 's" and app :: "'s \<Rightarrow> 'v \<Rightarrow> 's option" and get :: "'s \<Rightarrow> nat \<Rightarrow> 'v option"
    and content :: "'s \<Rightarrow> 'v list" and width :: "'s \<Rightarrow> nat" and fits :: "nat \<Rightarrow> 'v \<Rightarrow> bool" and invar :: "'s \<Rightarrow> bool"
  assumes empty_ok: "0 < w \<Longrightarrow> w \<le> 64 \<Longrightarrow> invar (empty w) \<and> content (empty w) = [] \<and> width (empty w) = w"
    and app_ok: "invar s \<Longrightarrow> fits (width s) v \<Longrightarrow>
      \<exists>s'. app s v = Some s' \<and> invar s' \<and> width s' = width s \<and> content s' = content s @ [v]"
    and get_ok: "invar s \<Longrightarrow> i < length (content s) \<Longrightarrow> get s i = Some (content s ! i)"
begin

lemma append_all_ok:
  "invar s \<Longrightarrow> (\<And>v. v \<in> set vs \<Longrightarrow> fits (width s) v) \<Longrightarrow>
   \<exists>s'. append_all app s vs = Some s' \<and> invar s' \<and> width s' = width s \<and> content s' = content s @ vs"
proof (induction vs arbitrary: s)
  case Nil
  then show ?case by simp
next
  case (Cons v vs)
  then obtain s1 where "app s v = Some s1" "invar s1" "width s1 = width s" "content s1 = content s @ [v]"
    using app_ok [of s v] by auto
  then show ?case using Cons.IH [of s1] Cons.prems(2) by auto
qed

lemma built_reads:
  assumes "0 < w" "w \<le> 64" and "\<And>v. v \<in> set vs \<Longrightarrow> fits w v"
  shows "\<exists>s. append_all app (empty w) vs = Some s \<and> invar s \<and> width s = w \<and> content s = vs \<and> (\<forall>i < length vs. get s i = Some (vs ! i))"
  using append_all_ok [of "empty w" vs] empty_ok [OF assms(1,2)] assms(3) get_ok by fastforce

end

lemma cbl_content_reads: "cbl_invar m \<Longrightarrow> i < length (cbl_content m) \<Longrightarrow> cbl_Get m i = Some (cbl_content m ! i)"
proof -
  assume inv: "cbl_invar m" and i: "i < length (cbl_content m)"
  then have "(i + 1) * unitBitSize m \<le> 16 * length (units m)"
    using unit_in_range [of i "unitNum m"] by (simp add: cbl_invar_def cbl_content_def)
  then obtain r where "cbl_Get m i = Some r" using cbl_Get_reads [of m i] inv by (auto simp: cbl_invar_def)
  then show ?thesis using i by (simp add: cbl_content_def)
qed

lemma cbl_Append_ok:
  assumes "cbl_invar m" "bits_Len (unat v) \<le> unitBitSize m"
  shows "\<exists>m'. cbl_Append m v = Some m' \<and> cbl_invar m' \<and> unitBitSize m' = unitBitSize m \<and>
    cbl_content m' = cbl_content m @ [v]"
  using cbl_Set_spec [OF assms, of "unitNum m"] by (auto simp: cbl_Append_def cbl_content_def)

interpretation bits: unit_store NewCompactBitList cbl_Append cbl_Get cbl_content unitBitSize
  "\<lambda>s v. bits_Len (unat v) \<le> s" cbl_invar
proof unfold_locales
  fix w :: nat
  assume "0 < w" "w \<le> 64"
  then show "cbl_invar (NewCompactBitList w) \<and> cbl_content (NewCompactBitList w) = [] \<and>
      unitBitSize (NewCompactBitList w) = w"
    by (simp add: cbl_invar_def cbl_content_def NewCompactBitList_def)
qed (rule cbl_Append_ok, assumption+, rule cbl_content_reads)

text \<open>
  Claim C26. On a well-formed list, \<^verbatim>\<open>Set\<close> of a value that fits in a unit never panics, the unit is
  then read back by \<^verbatim>\<open>Get\<close>, every other unit keeps its value, and the list stays well-formed
  and at least as long.
\<close>

theorem cbl_Set_Get:
  assumes "cbl_invar m" "bits_Len (unat v) \<le> unitBitSize m"
  shows "\<exists>m'. cbl_Set m i v = Some m' \<and> cbl_invar m' \<and> unitNum m' = max (unitNum m) (i + 1) \<and>
    cbl_Get m' i = Some v \<and> (\<forall>j < unitNum m. j \<noteq> i \<longrightarrow> cbl_Get m' j = cbl_Get m j)"
  using cbl_Set_spec [OF assms, of i] by blast

theorem cbl_Set_Get_witness:
  "\<exists>m'. cbl_Set (NewCompactBitList 5) 7 19 = Some m' \<and> cbl_Get m' 7 = Some 19"
proof -
  have "cbl_invar (NewCompactBitList 5)" "bits_Len (unat (19 :: u64)) \<le> unitBitSize (NewCompactBitList 5)"
    by (simp_all add: cbl_invar_def NewCompactBitList_def bits_Len.simps)
  from cbl_Set_Get [OF this, of 7] show ?thesis by blast
qed

end
