(* ===== verification/Rank_Select.thy ===== *)
theory Rank_Select
  imports Bitlist
begin

text \<open>
  Model of the bitmap half of \<^verbatim>\<open>pkg/trie/trie.go\<close>: \<^verbatim>\<open>setBit\<close>, \<^verbatim>\<open>getBit\<close>, the compact
  rank and select indexes that \<^verbatim>\<open>init\<close> builds, and the queries \<^verbatim>\<open>countZeros\<close> and
  \<^verbatim>\<open>selectIthOne\<close>. Bitmaps are slices of 64-bit words. An index panic is \<open>None\<close>. The locale
  \<open>rank_select\<close> states what the trie relies on: the first query counts the zeros before a
  position, the second finds the position of a one.

  Go's \<^verbatim>\<open>int\<close> positions are natural numbers here. The ranks and selects are \<^verbatim>\<open>int32\<close> values in
  the source, so the model describes bitmaps of fewer than \<^verbatim>\<open>2^31\<close> bits.
\<close>

section \<open>Words\<close>

text \<open>\<^verbatim>\<open>bits.OnesCount64\<close> and \<^verbatim>\<open>bits.TrailingZeros64\<close>.\<close>

definition OnesCount64 :: "u64 \<Rightarrow> nat" where
  "OnesCount64 w = length (filter (bit w) [0..<64])"

definition TrailingZeros64 :: "u64 \<Rightarrow> nat" where
  "TrailingZeros64 w = (case filter (bit w) [0..<64] of [] \<Rightarrow> 64 | n # _ \<Rightarrow> n)"

section \<open>Bitmaps\<close>

definition setBit :: "u64 list \<Rightarrow> nat \<Rightarrow> u64 \<Rightarrow> u64 list" where
  "setBit bm i v =
     (let bm1 = bm @ replicate (i div 64 + 1 - length bm) 0
      in bm1[i div 64 := bm1 ! (i div 64) OR push_bit (i mod 64) v])"

definition getBit :: "u64 list \<Rightarrow> nat \<Rightarrow> u64 option" where
  "getBit bm i = (if i div 64 < length bm then Some (bm ! (i div 64) AND push_bit (i mod 64) 1) else None)"

section \<open>The indexes\<close>

text \<open>The two loops of \<^verbatim>\<open>init\<close>: running sums of ones per word, and the position of every 64th one.\<close>

fun build_ranks :: "u64 list \<Rightarrow> nat \<Rightarrow> nat list" where
  "build_ranks [] r = []"
| "build_ranks (w # ws) r = (r + OnesCount64 w) # build_ranks ws (r + OnesCount64 w)"

fun build_selects :: "u64 list \<Rightarrow> nat list \<Rightarrow> nat \<Rightarrow> nat list" where
  "build_selects bm [] n = []"
| "build_selects bm (i # is) n =
     (let z = (if bit (bm ! (i div 64)) (i mod 64) then 1 else 0)
      in (if z = 1 \<and> n mod 64 = 0 then [i] else []) @ build_selects bm is (n + z))"

definition trie_init :: "u64 list \<Rightarrow> (compact_bit_list \<times> compact_bit_list) option" where
  "trie_init labelBitmap =
     (let ranks = 0 # build_ranks labelBitmap 0;
          selects = build_selects labelBitmap [0..<64 * length labelBitmap] 0
      in if selects = [] then None
         else case append_all cbl_Append (NewCompactBitList (bits_Len (last ranks))) (map of_nat ranks) of
                None \<Rightarrow> None
              | Some ranksBL \<Rightarrow>
                  (case append_all cbl_Append (NewCompactBitList (max 1 (bits_Len (last selects)))) (map of_nat selects) of
                     None \<Rightarrow> None
                   | Some selectsBL \<Rightarrow> Some (cbl_Tighten ranksBL, cbl_Tighten selectsBL)))"

text \<open>
  The result of \<^verbatim>\<open>countZeros\<close> and the counter of \<^verbatim>\<open>selectIthOne\<close> are Go ints; a negative one
  would be an index panic at its next use, hence \<open>None\<close>.
\<close>

definition countZeros :: "u64 list \<Rightarrow> compact_bit_list \<Rightarrow> nat \<Rightarrow> nat option" where
  "countZeros bm ranks i =
     (case cbl_Get ranks (i div 64) of
        None \<Rightarrow> None
      | Some r \<Rightarrow>
          if i div 64 < length bm
          then (let n = unat r + OnesCount64 (bm ! (i div 64) AND (push_bit (i mod 64) 1 - 1))
                in if n \<le> i then Some (i - n) else None)
          else None)"

fun clear_ones :: "nat \<Rightarrow> u64 \<Rightarrow> u64" where
  "clear_ones 0 w = w"
| "clear_ones (Suc n) w = clear_ones n (w AND (w - 1))"

function select_loop :: "u64 list \<Rightarrow> nat \<Rightarrow> nat \<Rightarrow> nat option" where
  "select_loop bm i findIthOne =
     (if i < length bm
      then (let n = OnesCount64 (bm ! i) in
            if findIthOne \<ge> n then select_loop bm (Suc i) (findIthOne - n)
            else Some (i * 64 + TrailingZeros64 (clear_ones findIthOne (bm ! i))))
      else None)"
  by pat_completeness auto
termination
  by (relation "measure (\<lambda>(bm, i, f). length bm - i)") auto

declare select_loop.simps [simp del]

definition selectIthOne :: "u64 list \<Rightarrow> compact_bit_list \<Rightarrow> compact_bit_list \<Rightarrow> nat \<Rightarrow> nat option" where
  "selectIthOne bm ranks selects i =
     (case cbl_Get selects (i div 64) of
        None \<Rightarrow> None
      | Some s \<Rightarrow>
          (let base = unat (s AND NOT 63) in
           case cbl_Get ranks (base div 64) of
             None \<Rightarrow> None
           | Some r \<Rightarrow> if unat r \<le> i then select_loop bm (base div 64) (i - unat r) else None))"

section \<open>Bits of a bitmap\<close>

definition bmbit :: "u64 list \<Rightarrow> nat \<Rightarrow> bool" where
  "bmbit bm i = (i div 64 < length bm \<and> bit (bm ! (i div 64)) (i mod 64))"

definition ones_before :: "u64 list \<Rightarrow> nat \<Rightarrow> nat" where
  "ones_before bm i = length (filter (bmbit bm) [0..<i])"

lemma bit_u64_lt: "bit (w :: u64) n \<Longrightarrow> n < 64"
  using bit_imp_le_length [of w n] by simp

lemma bmbit_pad: "bmbit (bm @ replicate n 0) j = bmbit bm j"
  by (simp add: bmbit_def nth_append)

lemma bmbit_update:
  assumes "i div 64 < length bm" "v = 0 \<or> v = 1"
  shows "bmbit (bm[i div 64 := bm ! (i div 64) OR push_bit (i mod 64) v]) j = (if j = i then bmbit bm i \<or> v = 1 else bmbit bm j)"
proof (cases "j div 64 = i div 64")
  case True
  have "bit (push_bit (i mod 64) v) (j mod 64) = (v = 1 \<and> j = i)"
    using assms(2) div_mod_cancel_iff [of j 64 i] True by (auto simp: bit_push_bit_iff bit_1_iff)
  then show ?thesis using True assms by (auto simp: bmbit_def bit_or_iff)
next
  case False
  then have "j \<noteq> i" by auto
  then show ?thesis using False by (simp add: bmbit_def)
qed

lemma bmbit_setBit:
  assumes "v = 0 \<or> v = 1"
  shows "bmbit (setBit bm i v) j = (if j = i then bmbit bm i \<or> v = 1 else bmbit bm j)"
  unfolding setBit_def Let_def using bmbit_update [of i "bm @ replicate (i div 64 + 1 - length bm) 0" v j] assms
  by (simp add: bmbit_pad)

lemma length_setBit: "length (setBit bm i v) = max (length bm) (i div 64 + 1)"
  by (simp add: setBit_def Let_def)

lemma getBit_iff: "getBit bm i = (if i div 64 < length bm then Some (if bmbit bm i then push_bit (i mod 64) 1 else 0) else None)"
  by (auto simp: getBit_def bmbit_def bit_simps intro!: bit_word_eqI)

lemma push_bit_one_neq_0: "(push_bit (i mod 64) 1 :: u64) \<noteq> 0"
proof
  assume "(push_bit (i mod 64) 1 :: u64) = 0"
  then have "bit (push_bit (i mod 64) 1 :: u64) (i mod 64) = bit (0 :: u64) (i mod 64)" by simp
  then show False by (simp add: bit_simps)
qed

lemma ones_before_Suc: "ones_before bm (Suc i) = ones_before bm i + (if bmbit bm i then 1 else 0)"
  by (simp add: ones_before_def)

lemma ones_before_mono: "i \<le> j \<Longrightarrow> ones_before bm i \<le> ones_before bm j"
  by (induction rule: dec_induct) (auto simp: ones_before_Suc)

lemma ones_before_le: "ones_before bm i \<le> i"
  by (induction i) (auto simp: ones_before_Suc, simp add: ones_before_def)

lemma ones_before_add:
  "r \<le> 64 \<Longrightarrow> k < length bm \<Longrightarrow>
   ones_before bm (k * 64 + r) = ones_before bm (k * 64) + length (filter (bit (bm ! k)) [0..<r])"
  by (induction r) (auto simp: ones_before_Suc bmbit_def)

lemma ones_before_word: "k < length bm \<Longrightarrow> ones_before bm (Suc k * 64) = ones_before bm (k * 64) + OnesCount64 (bm ! k)"
  using ones_before_add [of 64 k bm] by (simp add: OnesCount64_def add.commute)

section \<open>The rank query\<close>

lemma filter_low_bits: "r \<le> 64 \<Longrightarrow> filter (bit (w AND (push_bit r 1 - 1) :: u64)) [0..<64] = filter (bit w) [0..<r]"
proof -
  assume r: "r \<le> 64"
  have "bit (w AND (push_bit r 1 - 1)) n \<longleftrightarrow> bit w n \<and> n < r" if "n < 64" for n
    using that r by (simp add: bit_and_iff push_bit_of_1 flip: mask_eq_exp_minus_1) (simp add: bit_mask_iff)
  then have "filter (bit (w AND (push_bit r 1 - 1))) [0..<64] = filter (\<lambda>n. bit w n \<and> n < r) [0..<64]"
    by (intro filter_cong) auto
  also have "\<dots> = filter (\<lambda>n. bit w n \<and> n < r) ([0..<r] @ [r..<64])"
    using r upt_add_eq_append [of 0 r "64 - r"] by simp
  also have "\<dots> = filter (bit w) [0..<r]" by (auto intro: filter_cong)
  finally show ?thesis .
qed

lemma length_build_ranks [simp]: "length (build_ranks bm r) = length bm"
  by (induction bm arbitrary: r) auto

lemma ones_before_0 [simp]: "ones_before bm 0 = 0"
  by (simp add: ones_before_def)

lemma build_ranks_nth:
  "k + length ws = length bm \<Longrightarrow> drop k bm = ws \<Longrightarrow> m < length ws \<Longrightarrow>
   build_ranks ws (ones_before bm (k * 64)) ! m = ones_before bm ((k + Suc m) * 64)"
proof (induction ws arbitrary: k m)
  case Nil
  then show ?case by simp
next
  case (Cons w ws)
  have k: "k < length bm" and w: "bm ! k = w" and rest: "drop (Suc k) bm = ws"
    using Cons.prems by (auto simp: drop_Suc nth_via_drop tl_drop [symmetric])
  have step: "ones_before bm (k * 64) + OnesCount64 w = ones_before bm (Suc k * 64)"
    using ones_before_word [OF k] w by simp
  show ?case
  proof (cases m)
    case 0
    then show ?thesis using step by simp
  next
    case (Suc m')
    then show ?thesis using Cons.IH [of "Suc k" m'] Cons.prems rest step by simp
  qed
qed

lemma ranks_nth: "k \<le> length bm \<Longrightarrow> (0 # build_ranks bm 0) ! k = ones_before bm (k * 64)"
  using build_ranks_nth [of 0 bm bm "k - 1"] by (cases k) auto

lemma build_selects_filter:
  "build_selects bm [i..<n] (ones_before bm i) = filter (\<lambda>p. bmbit bm p \<and> ones_before bm p mod 64 = 0) [i..<n]"
  if "n \<le> 64 * length bm"
  using that
proof (induction "n - i" arbitrary: i)
  case 0
  then show ?case by simp
next
  case (Suc d)
  then have i: "i < n" by simp
  then have "i div 64 < length bm" using Suc.prems by (simp add: div_less_iff_less_mult mult.commute)
  then have z: "bit (bm ! (i div 64)) (i mod 64) = bmbit bm i" by (simp add: bmbit_def)
  have "build_selects bm [Suc i..<n] (ones_before bm (Suc i)) =
      filter (\<lambda>p. bmbit bm p \<and> ones_before bm p mod 64 = 0) [Suc i..<n]"
    using Suc by simp
  then show ?case using i by (simp add: upt_conv_Cons z ones_before_Suc Let_def)
qed

text \<open>Positions in a filtered interval are found by counting.\<close>

lemma filter_nth_count:
  assumes "p < n" "P p"
  shows "filter P [0..<n] ! length (filter P [0..<p]) = p" "length (filter P [0..<p]) < length (filter P [0..<n])"
proof -
  have "[0..<n] = [0..<p] @ p # [Suc p..<n]" using assms(1) upt_add_eq_append [of 0 p "n - p"] by (simp add: upt_conv_Cons)
  then have "filter P [0..<n] = filter P [0..<p] @ p # filter P [Suc p..<n]" using assms(2) by simp
  then show "filter P [0..<n] ! length (filter P [0..<p]) = p" "length (filter P [0..<p]) < length (filter P [0..<n])"
    by simp_all
qed

lemma nth_one_exists: "t < ones_before bm n \<Longrightarrow> \<exists>p < n. bmbit bm p \<and> ones_before bm p = t"
proof (induction n)
  case 0
  then show ?case by simp
next
  case (Suc n)
  then show ?case by (cases "t < ones_before bm n") (auto simp: ones_before_Suc less_Suc_eq split: if_splits)
qed

lemma round_up_div64: "((m :: nat) + 63) div 64 = m div 64 + (if m mod 64 = 0 then 0 else 1)"
proof -
  obtain q r where m: "m = q * 64 + r" "r < 64" using div_mult_mod_eq [of m 64] by (metis mod_less_divisor zero_less_numeral)
  have "(r + 63) div 64 = (if r = 0 then 0 else 1)" using m(2) by (auto simp: div_if)
  then show ?thesis using m by (simp add: add.assoc)
qed

lemma count_sampled: "length (filter (\<lambda>p. bmbit bm p \<and> ones_before bm p mod 64 = 0) [0..<n]) = (ones_before bm n + 63) div 64"
proof (induction n)
  case 0
  then show ?case by simp
next
  case (Suc n)
  have "(64 + m) div 64 = (m + 63) div 64 + (if m mod 64 = 0 then 1 else 0)" for m :: nat
    using div_add_self1 [of 64 m] by (simp add: round_up_div64)
  then show ?case using Suc by (simp add: ones_before_Suc)
qed

lemma selects_nth:
  assumes "bmbit bm p" "ones_before bm p = 64 * m" "p < 64 * length bm"
  defines "sel \<equiv> build_selects bm [0..<64 * length bm] 0"
  shows "m < length sel" "sel ! m = p"
proof -
  let ?P = "\<lambda>p. bmbit bm p \<and> ones_before bm p mod 64 = 0"
  have sel: "sel = filter ?P [0..<64 * length bm]"
    unfolding sel_def using build_selects_filter [of "64 * length bm" bm 0] by simp
  have "length (filter ?P [0..<p]) = m" using count_sampled [of bm p] assms(2) by simp
  then show "m < length sel" "sel ! m = p" using filter_nth_count [of p "64 * length bm" ?P] assms(1-3) sel by auto
qed

section \<open>Clearing the lowest one\<close>

lemma lowest_one_split:
  assumes "bit (w :: u64) t" "\<And>n. n < t \<Longrightarrow> \<not> bit w n"
  shows "w = push_bit (Suc t) (drop_bit (Suc t) w) + push_bit t 1"
proof -
  have "push_bit (Suc t) (drop_bit (Suc t) w) + push_bit t 1 = push_bit (Suc t) (drop_bit (Suc t) w) OR push_bit t 1"
    by (rule disjunctive_add) (auto simp: bit_simps simp del: push_bit_Suc)
  also have "\<dots> = w"
  proof (rule bit_word_eqI)
    fix n assume "n < LENGTH(64)"
    consider "n < t" | "n = t" | "t < n" by linarith
    then show "bit (push_bit (Suc t) (drop_bit (Suc t) w) OR push_bit t 1) n = bit w n"
      using assms \<open>n < LENGTH(64)\<close> by cases (auto simp: bit_simps simp del: push_bit_Suc drop_bit_Suc)
  qed
  finally show ?thesis by simp
qed

lemma bit_clear_lowest:
  assumes t: "bit (w :: u64) t" "\<And>n. n < t \<Longrightarrow> \<not> bit w n"
  shows "bit (w AND (w - 1)) n \<longleftrightarrow> bit w n \<and> n \<noteq> t"
proof -
  let ?h = "push_bit (Suc t) (drop_bit (Suc t) w)"
  have t64: "t < 64" using t(1) bit_u64_lt by blast
  have "w - 1 = ?h + (push_bit t 1 - 1)" using lowest_one_split [OF t] by (metis add_diff_eq)
  also have "push_bit t 1 - 1 = (mask t :: u64)" by (simp add: mask_eq_exp_minus_1 push_bit_of_1)
  also have "?h + mask t = ?h OR mask t"
    by (rule disjunctive_add) (auto simp: bit_simps simp del: push_bit_Suc)
  finally have w1: "w - 1 = ?h OR mask t" .
  consider "n < t" | "n = t" | "t < n" by linarith
  then show ?thesis using t t64 bit_u64_lt [of w n] unfolding w1
    by cases (auto simp: bit_simps simp del: push_bit_Suc drop_bit_Suc)
qed

lemma filter_clear_lowest:
  assumes "filter (bit (w :: u64)) [0..<64] = t # ts"
  shows "filter (bit (w AND (w - 1))) [0..<64] = ts"
proof -
  have "t \<in> set (filter (bit w) [0..<64])" by (simp only: assms list.set_intros)
  then have t: "bit w t" "t < 64" by auto
  have low: "\<not> bit w n" if "n < t" for n
  proof
    assume "bit w n"
    then have "n \<in> set (filter (bit w) [0..<64])" using bit_u64_lt by simp
    moreover have "sorted (t # ts)" using assms sorted_wrt_filter [of "(\<le>)" "[0..<64]" "bit w"] by simp
    ultimately show False using assms that by auto
  qed
  have d: "distinct (t # ts)" using assms distinct_filter [of "[0..<64]" "bit w"] by simp
  have "filter (bit (w AND (w - 1))) [0..<64] = filter (\<lambda>n. n \<noteq> t) (filter (bit w) [0..<64])"
    using bit_clear_lowest [OF t(1) low] by (auto intro: filter_cong)
  also have "\<dots> = ts" using assms d by (auto simp: filter_id_conv)
  finally show ?thesis .
qed

lemma trailing_zeros_clear:
  "k < OnesCount64 w \<Longrightarrow> TrailingZeros64 (clear_ones k w) = filter (bit w) [0..<64] ! k"
proof (induction k arbitrary: w)
  case 0
  then show ?case by (cases "filter (bit w) [0..<64]") (auto simp: OnesCount64_def TrailingZeros64_def)
next
  case (Suc k)
  then obtain t ts where ts: "filter (bit w) [0..<64] = t # ts"
    by (cases "filter (bit w) [0..<64]") (auto simp: OnesCount64_def)
  then have "filter (bit (w AND (w - 1))) [0..<64] = ts" by (rule filter_clear_lowest)
  then show ?case using Suc ts by (simp add: OnesCount64_def)
qed

section \<open>Correctness of the queries\<close>

lemma select_loop_finds:
  assumes "bmbit bm p" "k * 64 \<le> p"
  shows "select_loop bm k (ones_before bm p - ones_before bm (k * 64)) = Some p"
  using assms(2)
proof (induction "p div 64 - k" arbitrary: k)
  case 0
  have p: "p div 64 < length bm" and bit: "bit (bm ! (p div 64)) (p mod 64)" using assms(1) by (auto simp: bmbit_def)
  have k: "p div 64 = k" using 0 by (simp add: le_antisym div_le_mono [of "k * 64" p 64, simplified])
  have "ones_before bm p = ones_before bm (k * 64) + length (filter (bit (bm ! k)) [0..<p mod 64])"
    using ones_before_add [of "p mod 64" k bm] p k div_mult_mod_eq [of p 64] by simp
  moreover have "length (filter (bit (bm ! k)) [0..<p mod 64]) < OnesCount64 (bm ! k)"
      "filter (bit (bm ! k)) [0..<64] ! length (filter (bit (bm ! k)) [0..<p mod 64]) = p mod 64"
    using filter_nth_count [of "p mod 64" 64 "bit (bm ! k)"] bit k by (auto simp: OnesCount64_def)
  ultimately show ?case
    using p k div_mult_mod_eq [of p 64] by (simp add: select_loop.simps [of bm k] trailing_zeros_clear Let_def)
next
  case (Suc d)
  have p: "p div 64 < length bm" using assms(1) by (auto simp: bmbit_def)
  have k: "k < p div 64" using Suc(2) by simp
  then have le: "Suc k * 64 \<le> p" using less_eq_div_iff_mult_less_eq [of 64 "Suc k" p] by simp
  have "ones_before bm (Suc k * 64) \<le> ones_before bm p" using le by (rule ones_before_mono)
  moreover have "ones_before bm (Suc k * 64) = ones_before bm (k * 64) + OnesCount64 (bm ! k)"
    using k p by (intro ones_before_word) simp
  moreover have "select_loop bm (Suc k) (ones_before bm p - ones_before bm (Suc k * 64)) = Some p"
    using Suc(1) [of "Suc k"] Suc(2) le by simp
  ultimately have "OnesCount64 (bm ! k) \<le> ones_before bm p - ones_before bm (k * 64)"
      "select_loop bm (Suc k) (ones_before bm p - ones_before bm (k * 64) - OnesCount64 (bm ! k)) = Some p"
    by simp_all
  then show ?case using k p by (simp add: select_loop.simps [of bm k] Let_def)
qed

text \<open>An index built by \<^verbatim>\<open>init\<close>: its two lists hold the ranks and the sampled positions.\<close>

definition rs_ok :: "u64 list \<Rightarrow> bool" where
  "rs_ok bm \<longleftrightarrow> 64 * length bm < 2 ^ 31 \<and> (\<exists>p. bmbit bm p)"

lemma bmbit_lt: "bmbit bm p \<Longrightarrow> p < 64 * length bm"
  by (simp add: bmbit_def div_less_iff_less_mult mult.commute)

lemma bits_Len_mono: "m \<le> n \<Longrightarrow> bits_Len m \<le> bits_Len n"
  using bits_Len_le_iff [of n "bits_Len n"] bits_Len_le_iff [of m "bits_Len n"] by simp

lemma bits_Len_pos: "0 < n \<Longrightarrow> 0 < bits_Len n"
  by (simp add: bits_Len.simps [of n])

lemma unat_of_nat_u64: "n < 2 ^ 31 \<Longrightarrow> unat (of_nat n :: u64) = n"
  by (simp add: unat_of_nat take_bit_nat_eq_self order_less_le_trans)

lemma stored_reads:
  assumes "0 < w" "w \<le> 64" "\<And>v. v \<in> set vs \<Longrightarrow> v < 2 ^ 31 \<and> bits_Len v \<le> w"
  shows "\<exists>s. append_all cbl_Append (NewCompactBitList w) (map of_nat vs) = Some s \<and>
    (\<forall>i < length vs. \<exists>x. cbl_Get s i = Some x \<and> unat x = vs ! i)"
proof -
  have "bits_Len (unat v) \<le> w" if "v \<in> set (map of_nat vs)" for v :: u64
    using that assms(3) unat_of_nat_u64 by auto
  with bits.built_reads [OF assms(1,2), of "map of_nat vs"] obtain s
    where s: "append_all cbl_Append (NewCompactBitList w) (map of_nat vs) = Some s"
      "\<And>i. i < length vs \<Longrightarrow> cbl_Get s i = Some (map of_nat vs ! i)" by auto
  have "unat (map of_nat vs ! i :: u64) = vs ! i" if "i < length vs" for i
    using that assms(3) [OF nth_mem [OF that]] unat_of_nat_u64 by simp
  then show ?thesis using s by blast
qed

lemma last_ranks: "last (0 # build_ranks bm 0) = ones_before bm (64 * length bm)"
  using ranks_nth [of "length bm" bm] last_conv_nth [of "0 # build_ranks bm 0"]
  by (simp add: mult.commute del: last.simps)

lemma selects_bound:
  "v \<in> set (build_selects bm [0..<64 * length bm] 0) \<Longrightarrow> v < 64 * length bm \<and> v \<le> last (build_selects bm [0..<64 * length bm] 0)"
proof -
  let ?P = "\<lambda>p. bmbit bm p \<and> ones_before bm p mod 64 = 0"
  have sel: "build_selects bm [0..<64 * length bm] 0 = filter ?P [0..<64 * length bm]"
    using build_selects_filter [of "64 * length bm" bm 0] by simp
  have "sorted (filter ?P [0..<64 * length bm])" by (simp add: sorted_wrt_filter)
  then have "v \<le> last (filter ?P [0..<64 * length bm])" if "v \<in> set (filter ?P [0..<64 * length bm])" for v
    using that by (rule sorted_le_last)
  moreover assume "v \<in> set (build_selects bm [0..<64 * length bm] 0)"
  ultimately show ?thesis unfolding sel by auto
qed

lemma trie_init_ok:
  assumes "rs_ok bm"
  shows "\<exists>rk se. trie_init bm = Some (rk, se) \<and>
    (\<forall>k \<le> length bm. \<exists>x. cbl_Get rk k = Some x \<and> unat x = ones_before bm (k * 64)) \<and>
    (\<forall>p m. bmbit bm p \<longrightarrow> ones_before bm p = 64 * m \<longrightarrow> (\<exists>x. cbl_Get se m = Some x \<and> unat x = p))"
proof -
  let ?rs = "0 # build_ranks bm 0" and ?ss = "build_selects bm [0..<64 * length bm] 0"
  obtain p0 where p0: "bmbit bm p0" and size: "64 * length bm < 2 ^ 31" using assms by (auto simp: rs_ok_def)
  have pos: "0 < ones_before bm (64 * length bm)"
    using ones_before_mono [of "Suc p0" "64 * length bm" bm] bmbit_lt [OF p0] p0 by (simp add: ones_before_Suc)
  obtain p1 where p1: "bmbit bm p1" "ones_before bm p1 = 64 * 0" using nth_one_exists [OF pos] by auto
  have ne: "?ss \<noteq> []" using selects_nth(1) [OF p1 bmbit_lt [OF p1(1)]] by auto
  have rs: "v < 2 ^ 31 \<and> bits_Len v \<le> bits_Len (last ?rs)" if v: "v \<in> set ?rs" for v
  proof -
    obtain k where k: "k \<le> length bm" "v = ones_before bm (k * 64)"
      using v ranks_nth by (metis in_set_conv_nth length_Cons length_build_ranks less_Suc_eq_le)
    then have "v \<le> last ?rs" unfolding last_ranks by (simp add: ones_before_mono)
    moreover have "v \<le> 64 * length bm" using k ones_before_le [of bm "k * 64"] by simp
    ultimately show ?thesis using size bits_Len_mono by auto
  qed
  have ss: "v < 2 ^ 31 \<and> bits_Len v \<le> max 1 (bits_Len (last ?ss))" if "v \<in> set ?ss" for v
    using selects_bound [OF that] size bits_Len_mono [of v "last ?ss"] by auto
  have w: "0 < bits_Len (last ?rs)" "bits_Len (last ?rs) \<le> 64" "max 1 (bits_Len (last ?ss)) \<le> 64"
    using bits_Len_pos pos last_ranks ones_before_le [of bm "64 * length bm"] size
      selects_bound [OF last_in_set [OF ne]] by (auto simp: bits_Len_le_iff)
  obtain rk where rk: "append_all cbl_Append (NewCompactBitList (bits_Len (last ?rs))) (map of_nat ?rs) = Some rk"
    "\<And>i. i < length ?rs \<Longrightarrow> \<exists>x. cbl_Get rk i = Some x \<and> unat x = ?rs ! i"
    using stored_reads [OF w(1,2) rs] by blast
  obtain se where se: "append_all cbl_Append (NewCompactBitList (max 1 (bits_Len (last ?ss)))) (map of_nat ?ss) = Some se"
    "\<And>i. i < length ?ss \<Longrightarrow> \<exists>x. cbl_Get se i = Some x \<and> unat x = ?ss ! i"
    using stored_reads [OF _ w(3) ss] by fastforce
  have "trie_init bm = Some (rk, se)"
    using ne rk(1) se(1) by (simp add: trie_init_def Let_def cbl_Tighten_def)
  moreover have "\<exists>x. cbl_Get rk k = Some x \<and> unat x = ones_before bm (k * 64)" if "k \<le> length bm" for k
    using rk(2) [of k] ranks_nth [OF that] that by simp
  moreover have "\<exists>x. cbl_Get se m = Some x \<and> unat x = p" if "bmbit bm p" "ones_before bm p = 64 * m" for p m
    using se(2) [of m] selects_nth [OF that bmbit_lt [OF that(1)]] by simp
  ultimately show ?thesis by blast
qed

lemma trie_init_reads:
  assumes "rs_ok bm" "trie_init bm = Some (rk, se)"
  shows "k \<le> length bm \<Longrightarrow> \<exists>x. cbl_Get rk k = Some x \<and> unat x = ones_before bm (k * 64)"
    and "bmbit bm p \<Longrightarrow> ones_before bm p = 64 * m \<Longrightarrow> \<exists>x. cbl_Get se m = Some x \<and> unat x = p"
  using trie_init_ok [OF assms(1)] assms(2) by simp_all

lemma countZeros_counts:
  assumes "rs_ok bm" "trie_init bm = Some (rk, se)" "i < 64 * length bm"
  shows "countZeros bm rk i = Some (i - ones_before bm i)"
proof -
  have k: "i div 64 < length bm" using assms(3) by (simp add: div_less_iff_less_mult mult.commute)
  obtain x where x: "cbl_Get rk (i div 64) = Some x" "unat x = ones_before bm (i div 64 * 64)"
    using trie_init_reads(1) [OF assms(1,2), of "i div 64"] k by auto
  have "unat x + OnesCount64 (bm ! (i div 64) AND (push_bit (i mod 64) 1 - 1)) = ones_before bm i"
    using ones_before_add [of "i mod 64" "i div 64" bm] k x(2) filter_low_bits [of "i mod 64" "bm ! (i div 64)"]
      div_mult_mod_eq [of i 64] by (simp add: OnesCount64_def)
  then show ?thesis using x k ones_before_le [of bm i] by (simp add: countZeros_def Let_def)
qed

lemma unat_clear_low6: "unat (s AND NOT 63 :: u64) div 64 = unat s div 64"
proof -
  have "drop_bit 6 (s AND NOT 63) = drop_bit 6 s"
  proof (rule bit_word_eqI)
    fix n :: nat assume "n < LENGTH(64)"
    have m: "(63 :: u64) = mask 6" by (simp add: mask_eq_exp_minus_1)
    show "bit (drop_bit 6 (s AND NOT 63)) n = bit (drop_bit 6 s) n"
      unfolding m using bit_u64_lt [of s "6 + n"] by (auto simp: bit_simps)
  qed
  then have "unat (drop_bit 6 (s AND NOT 63)) = unat (drop_bit 6 s)" by (simp only:)
  then show ?thesis unfolding unat_drop_bit_eq by (simp add: drop_bit_eq_div)
qed

lemma selectIthOne_finds:
  assumes "rs_ok bm" "trie_init bm = Some (rk, se)" "bmbit bm p"
  shows "selectIthOne bm rk se (ones_before bm p) = Some p"
proof -
  let ?i = "ones_before bm p"
  have "64 * (?i div 64) < ones_before bm (Suc p)" using assms(3) by (simp add: ones_before_Suc less_Suc_eq_le)
  then obtain q where q: "q < Suc p" "bmbit bm q" "ones_before bm q = 64 * (?i div 64)"
    using nth_one_exists by blast
  obtain x where x: "cbl_Get se (?i div 64) = Some x" "unat x = q"
    using trie_init_reads(2) [OF assms(1,2) q(2,3)] by auto
  have base: "unat (x AND NOT 63) div 64 = q div 64" using x(2) unat_clear_low6 [of x] by simp
  have "q div 64 \<le> length bm" using q(2) by (simp add: bmbit_def)
  then obtain y where y: "cbl_Get rk (q div 64) = Some y" "unat y = ones_before bm (q div 64 * 64)"
    using trie_init_reads(1) [OF assms(1,2)] by blast
  have "q div 64 * 64 \<le> p" using q(1) div_times_less_eq_dividend [of q 64] by linarith
  then show ?thesis
    using x(1) y base ones_before_mono [of "q div 64 * 64" p bm] select_loop_finds [OF assms(3), of "q div 64"]
    by (simp add: selectIthOne_def Let_def)
qed

section \<open>The interface of a rank and select index\<close>

text \<open>
  A bitmap type with an index that is built once. The laws are the two counting facts; the
  client below navigates an ordered tree stored level by level as its unary degree sequence: the
  block of node \<open>v\<close> holds one zero per child and a final one.
\<close>

fun degree_bits :: "nat list \<Rightarrow> bool list" where
  "degree_bits [] = []"
| "degree_bits (d # ds) = replicate d False @ True # degree_bits ds"

definition block_start :: "nat list \<Rightarrow> nat \<Rightarrow> nat" where
  "block_start ds v = sum_list (take v ds) + v"

definition trues_before :: "(nat \<Rightarrow> bool) \<Rightarrow> nat \<Rightarrow> nat" where
  "trues_before f n = length (filter f [0..<n])"

lemma length_degree_bits: "length (degree_bits ds) = sum_list ds + length ds"
  by (induction ds) auto

lemma degree_bits_split:
  "v < length ds \<Longrightarrow> degree_bits ds = degree_bits (take v ds) @ replicate (ds ! v) False @ True # degree_bits (drop (Suc v) ds)"
proof (induction ds arbitrary: v)
  case Nil
  then show ?case by simp
next
  case (Cons d ds)
  then show ?case by (cases v) auto
qed

lemma degree_bits_block:
  assumes "v < length ds" "t \<le> ds ! v"
  shows "block_start ds v + t < length (degree_bits ds)" "degree_bits ds ! (block_start ds v + t) = (t = ds ! v)"
proof -
  have len: "length (degree_bits (take v ds)) = block_start ds v"
    using assms by (simp add: length_degree_bits block_start_def)
  show "block_start ds v + t < length (degree_bits ds)" "degree_bits ds ! (block_start ds v + t) = (t = ds ! v)"
    unfolding degree_bits_split [OF assms(1)] using assms(2) len by (auto simp: nth_append nth_Cons')
qed

lemma trues_before_take:
  "n \<le> length bs \<Longrightarrow> (\<And>p. p < n \<Longrightarrow> f p = bs ! p) \<Longrightarrow> trues_before f n = length (filter id (take n bs))"
  by (induction n) (auto simp: trues_before_def take_Suc_conv_app_nth)

lemma count_degree_bits: "length (filter id (degree_bits ds)) = length ds"
  by (induction ds) auto

lemma trues_before_block:
  assumes "\<And>p. p < length (degree_bits ds) \<Longrightarrow> f p = degree_bits ds ! p" and "v < length ds" "t \<le> ds ! v"
  shows "trues_before f (block_start ds v + t) = v"
proof -
  have len: "length (degree_bits (take v ds)) = block_start ds v"
    using assms(2) by (simp add: length_degree_bits block_start_def)
  have "trues_before f (block_start ds v + t) = length (filter id (take (block_start ds v + t) (degree_bits ds)))"
    using degree_bits_block(1) [OF assms(2,3)] assms(1) by (intro trues_before_take) auto
  also have "\<dots> = v"
    unfolding degree_bits_split [OF assms(2)] using assms len count_degree_bits [of "take v ds"] by simp
  finally show ?thesis .
qed

lemma block_start_Suc: "v < length ds \<Longrightarrow> block_start ds (Suc v) = Suc (block_start ds v + ds ! v)"
  by (simp add: block_start_def take_Suc_conv_app_nth)

locale rank_select =
  fixes build :: "'b \<Rightarrow> 'i option" and bitof :: "'b \<Rightarrow> nat \<Rightarrow> bool" and size :: "'b \<Rightarrow> nat" and ok :: "'b \<Rightarrow> bool"
    and count0 :: "'b \<Rightarrow> 'i \<Rightarrow> nat \<Rightarrow> nat option" and select1 :: "'b \<Rightarrow> 'i \<Rightarrow> nat \<Rightarrow> nat option"
  assumes build_ok: "ok b \<Longrightarrow> \<exists>i. build b = Some i"
    and count0_ok: "ok b \<Longrightarrow> build b = Some i \<Longrightarrow> n < size b \<Longrightarrow> count0 b i n = Some (n - trues_before (bitof b) n)"
    and select1_ok: "ok b \<Longrightarrow> build b = Some i \<Longrightarrow> bitof b p \<Longrightarrow> select1 b i (trues_before (bitof b) p) = Some p"
begin

lemma child_number:
  assumes "ok b" "build b = Some i" "length (degree_bits ds) \<le> size b"
    and "\<And>p. p < length (degree_bits ds) \<Longrightarrow> bitof b p = degree_bits ds ! p"
    and "v < length ds" "t < ds ! v"
  shows "count0 b i (block_start ds v + t + 1) = Some (sum_list (take v ds) + t + 1)"
  using count0_ok [OF assms(1,2), of "block_start ds v + t + 1"] degree_bits_block(1) [of v ds "t + 1"]
    trues_before_block [of ds "bitof b" v "t + 1"] assms(3-6)
  by (simp add: block_start_def)

lemma child_block:
  assumes "ok b" "build b = Some i"
    and "\<And>p. p < length (degree_bits ds) \<Longrightarrow> bitof b p = degree_bits ds ! p"
    and "0 < c" "c \<le> length ds"
  shows "\<exists>p. select1 b i (c - 1) = Some p \<and> p + 1 = block_start ds c"
proof -
  have v: "c - 1 < length ds" using assms(4,5) by simp
  have "bitof b (block_start ds (c - 1) + ds ! (c - 1))"
    using degree_bits_block [OF v, of "ds ! (c - 1)"] assms(3) by simp
  then have "select1 b i (c - 1) = Some (block_start ds (c - 1) + ds ! (c - 1))"
    using select1_ok [OF assms(1,2)] trues_before_block [OF assms(3) v, of "ds ! (c - 1)"] by fastforce
  then show ?thesis using block_start_Suc [OF v] assms(4) by simp
qed

end

lemma ones_before_trues: "ones_before bm = trues_before (bmbit bm)"
  by (simp add: fun_eq_iff ones_before_def trues_before_def)

interpretation rs: rank_select trie_init bmbit "\<lambda>bm. 64 * length bm" rs_ok
  "\<lambda>bm ix. countZeros bm (fst ix)" "\<lambda>bm ix. selectIthOne bm (fst ix) (snd ix)"
proof unfold_locales
  fix bm :: "u64 list"
  assume "rs_ok bm"
  then show "\<exists>i. trie_init bm = Some i" using trie_init_ok by blast
next
  fix bm i n
  assume "rs_ok bm" "trie_init bm = Some i" "n < 64 * length bm"
  then show "countZeros bm (fst i) n = Some (n - trues_before (bmbit bm) n)"
    using countZeros_counts [of bm "fst i" "snd i" n] by (simp add: ones_before_trues)
next
  fix bm i p
  assume "rs_ok bm" "trie_init bm = Some i" "bmbit bm p"
  then show "selectIthOne bm (fst i) (snd i) (trues_before (bmbit bm) p) = Some p"
    using selectIthOne_finds [of bm "fst i" "snd i" p] by (simp add: ones_before_trues)
qed

end
