(* ===== verification/Netip.thy ===== *)
theory Netip
  imports Go_Base
begin

text \<open>
  The part of Go's \<^verbatim>\<open>net/netip\<close> that the sources use: addresses with their family, address
  and port pairs, prefixes, and the 16-byte form of an address.
\<close>

datatype addr = AddrInvalid | Addr4 u32 | Addr6 (ip6: "128 word") (zone: string)

fun addr_IsValid :: "addr \<Rightarrow> bool" where
  "addr_IsValid AddrInvalid = False"
| "addr_IsValid _ = True"

fun addr_Is4 :: "addr \<Rightarrow> bool" where
  "addr_Is4 (Addr4 _) = True"
| "addr_Is4 _ = False"

fun addr_Is6 :: "addr \<Rightarrow> bool" where
  "addr_Is6 (Addr6 _ _) = True"
| "addr_Is6 _ = False"

fun addr_Is4In6 :: "addr \<Rightarrow> bool" where
  "addr_Is4In6 (Addr6 a _) = (drop_bit 32 a = 0xffff)"
| "addr_Is4In6 _ = False"

fun addr_BitLen :: "addr \<Rightarrow> int" where
  "addr_BitLen AddrInvalid = 0"
| "addr_BitLen (Addr4 _) = 32"
| "addr_BitLen (Addr6 _ _) = 128"

fun addr_Unmap :: "addr \<Rightarrow> addr" where
  "addr_Unmap (Addr6 a z) = (if drop_bit 32 a = 0xffff then Addr4 (ucast a) else Addr6 a z)"
| "addr_Unmap a = a"

text \<open>Network byte order: byte \<open>i\<close> of sixteen.\<close>

definition be128 :: "128 word \<Rightarrow> bytes" where
  "be128 a = map (\<lambda>i. ucast (drop_bit (8 * (15 - i)) a)) [0..<16]"

fun addr_As16 :: "addr \<Rightarrow> bytes" where
  "addr_As16 AddrInvalid = be128 0"
| "addr_As16 (Addr4 a) = be128 (push_bit 32 0xffff OR ucast a)"
| "addr_As16 (Addr6 a _) = be128 a"

definition word_of_bytes :: "bytes \<Rightarrow> 128 word" where
  "word_of_bytes bs = foldl (\<lambda>acc b. push_bit 8 acc OR ucast b) 0 bs"

definition addr_From16 :: "bytes \<Rightarrow> addr" where
  "addr_From16 bs = Addr6 (word_of_bytes bs) ''''"

text \<open>\<^verbatim>\<open>netip.AddrPort\<close> and \<^verbatim>\<open>netip.Prefix\<close>; an invalid prefix has \<open>-1\<close> bits.\<close>

record addr_port =
  ap_addr :: addr
  ap_port :: u16

definition addr_port_IsValid :: "addr_port \<Rightarrow> bool" where
  "addr_port_IsValid p = addr_IsValid (ap_addr p)"

record ip_prefix =
  pfx_addr :: addr
  pfx_bits :: int

section \<open>The bits of an address\<close>

lemma length_be128 [simp]: "length (be128 a) = 16"
  by (simp add: be128_def)

lemma length_As16 [simp]: "length (addr_As16 a) = 16"
  by (cases a) simp_all

text \<open>Bit \<open>i\<close> of a byte string in network order, counted from the most significant one.\<close>

definition net_bit :: "bytes \<Rightarrow> nat \<Rightarrow> bool" where
  "net_bit bs i = bit (bs ! (i div 8)) (7 - i mod 8)"

lemma net_bit_be128: "i < 128 \<Longrightarrow> net_bit (be128 a) i = bit a (127 - i)"
proof -
  assume i: "i < 128"
  define q r where "q = i div 8" and "r = i mod 8"
  have q: "q < 16" and r: "r < 8" and eq: "i = q * 8 + r" using i by (auto simp: q_def r_def)
  have "8 * (15 - q) + (7 - r) = 127 - i" using q r eq by simp
  moreover have "net_bit (be128 a) i = bit (ucast (drop_bit (8 * (15 - q)) a) :: u8) (7 - r)"
    using q by (simp add: net_bit_def be128_def q_def [symmetric] r_def [symmetric])
  moreover have "7 - r < 8" by simp
  ultimately show ?thesis by (simp add: bit_unsigned_iff bit_drop_bit_eq)
qed

lemma net_bit_eqI:
  assumes "length bs = length cs" "\<And>i. i < 8 * length bs \<Longrightarrow> net_bit bs i = net_bit cs i"
  shows "bs = cs"
proof (rule nth_equalityI [OF assms(1)], rule bit_word_eqI)
  fix k n assume k: "k < length bs" and "n < LENGTH(8)"
  then have n: "n < 8" by simp
  define m where "m = 7 - n"
  have m: "m < 8" "7 - m = n" "7 - n = m" using n by (auto simp: m_def)
  have "(8 * k + m) div 8 = k" "(8 * k + m) mod 8 = m" using m(1) by auto
  moreover have "8 * k + m < 8 * length bs" using k m(1) by linarith
  ultimately show "bit (bs ! k) n = bit (cs ! k) n" using assms(2) [of "8 * k + m"] m by (simp add: net_bit_def)
qed

lemma net_bit_snoc:
  "i < 8 * length bs + 8 \<Longrightarrow>
   net_bit (bs @ [b]) i = (if i < 8 * length bs then net_bit bs i else bit b (7 - (i - 8 * length bs)))"
proof -
  assume i: "i < 8 * length bs + 8"
  show ?thesis
  proof (cases "i < 8 * length bs")
    case True
    then have "i div 8 < length bs" by (simp add: div_less_iff_less_mult mult.commute)
    then show ?thesis using True by (simp add: net_bit_def nth_append)
  next
    case False
    define r where "r = i - 8 * length bs"
    have "i = 8 * length bs + r" "r < 8" using False i by (simp_all add: r_def)
    then have "i div 8 = length bs" "i mod 8 = r" by simp_all
    then show ?thesis using False by (simp add: net_bit_def r_def)
  qed
qed

lemma bit_word_of_bytes:
  "8 * length bs \<le> 128 \<Longrightarrow>
   bit (word_of_bytes bs) n = (n < 8 * length bs \<and> net_bit bs (8 * length bs - 1 - n))"
proof (induction bs arbitrary: n rule: rev_induct)
  case Nil
  then show ?case by (simp add: word_of_bytes_def)
next
  case (snoc b bs)
  have eq: "word_of_bytes (bs @ [b]) = push_bit 8 (word_of_bytes bs) OR ucast b" by (simp add: word_of_bytes_def)
  have b: "bit b n \<Longrightarrow> n < 8" for n using bit_imp_le_length [of b n] by simp
  show ?case
  proof (cases "n < 8")
    case True
    define r where "r = 7 - n"
    have r: "r < 8" "7 - r = n" "8 * length (bs @ [b]) - 1 - n = 8 * length bs + r" using True by (simp_all add: r_def)
    then have "net_bit (bs @ [b]) (8 * length (bs @ [b]) - 1 - n) = bit b n"
      unfolding r(3) using net_bit_snoc [of "8 * length bs + r" bs b] by simp
    then show ?thesis unfolding eq using True by (simp add: bit_simps)
  next
    case False
    define m where "m = n - 8"
    have n: "n = m + 8" using False by (simp add: m_def)
    have "\<not> bit b n" using b False by blast
    then have "bit (word_of_bytes (bs @ [b])) n = (n < 128 \<and> bit (word_of_bytes bs) m)"
      unfolding eq using False by (auto simp: bit_simps m_def)
    moreover have "net_bit (bs @ [b]) (8 * length (bs @ [b]) - 1 - n) = net_bit bs (8 * length bs - 1 - m)" if "m < 8 * length bs"
    proof -
      have "8 * length bs - 1 - m < 8 * length bs" "8 * length (bs @ [b]) - 1 - n = 8 * length bs - 1 - m"
        using that by (simp_all add: n)
      then show ?thesis using net_bit_snoc [of "8 * length bs - 1 - m" bs b] by simp
    qed
    ultimately show ?thesis using snoc.IH [of m] snoc.prems by (auto simp: n)
  qed
qed

lemma be128_word_of_bytes: "length bs = 16 \<Longrightarrow> be128 (word_of_bytes bs) = bs"
  by (rule net_bit_eqI) (auto simp: net_bit_be128 bit_word_of_bytes)

lemma word_of_bytes_be128: "word_of_bytes (be128 a) = a"
  by (rule bit_word_eqI) (simp add: bit_word_of_bytes net_bit_be128)

lemma mapped_iff:
  assumes "length bs = 16"
  shows "addr_Is4In6 (addr_From16 bs) \<longleftrightarrow> (\<forall>i < 96. net_bit bs i = (80 \<le> i))"
proof -
  have "drop_bit 32 (word_of_bytes bs) = 0xffff \<longleftrightarrow> (\<forall>n < 96. bit (word_of_bytes bs) (n + 32) = (n < 16))"
  proof
    have m: "(0xffff :: 128 word) = mask 16" by (simp add: mask_eq_exp_minus_1)
    assume a: "drop_bit 32 (word_of_bytes bs) = 0xffff"
    show "\<forall>n < 96. bit (word_of_bytes bs) (n + 32) = (n < 16)"
    proof (intro allI impI)
      fix n :: nat assume "n < 96"
      then have "bit (drop_bit 32 (word_of_bytes bs)) n = (n < 16)" unfolding a m by (simp add: bit_mask_iff)
      then show "bit (word_of_bytes bs) (n + 32) = (n < 16)" by (simp add: bit_drop_bit_eq add.commute)
    qed
  next
    have m: "(0xffff :: 128 word) = mask 16" by (simp add: mask_eq_exp_minus_1)
    assume a: "\<forall>n < 96. bit (word_of_bytes bs) (n + 32) = (n < 16)"
    show "drop_bit 32 (word_of_bytes bs) = 0xffff" unfolding m
    proof (rule bit_word_eqI)
      fix n assume n: "n < LENGTH(128)"
      show "bit (drop_bit 32 (word_of_bytes bs)) n = bit (mask 16 :: 128 word) n"
        using a n bit_imp_le_length [of "word_of_bytes bs" "n + 32"]
        by (cases "n < 96") (auto simp: bit_drop_bit_eq bit_mask_iff add.commute)
    qed
  qed
  also have "\<dots> \<longleftrightarrow> (\<forall>i < 96. net_bit bs i = (80 \<le> i))"
  proof -
    have e: "bit (word_of_bytes bs) (95 - i + 32) = net_bit bs i" if "i < 96" for i
    proof -
      have "127 - (95 - i + 32) = i" "95 - i + 32 < 128" using that by simp_all
      then show ?thesis using assms bit_word_of_bytes [of bs "95 - i + 32"] by simp
    qed
    show ?thesis
    proof (rule iffI; intro allI impI)
      fix i :: nat assume a: "\<forall>n < 96. bit (word_of_bytes bs) (n + 32) = (n < 16)" and i: "i < 96"
      have "95 - i < 96" "(95 - i < 16) = (80 \<le> i)" using i by auto
      then show "net_bit bs i = (80 \<le> i)" using a e [OF i] by metis
    next
      fix n :: nat assume a: "\<forall>i < 96. net_bit bs i = (80 \<le> i)" and n: "n < 96"
      have "95 - n < 96" "95 - (95 - n) = n" "(80 \<le> 95 - n) = (n < 16)" using n by auto
      then show "bit (word_of_bytes bs) (n + 32) = (n < 16)" using a e [of "95 - n"] by metis
    qed
  qed
  finally show ?thesis by (simp add: addr_From16_def)
qed

lemma addr_Is4In6_From16:
  "addr_Is4In6 (addr_From16 bs) = (drop_bit 32 (word_of_bytes bs) = 0xffff)"
  by (simp add: addr_From16_def)

end
