(* ===== verification/Succinct_Trie.thy ===== *)
theory Succinct_Trie
  imports Rank_Select Netip "HOL-Library.List_Lexorder"
begin

text \<open>
  Model of \<^verbatim>\<open>pkg/trie/trie.go\<close>: the alphabet tables, the breadth-first construction of the
  succinct trie from a sorted key set, the prefix query on byte strings and the prefix query on
  network addresses with its IPv4 shortcut. Panics of the code are \<open>None\<close>, or \<open>TriePanic\<close> where
  the operation also has an error result; a nil \<^verbatim>\<open>*Trie\<close> is \<open>None\<close> of the trie itself.
\<close>

section \<open>Alphabets\<close>

record valid_chars =
  vc_table :: "u8 list"
  vc_n :: u16
  vc_zeroChar :: u8

fun valid_chars_loop :: "valid_chars \<Rightarrow> bytes \<Rightarrow> valid_chars" where
  "valid_chars_loop v [] = v"
| "valid_chars_loop v (c # cs) =
     (let v1 = (if vc_n v = 0 then v\<lparr>vc_zeroChar := c\<rparr> else v)
      in valid_chars_loop (v1\<lparr>vc_table := (vc_table v1)[unat c := ucast (vc_n v1)], vc_n := vc_n v1 + 1\<rparr>) cs)"

definition NewValidChars :: "bytes \<Rightarrow> valid_chars" where
  "NewValidChars cs = valid_chars_loop \<lparr>vc_table = replicate 256 0, vc_n = 0, vc_zeroChar = 0\<rparr> cs"

definition ValidCidrChars :: valid_chars where
  "ValidCidrChars = NewValidChars [0x30, 0x31]"

definition vc_Size :: "valid_chars \<Rightarrow> nat" where
  "vc_Size v = unat (vc_n v)"

definition IsValidChar :: "valid_chars \<Rightarrow> u8 \<Rightarrow> bool" where
  "IsValidChar v c \<longleftrightarrow> vc_table v ! unat c > 0 \<or> c = vc_zeroChar v"

section \<open>Construction\<close>

record ip_cursor =
  cur_node :: int
  cur_bitmap :: nat

record trie =
  leaves :: "u64 list"
  labelBitmap :: "u64 list"
  labels :: compact_bit_list
  ranksBL :: compact_bit_list
  selectsBL :: compact_bit_list
  chars :: valid_chars
  ipv4 :: ip_cursor

datatype trie_error = CharOutOfRange u8 | TriePanic

text \<open>An entry \<open>(s, e, col)\<close> of the queue: the keys from \<open>s\<close> up to \<open>e\<close> share \<open>col\<close> characters.\<close>

type_synonym q_elt = "nat \<times> nat \<times> nat"

record trie_build =
  tb_queue :: "q_elt list"
  tb_leaves :: "u64 list"
  tb_labels :: compact_bit_list
  tb_bitmap :: "u64 list"
  tb_lIdx :: nat

definition key_char :: "bytes list \<Rightarrow> nat \<Rightarrow> nat \<Rightarrow> u8 option" where
  "key_char keys k col = (if k < length keys \<and> col < length (keys ! k) then Some (keys ! k ! col) else None)"

function group_end :: "bytes list \<Rightarrow> nat \<Rightarrow> nat \<Rightarrow> nat \<Rightarrow> nat \<Rightarrow> nat option" where
  "group_end keys col frm j e =
     (if j < e
      then (case key_char keys j col of
              None \<Rightarrow> None
            | Some a \<Rightarrow> (case key_char keys frm col of
                None \<Rightarrow> None
              | Some b \<Rightarrow> if a = b then group_end keys col frm (Suc j) e else Some j))
      else Some j)"
  by pat_completeness auto
termination
  by (relation "measure (\<lambda>(keys, col, frm, j, e). e - j)") auto

declare group_end.simps [simp del]

lemma group_end_ge: "group_end keys col frm j e = Some j' \<Longrightarrow> j \<le> j'"
proof (induction keys col frm j e rule: group_end.induct)
  case (1 keys col frm j e)
  then show ?case by (subst (asm) group_end.simps) (fastforce split: if_splits option.splits)
qed

lemma group_end_le: "group_end keys col frm j e = Some j' \<Longrightarrow> j \<le> e \<Longrightarrow> j' \<le> e"
proof (induction keys col frm j e rule: group_end.induct)
  case (1 keys col frm j e)
  then show ?case by (subst (asm) group_end.simps) (fastforce split: if_splits option.splits)
qed

lemma group_end_gt: "group_end keys col j j e = Some j' \<Longrightarrow> j < e \<Longrightarrow> j < j'"
  by (subst (asm) group_end.simps) (auto split: option.splits dest: group_end_ge)

function node_loop :: "bytes list \<Rightarrow> valid_chars \<Rightarrow> nat \<Rightarrow> nat \<Rightarrow> nat \<Rightarrow> trie_build \<Rightarrow> trie_build option" where
  "node_loop keys cs col j e st =
     (if j < e
      then (case group_end keys col j j e of
              None \<Rightarrow> None
            | Some j' \<Rightarrow> (case key_char keys j col of
                None \<Rightarrow> None
              | Some c \<Rightarrow> (case cbl_Append (tb_labels st) (ucast (vc_table cs ! unat c)) of
                  None \<Rightarrow> None
                | Some ls \<Rightarrow>
                    node_loop keys cs col j' e
                      (st\<lparr>tb_queue := tb_queue st @ [(j, j', Suc col)], tb_labels := ls,
                          tb_bitmap := setBit (tb_bitmap st) (tb_lIdx st) 0, tb_lIdx := Suc (tb_lIdx st)\<rparr>))))
      else Some st)"
  by pat_completeness auto
termination
  by (relation "measure (\<lambda>(keys, cs, col, j, e, st). e - j)") (auto dest: group_end_gt)

declare node_loop.simps [simp del]

text \<open>One iteration of the outer loop: node \<open>i\<close> of the queue.\<close>

definition node_step :: "bytes list \<Rightarrow> valid_chars \<Rightarrow> nat \<Rightarrow> trie_build \<Rightarrow> trie_build option" where
  "node_step keys cs i st =
     (case tb_queue st ! i of (s, e, col) \<Rightarrow>
        if s < length keys
        then (let leaf = (col = length (keys ! s));
                  st1 = (if leaf then st\<lparr>tb_leaves := setBit (tb_leaves st) i 1\<rparr> else st)
              in case node_loop keys cs col (if leaf then Suc s else s) e st1 of
                   None \<Rightarrow> None
                 | Some st2 \<Rightarrow> Some (st2\<lparr>tb_bitmap := setBit (tb_bitmap st2) (tb_lIdx st2) 1, tb_lIdx := Suc (tb_lIdx st2)\<rparr>))
        else None)"

text \<open>
  The loop over the queue ends because the characters below a node's column are shared out to its
  children: \<open>elt_weight\<close> bounds the nodes a queue entry gives rise to.
\<close>

definition elt_weight :: "bytes list \<Rightarrow> q_elt \<Rightarrow> nat" where
  "elt_weight keys q = (case q of (s, e, col) \<Rightarrow> Suc (\<Sum>k = s..<e. length (keys ! k) - col))"

lemma node_loop_queue:
  "node_loop keys cs col j e st = Some st' \<Longrightarrow>
   \<exists>ks. tb_queue st' = tb_queue st @ ks \<and> sum_list (map (elt_weight keys) ks) \<le> (\<Sum>k = j..<e. length (keys ! k) - col)"
proof (induction keys cs col j e st arbitrary: st' rule: node_loop.induct)
  case (1 keys cs col j e st)
  show ?case
  proof (cases "j < e")
    case False
    then show ?thesis using "1.prems" by (simp add: node_loop.simps [of keys cs col j e st])
  next
    case True
    obtain j' c ls where g: "group_end keys col j j e = Some j'" and c: "key_char keys j col = Some c"
      and a: "cbl_Append (tb_labels st) (ucast (vc_table cs ! unat c)) = Some ls"
      using "1.prems" True by (subst (asm) node_loop.simps) (auto split: option.splits)
    let ?st = "st\<lparr>tb_queue := tb_queue st @ [(j, j', Suc col)], tb_labels := ls,
                  tb_bitmap := setBit (tb_bitmap st) (tb_lIdx st) 0, tb_lIdx := Suc (tb_lIdx st)\<rparr>"
    have "node_loop keys cs col j' e ?st = Some st'"
      using "1.prems" True g c a by (subst (asm) node_loop.simps) simp
    from "1.IH" [OF True g c a this] obtain ks where ks: "tb_queue st' = tb_queue ?st @ ks"
      and w: "sum_list (map (elt_weight keys) ks) \<le> (\<Sum>k = j'..<e. length (keys ! k) - col)" by blast
    have j': "j < j'" using group_end_gt [OF g True] .
    have le: "j' \<le> e" using group_end_le [OF g] True by simp
    have len: "col < length (keys ! j)" using c by (auto simp: key_char_def split: if_splits)
    have "elt_weight keys (j, j', Suc col) \<le> (\<Sum>k = j..<j'. length (keys ! k) - col)"
    proof -
      have "(\<Sum>k = Suc j..<j'. length (keys ! k) - Suc col) \<le> (\<Sum>k = Suc j..<j'. length (keys ! k) - col)"
        by (rule sum_mono) simp
      then show ?thesis using j' len by (simp add: elt_weight_def sum.atLeast_Suc_lessThan)
    qed
    moreover have "(\<Sum>k = j..<e. length (keys ! k) - col) =
        (\<Sum>k = j..<j'. length (keys ! k) - col) + (\<Sum>k = j'..<e. length (keys ! k) - col)"
      using j' le by (simp add: sum.atLeastLessThan_concat)
    ultimately show ?thesis using ks w by (intro exI [of _ "(j, j', Suc col) # ks"]) simp
  qed
qed

lemma node_step_queue:
  assumes "node_step keys cs i st = Some st'"
  obtains ks where "tb_queue st' = tb_queue st @ ks"
    "sum_list (map (elt_weight keys) ks) < elt_weight keys (tb_queue st ! i)"
proof -
  obtain s e col where q: "tb_queue st ! i = (s, e, col)" by (metis prod_cases3)
  define leaf where "leaf = (col = length (keys ! s))"
  define st1 where "st1 = (if leaf then st\<lparr>tb_leaves := setBit (tb_leaves st) i 1\<rparr> else st)"
  obtain st2 where n: "node_loop keys cs col (if leaf then Suc s else s) e st1 = Some st2"
    and q2: "tb_queue st' = tb_queue st2"
    using assms q by (auto simp: node_step_def Let_def leaf_def st1_def split: if_splits option.splits)
  have "tb_queue st1 = tb_queue st" by (simp add: st1_def)
  moreover obtain ks where "tb_queue st2 = tb_queue st1 @ ks"
    and w: "sum_list (map (elt_weight keys) ks) \<le> (\<Sum>k = (if leaf then Suc s else s)..<e. length (keys ! k) - col)"
    using node_loop_queue [OF n] by blast
  moreover have "(\<Sum>k = (if leaf then Suc s else s)..<e. length (keys ! k) - col) < elt_weight keys (tb_queue st ! i)"
    by (auto simp: elt_weight_def q less_Suc_eq_le intro!: sum_mono2)
  ultimately show ?thesis using that [of ks] q2 by simp
qed

function bfs_loop :: "bytes list \<Rightarrow> valid_chars \<Rightarrow> nat \<Rightarrow> trie_build \<Rightarrow> trie_build option" where
  "bfs_loop keys cs i st =
     (if i < length (tb_queue st)
      then (case node_step keys cs i st of None \<Rightarrow> None | Some st' \<Rightarrow> bfs_loop keys cs (Suc i) st')
      else Some st)"
  by pat_completeness auto
termination
proof (relation "measure (\<lambda>(keys, cs, i, st). sum_list (map (elt_weight keys) (drop i (tb_queue st))))", simp, goal_cases)
  case (1 keys cs i st st')
  obtain ks where "tb_queue st' = tb_queue st @ ks"
    "sum_list (map (elt_weight keys) ks) < elt_weight keys (tb_queue st ! i)"
    using node_step_queue [OF 1(2)] by blast
  then show ?case using 1(1) by (simp add: Cons_nth_drop_Suc [symmetric])
qed

declare bfs_loop.simps [simp del]

section \<open>Queries\<close>

text \<open>
  The loop over the labels of a node: the bitmap index of the label that satisfies \<open>hit\<close>, or
  nothing when the separator comes first. A label index before the node's block does not occur;
  a negative index would panic.
\<close>

function find_label :: "trie \<Rightarrow> (u64 \<Rightarrow> bool) \<Rightarrow> nat \<Rightarrow> nat \<Rightarrow> nat option option" where
  "find_label ss hit node bmIdx =
     (case getBit (labelBitmap ss) bmIdx of
        None \<Rightarrow> None
      | Some b \<Rightarrow>
          if b \<noteq> 0 then Some None
          else if bmIdx < node then None
          else case cbl_Get (labels ss) (bmIdx - node) of
                 None \<Rightarrow> None
               | Some l \<Rightarrow> if hit l then Some (Some bmIdx) else find_label ss hit node (Suc bmIdx))"
  by pat_completeness auto
termination
  by (relation "measure (\<lambda>(ss, hit, node, bmIdx). 64 * length (labelBitmap ss) - bmIdx)")
     (auto simp: getBit_def split: if_splits)

declare find_label.simps [simp del]

text \<open>Down one edge: the number of the child and the start of its block.\<close>

definition next_level :: "trie \<Rightarrow> nat \<Rightarrow> (nat \<times> nat) option" where
  "next_level ss bmIdx =
     (case countZeros (labelBitmap ss) (ranksBL ss) (bmIdx + 1) of
        None \<Rightarrow> None
      | Some node \<Rightarrow>
          if node = 0 then None
          else case selectIthOne (labelBitmap ss) (ranksBL ss) (selectsBL ss) (node - 1) of
                 None \<Rightarrow> None
               | Some p \<Rightarrow> Some (node, p + 1))"

fun has_prefix_loop :: "trie \<Rightarrow> nat \<Rightarrow> nat \<Rightarrow> bytes \<Rightarrow> bool option" where
  "has_prefix_loop ss nodeId bmIdx [] = map_option (\<lambda>b. b \<noteq> 0) (getBit (leaves ss) nodeId)"
| "has_prefix_loop ss nodeId bmIdx (c # word) =
     (case getBit (leaves ss) nodeId of
        None \<Rightarrow> None
      | Some b \<Rightarrow>
          if b \<noteq> 0 then Some True
          else if \<not> IsValidChar (chars ss) c then Some False
          else case find_label ss (\<lambda>l. (ucast l :: u8) = vc_table (chars ss) ! unat c) nodeId bmIdx of
                 None \<Rightarrow> None
               | Some None \<Rightarrow> Some False
               | Some (Some p) \<Rightarrow>
                   (case next_level ss p of None \<Rightarrow> None | Some (n, b') \<Rightarrow> has_prefix_loop ss n b' word))"

definition HasPrefix :: "trie option \<Rightarrow> bytes \<Rightarrow> bool option" where
  "HasPrefix t word = (case t of None \<Rightarrow> Some False | Some ss \<Rightarrow> has_prefix_loop ss 0 0 word)"

function seek_loop :: "trie \<Rightarrow> bytes \<Rightarrow> nat \<Rightarrow> nat \<Rightarrow> nat \<Rightarrow> nat \<Rightarrow> ip_cursor option" where
  "seek_loop ss address bt end node bitmap =
     (if bt < end
      then (case getBit (leaves ss) node of
              None \<Rightarrow> None
            | Some b \<Rightarrow>
                if b \<noteq> 0 then Some \<lparr>cur_node = int node, cur_bitmap = bitmap\<rparr>
                else if bt div 8 \<ge> length address then None
                else let label = (ucast (drop_bit (7 - bt mod 8) (address ! (bt div 8)) AND 1) :: u64)
                     in case find_label ss (\<lambda>l. l = label) node bitmap of
                          None \<Rightarrow> None
                        | Some None \<Rightarrow> Some \<lparr>cur_node = -1, cur_bitmap = 0\<rparr>
                        | Some (Some p) \<Rightarrow>
                            (case next_level ss p of
                               None \<Rightarrow> None
                             | Some (n, b') \<Rightarrow> seek_loop ss address (Suc bt) end n b'))
      else Some \<lparr>cur_node = int node, cur_bitmap = bitmap\<rparr>)"
  by pat_completeness auto
termination
  by (relation "measure (\<lambda>(ss, address, bt, end, node, bitmap). end - bt)") auto

declare seek_loop.simps [simp del]

definition seekIP :: "trie \<Rightarrow> bytes \<Rightarrow> nat \<Rightarrow> nat \<Rightarrow> ip_cursor \<Rightarrow> ip_cursor option" where
  "seekIP ss address start end cursor =
     (if cur_node cursor < 0 then Some cursor
      else seek_loop ss address start end (nat (cur_node cursor)) (cur_bitmap cursor))"

definition HasPrefixIP :: "trie option \<Rightarrow> bytes \<Rightarrow> bool option" where
  "HasPrefixIP t address =
     (case t of
        None \<Rightarrow> Some False
      | Some ss \<Rightarrow>
          if chars ss \<noteq> ValidCidrChars then Some False
          else let (cursor, start) = (if addr_Is4In6 (addr_From16 address) then (ipv4 ss, 96)
                                      else (\<lparr>cur_node = 0, cur_bitmap = 0\<rparr>, 0))
               in case seekIP ss address start 128 cursor of
                    None \<Rightarrow> None
                  | Some cur \<Rightarrow>
                      if cur_node cur \<ge> 0
                      then map_option (\<lambda>b. b \<noteq> 0) (getBit (leaves ss) (nat (cur_node cur)))
                      else Some False)"

text \<open>The mapped prefix \<^verbatim>\<open>[16]byte{10: 0xff, 11: 0xff}\<close>.\<close>

definition mapped_prefix :: bytes where
  "mapped_prefix = (replicate 16 0)[10 := 0xff, 11 := 0xff]"

definition find_invalid :: "valid_chars \<Rightarrow> bytes list \<Rightarrow> u8 option" where
  "find_invalid cs keys = find (\<lambda>c. \<not> IsValidChar cs c) (concat keys)"

text \<open>The code recognises its two alphabets by their pointers. Only these two occur, and they differ, so that the
  comparison of their contents gives the same answers.\<close>

definition NewTrie :: "bytes list \<Rightarrow> valid_chars \<Rightarrow> trie_error + trie option" where
  "NewTrie keys0 cs =
     (if keys0 = [] then Inr None
      else let keys = remdups_adj (sort keys0) in
        case find_invalid cs keys of
          Some c \<Rightarrow> Inl (CharOutOfRange c)
        | None \<Rightarrow>
            (case bfs_loop keys cs 0 \<lparr>tb_queue = [(0, length keys, 0)], tb_leaves = [],
                    tb_labels = NewCompactBitList (bits_Len (vc_Size cs)), tb_bitmap = [], tb_lIdx = 0\<rparr> of
               None \<Rightarrow> Inl TriePanic
             | Some b \<Rightarrow>
                 (case trie_init (tb_bitmap b) of
                    None \<Rightarrow> Inl TriePanic
                  | Some (rk, sl) \<Rightarrow>
                      let ss = \<lparr>leaves = tb_leaves b, labelBitmap = tb_bitmap b, labels = tb_labels b, ranksBL = rk,
                                selectsBL = sl, chars = cs, ipv4 = \<lparr>cur_node = 0, cur_bitmap = 0\<rparr>\<rparr>
                      in case (if cs = ValidCidrChars
                               then seekIP ss mapped_prefix 0 96 \<lparr>cur_node = 0, cur_bitmap = 0\<rparr>
                               else Some (ipv4 ss)) of
                           None \<Rightarrow> Inl TriePanic
                         | Some cur \<Rightarrow> Inr (Some (ss\<lparr>ipv4 := cur, labels := cbl_Tighten (labels ss)\<rparr>)))))"

section \<open>Keys of address prefixes\<close>

fun bin128_loop :: "bool list \<Rightarrow> int \<Rightarrow> bytes" where
  "bin128_loop [] n = []"
| "bin128_loop (b # bs) n = (if b then 0x31 else 0x30) # (if n - 1 = 0 then [] else bin128_loop bs (n - 1))"

text \<open>The bits of the 16 bytes in the order of the two nested loops.\<close>

definition ip_bits :: "bytes \<Rightarrow> bool list" where
  "ip_bits ip = concat (map (\<lambda>i. map (\<lambda>j. drop_bit j (ip ! i) AND 1 = 1) (rev [0..<8])) [0..<16])"

definition Prefix2bin128 :: "ip_prefix \<Rightarrow> bytes option" where
  "Prefix2bin128 p =
     (if pfx_bits p = -1 then None
      else let n = (if addr_Is4 (pfx_addr p) then pfx_bits p + 96 else pfx_bits p)
           in if n = 0 then Some [] else Some (bin128_loop (ip_bits (addr_As16 (pfx_addr p))) n))"

definition NewTrieFromPrefixes :: "ip_prefix list \<Rightarrow> trie_error + trie option" where
  "NewTrieFromPrefixes cidrs =
     (if None \<in> set (map Prefix2bin128 cidrs) then Inl TriePanic
      else NewTrie (map (the \<circ> Prefix2bin128) cidrs) ValidCidrChars)"

end
