(* ===== verification/Routing_VM.thy ===== *)
theory Routing_VM
  imports Succinct_Trie
begin

text \<open>
  The routing machine of \<^verbatim>\<open>control\<close>: instructions and their predicates
  (\<^verbatim>\<open>routing_instruction.go\<close>, \<^verbatim>\<open>routing_predicate.go\<close>), the cursor over the spans of a profile
  (\<^verbatim>\<open>routing_cursor.go\<close>, \<^verbatim>\<open>routing_profile.go\<close>) and the evaluation loop
  (\<^verbatim>\<open>routing_matcher_userspace.go\<close>). Instruction indices, positions and jump distances are
  \<^verbatim>\<open>uint32\<close>, written as natural numbers with their wrap-around. The domain matcher, the client
  admission test and the connectivity test are the function values the Go struct holds.
\<close>

section \<open>Instructions\<close>

datatype match_type =
  MT_DomainSet | MT_IpSet | MT_SourceIpSet | MT_Port | MT_SourcePort | MT_L4Proto | MT_IpVersion | MT_Mac
| MT_ProcessName | MT_IfIndex | MT_Dscp | MT_Fallback | MT_HTTPClient | MT_Other u8

datatype match_action =
  MA_Route | MA_Or | MA_And | MA_Must | MA_Bump | MA_Capture | MA_FlowEnd | MA_ConditionalJump | MA_Match | MA_Miss
| MA_Other u8

record match_set =
  ms_value :: bytes
  ms_mark :: nat
  ms_type :: match_type
  ms_action :: match_action
  ms_flags :: u8
  ms_outbound :: u8

definition zero_value :: bytes where
  "zero_value = replicate 16 0"

text \<open>A composite literal of \<^verbatim>\<open>bpfMatchSet\<close> leaves every other field zero.\<close>

definition match_set0 :: "match_type \<Rightarrow> match_set" where
  "match_set0 k = \<lparr>ms_value = zero_value, ms_mark = 0, ms_type = k, ms_action = MA_Route, ms_flags = 0, ms_outbound = 0\<rparr>"

definition matchFlagNot :: u8 where "matchFlagNot = 1"
definition matchFlagMust :: u8 where "matchFlagMust = 2"
definition matchFlagSkipNoalive :: u8 where "matchFlagSkipNoalive = 4"
definition matchCaptureShift :: nat where "matchCaptureShift = 3"
definition matchFlagBypass :: u8 where "matchFlagBypass = 64"

definition captureHTTP :: u8 where "captureHTTP = 1"
definition captureDestination :: u8 where "captureDestination = 2"
definition captureHTTPRequest :: u8 where "captureHTTPRequest = 4"
definition captureDNS :: u8 where "captureDNS = 8"

definition OutboundDirect :: u8 where "OutboundDirect = 0"
definition OutboundBlock :: u8 where "OutboundBlock = 1"
definition OutboundUserDefinedMin :: u8 where "OutboundUserDefinedMin = 2"
definition OutboundControlPlaneRouting :: u8 where "OutboundControlPlaneRouting = 253"

definition routingMatchFlags :: "bool \<Rightarrow> bool \<Rightarrow> bool \<Rightarrow> u8" where
  "routingMatchFlags nt must skipNoalive =
     (if nt then matchFlagNot else 0) OR (if must then matchFlagMust else 0) OR (if skipNoalive then matchFlagSkipNoalive else 0)"

definition has_flag :: "match_set \<Rightarrow> u8 \<Rightarrow> bool" where
  "has_flag ms f \<longleftrightarrow> ms_flags ms AND f \<noteq> 0"

definition encode_port_range :: "u16 \<times> u16 \<Rightarrow> bytes" where
  "encode_port_range r = le16 (fst r) @ le16 (snd r) @ replicate 12 0"

definition ParsePortRange :: "bytes \<Rightarrow> (u16 \<times> u16) option" where
  "ParsePortRange b =
     (case read_le16 b of
        None \<Rightarrow> None
      | Some s \<Rightarrow> (case read_le16 (drop 2 b) of None \<Rightarrow> None | Some e \<Rightarrow> Some (s, e)))"

text \<open>
  \<^verbatim>\<open>binary.LittleEndian.PutUint32(value[:], x)\<close> on a zero value, and reading it back. The value of
  an instruction is a \<^verbatim>\<open>[16]byte\<close>, so the reads never run out of bytes.
\<close>

definition index_value :: "nat \<Rightarrow> bytes" where
  "index_value n = le32 (of_nat n) @ replicate 12 0"

definition value_index :: "bytes \<Rightarrow> nat" where
  "value_index b = (case read_le32 b of None \<Rightarrow> 0 | Some w \<Rightarrow> unat w)"

section \<open>Inputs\<close>

datatype routing_stage = RouteFromIngress | RouteAfterTarget

type_synonym trace_position = "nat \<times> nat"

record routing_execution =
  tr_visited :: "trace_position set"
  tr_evaluated :: "trace_position set"
  tr_noalive :: "trace_position set"
  tr_last :: trace_position

definition newRoutingExecution :: routing_execution where
  "newRoutingExecution = \<lparr>tr_visited = {}, tr_evaluated = {}, tr_noalive = {}, tr_last = (0, 0)\<rparr>"

record routing_input =
  ri_src :: addr_port
  ri_dst :: addr_port
  ri_l4proto :: u8
  ri_domain :: string
  ri_processName :: bytes
  ri_ifindex :: nat
  ri_profileID :: nat
  ri_physinif :: nat
  ri_dscp :: u8
  ri_mac :: bytes
  ri_domainBitmap :: "u32 list option"
  ri_domainBumpBitmap :: "u32 list option"
  ri_kernel :: bool
  ri_stage :: routing_stage
  ri_trace :: "routing_execution option"

definition IpVersionFromAddr :: "addr \<Rightarrow> u8" where
  "IpVersionFromAddr a = (if addr_Is4 a \<or> addr_Is4In6 a then 1 else if addr_Is6 a then 2 else 3)"

definition targetInput :: "routing_input \<Rightarrow> string \<Rightarrow> bool \<Rightarrow> u32 list option \<Rightarrow> u32 list option \<Rightarrow> routing_input" where
  "targetInput input domain explicit bump routing =
     (let i = input\<lparr>ri_kernel := False, ri_stage := RouteAfterTarget, ri_domain := domain,
                    ri_domainBitmap := None, ri_domainBumpBitmap := None\<rparr>
      in if domain = [] \<and> \<not> explicit then i\<lparr>ri_domainBumpBitmap := bump, ri_domainBitmap := routing\<rparr> else i)"

section \<open>Spans and the cursor\<close>

datatype routing_phase = PhaseRoute | PhaseIngress | PhaseFlow

record routing_span =
  sp_start :: nat
  sp_end :: nat
  sp_phase :: routing_phase
  sp_global :: bool

definition span_len :: "routing_span \<Rightarrow> nat" where
  "span_len s = u32_sub (sp_end s) (sp_start s)"

definition appendSpan :: "routing_span list \<Rightarrow> routing_span \<Rightarrow> routing_span list" where
  "appendSpan spans span =
     (if sp_start span = sp_end span then spans
      else if spans \<noteq> [] \<and> sp_end (last spans) = sp_start span \<and> sp_phase (last spans) = sp_phase span
              \<and> sp_global (last spans) = sp_global span
      then butlast spans @ [(last spans)\<lparr>sp_end := sp_end span\<rparr>]
      else spans @ [span])"

definition spanExecutionLen :: "routing_span list \<Rightarrow> nat" where
  "spanExecutionLen spans = foldl (\<lambda>length span. length + span_len span) 0 spans"

record routing_cursor =
  rc_spans :: "routing_span list"
  rc_span :: nat
  rc_instruction :: nat
  rc_position :: nat
  rc_length :: nat

function advance_loop :: "routing_span list \<Rightarrow> nat \<Rightarrow> nat \<Rightarrow> nat \<Rightarrow> nat \<times> nat" where
  "advance_loop spans span instruction distance =
     (if span < length spans
      then (let s = spans ! span;
                ins = (if instruction < sp_start s then sp_start s else instruction);
                remaining = u32_sub (sp_end s) ins
            in if distance < remaining then (span, u32_add ins distance)
               else advance_loop spans (Suc span) 0 (u32_sub distance remaining))
      else (span, instruction))"
  by pat_completeness auto
termination
  by (relation "measure (\<lambda>(spans, span, instruction, distance). length spans - span)") auto

declare advance_loop.simps [simp del]

definition rc_advance :: "routing_cursor \<Rightarrow> nat \<Rightarrow> routing_cursor \<times> bool" where
  "rc_advance c distance =
     (if distance > u32_sub (rc_length c) (rc_position c) then (c, False)
      else case advance_loop (rc_spans c) (rc_span c) (rc_instruction c) distance of
             (sp, ins) \<Rightarrow> (c\<lparr>rc_position := u32_add (rc_position c) distance, rc_span := sp, rc_instruction := ins\<rparr>, True))"

definition newRoutingCursor :: "routing_span list \<Rightarrow> routing_cursor" where
  "newRoutingCursor spans =
     fst (rc_advance \<lparr>rc_spans = spans, rc_span = 0, rc_instruction = 0, rc_position = 0,
                      rc_length = spanExecutionLen spans mod u32_mod\<rparr> 0)"

section \<open>Predicates\<close>

text \<open>The truth values in the order of the Go constants, so that \<^verbatim>\<open>max\<close> is disjunction.\<close>

datatype predicate_result = PMiss | PUnknown | PMatch

fun pr_rank :: "predicate_result \<Rightarrow> nat" where
  "pr_rank PMiss = 0"
| "pr_rank PUnknown = 1"
| "pr_rank PMatch = 2"

lemma pr_rank_inject [simp]: "pr_rank a = pr_rank b \<longleftrightarrow> a = b"
  by (cases a; cases b) simp_all

instantiation predicate_result :: linorder
begin

definition less_eq_predicate_result :: "predicate_result \<Rightarrow> predicate_result \<Rightarrow> bool" where
  "less_eq_predicate_result a b \<longleftrightarrow> pr_rank a \<le> pr_rank b"

definition less_predicate_result :: "predicate_result \<Rightarrow> predicate_result \<Rightarrow> bool" where
  "less_predicate_result a b \<longleftrightarrow> pr_rank a < pr_rank b"

instance
  by standard (auto simp: less_eq_predicate_result_def less_predicate_result_def)

end

text \<open>\<^verbatim>\<open>predicateMatch - clause\<close>.\<close>

fun pr_neg :: "predicate_result \<Rightarrow> predicate_result" where
  "pr_neg PMiss = PMatch"
| "pr_neg PUnknown = PUnknown"
| "pr_neg PMatch = PMiss"

datatype routing_error =
  UnknownMatchType match_type | InvalidRoutingAddress | InvalidConditionalJump nat nat | InvalidJump nat nat
| UnknownAction match_action | NoMatchSetHit | UnknownProfile nat | BadAddressLength | RoutingPanic

record destination_predicate =
  dp_span :: routing_span
  dp_domain :: bool
  dp_targets :: "addr list"
  dp_port :: u16

record routing_matcher =
  rm_matches :: "match_set list"
  rm_lpmMatcher :: "trie option list"
  rm_defaultProfileID :: nat
  rm_profiles :: "nat \<Rightarrow> routing_span list option"
  rm_destinations :: "nat \<Rightarrow> destination_predicate list"
  rm_domainMatcher :: "string \<Rightarrow> u32 list"
  rm_httpClientAllowed :: "(addr \<Rightarrow> bytes \<Rightarrow> bool) option"
  rm_outboundUsable :: "(u8 \<Rightarrow> u8 \<Rightarrow> u8 \<Rightarrow> bool) option"

record routing_predicates =
  rp_input :: routing_input
  rp_ipVersion :: u8
  rp_domainLoaded :: bool
  rp_httpClientChecked :: bool
  rp_httpClientAllowed :: bool

definition lpmKey :: "routing_input \<Rightarrow> match_type \<Rightarrow> bytes" where
  "lpmKey input kind =
     addr_As16 (case kind of
                  MT_IpSet \<Rightarrow> ap_addr (ri_dst input)
                | MT_SourceIpSet \<Rightarrow> ap_addr (ri_src input)
                | MT_Mac \<Rightarrow> addr_From16 (replicate 10 0 @ ri_mac input)
                | _ \<Rightarrow> AddrInvalid)"

definition bitmap_has :: "u32 list option \<Rightarrow> nat \<Rightarrow> bool" where
  "bitmap_has bm i = (case bm of None \<Rightarrow> False | Some ws \<Rightarrow> i div 32 < length ws \<and> bit (ws ! (i div 32)) (i mod 32))"

definition hit_result :: "bool \<Rightarrow> predicate_result" where
  "hit_result hit = (if hit then PMatch else PMiss)"

definition in_port_range :: "match_set \<Rightarrow> u16 \<Rightarrow> bool" where
  "in_port_range ms port = (case ParsePortRange (ms_value ms) of None \<Rightarrow> False | Some (s, e) \<Rightarrow> s \<le> port \<and> port \<le> e)"

definition pred_match :: "routing_matcher \<Rightarrow> routing_predicates \<Rightarrow> match_set \<Rightarrow> routing_predicates \<times> (routing_error + predicate_result)" where
  "pred_match m p ms =
     (let input = rp_input p in
      case ms_type ms of
        MT_HTTPClient \<Rightarrow>
          (let p1 = (if rp_httpClientChecked p then p
                     else p\<lparr>rp_httpClientAllowed := (case rm_httpClientAllowed m of None \<Rightarrow> True | Some f \<Rightarrow> f (ap_addr (ri_src input)) (ri_mac input)),
                            rp_httpClientChecked := True\<rparr>)
           in (p1, Inr (hit_result (rp_httpClientAllowed p1))))
      | MT_DomainSet \<Rightarrow>
          (let p1 = (if rp_domainLoaded p then p
                     else p\<lparr>rp_input := (if ri_domainBitmap input = None \<and> ri_domain input \<noteq> []
                                           then input\<lparr>ri_domainBitmap := Some (rm_domainMatcher m (ri_domain input))\<rparr> else input),
                            rp_domainLoaded := True\<rparr>);
               i = value_index (ms_value ms)
           in (p1, Inr (if bitmap_has (ri_domainBitmap (rp_input p1)) i then PMatch
                        else if bitmap_has (ri_domainBumpBitmap (rp_input p1)) i then PUnknown else PMiss)))
      | MT_Port \<Rightarrow> (p, Inr (hit_result (in_port_range ms (ap_port (ri_dst input)))))
      | MT_SourcePort \<Rightarrow> (p, Inr (hit_result (in_port_range ms (ap_port (ri_src input)))))
      | MT_IpVersion \<Rightarrow> (p, Inr (hit_result (rp_ipVersion p AND ms_value ms ! 0 \<noteq> 0)))
      | MT_L4Proto \<Rightarrow> (p, Inr (hit_result (ri_l4proto input AND ms_value ms ! 0 \<noteq> 0)))
      | MT_ProcessName \<Rightarrow> (p, Inr (hit_result (ri_processName input ! 0 \<noteq> 0 \<and> ms_value ms = ri_processName input)))
      | MT_IfIndex \<Rightarrow>
          (let i = value_index (ms_value ms) in (p, Inr (hit_result (i \<noteq> 0 \<and> (ri_ifindex input = i \<or> ri_physinif input = i)))))
      | MT_Dscp \<Rightarrow> (p, Inr (hit_result (ri_dscp input = ms_value ms ! 0)))
      | MT_Fallback \<Rightarrow> (p, Inr PMatch)
      | MT_Other k \<Rightarrow> (p, Inl (UnknownMatchType (ms_type ms)))
      | _ \<Rightarrow>
          (let i = value_index (ms_value ms)
           in if i < length (rm_lpmMatcher m)
              then (case HasPrefixIP (rm_lpmMatcher m ! i) (lpmKey input (ms_type ms)) of
                      None \<Rightarrow> (p, Inl RoutingPanic)
                    | Some hit \<Rightarrow> (p, Inr (hit_result hit)))
              else (p, Inl RoutingPanic)))"

section \<open>Evaluation\<close>

record routing_evaluation =
  re_outbound :: u8
  re_mark :: nat
  re_must :: bool
  re_captureFlags :: u8
  re_matched :: bool

definition re_zero :: routing_evaluation where
  "re_zero = \<lparr>re_outbound = 0, re_mark = 0, re_must = False, re_captureFlags = 0, re_matched = False\<rparr>"

record eval_state =
  ev_preds :: routing_predicates
  ev_subrule :: predicate_result
  ev_must :: predicate_result
  ev_ruleUnknown :: bool
  ev_flowBump :: bool
  ev_uncertainUntil :: nat
  ev_captureFlags :: u8
  ev_trace :: "routing_execution option"

datatype step_outcome = Return "routing_error + routing_evaluation" eval_state | Advance nat eval_state

definition bump_result :: "eval_state \<Rightarrow> routing_evaluation" where
  "bump_result st = re_zero\<lparr>re_outbound := OutboundControlPlaneRouting, re_must := (ev_must st = PMatch),
                            re_captureFlags := ev_captureFlags st\<rparr>"

text \<open>\<^verbatim>\<open>goto nextRule\<close>: the rule's uncertainty is cleared before the jump.\<close>

definition next_rule :: "nat \<Rightarrow> eval_state \<Rightarrow> step_outcome" where
  "next_rule distance st = Advance distance (st\<lparr>ev_ruleUnknown := False\<rparr>)"

text \<open>The switch on the action of a rule whose clauses all hold or are unknown.\<close>

definition exec_action :: "routing_matcher \<Rightarrow> routing_input \<Rightarrow> bool \<Rightarrow> trace_position \<Rightarrow> match_set \<Rightarrow> eval_state \<Rightarrow> step_outcome" where
  "exec_action m p simulateKernel pos ms st =
     (case ms_action ms of
        MA_Must \<Rightarrow> next_rule 1 (st\<lparr>ev_must := (if \<not> ev_ruleUnknown st then PMatch else max (ev_must st) PUnknown)\<rparr>)
      | MA_Bump \<Rightarrow> next_rule 1 (st\<lparr>ev_flowBump := True\<rparr>)
      | MA_Capture \<Rightarrow>
          (let st1 = st\<lparr>ev_captureFlags := ev_captureFlags st OR (drop_bit matchCaptureShift (ms_flags ms) AND 7)\<rparr>
           in if simulateKernel \<and> ev_captureFlags st1 AND (captureDestination OR captureHTTPRequest) \<noteq> 0
              then Return (Inr (re_zero\<lparr>re_outbound := OutboundControlPlaneRouting, re_captureFlags := ev_captureFlags st1\<rparr>)) st1
              else next_rule 1 st1)
      | MA_FlowEnd \<Rightarrow>
          if (simulateKernel \<and> ev_flowBump st) \<or> ev_must st = PUnknown then Return (Inr (bump_result st)) st else next_rule 1 st
      | MA_Match \<Rightarrow> Return (Inr (re_zero\<lparr>re_matched := True\<rparr>)) st
      | MA_Miss \<Rightarrow> Return (Inr re_zero) st
      | MA_Route \<Rightarrow>
          if has_flag ms matchFlagSkipNoalive \<and>
             (case rm_outboundUsable m of None \<Rightarrow> False | Some f \<Rightarrow> \<not> f (ms_outbound ms) (ri_l4proto p) (rp_ipVersion (ev_preds st)))
          then next_rule 1 (st\<lparr>ev_trace := map_option (\<lambda>t. t\<lparr>tr_noalive := insert pos (tr_noalive t)\<rparr>) (ev_trace st)\<rparr>)
          else if ev_ruleUnknown st then Return (Inr (bump_result st)) st
          else (let forced = (ev_must st = PMatch \<or> has_flag ms matchFlagMust);
                    cf = (if simulateKernel \<and> \<not> forced \<and> ap_port (ri_dst p) = 53 \<and> \<not> has_flag ms matchFlagBypass
                          then ev_captureFlags st OR captureDNS else ev_captureFlags st)
                in Return (Inr \<lparr>re_outbound = ms_outbound ms, re_mark = ms_mark ms, re_must = forced, re_captureFlags = cf,
                                re_matched = False\<rparr>) (st\<lparr>ev_captureFlags := cf\<rparr>))
      | _ \<Rightarrow> Return (Inl (UnknownAction (ms_action ms))) st)"

text \<open>After the clause: negation, a miss, and the actions that continue the rule or enter a block.\<close>

definition exec_clause :: "routing_matcher \<Rightarrow> routing_input \<Rightarrow> bool \<Rightarrow> trace_position \<Rightarrow> nat \<Rightarrow> nat \<Rightarrow> match_set \<Rightarrow> eval_state \<Rightarrow> step_outcome" where
  "exec_clause m p simulateKernel pos position len ms st0 =
     (let clause = (if has_flag ms matchFlagNot then pr_neg (ev_subrule st0) else ev_subrule st0);
          st = st0\<lparr>ev_subrule := PMiss\<rparr>
      in if clause = PMiss
         then next_rule (if ms_action ms = MA_And \<or> ms_action ms = MA_ConditionalJump then ms_mark ms else 1) st
         else let st1 = st\<lparr>ev_ruleUnknown := ev_ruleUnknown st \<or> clause = PUnknown\<rparr>
              in if ms_action ms = MA_And then Advance 1 st1
                 else if ms_action ms = MA_ConditionalJump
                 then (if ms_mark ms = 0 \<or> ms_mark ms > u32_sub len position
                       then Return (Inl (InvalidConditionalJump (snd pos) (ms_mark ms))) st1
                       else next_rule 1 (if ev_ruleUnknown st1
                              then st1\<lparr>ev_uncertainUntil := max (ev_uncertainUntil st1) (u32_add position (ms_mark ms))\<rparr> else st1))
                 else exec_action m p simulateKernel pos ms
                        (st1\<lparr>ev_ruleUnknown := ev_ruleUnknown st1 \<or> position < ev_uncertainUntil st1\<rparr>))"

text \<open>One iteration of the loop on the instruction at the cursor, up to the final \<^verbatim>\<open>advance\<close>.\<close>

definition exec_instr :: "routing_matcher \<Rightarrow> routing_input \<Rightarrow> bool \<Rightarrow> trace_position \<Rightarrow> nat \<Rightarrow> nat \<Rightarrow> match_set \<Rightarrow> eval_state \<Rightarrow> step_outcome" where
  "exec_instr m p simulateKernel pos position len ms st0 =
     (let st = st0\<lparr>ev_trace := map_option (\<lambda>t. t\<lparr>tr_visited := insert pos (tr_visited t), tr_last := pos\<rparr>) (ev_trace st0)\<rparr>;
          r = (if ev_subrule st \<noteq> PMatch
               then (case pred_match m (ev_preds st) ms of
                       (p1, res) \<Rightarrow>
                         let st1 = st\<lparr>ev_preds := p1,
                               ev_trace := map_option (\<lambda>t. t\<lparr>tr_evaluated := insert pos (tr_evaluated t)\<rparr>) (ev_trace st)\<rparr>
                         in (case res of Inl e \<Rightarrow> Inl (e, st1) | Inr v \<Rightarrow> Inr (st1\<lparr>ev_subrule := max (ev_subrule st1) v\<rparr>)))
               else Inr st)
      in case r of
           Inl (e, st1) \<Rightarrow> Return (Inl e) st1
         | Inr st1 \<Rightarrow>
             if ms_action ms = MA_Or then Advance (if ev_subrule st1 = PMatch then ms_mark ms else 1) st1
             else exec_clause m p simulateKernel pos position len ms st1)"

fun eval_loop :: "nat \<Rightarrow> routing_matcher \<Rightarrow> routing_input \<Rightarrow> bool \<Rightarrow> routing_cursor \<Rightarrow> eval_state \<Rightarrow>
    ((routing_error + routing_evaluation) \<times> routing_execution option) option" where
  "eval_loop 0 m p sk c st = None"
| "eval_loop (Suc fuel) m p sk c st =
     (if rc_span c < length (rc_spans c)
      then (let spanIndex = rc_span c; i = rc_instruction c; s = rc_spans c ! spanIndex in
            if ri_stage p = RouteAfterTarget \<and> sp_phase s = PhaseIngress
            then eval_loop fuel m p sk (fst (rc_advance c (u32_sub (sp_end s) i))) st
            else if i \<ge> length (rm_matches m) then Some (Inl RoutingPanic, ev_trace st)
            else case exec_instr m p sk (spanIndex, i) (rc_position c) (rc_length c) (rm_matches m ! i) st of
                   Return r st' \<Rightarrow> Some (r, ev_trace st')
                 | Advance d st' \<Rightarrow>
                     if d = 0 then Some (Inl (InvalidJump i d), ev_trace st')
                     else (case rc_advance c d of
                             (c', ok) \<Rightarrow> if ok then eval_loop fuel m p sk c' st' else Some (Inl (InvalidJump i d), ev_trace st')))
      else Some (Inl NoMatchSetHit, ev_trace st))"

definition initial_state :: "routing_input \<Rightarrow> eval_state" where
  "initial_state p =
     \<lparr>ev_preds = \<lparr>rp_input = p, rp_ipVersion = IpVersionFromAddr (ap_addr (ri_dst p)), rp_domainLoaded = False,
        rp_httpClientChecked = False, rp_httpClientAllowed = False\<rparr>,
      ev_subrule = PMiss, ev_must = PMiss, ev_ruleUnknown = False, ev_flowBump = False, ev_uncertainUntil = 0,
      ev_captureFlags = 0, ev_trace = ri_trace p\<rparr>"

definition simulate_kernel :: "routing_input \<Rightarrow> bool" where
  "simulate_kernel p \<longleftrightarrow> (ri_kernel p \<or> ri_domainBumpBitmap p \<noteq> None) \<and> ri_stage p \<noteq> RouteAfterTarget"

text \<open>
  The fuel is one more than the number of instructions of the profile: every iteration moves the
  cursor forward. No result means that the loop did not end within it.
\<close>

definition evaluateSpans :: "routing_matcher \<Rightarrow> routing_span list \<Rightarrow> routing_input \<Rightarrow>
    ((routing_error + routing_evaluation) \<times> routing_execution option) option" where
  "evaluateSpans m spans p =
     (if \<not> addr_port_IsValid (ri_src p) \<or> \<not> addr_port_IsValid (ri_dst p) then Some (Inl InvalidRoutingAddress, ri_trace p)
      else eval_loop (Suc (spanExecutionLen spans)) m p (simulate_kernel p) (newRoutingCursor spans) (initial_state p))"

definition rm_match :: "routing_matcher \<Rightarrow> routing_input \<Rightarrow> (routing_error + (u8 \<times> nat \<times> bool)) option" where
  "rm_match m p0 =
     (let p = (if ri_profileID p0 = 0 then p0\<lparr>ri_profileID := rm_defaultProfileID m\<rparr> else p0) in
      case rm_profiles m (ri_profileID p) of
        None \<Rightarrow> Some (Inl (UnknownProfile (ri_profileID p)))
      | Some spans \<Rightarrow>
          (case evaluateSpans m spans p of
             None \<Rightarrow> None
           | Some (Inl e, _) \<Rightarrow> Some (Inl e)
           | Some (Inr r, _) \<Rightarrow> Some (Inr (re_outbound r, re_mark r, re_must r))))"

text \<open>\<^verbatim>\<open>Match\<close>: the byte-oriented entry point; the optional bitmaps are a list of at most two.\<close>

definition rm_Match :: "routing_matcher \<Rightarrow> bytes \<Rightarrow> bytes \<Rightarrow> u16 \<Rightarrow> u16 \<Rightarrow> u8 \<Rightarrow> string \<Rightarrow> bytes \<Rightarrow> nat \<Rightarrow> u8 \<Rightarrow> bytes \<Rightarrow>
    u32 list option list \<Rightarrow> (routing_error + (u8 \<times> nat \<times> bool)) option" where
  "rm_Match m source dest sport dport proto domain pname ifindex dscp mac bitmaps =
     (if length source \<noteq> 16 \<or> length dest \<noteq> 16 \<or> length mac \<noteq> 16 then Some (Inl BadAddressLength)
      else let p = \<lparr>ri_src = \<lparr>ap_addr = addr_Unmap (addr_From16 source), ap_port = sport\<rparr>,
                    ri_dst = \<lparr>ap_addr = addr_Unmap (addr_From16 dest), ap_port = dport\<rparr>,
                    ri_l4proto = proto, ri_domain = domain, ri_processName = pname, ri_ifindex = ifindex, ri_profileID = 0,
                    ri_physinif = 0, ri_dscp = dscp, ri_mac = drop 10 mac, ri_domainBitmap = None, ri_domainBumpBitmap = None,
                    ri_kernel = False, ri_stage = RouteFromIngress, ri_trace = None\<rparr>;
               p1 = (if length bitmaps > 0 then p\<lparr>ri_domainBitmap := bitmaps ! 0\<rparr> else p);
               p2 = (if length bitmaps > 1 then p1\<lparr>ri_domainBumpBitmap := bitmaps ! 1, ri_kernel := True\<rparr> else p1)
           in rm_match m p2)"

end
