(* ===== verification/Routing_Cursor.thy ===== *)
theory Routing_Cursor
  imports Routing_VM
begin

text \<open>
  The cursor of a profile refines an index into the flattened instruction sequence of its spans,
  and the evaluation loop refines a machine on that sequence, which always ends: the number of
  iterations allowed in \<open>evaluateSpans\<close> is never exhausted on well-formed spans.
\<close>

section \<open>The instruction sequence of a profile\<close>

definition wf_spans :: "routing_span list \<Rightarrow> bool" where
  "wf_spans spans \<longleftrightarrow> (\<forall>s \<in> set spans. sp_start s \<le> sp_end s \<and> sp_end s < u32_mod) \<and>
     sum_list (map (\<lambda>s. sp_end s - sp_start s) spans) < u32_mod"

definition span_seq :: "routing_span list \<Rightarrow> nat \<Rightarrow> trace_position list" where
  "span_seq spans k = map (Pair k) [sp_start (spans ! k)..<sp_end (spans ! k)]"

definition seq_from :: "routing_span list \<Rightarrow> nat \<Rightarrow> trace_position list" where
  "seq_from spans k = concat (map (span_seq spans) [k..<length spans])"

definition flat :: "routing_span list \<Rightarrow> trace_position list" where
  "flat spans = seq_from spans 0"

lemma seq_from_step: "k < length spans \<Longrightarrow> seq_from spans k = span_seq spans k @ seq_from spans (Suc k)"
  by (simp add: seq_from_def upt_conv_Cons)

lemma seq_from_end: "length spans \<le> k \<Longrightarrow> seq_from spans k = []"
  by (simp add: seq_from_def)

lemma length_flat: "length (flat spans) = sum_list (map (\<lambda>s. sp_end s - sp_start s) spans)"
proof -
  have "map (\<lambda>k. sp_end (spans ! k) - sp_start (spans ! k)) [0..<length spans] = map (\<lambda>s. sp_end s - sp_start s) spans"
    by (rule nth_equalityI) simp_all
  then show ?thesis by (simp add: flat_def seq_from_def length_concat span_seq_def comp_def)
qed

lemma span_len_wf: "wf_spans spans \<Longrightarrow> s \<in> set spans \<Longrightarrow> span_len s = sp_end s - sp_start s"
  by (auto simp: span_len_def wf_spans_def u32_simps)

lemma spanExecutionLen_flat: "wf_spans spans \<Longrightarrow> spanExecutionLen spans = length (flat spans)"
proof -
  assume wf: "wf_spans spans"
  have "foldl (\<lambda>l s. l + span_len s) a ss = a + sum_list (map span_len ss)" for a ss
    by (induction ss arbitrary: a) simp_all
  then have "spanExecutionLen spans = sum_list (map span_len spans)" by (simp add: spanExecutionLen_def)
  moreover have "map span_len spans = map (\<lambda>s. sp_end s - sp_start s) spans" using span_len_wf [OF wf] by simp
  ultimately show ?thesis by (simp only: length_flat)
qed

text \<open>What is left of the sequence at instruction \<open>i\<close> of span \<open>k\<close>.\<close>

definition rest_at :: "routing_span list \<Rightarrow> nat \<Rightarrow> nat \<Rightarrow> trace_position list" where
  "rest_at spans k i = map (Pair k) [i..<sp_end (spans ! k)] @ seq_from spans (Suc k)"

definition cursor_at :: "routing_span list \<Rightarrow> nat \<Rightarrow> routing_cursor \<Rightarrow> bool" where
  "cursor_at spans n c \<longleftrightarrow> rc_spans c = spans \<and> rc_length c = length (flat spans) \<and> rc_position c = n \<and> n \<le> length (flat spans) \<and>
     (if rc_span c < length spans
      then sp_start (spans ! rc_span c) \<le> rc_instruction c \<and> rc_instruction c < sp_end (spans ! rc_span c) \<and>
           drop n (flat spans) = rest_at spans (rc_span c) (rc_instruction c)
      else n = length (flat spans))"

lemma drop_nonempty_tail: "length xs \<le> d \<Longrightarrow> drop d (xs @ ys) = drop (d - length xs) ys"
  by simp

lemma seq_from_rest: "k < length spans \<Longrightarrow> seq_from spans k = rest_at spans k (sp_start (spans ! k))"
  by (simp add: seq_from_step span_seq_def rest_at_def)

lemma advance_loop_rest:
  assumes wf: "wf_spans spans"
  shows "k < length spans \<Longrightarrow> d < u32_mod \<Longrightarrow> (i = 0 \<or> sp_start (spans ! k) \<le> i \<and> i < sp_end (spans ! k)) \<Longrightarrow>
    (case advance_loop spans k i d of (k', i') \<Rightarrow>
       if d < length (rest_at spans k (max (sp_start (spans ! k)) i))
       then k' < length spans \<and> sp_start (spans ! k') \<le> i' \<and> i' < sp_end (spans ! k') \<and>
            drop d (rest_at spans k (max (sp_start (spans ! k)) i)) = rest_at spans k' i'
       else k' = length spans)"
proof (induction "length spans - k" arbitrary: k i d)
  case 0
  then show ?case by simp
next
  case (Suc x)
  let ?s = "sp_start (spans ! k)" and ?e = "sp_end (spans ! k)"
  define ins where "ins = max ?s i"
  have sk: "?s \<le> ?e" "?e < u32_mod" using wf Suc.prems(1) by (auto simp: wf_spans_def)
  have ins: "?s \<le> ins" "ins \<le> ?e" using Suc.prems(3) sk by (auto simp: ins_def)
  have rem: "u32_sub ?e ins = ?e - ins" using ins sk by (simp add: u32_simps)
  have mx: "(if i < ?s then ?s else i) = ins" by (simp add: ins_def max_def)
  have R: "rest_at spans k ins = map (Pair k) [ins..<?e] @ seq_from spans (Suc k)" by (simp add: rest_at_def)
  show ?case unfolding ins_def [symmetric]
  proof (cases "d < ?e - ins")
    case True
    then have "advance_loop spans k i d = (k, ins + d)"
      using Suc.prems(1) rem mx sk by (simp add: advance_loop.simps [of spans k i d] Let_def u32_simps)
    moreover have "drop d (rest_at spans k ins) = rest_at spans k (ins + d)"
      using True by (simp add: R rest_at_def [of spans k "ins + d"] drop_map)
    moreover have "d < length (rest_at spans k ins)" using True by (simp add: R)
    ultimately show "case advance_loop spans k i d of (k', i') \<Rightarrow>
       if d < length (rest_at spans k ins)
       then k' < length spans \<and> sp_start (spans ! k') \<le> i' \<and> i' < sp_end (spans ! k') \<and>
            drop d (rest_at spans k ins) = rest_at spans k' i'
       else k' = length spans"
      using True Suc.prems(1) ins by simp
  next
    case False
    let ?d = "d - (?e - ins)"
    have eq: "advance_loop spans k i d = advance_loop spans (Suc k) 0 ?d"
      using Suc.prems(1,2) rem mx False by (simp add: advance_loop.simps [of spans k i d] Let_def u32_simps)
    have len: "length (rest_at spans k ins) = (?e - ins) + length (seq_from spans (Suc k))" by (simp add: R)
    have dr: "drop d (rest_at spans k ins) = drop ?d (seq_from spans (Suc k))" using False by (simp add: R)
    show "case advance_loop spans k i d of (k', i') \<Rightarrow>
       if d < length (rest_at spans k ins)
       then k' < length spans \<and> sp_start (spans ! k') \<le> i' \<and> i' < sp_end (spans ! k') \<and>
            drop d (rest_at spans k ins) = rest_at spans k' i'
       else k' = length spans"
    proof (cases "Suc k < length spans")
      case True
      have "x = length spans - Suc k" using Suc(2) by simp
      from Suc(1) [OF this True, of ?d 0] Suc.prems(2)
      show ?thesis using False unfolding eq len dr
        by (simp add: seq_from_rest [OF True] less_diff_conv2 add.commute split: prod.splits if_splits)
    next
      case fin: False
      then have "advance_loop spans (Suc k) 0 ?d = (length spans, 0)"
        using Suc.prems(1) by (simp add: advance_loop.simps [of spans "Suc k"])
      then show ?thesis using fin False unfolding eq len by (simp add: seq_from_end)
    qed
  qed
qed

lemma cursor_advance:
  assumes wf: "wf_spans spans" and c: "cursor_at spans n c" and d: "n + d \<le> length (flat spans)"
  shows "\<exists>c'. rc_advance c d = (c', True) \<and> cursor_at spans (n + d) c'"
proof -
  have small: "length (flat spans) < u32_mod" using wf by (simp add: wf_spans_def length_flat)
  have f: "rc_spans c = spans" "rc_length c = length (flat spans)" "rc_position c = n" using c by (simp_all add: cursor_at_def)
  have pos: "u32_add n d = n + d" "u32_sub (length (flat spans)) n = length (flat spans) - n" using d small by (simp_all add: u32_simps)
  obtain k' i' where adv: "advance_loop spans (rc_span c) (rc_instruction c) d = (k', i')" by fastforce
  have eq: "rc_advance c d = (c\<lparr>rc_position := n + d, rc_span := k', rc_instruction := i'\<rparr>, True)"
    using d adv by (simp add: rc_advance_def f pos)
  have "cursor_at spans (n + d) (c\<lparr>rc_position := n + d, rc_span := k', rc_instruction := i'\<rparr>)"
  proof (cases "rc_span c < length spans")
    case True
    let ?i = "rc_instruction c" and ?k = "rc_span c"
    have i: "sp_start (spans ! ?k) \<le> ?i" "?i < sp_end (spans ! ?k)" and R: "drop n (flat spans) = rest_at spans ?k ?i"
      using c True by (auto simp: cursor_at_def)
    have mx: "max (sp_start (spans ! ?k)) ?i = ?i" using i by simp
    have len: "length (rest_at spans ?k ?i) = length (flat spans) - n" by (simp add: R [symmetric])
    have drop_eq: "drop (n + d) (flat spans) = drop d (rest_at spans ?k ?i)" by (simp add: R [symmetric] add.commute)
    from advance_loop_rest [OF wf True, of d ?i] i d small adv
    show ?thesis unfolding mx len using d by (auto simp: cursor_at_def f drop_eq split: if_splits)
  next
    case False
    then have n: "n = length (flat spans)" "d = 0" using c d by (auto simp: cursor_at_def)
    have "(k', i') = (rc_span c, rc_instruction c)" using adv False by (simp add: advance_loop.simps [of spans])
    then show ?thesis using c False n by (simp add: cursor_at_def)
  qed
  then show ?thesis using eq by blast
qed

lemma cursor_advance_fails:
  assumes "wf_spans spans" "cursor_at spans n c" "length (flat spans) < n + d"
  shows "rc_advance c d = (c, False)"
proof -
  have small: "length (flat spans) < u32_mod" using assms(1) by (simp add: wf_spans_def length_flat)
  have f: "rc_length c = length (flat spans)" "rc_position c = n" "n \<le> length (flat spans)" using assms(2) by (simp_all add: cursor_at_def)
  have "u32_sub (length (flat spans)) n = length (flat spans) - n" using f small by (simp add: u32_simps)
  moreover have "length (flat spans) - n < d" using assms(3) f(3) by linarith
  ultimately show ?thesis using f by (simp add: rc_advance_def)
qed

lemma cursor_start: "wf_spans spans \<Longrightarrow> cursor_at spans 0 (newRoutingCursor spans)"
proof -
  assume wf: "wf_spans spans"
  have small: "length (flat spans) < u32_mod" using wf by (simp add: wf_spans_def length_flat)
  obtain k' i' where adv: "advance_loop spans 0 0 0 = (k', i')" by fastforce
  have eq: "newRoutingCursor spans = \<lparr>rc_spans = spans, rc_span = k', rc_instruction = i', rc_position = 0, rc_length = length (flat spans)\<rparr>"
    using adv small by (simp add: newRoutingCursor_def rc_advance_def spanExecutionLen_flat [OF wf] u32_add_def)
  show ?thesis
  proof (cases "0 < length spans")
    case True
    have "flat spans = rest_at spans 0 (max (sp_start (spans ! 0)) 0)" by (simp add: flat_def seq_from_rest [OF True])
    then show ?thesis using advance_loop_rest [OF wf True, of 0 0] adv unfolding eq by (auto simp: cursor_at_def split: if_splits)
  next
    case False
    then show ?thesis unfolding eq by (simp add: cursor_at_def flat_def seq_from_def)
  qed
qed

lemma cursor_reads:
  assumes "cursor_at spans n c" "n < length (flat spans)"
  shows "rc_span c < length spans" "flat spans ! n = (rc_span c, rc_instruction c)"
proof -
  show k: "rc_span c < length spans" using assms by (auto simp: cursor_at_def split: if_splits)
  have "drop n (flat spans) = rest_at spans (rc_span c) (rc_instruction c)" "rc_instruction c < sp_end (spans ! rc_span c)"
    using assms k by (auto simp: cursor_at_def)
  then have "drop n (flat spans) ! 0 = (rc_span c, rc_instruction c)" by (simp add: rest_at_def nth_append upt_conv_Cons)
  then show "flat spans ! n = (rc_span c, rc_instruction c)" using assms(2) by simp
qed

section \<open>The machine on the instruction sequence\<close>

text \<open>
  An entry has its position in the profile, its instruction and whether it is skipped because the
  target has been selected and the entry belongs to an ingress span.
\<close>

type_synonym program = "(trace_position \<times> match_set \<times> bool) list"

definition profile_program :: "routing_matcher \<Rightarrow> routing_span list \<Rightarrow> routing_input \<Rightarrow> program" where
  "profile_program m spans p =
     map (\<lambda>(k, i). ((k, i), rm_matches m ! i, ri_stage p = RouteAfterTarget \<and> sp_phase (spans ! k) = PhaseIngress)) (flat spans)"

function vm_run :: "routing_matcher \<Rightarrow> routing_input \<Rightarrow> bool \<Rightarrow> program \<Rightarrow> nat \<Rightarrow> eval_state \<Rightarrow>
    (routing_error + routing_evaluation) \<times> routing_execution option" where
  "vm_run m p sk prog n st =
     (if n < length prog
      then (case prog ! n of
              (pos, ms, skip) \<Rightarrow>
                if skip then vm_run m p sk prog (Suc n) st
                else case exec_instr m p sk pos n (length prog) ms st of
                       Return r st' \<Rightarrow> (r, ev_trace st')
                     | Advance d st' \<Rightarrow>
                         if d = 0 \<or> length prog - n < d then (Inl (InvalidJump (snd pos) d), ev_trace st')
                         else vm_run m p sk prog (n + d) st')
      else (Inl NoMatchSetHit, ev_trace st))"
  by pat_completeness auto
termination
  by (relation "measure (\<lambda>(m, p, sk, prog, n, st). length prog - n)") auto

declare vm_run.simps [simp del]

lemma length_profile_program [simp]: "length (profile_program m spans p) = length (flat spans)"
  by (simp add: profile_program_def)

lemma vm_run_skips:
  "n + d \<le> length prog \<Longrightarrow> (\<And>j. j < d \<Longrightarrow> snd (snd (prog ! (n + j)))) \<Longrightarrow> vm_run m p sk prog n st = vm_run m p sk prog (n + d) st"
proof (induction d)
  case 0
  show ?case by simp
next
  case (Suc d)
  obtain pos ms where e: "prog ! (n + d) = (pos, ms, True)" using Suc.prems(2) [of d] by (metis lessI prod.collapse)
  have "vm_run m p sk prog n st = vm_run m p sk prog (n + d) st" using Suc by simp
  also have "\<dots> = vm_run m p sk prog (n + Suc d) st"
    using Suc.prems(1) e by (simp add: vm_run.simps [of m p sk prog "n + d"])
  finally show ?case .
qed

definition spans_in :: "routing_matcher \<Rightarrow> routing_span list \<Rightarrow> bool" where
  "spans_in m spans \<longleftrightarrow> (\<forall>s \<in> set spans. sp_end s \<le> length (rm_matches m))"

lemma flat_in_span:
  assumes "cursor_at spans n c" "n < length (flat spans)" "j < sp_end (spans ! rc_span c) - rc_instruction c"
  shows "n + j < length (flat spans) \<and> flat spans ! (n + j) = (rc_span c, rc_instruction c + j)"
proof -
  have "rc_span c < length spans" using cursor_reads [OF assms(1,2)] by simp
  then have d: "drop n (flat spans) = map (Pair (rc_span c)) [rc_instruction c..<sp_end (spans ! rc_span c)] @ seq_from spans (Suc (rc_span c))"
    using assms(1) by (simp add: cursor_at_def rest_at_def)
  have lt: "n + j < length (flat spans)"
    using arg_cong [OF d, of length] assms(2,3) by simp
  have "flat spans ! (n + j) = drop n (flat spans) ! j" using lt by simp
  also have "\<dots> = (rc_span c, rc_instruction c + j)" unfolding d using assms(3) by (simp add: nth_append)
  finally show ?thesis using lt by simp
qed

lemma eval_loop_refines:
  assumes wf: "wf_spans spans" and r: "spans_in m spans"
  shows "cursor_at spans n c \<Longrightarrow> length (flat spans) - n < fuel \<Longrightarrow>
    eval_loop fuel m p sk c st = Some (vm_run m p sk (profile_program m spans p) n st)"
proof (induction fuel arbitrary: n c st)
  case 0
  then show ?case by simp
next
  case (Suc fuel)
  let ?prog = "profile_program m spans p" and ?k = "rc_span c" and ?i = "rc_instruction c"
  have f: "rc_spans c = spans" "rc_length c = length (flat spans)" "rc_position c = n" using Suc.prems(1) by (simp_all add: cursor_at_def)
  show ?case
  proof (cases "n < length (flat spans)")
    case False
    then have "\<not> ?k < length spans"
      using Suc.prems(1) by (auto simp: cursor_at_def rest_at_def split: if_splits)
    then show ?thesis using False f by (simp add: vm_run.simps [of m p sk ?prog n])
  next
    case True
    note rd = cursor_reads [OF Suc.prems(1) True]
    define skip where "skip \<longleftrightarrow> ri_stage p = RouteAfterTarget \<and> sp_phase (spans ! ?k) = PhaseIngress"
    have e: "?prog ! n = ((?k, ?i), rm_matches m ! ?i, skip)" using True rd by (simp add: profile_program_def skip_def)
    have ie: "?i < sp_end (spans ! ?k)" "sp_end (spans ! ?k) < u32_mod"
      using Suc.prems(1) rd wf by (auto simp: cursor_at_def wf_spans_def)
    have "sp_end (spans ! ?k) \<le> length (rm_matches m)" using r rd(1) nth_mem by (auto simp: spans_in_def)
    then have il: "?i < length (rm_matches m)" using ie by simp
    show ?thesis
    proof (cases skip)
      case sk: True
      let ?d = "sp_end (spans ! ?k) - ?i"
      have d: "u32_sub (sp_end (spans ! ?k)) ?i = ?d" using ie by (simp add: u32_simps)
      have in_span: "n + j < length (flat spans) \<and> flat spans ! (n + j) = (?k, ?i + j)" if "j < ?d" for j
        using flat_in_span [OF Suc.prems(1) True that] .
      have "n + (?d - 1) < length (flat spans)" using in_span [of "?d - 1"] ie(1) by (metis diff_less zero_less_diff zero_less_one)
      then have nd: "n + ?d \<le> length (flat spans)" using ie(1) by linarith
      obtain c' where c': "rc_advance c ?d = (c', True)" "cursor_at spans (n + ?d) c'"
        using cursor_advance [OF wf Suc.prems(1) nd] by blast
      have "eval_loop (Suc fuel) m p sk c st = eval_loop fuel m p sk c' st"
        using sk rd c'(1) f d by (simp add: skip_def Let_def)
      also have "\<dots> = Some (vm_run m p sk ?prog (n + ?d) st)"
      proof (rule Suc.IH [OF c'(2)])
        show "length (flat spans) - (n + ?d) < fuel" using Suc.prems(2) ie(1) True by linarith
      qed
      also have "vm_run m p sk ?prog (n + ?d) st = vm_run m p sk ?prog n st"
      proof (rule vm_run_skips [symmetric])
        show "n + ?d \<le> length ?prog" using nd by simp
        show "snd (snd (?prog ! (n + j)))" if "j < ?d" for j
          using in_span [OF that] sk by (simp add: profile_program_def skip_def)
      qed
      finally show ?thesis .
    next
      case False
      show ?thesis
      proof (cases "exec_instr m p sk (?k, ?i) n (length (flat spans)) (rm_matches m ! ?i) st")
        case (Return res st')
        then show ?thesis using True False e il f rd
          by (simp add: vm_run.simps [of m p sk ?prog n] skip_def [symmetric] Let_def)
      next
        case (Advance d st')
        have lp: "eval_loop (Suc fuel) m p sk c st = (if d = 0 then Some (Inl (InvalidJump ?i d), ev_trace st')
            else case rc_advance c d of (c', ok) \<Rightarrow> if ok then eval_loop fuel m p sk c' st' else Some (Inl (InvalidJump ?i d), ev_trace st'))"
          using Advance False il f rd by (simp add: skip_def [symmetric] Let_def)
        have vm: "vm_run m p sk ?prog n st = (if d = 0 \<or> length (flat spans) - n < d then (Inl (InvalidJump ?i d), ev_trace st')
            else vm_run m p sk ?prog (n + d) st')"
          using Advance True False e by (simp add: vm_run.simps [of m p sk ?prog n])
        show ?thesis
        proof (cases "d = 0 \<or> length (flat spans) - n < d")
          case bad: True
          show ?thesis unfolding lp vm
            using bad cursor_advance_fails [OF wf Suc.prems(1), of d] True by (cases "d = 0") auto
        next
          case ok: False
          then have nd: "n + d \<le> length (flat spans)" using True by linarith
          obtain c' where c': "rc_advance c d = (c', True)" "cursor_at spans (n + d) c'"
            using cursor_advance [OF wf Suc.prems(1) nd] by blast
          have "length (flat spans) - (n + d) < fuel" using Suc.prems(2) ok True by linarith
          then show ?thesis unfolding lp vm using ok c' Suc.IH [OF c'(2)] by simp
        qed
      qed
    qed
  qed
qed

lemma evaluateSpans_vm:
  assumes "wf_spans spans" "spans_in m spans" "addr_port_IsValid (ri_src p)" "addr_port_IsValid (ri_dst p)"
  shows "evaluateSpans m spans p = Some (vm_run m p (simulate_kernel p) (profile_program m spans p) 0 (initial_state p))"
  using eval_loop_refines [OF assms(1,2) cursor_start [OF assms(1)], of "Suc (spanExecutionLen spans)"] assms
  by (simp add: evaluateSpans_def spanExecutionLen_flat)

end
