(* ===== verification/Routing_Semantics.thy ===== *)
theory Routing_Semantics
  imports Routing_Cursor
begin

text \<open>
  What the routing rules mean, without instructions: a rule is a conjunction of clauses, a clause a
  possibly negated disjunction of predicates, all three-valued, and a block is a group of items under
  a condition. Rules are tried in order; inside a block whose condition is unknown every rule is at
  best unknown. The instruction sequence of such a program, with its jump distances, runs to the same
  result: the single end position of the machine is enough to track nested unknown blocks.
\<close>

section \<open>Structured programs\<close>

record clause =
  cl_ors :: "match_set list"
  cl_tail :: match_set

datatype item = Rule "clause list" clause | Block "clause list" clause "item list"

fun or_code :: "match_set list \<Rightarrow> match_set list" where
  "or_code [] = []"
| "or_code (ms # mss) = ms\<lparr>ms_action := MA_Or, ms_mark := Suc (length mss)\<rparr> # or_code mss"

text \<open>\<open>ext\<close> is the number of instructions of the body that a miss jumps over.\<close>

fun rule_code :: "clause list \<Rightarrow> clause \<Rightarrow> nat \<Rightarrow> match_set list" where
  "rule_code [] c ext = or_code (cl_ors c) @ [cl_tail c]"
| "rule_code (d # ds) c ext =
     or_code (cl_ors d) @ [(cl_tail d)\<lparr>ms_action := MA_And, ms_mark := Suc (length (rule_code ds c ext)) + ext\<rparr>] @ rule_code ds c ext"

definition jump_tail :: "clause \<Rightarrow> nat \<Rightarrow> clause" where
  "jump_tail c n = c\<lparr>cl_tail := (cl_tail c)\<lparr>ms_action := MA_ConditionalJump, ms_mark := Suc n\<rparr>\<rparr>"

fun item_code :: "item \<Rightarrow> match_set list" and items_code :: "item list \<Rightarrow> match_set list" where
  "item_code (Rule cs c) = rule_code cs c 0"
| "item_code (Block cs c body) = rule_code cs (jump_tail c (length (items_code body))) (length (items_code body)) @ items_code body"
| "items_code [] = []"
| "items_code (it # its) = item_code it @ items_code its"

definition rule_action :: "match_action \<Rightarrow> bool" where
  "rule_action a \<longleftrightarrow> a \<noteq> MA_Or \<and> a \<noteq> MA_And \<and> a \<noteq> MA_ConditionalJump"

fun wf_item :: "item \<Rightarrow> bool" and wf_items :: "item list \<Rightarrow> bool" where
  "wf_item (Rule cs c) = rule_action (ms_action (cl_tail c))"
| "wf_item (Block cs c body) = wf_items body"
| "wf_items [] = True"
| "wf_items (it # its) = (wf_item it \<and> wf_items its)"

section \<open>Their meaning\<close>

text \<open>The value of a predicate, with no caches.\<close>

definition fresh_preds :: "routing_input \<Rightarrow> routing_predicates" where
  "fresh_preds p = ev_preds (initial_state p)"

definition pred_value :: "routing_matcher \<Rightarrow> routing_input \<Rightarrow> match_set \<Rightarrow> predicate_result" where
  "pred_value m p ms = (case snd (pred_match m (fresh_preds p) ms) of Inl _ \<Rightarrow> PMiss | Inr v \<Rightarrow> v)"

definition pred_ok :: "routing_matcher \<Rightarrow> routing_input \<Rightarrow> match_set \<Rightarrow> bool" where
  "pred_ok m p ms = (case snd (pred_match m (fresh_preds p) ms) of Inl _ \<Rightarrow> False | Inr _ \<Rightarrow> True)"

fun items_preds :: "item \<Rightarrow> match_set list" and items_preds_list :: "item list \<Rightarrow> match_set list" where
  "items_preds (Rule cs c) = concat (map (\<lambda>d. cl_ors d @ [cl_tail d]) (cs @ [c]))"
| "items_preds (Block cs c body) = concat (map (\<lambda>d. cl_ors d @ [cl_tail d]) (cs @ [c])) @ items_preds_list body"
| "items_preds_list [] = []"
| "items_preds_list (it # its) = items_preds it @ items_preds_list its"

definition clause_value :: "routing_matcher \<Rightarrow> routing_input \<Rightarrow> clause \<Rightarrow> predicate_result" where
  "clause_value m p c =
     (let v = foldr max (map (pred_value m p) (cl_ors c @ [cl_tail c])) PMiss
      in if has_flag (cl_tail c) matchFlagNot then pr_neg v else v)"

definition rule_value :: "routing_matcher \<Rightarrow> routing_input \<Rightarrow> clause list \<Rightarrow> predicate_result" where
  "rule_value m p cs = foldr min (map (clause_value m p) cs) PMatch"

text \<open>What a rule may change for the rules after it.\<close>

record flow_state =
  fs_must :: predicate_result
  fs_bump :: bool
  fs_capture :: u8

definition fs_bump_result :: "flow_state \<Rightarrow> routing_evaluation" where
  "fs_bump_result fs = re_zero\<lparr>re_outbound := OutboundControlPlaneRouting, re_must := (fs_must fs = PMatch), re_captureFlags := fs_capture fs\<rparr>"

text \<open>The effect of a rule that holds (\<open>unknown = False\<close>) or may hold (\<open>unknown = True\<close>).\<close>

definition rule_effect :: "routing_matcher \<Rightarrow> routing_input \<Rightarrow> bool \<Rightarrow> bool \<Rightarrow> match_set \<Rightarrow> flow_state \<Rightarrow> (routing_error + routing_evaluation) + flow_state" where
  "rule_effect m p sk unknown ms fs =
     (case ms_action ms of
        MA_Must \<Rightarrow> Inr (fs\<lparr>fs_must := (if unknown then max (fs_must fs) PUnknown else PMatch)\<rparr>)
      | MA_Bump \<Rightarrow> Inr (fs\<lparr>fs_bump := True\<rparr>)
      | MA_Capture \<Rightarrow>
          (let c = fs_capture fs OR (drop_bit matchCaptureShift (ms_flags ms) AND 7)
           in if sk \<and> c AND (captureDestination OR captureHTTPRequest) \<noteq> 0
              then Inl (Inr (re_zero\<lparr>re_outbound := OutboundControlPlaneRouting, re_captureFlags := c\<rparr>))
              else Inr (fs\<lparr>fs_capture := c\<rparr>))
      | MA_FlowEnd \<Rightarrow> if (sk \<and> fs_bump fs) \<or> fs_must fs = PUnknown then Inl (Inr (fs_bump_result fs)) else Inr fs
      | MA_Match \<Rightarrow> Inl (Inr (re_zero\<lparr>re_matched := True\<rparr>))
      | MA_Miss \<Rightarrow> Inl (Inr re_zero)
      | MA_Route \<Rightarrow>
          if has_flag ms matchFlagSkipNoalive \<and>
             (case rm_outboundUsable m of None \<Rightarrow> False
              | Some f \<Rightarrow> \<not> f (ms_outbound ms) (ri_l4proto p) (IpVersionFromAddr (ap_addr (ri_dst p))))
          then Inr fs
          else if unknown then Inl (Inr (fs_bump_result fs))
          else (let forced = (fs_must fs = PMatch \<or> has_flag ms matchFlagMust)
                in Inl (Inr \<lparr>re_outbound = ms_outbound ms, re_mark = ms_mark ms, re_must = forced,
                     re_captureFlags = (if sk \<and> \<not> forced \<and> ap_port (ri_dst p) = 53 \<and> \<not> has_flag ms matchFlagBypass
                                        then fs_capture fs OR captureDNS else fs_capture fs), re_matched = False\<rparr>))
      | _ \<Rightarrow> Inl (Inl (UnknownAction (ms_action ms))))"

text \<open>First-match semantics; \<open>u\<close> says that an enclosing block is unknown.\<close>

fun sem_item :: "routing_matcher \<Rightarrow> routing_input \<Rightarrow> bool \<Rightarrow> bool \<Rightarrow> item \<Rightarrow> flow_state \<Rightarrow> (routing_error + routing_evaluation) + flow_state"
  and sem_items :: "routing_matcher \<Rightarrow> routing_input \<Rightarrow> bool \<Rightarrow> bool \<Rightarrow> item list \<Rightarrow> flow_state \<Rightarrow> (routing_error + routing_evaluation) + flow_state" where
  "sem_item m p sk u (Rule cs c) fs =
     (let v = rule_value m p (cs @ [c])
      in if v = PMiss then Inr fs else rule_effect m p sk (u \<or> v = PUnknown) (cl_tail c) fs)"
| "sem_item m p sk u (Block cs c body) fs =
     (let v = rule_value m p (cs @ [c])
      in if v = PMiss then Inr fs else sem_items m p sk (u \<or> v = PUnknown) body fs)"
| "sem_items m p sk u [] fs = Inr fs"
| "sem_items m p sk u (it # its) fs =
     (case sem_item m p sk u it fs of Inl r \<Rightarrow> Inl r | Inr fs' \<Rightarrow> sem_items m p sk u its fs')"

definition fs_start :: flow_state where
  "fs_start = \<lparr>fs_must = PMiss, fs_bump = False, fs_capture = 0\<rparr>"

definition sem_program :: "routing_matcher \<Rightarrow> routing_input \<Rightarrow> bool \<Rightarrow> item list \<Rightarrow> routing_error + routing_evaluation" where
  "sem_program m p sk items = (case sem_items m p sk False items fs_start of Inl r \<Rightarrow> r | Inr _ \<Rightarrow> Inl NoMatchSetHit)"

section \<open>Predicate caches\<close>

definition loaded_input :: "routing_matcher \<Rightarrow> routing_input \<Rightarrow> routing_input" where
  "loaded_input m p = (if ri_domainBitmap p = None \<and> ri_domain p \<noteq> []
     then p\<lparr>ri_domainBitmap := Some (rm_domainMatcher m (ri_domain p))\<rparr> else p)"

definition client_allowed :: "routing_matcher \<Rightarrow> routing_input \<Rightarrow> bool" where
  "client_allowed m p = (case rm_httpClientAllowed m of None \<Rightarrow> True | Some f \<Rightarrow> f (ap_addr (ri_src p)) (ri_mac p))"

definition preds_ok :: "routing_matcher \<Rightarrow> routing_input \<Rightarrow> routing_predicates \<Rightarrow> bool" where
  "preds_ok m p rp \<longleftrightarrow> rp_ipVersion rp = IpVersionFromAddr (ap_addr (ri_dst p)) \<and>
     rp_input rp = (if rp_domainLoaded rp then loaded_input m p else p) \<and>
     (rp_httpClientChecked rp \<longrightarrow> rp_httpClientAllowed rp = client_allowed m p)"

lemma preds_ok_fresh: "preds_ok m p (fresh_preds p)"
  by (simp add: preds_ok_def fresh_preds_def initial_state_def)

lemma loaded_input_fields [simp]:
  "ri_src (loaded_input m p) = ri_src p" "ri_dst (loaded_input m p) = ri_dst p" "ri_l4proto (loaded_input m p) = ri_l4proto p"
  "ri_processName (loaded_input m p) = ri_processName p" "ri_ifindex (loaded_input m p) = ri_ifindex p"
  "ri_physinif (loaded_input m p) = ri_physinif p" "ri_dscp (loaded_input m p) = ri_dscp p" "ri_mac (loaded_input m p) = ri_mac p"
  "ri_domainBumpBitmap (loaded_input m p) = ri_domainBumpBitmap p" "lpmKey (loaded_input m p) k = lpmKey p k"
  by (simp_all add: loaded_input_def lpmKey_def cong: match_type.case_cong)

lemma pred_match_cached:
  assumes "preds_ok m p rp"
  shows "snd (pred_match m rp ms) = snd (pred_match m (fresh_preds p) ms) \<and> preds_ok m p (fst (pred_match m rp ms))"
proof -
  have iv: "rp_ipVersion rp = IpVersionFromAddr (ap_addr (ri_dst p))" using assms by (simp add: preds_ok_def)
  have li: "loaded_input m (loaded_input m p) = loaded_input m p" by (simp add: loaded_input_def)
  show ?thesis
    using assms iv
    by (cases "ms_type ms"; cases "rp_domainLoaded rp"; cases "rp_httpClientChecked rp")
       (simp_all add: pred_match_def preds_ok_def fresh_preds_def initial_state_def Let_def client_allowed_def
          loaded_input_def [symmetric] split: option.splits)
qed

section \<open>Running a clause, a rule, a program\<close>

definition code_at :: "program \<Rightarrow> nat \<Rightarrow> match_set list \<Rightarrow> bool" where
  "code_at prog n cs \<longleftrightarrow> n + length cs \<le> length prog \<and> (\<forall>j < length cs. snd (prog ! (n + j)) = (cs ! j, False))"

lemma code_at_append: "code_at prog n (xs @ ys) \<longleftrightarrow> code_at prog n xs \<and> code_at prog (n + length xs) ys"
proof
  assume a: "code_at prog n (xs @ ys)"
  have "snd (prog ! (n + j)) = (xs ! j, False)" if "j < length xs" for j
    using a that by (auto simp: code_at_def nth_append dest: spec [of _ j])
  moreover have "snd (prog ! (n + length xs + j)) = (ys ! j, False)" if "j < length ys" for j
    using a that by (auto simp: code_at_def nth_append add.assoc dest: spec [of _ "length xs + j"])
  ultimately show "code_at prog n xs \<and> code_at prog (n + length xs) ys" using a by (simp add: code_at_def)
next
  assume a: "code_at prog n xs \<and> code_at prog (n + length xs) ys"
  have "snd (prog ! (n + j)) = ((xs @ ys) ! j, False)" if "j < length (xs @ ys)" for j
  proof (cases "j < length xs")
    case True
    then show ?thesis using a by (simp add: code_at_def nth_append)
  next
    case False
    then have "j - length xs < length ys" using that by auto
    then have "snd (prog ! (n + length xs + (j - length xs))) = (ys ! (j - length xs), False)"
      using a unfolding code_at_def by blast
    then show ?thesis using False by (simp add: nth_append)
  qed
  then show "code_at prog n (xs @ ys)" using a by (simp add: code_at_def)
qed

lemma code_at_one: "code_at prog n [ms] \<longleftrightarrow> n < length prog \<and> snd (prog ! n) = (ms, False)"
  by (auto simp: code_at_def)

definition after :: "routing_matcher \<Rightarrow> routing_input \<Rightarrow> bool \<Rightarrow> program \<Rightarrow> trace_position \<Rightarrow> nat \<Rightarrow> step_outcome \<Rightarrow> routing_error + routing_evaluation" where
  "after m p sk prog pos n oc =
     (case oc of Return r st' \<Rightarrow> r
      | Advance d st' \<Rightarrow> if d = 0 \<or> length prog - n < d then Inl (InvalidJump (snd pos) d) else fst (vm_run m p sk prog (n + d) st'))"

lemma vm_unfold:
  assumes "code_at prog n [ms]"
  shows "\<exists>pos. fst (vm_run m p sk prog n st) = after m p sk prog pos n (exec_instr m p sk pos n (length prog) ms st)"
proof -
  obtain pos where "prog ! n = (pos, ms, False)" "n < length prog" using assms unfolding code_at_one by (metis prod.collapse)
  then show ?thesis
    by (intro exI [of _ pos]) (simp add: vm_run.simps [of m p sk prog n] after_def split: step_outcome.splits)
qed

lemma after_Advance:
  assumes "0 < d" "n + d \<le> length prog"
  shows "after m p sk prog pos n (Advance d st) = fst (vm_run m p sk prog (n + d) st)"
proof -
  have "\<not> length prog - n < d" using assms by linarith
  then show ?thesis using assms(1) by (simp add: after_def)
qed

definition abs_state :: "eval_state \<Rightarrow> flow_state" where
  "abs_state st = \<lparr>fs_must = ev_must st, fs_bump = ev_flowBump st, fs_capture = ev_captureFlags st\<rparr>"

text \<open>States that agree on everything but the caches, the trace and the partial clause.\<close>

definition same_flow :: "routing_matcher \<Rightarrow> routing_input \<Rightarrow> eval_state \<Rightarrow> eval_state \<Rightarrow> bool" where
  "same_flow m p st st' \<longleftrightarrow> abs_state st' = abs_state st \<and> ev_ruleUnknown st' = ev_ruleUnknown st \<and>
     ev_uncertainUntil st' = ev_uncertainUntil st \<and> preds_ok m p (ev_preds st')"

lemma pred_match_cong:
  "ms_type a = ms_type b \<Longrightarrow> ms_value a = ms_value b \<Longrightarrow> pred_match m rp a = pred_match m rp b"
  unfolding pred_match_def in_port_range_def by (simp only:)

lemma pred_match_upd [simp]: "pred_match m rp (ms\<lparr>ms_action := a, ms_mark := k\<rparr>) = pred_match m rp ms"
  by (rule pred_match_cong) simp_all

lemma has_flag_upd [simp]: "has_flag (ms\<lparr>ms_action := a, ms_mark := k\<rparr>) f = has_flag ms f"
  by (simp add: has_flag_def)

lemma pred_value_upd [simp]: "pred_value m p (ms\<lparr>ms_action := a, ms_mark := k\<rparr>) = pred_value m p ms"
  by (simp add: pred_value_def)

lemma pred_ok_upd [simp]: "pred_ok m p (ms\<lparr>ms_action := a, ms_mark := k\<rparr>) = pred_ok m p ms"
  by (simp add: pred_ok_def)

lemma max_PMatch [simp]: "max PMatch (v :: predicate_result) = PMatch" "max v PMatch = PMatch"
  by (cases v; simp add: max_def less_eq_predicate_result_def)+

lemma max_PMiss [simp]: "max PMiss (v :: predicate_result) = v" "max v PMiss = v"
  by (cases v; simp add: max_def less_eq_predicate_result_def)+

lemma exec_instr_evaluates:
  assumes "pred_ok m p ms" "preds_ok m p (ev_preds st)"
  shows "\<exists>st'. same_flow m p st st' \<and> ev_subrule st' = max (ev_subrule st) (pred_value m p ms) \<and>
    exec_instr m p sk pos n len ms st =
      (if ms_action ms = MA_Or then Advance (if ev_subrule st' = PMatch then ms_mark ms else 1) st'
       else exec_clause m p sk pos n len ms st')"
proof (cases "ev_subrule st = PMatch")
  case True
  show ?thesis
    by (intro exI [of _ "st\<lparr>ev_trace := map_option (\<lambda>t. t\<lparr>tr_visited := insert pos (tr_visited t), tr_last := pos\<rparr>) (ev_trace st)\<rparr>"])
       (use True assms in \<open>simp add: exec_instr_def same_flow_def abs_state_def\<close>)
next
  case False
  obtain rp v where pm: "pred_match m (ev_preds st) ms = (rp, Inr v)" and v: "v = pred_value m p ms" and rp: "preds_ok m p rp"
    using pred_match_cached [OF assms(2), of ms] assms(1)
    by (cases "pred_match m (ev_preds st) ms") (auto simp: pred_ok_def pred_value_def split: sum.splits)
  let ?st = "st\<lparr>ev_preds := rp, ev_trace := map_option (\<lambda>t. t\<lparr>tr_evaluated := insert pos (tr_evaluated t)\<rparr>)
      (map_option (\<lambda>t. t\<lparr>tr_visited := insert pos (tr_visited t), tr_last := pos\<rparr>) (ev_trace st)),
    ev_subrule := max (ev_subrule st) v\<rparr>"
  show ?thesis
    by (intro exI [of _ ?st]) (use False pm v rp in \<open>simp add: exec_instr_def same_flow_def abs_state_def\<close>)
qed

lemma same_flow_trans: "same_flow m p st st' \<Longrightarrow> same_flow m p st' st'' \<Longrightarrow> same_flow m p st st''"
  by (simp add: same_flow_def)

lemma foldr_max_shift: "foldr max vs (max s (v :: predicate_result)) = max v (foldr max vs s)"
  by (induction vs) (simp_all add: max.commute max.left_commute)

lemma foldr_max_PMatch: "foldr max vs PMatch = (PMatch :: predicate_result)"
  by (induction vs) simp_all

lemma clause_runs:
  assumes tail: "ms_action tail \<noteq> MA_Or"
  shows "code_at prog n (or_code ors @ [tail]) \<Longrightarrow> \<forall>ms \<in> set (ors @ [tail]). pred_ok m p ms \<Longrightarrow> preds_ok m p (ev_preds st) \<Longrightarrow>
    \<exists>pos st'. same_flow m p st st' \<and> ev_subrule st' = foldr max (map (pred_value m p) (ors @ [tail])) (ev_subrule st) \<and>
      fst (vm_run m p sk prog n st) =
        after m p sk prog pos (n + length ors) (exec_clause m p sk pos (n + length ors) (length prog) tail st')"
proof (induction ors arbitrary: n st)
  case Nil
  have at: "code_at prog n [tail]" using Nil.prems(1) by simp
  obtain pos where pos: "fst (vm_run m p sk prog n st) = after m p sk prog pos n (exec_instr m p sk pos n (length prog) tail st)"
    using vm_unfold [OF at] by blast
  obtain st' where "same_flow m p st st'" "ev_subrule st' = max (ev_subrule st) (pred_value m p tail)"
    "exec_instr m p sk pos n (length prog) tail st = exec_clause m p sk pos n (length prog) tail st'"
    using exec_instr_evaluates [of m p tail st sk pos n "length prog"] Nil.prems tail by auto
  then show ?case using pos by (intro exI [of _ pos] exI [of _ st']) (simp add: max.commute)
next
  case (Cons ms mss)
  let ?ms = "ms\<lparr>ms_action := MA_Or, ms_mark := Suc (length mss)\<rparr>"
  have at: "code_at prog n [?ms]" "code_at prog (Suc n) (or_code mss @ [tail])"
    using Cons.prems(1) code_at_append [of prog n "[?ms]" "or_code mss @ [tail]"] by simp_all
  obtain pos where pos: "fst (vm_run m p sk prog n st) = after m p sk prog pos n (exec_instr m p sk pos n (length prog) ?ms st)"
    using vm_unfold [OF at(1)] by blast
  obtain st1 where st1: "same_flow m p st st1" "ev_subrule st1 = max (ev_subrule st) (pred_value m p ms)"
    "exec_instr m p sk pos n (length prog) ?ms st = Advance (if ev_subrule st1 = PMatch then Suc (length mss) else 1) st1"
    using exec_instr_evaluates [of m p ?ms st sk pos n "length prog"] Cons.prems by auto
  have len: "length (or_code mss) = length mss" for mss by (induction mss) simp_all
  have fit: "n + Suc (length mss) < length prog" using at(2) by (simp add: code_at_def len)
  have p1: "preds_ok m p (ev_preds st1)" using st1(1) by (simp add: same_flow_def)
  show ?case
  proof (cases "ev_subrule st1 = PMatch")
    case True
    have t: "code_at prog (n + Suc (length mss)) [tail]" using at(2) by (simp add: code_at_append len)
    have run: "fst (vm_run m p sk prog n st) = fst (vm_run m p sk prog (n + Suc (length mss)) st1)"
      using pos st1(3) True fit by (simp add: after_Advance)
    obtain pos' where pos': "fst (vm_run m p sk prog (n + Suc (length mss)) st1) =
        after m p sk prog pos' (n + Suc (length mss)) (exec_instr m p sk pos' (n + Suc (length mss)) (length prog) tail st1)"
      using vm_unfold [OF t] by blast
    obtain st' where st': "same_flow m p st1 st'" "ev_subrule st' = max (ev_subrule st1) (pred_value m p tail)"
      "exec_instr m p sk pos' (n + Suc (length mss)) (length prog) tail st1 =
        exec_clause m p sk pos' (n + Suc (length mss)) (length prog) tail st'"
      using exec_instr_evaluates [of m p tail st1 sk pos' "n + Suc (length mss)" "length prog"] Cons.prems(2) p1 tail by auto
    have "foldr max (map (pred_value m p) ((ms # mss) @ [tail])) (ev_subrule st) = PMatch"
      using True st1(2) foldr_max_shift [of "map (pred_value m p) (mss @ [tail])" "ev_subrule st" "pred_value m p ms"]
      by (simp add: foldr_max_PMatch)
    then show ?thesis
      using run pos' st' same_flow_trans [OF st1(1) st'(1)] True
      by (intro exI [of _ pos'] exI [of _ st']) (simp add: max.commute)
  next
    case False
    have run: "fst (vm_run m p sk prog n st) = fst (vm_run m p sk prog (Suc n) st1)"
      using pos st1(3) False fit by (simp add: after_Advance)
    obtain pos' st' where st': "same_flow m p st1 st'"
      "ev_subrule st' = foldr max (map (pred_value m p) (mss @ [tail])) (ev_subrule st1)"
      "fst (vm_run m p sk prog (Suc n) st1) =
        after m p sk prog pos' (Suc n + length mss) (exec_clause m p sk pos' (Suc n + length mss) (length prog) tail st')"
      using Cons.IH [OF at(2) _ p1] Cons.prems(2) by auto
    then show ?thesis
      using run same_flow_trans [OF st1(1) st'(1)] st1(2)
        foldr_max_shift [of "map (pred_value m p) (mss @ [tail])" "ev_subrule st" "pred_value m p ms"]
      by (intro exI [of _ pos'] exI [of _ st']) simp
  qed
qed

text \<open>What remains to be done once no clause of a rule misses.\<close>

definition exec_hit :: "routing_matcher \<Rightarrow> routing_input \<Rightarrow> bool \<Rightarrow> trace_position \<Rightarrow> nat \<Rightarrow> nat \<Rightarrow> match_set \<Rightarrow> eval_state \<Rightarrow> step_outcome" where
  "exec_hit m p sk pos position len ms st1 =
     (if ms_action ms = MA_ConditionalJump
      then (if ms_mark ms = 0 \<or> ms_mark ms > u32_sub len position
            then Return (Inl (InvalidConditionalJump (snd pos) (ms_mark ms))) st1
            else next_rule 1 (if ev_ruleUnknown st1
                   then st1\<lparr>ev_uncertainUntil := max (ev_uncertainUntil st1) (u32_add position (ms_mark ms))\<rparr> else st1))
      else exec_action m p sk pos ms (st1\<lparr>ev_ruleUnknown := ev_ruleUnknown st1 \<or> position < ev_uncertainUntil st1\<rparr>))"

definition clean :: "routing_matcher \<Rightarrow> routing_input \<Rightarrow> eval_state \<Rightarrow> bool" where
  "clean m p st \<longleftrightarrow> preds_ok m p (ev_preds st) \<and> ev_subrule st = PMiss"

definition settled :: "routing_matcher \<Rightarrow> routing_input \<Rightarrow> eval_state \<Rightarrow> eval_state \<Rightarrow> bool" where
  "settled m p st st' \<longleftrightarrow> clean m p st' \<and> abs_state st' = abs_state st \<and> ev_uncertainUntil st' = ev_uncertainUntil st"

lemma clause_step:
  assumes tail: "ms_action tail \<noteq> MA_Or" and at: "code_at prog n (or_code ors @ [tail])"
    and ok: "\<forall>ms \<in> set (ors @ [tail]). pred_ok m p ms" and st: "clean m p st"
  defines "v \<equiv> clause_value m p \<lparr>cl_ors = ors, cl_tail = tail\<rparr>" and "nt \<equiv> n + length ors"
  shows "\<exists>pos st'. settled m p st st' \<and> ev_ruleUnknown st' = (ev_ruleUnknown st \<or> v = PUnknown) \<and>
    fst (vm_run m p sk prog n st) = after m p sk prog pos nt
      (if v = PMiss then next_rule (if ms_action tail = MA_And \<or> ms_action tail = MA_ConditionalJump then ms_mark tail else 1) st'
       else if ms_action tail = MA_And then Advance 1 st' else exec_hit m p sk pos nt (length prog) tail st')"
proof -
  obtain pos st1 where s1: "same_flow m p st st1"
    "ev_subrule st1 = foldr max (map (pred_value m p) (ors @ [tail])) (ev_subrule st)"
    "fst (vm_run m p sk prog n st) = after m p sk prog pos nt (exec_clause m p sk pos nt (length prog) tail st1)"
    using clause_runs [OF tail at ok] st unfolding clean_def nt_def by blast
  have v: "(if has_flag tail matchFlagNot then pr_neg (ev_subrule st1) else ev_subrule st1) = v"
    using s1(2) st by (simp add: v_def clause_value_def clean_def)
  define st' where "st' = st1\<lparr>ev_subrule := PMiss, ev_ruleUnknown := ev_ruleUnknown st1 \<or> v = PUnknown\<rparr>"
  have "settled m p st st'" "ev_ruleUnknown st' = (ev_ruleUnknown st \<or> v = PUnknown)"
    using s1(1) by (simp_all add: settled_def clean_def same_flow_def st'_def abs_state_def)
  moreover have "exec_clause m p sk pos nt (length prog) tail st1 =
      (if v = PMiss then next_rule (if ms_action tail = MA_And \<or> ms_action tail = MA_ConditionalJump then ms_mark tail else 1) st'
       else if ms_action tail = MA_And then Advance 1 st' else exec_hit m p sk pos nt (length prog) tail st')"
    unfolding exec_clause_def Let_def v by (simp add: next_rule_def st'_def exec_hit_def)
  ultimately show ?thesis using s1(3) by (intro exI [of _ pos] exI [of _ st']) simp
qed

lemma length_or_code [simp]: "length (or_code mss) = length mss"
  by (induction mss) simp_all

lemma rule_value_Cons: "rule_value m p (c # cs) = min (clause_value m p c) (rule_value m p cs)"
  by (simp add: rule_value_def)

lemma min_result [simp]: "min PMatch (v :: predicate_result) = v" "min PMiss v = PMiss"
  "min PUnknown v = (if v = PMiss then PMiss else PUnknown)"
  by (cases v; simp add: min_def less_eq_predicate_result_def)+

lemma clause_value_upd [simp]:
  "clause_value m p \<lparr>cl_ors = cl_ors c, cl_tail = (cl_tail c)\<lparr>ms_action := a, ms_mark := k\<rparr>\<rparr> = clause_value m p c"
  by (simp add: clause_value_def)

lemma clause_eta [simp]: "\<lparr>cl_ors = cl_ors c, cl_tail = cl_tail c\<rparr> = c"
  by simp

definition clause_ok :: "routing_matcher \<Rightarrow> routing_input \<Rightarrow> clause \<Rightarrow> bool" where
  "clause_ok m p c \<longleftrightarrow> (\<forall>ms \<in> set (cl_ors c @ [cl_tail c]). pred_ok m p ms)"

text \<open>The instructions of a rule: a miss leaves past the rule and its body, otherwise the tail acts.\<close>

lemma rule_runs:
  assumes tail: "ms_action (cl_tail c) \<noteq> MA_Or" "ms_action (cl_tail c) \<noteq> MA_And"
    and jump: "ms_action (cl_tail c) = MA_ConditionalJump \<longrightarrow> ms_mark (cl_tail c) = Suc ext"
    and other: "ms_action (cl_tail c) \<noteq> MA_ConditionalJump \<longrightarrow> ext = 0"
  shows "code_at prog n (rule_code cs c ext) \<Longrightarrow> n + length (rule_code cs c ext) + ext \<le> length prog \<Longrightarrow>
    \<forall>d \<in> set (cs @ [c]). clause_ok m p d \<Longrightarrow> clean m p st \<Longrightarrow>
    \<exists>pos st'. settled m p st st' \<and>
      (if rule_value m p (cs @ [c]) = PMiss
       then \<not> ev_ruleUnknown st' \<and> fst (vm_run m p sk prog n st) = fst (vm_run m p sk prog (n + length (rule_code cs c ext) + ext) st')
       else ev_ruleUnknown st' = (ev_ruleUnknown st \<or> rule_value m p (cs @ [c]) = PUnknown) \<and>
         fst (vm_run m p sk prog n st) = after m p sk prog pos (n + length (rule_code cs c ext) - 1)
           (exec_hit m p sk pos (n + length (rule_code cs c ext) - 1) (length prog) (cl_tail c) st'))"
proof (induction cs arbitrary: n st)
  case Nil
  let ?v = "clause_value m p c" and ?nt = "n + length (cl_ors c)"
  have v: "rule_value m p ([] @ [c]) = ?v" by (cases ?v) (simp_all add: rule_value_def min_def less_eq_predicate_result_def)
  have ok: "\<forall>ms \<in> set (cl_ors c @ [cl_tail c]). pred_ok m p ms" using Nil.prems(3) by (simp add: clause_ok_def)
  have at: "code_at prog n (or_code (cl_ors c) @ [cl_tail c])" using Nil.prems(1) by simp
  obtain pos st' where s: "settled m p st st'" "ev_ruleUnknown st' = (ev_ruleUnknown st \<or> ?v = PUnknown)"
    "fst (vm_run m p sk prog n st) = after m p sk prog pos ?nt
      (if ?v = PMiss then next_rule (if ms_action (cl_tail c) = MA_And \<or> ms_action (cl_tail c) = MA_ConditionalJump then ms_mark (cl_tail c) else 1) st'
       else if ms_action (cl_tail c) = MA_And then Advance 1 st' else exec_hit m p sk pos ?nt (length prog) (cl_tail c) st')"
    using clause_step [OF tail(1) at ok Nil.prems(4), of sk] unfolding clause_eta by blast
  show ?case
  proof (cases "?v = PMiss")
    case True
    have "fst (vm_run m p sk prog n st) = after m p sk prog pos ?nt (Advance (Suc ext) (st'\<lparr>ev_ruleUnknown := False\<rparr>))"
      using s(3) True tail jump other by (auto simp: next_rule_def)
    also have "\<dots> = fst (vm_run m p sk prog (?nt + Suc ext) (st'\<lparr>ev_ruleUnknown := False\<rparr>))"
      using Nil.prems(2) by (intro after_Advance) simp_all
    finally show ?thesis using True v s(1)
      by (intro exI [of _ pos] exI [of _ "st'\<lparr>ev_ruleUnknown := False\<rparr>"]) (simp add: settled_def clean_def abs_state_def)
  next
    case False
    then show ?thesis using s tail v by (intro exI [of _ pos] exI [of _ st']) simp
  qed
next
  case (Cons d ds)
  let ?v = "clause_value m p d" and ?nt = "n + length (cl_ors d)" and ?R = "rule_code ds c ext"
  let ?tail = "(cl_tail d)\<lparr>ms_action := MA_And, ms_mark := Suc (length ?R) + ext\<rparr>"
  have at: "code_at prog n (or_code (cl_ors d) @ [?tail])" "code_at prog (Suc ?nt) ?R"
    using Cons.prems(1) code_at_append [of prog n "or_code (cl_ors d) @ [?tail]" ?R] by simp_all
  have ok: "\<forall>ms \<in> set (cl_ors d @ [?tail]). pred_ok m p ms" using Cons.prems(3) by (auto simp: clause_ok_def)
  have len: "n + length (rule_code (d # ds) c ext) = Suc ?nt + length ?R" by simp
  have fit: "Suc ?nt + length ?R + ext \<le> length prog" using Cons.prems(2) unfolding len .
  have ne: "ms_action ?tail \<noteq> MA_Or" by simp
  obtain pos st' where s0: "settled m p st st'" "ev_ruleUnknown st' = (ev_ruleUnknown st \<or> ?v = PUnknown)"
    "fst (vm_run m p sk prog n st) = after m p sk prog pos ?nt
      (if ?v = PMiss then next_rule (if ms_action ?tail = MA_And \<or> ms_action ?tail = MA_ConditionalJump then ms_mark ?tail else 1) st'
       else if ms_action ?tail = MA_And then Advance 1 st' else exec_hit m p sk pos ?nt (length prog) ?tail st')"
    using clause_step [OF ne at(1) ok Cons.prems(4), of sk] unfolding clause_value_upd by blast
  then have s: "settled m p st st'" "ev_ruleUnknown st' = (ev_ruleUnknown st \<or> ?v = PUnknown)"
    "fst (vm_run m p sk prog n st) = after m p sk prog pos ?nt
      (if ?v = PMiss then next_rule (Suc (length ?R) + ext) st' else Advance 1 st')"
    by simp_all
  have rv: "rule_value m p ((d # ds) @ [c]) = min ?v (rule_value m p (ds @ [c]))" by (simp add: rule_value_Cons)
  show ?case
  proof (cases "?v = PMiss")
    case True
    have "fst (vm_run m p sk prog n st) = fst (vm_run m p sk prog (?nt + (Suc (length ?R) + ext)) (st'\<lparr>ev_ruleUnknown := False\<rparr>))"
      unfolding s(3) next_rule_def using True fit by (simp add: after_Advance)
    then show ?thesis unfolding len rv using True s(1)
      by (intro exI [of _ pos] exI [of _ "st'\<lparr>ev_ruleUnknown := False\<rparr>"]) (simp add: settled_def clean_def abs_state_def add.assoc)
  next
    case False
    have run: "fst (vm_run m p sk prog n st) = fst (vm_run m p sk prog (Suc ?nt) st')"
      unfolding s(3) using False fit by (simp add: after_Advance)
    have c': "clean m p st'" using s(1) by (simp add: settled_def)
    have ds: "\<forall>d \<in> set (ds @ [c]). clause_ok m p d" using Cons.prems(3) by simp
    obtain pos' st'' where t: "settled m p st' st''"
      "if rule_value m p (ds @ [c]) = PMiss
       then \<not> ev_ruleUnknown st'' \<and> fst (vm_run m p sk prog (Suc ?nt) st') = fst (vm_run m p sk prog (Suc ?nt + length ?R + ext) st'')
       else ev_ruleUnknown st'' = (ev_ruleUnknown st' \<or> rule_value m p (ds @ [c]) = PUnknown) \<and>
         fst (vm_run m p sk prog (Suc ?nt) st') = after m p sk prog pos' (Suc ?nt + length ?R - 1)
           (exec_hit m p sk pos' (Suc ?nt + length ?R - 1) (length prog) (cl_tail c) st'')"
      using Cons.IH [OF at(2) fit ds c'] by blast
    have "settled m p st st''" using s(1) t(1) by (simp add: settled_def)
    then show ?thesis unfolding len rv using t(2) run s(2) False
      by (intro exI [of _ pos'] exI [of _ st'']) (cases ?v; auto split: if_splits)
  qed
qed

lemma exec_action_effect:
  assumes "preds_ok m p (ev_preds st)"
  shows "case rule_effect m p sk (ev_ruleUnknown st) ms (abs_state st) of
      Inl r \<Rightarrow> (\<exists>st'. exec_action m p sk pos ms st = Return r st')
    | Inr fs \<Rightarrow> (\<exists>st'. exec_action m p sk pos ms st = Advance 1 st' \<and> abs_state st' = fs \<and> \<not> ev_ruleUnknown st' \<and>
        ev_subrule st' = ev_subrule st \<and> ev_preds st' = ev_preds st \<and> ev_uncertainUntil st' = ev_uncertainUntil st)"
proof -
  have iv: "rp_ipVersion (ev_preds st) = IpVersionFromAddr (ap_addr (ri_dst p))" using assms by (simp add: preds_ok_def)
  show ?thesis
  proof (cases "ms_action ms")
    case MA_Route
    show ?thesis
      by (auto simp: rule_effect_def exec_action_def MA_Route next_rule_def abs_state_def bump_result_def fs_bump_result_def iv Let_def
          split: option.splits)
  qed (auto simp: rule_effect_def exec_action_def next_rule_def abs_state_def bump_result_def fs_bump_result_def Let_def)
qed

text \<open>Between items: nothing is pending, and the uncertain region is the enclosing block or empty.\<close>

definition ready :: "routing_matcher \<Rightarrow> routing_input \<Rightarrow> bool \<Rightarrow> nat \<Rightarrow> nat \<Rightarrow> eval_state \<Rightarrow> bool" where
  "ready m p u n e st \<longleftrightarrow> clean m p st \<and> \<not> ev_ruleUnknown st \<and> (if u then e \<le> ev_uncertainUntil st else ev_uncertainUntil st \<le> n)"

definition runs_as :: "routing_matcher \<Rightarrow> routing_input \<Rightarrow> bool \<Rightarrow> program \<Rightarrow> nat \<Rightarrow> nat \<Rightarrow> eval_state \<Rightarrow> (routing_error + routing_evaluation) + flow_state \<Rightarrow> bool" where
  "runs_as m p sk prog n e st res \<longleftrightarrow>
     (case res of
        Inl r \<Rightarrow> fst (vm_run m p sk prog n st) = r
      | Inr fs \<Rightarrow> \<exists>st'. clean m p st' \<and> \<not> ev_ruleUnknown st' \<and> abs_state st' = fs \<and>
          fst (vm_run m p sk prog n st) = fst (vm_run m p sk prog e st') \<and>
          ev_uncertainUntil st \<le> ev_uncertainUntil st' \<and> ev_uncertainUntil st' \<le> max (ev_uncertainUntil st) e)"

lemma item_rule_runs:
  assumes act: "rule_action (ms_action (cl_tail c))" and at: "code_at prog n (rule_code cs c 0)"
    and ok: "\<forall>d \<in> set (cs @ [c]). clause_ok m p d" and st: "ready m p u n e st" and e: "n + length (rule_code cs c 0) \<le> e"
  shows "runs_as m p sk prog n (n + length (rule_code cs c 0)) st (sem_item m p sk u (Rule cs c) (abs_state st))"
proof -
  let ?L = "length (rule_code cs c 0)" and ?v = "rule_value m p (cs @ [c])"
  have pos: "0 < ?L" by (cases cs) simp_all
  have fit: "n + ?L + 0 \<le> length prog" using at by (simp add: code_at_def)
  have tl: "ms_action (cl_tail c) \<noteq> MA_Or" "ms_action (cl_tail c) \<noteq> MA_And" "ms_action (cl_tail c) \<noteq> MA_ConditionalJump"
    using act by (simp_all add: rule_action_def)
  have cl: "clean m p st" "\<not> ev_ruleUnknown st" using st by (simp_all add: ready_def)
  obtain ps st' where s: "settled m p st st'"
    "if ?v = PMiss then \<not> ev_ruleUnknown st' \<and> fst (vm_run m p sk prog n st) = fst (vm_run m p sk prog (n + ?L + 0) st')
     else ev_ruleUnknown st' = (ev_ruleUnknown st \<or> ?v = PUnknown) \<and>
       fst (vm_run m p sk prog n st) = after m p sk prog ps (n + ?L - 1) (exec_hit m p sk ps (n + ?L - 1) (length prog) (cl_tail c) st')"
    using rule_runs [OF tl(1,2) _ _ at fit ok cl(1), of sk] tl(3) by blast
  show ?thesis
  proof (cases "?v = PMiss")
    case True
    then show ?thesis using s by (auto simp: runs_as_def settled_def)
  next
    case False
    define st1 where "st1 = st'\<lparr>ev_ruleUnknown := ev_ruleUnknown st' \<or> n + ?L - 1 < ev_uncertainUntil st'\<rparr>"
    have f: "preds_ok m p (ev_preds st1)" "abs_state st1 = abs_state st" "ev_subrule st1 = PMiss"
      "ev_uncertainUntil st1 = ev_uncertainUntil st"
      using s(1) by (simp_all add: settled_def clean_def st1_def abs_state_def)
    obtain l where l: "?L = Suc l" using pos by (cases ?L) simp_all
    have "(n + ?L - 1 < ev_uncertainUntil st) = u"
      using st e unfolding l by (cases u) (auto simp: ready_def)
    then have unk: "ev_ruleUnknown st1 = (u \<or> ?v = PUnknown)"
      using s cl(2) False by (auto simp: st1_def settled_def)
    have run: "fst (vm_run m p sk prog n st) = after m p sk prog ps (n + ?L - 1) (exec_action m p sk ps (cl_tail c) st1)"
      using s(2) False tl(3) by (simp add: exec_hit_def st1_def)
    have sem: "sem_item m p sk u (Rule cs c) (abs_state st) = rule_effect m p sk (ev_ruleUnknown st1) (cl_tail c) (abs_state st1)"
      using False by (simp add: unk f(2))
    show ?thesis
    proof (cases "rule_effect m p sk (ev_ruleUnknown st1) (cl_tail c) (abs_state st1)")
      case (Inl r)
      then show ?thesis using exec_action_effect [OF f(1), where sk = sk and ms = "cl_tail c" and pos = ps] run unfolding sem
        by (auto simp: runs_as_def after_def)
    next
      case (Inr fs)
      then obtain st2 where t: "exec_action m p sk ps (cl_tail c) st1 = Advance 1 st2" "abs_state st2 = fs" "\<not> ev_ruleUnknown st2"
        "ev_subrule st2 = PMiss" "preds_ok m p (ev_preds st2)" "ev_uncertainUntil st2 = ev_uncertainUntil st"
        using exec_action_effect [OF f(1), where sk = sk and ms = "cl_tail c" and pos = ps] f by auto
      have "fst (vm_run m p sk prog n st) = fst (vm_run m p sk prog (n + ?L - 1 + 1) st2)"
        unfolding run t(1) using pos fit by (intro after_Advance) simp_all
      then show ?thesis unfolding sem Inr runs_as_def using t pos by (auto simp: clean_def)
    qed
  qed
qed

lemma runs_as_seq:
  assumes "runs_as m p sk prog n k st (Inr fs)" "\<And>st'. clean m p st' \<Longrightarrow> \<not> ev_ruleUnknown st' \<Longrightarrow> abs_state st' = fs \<Longrightarrow>
      ev_uncertainUntil st \<le> ev_uncertainUntil st' \<Longrightarrow> ev_uncertainUntil st' \<le> max (ev_uncertainUntil st) k \<Longrightarrow> runs_as m p sk prog k e st' res"
    and "k \<le> e"
  shows "runs_as m p sk prog n e st res"
proof -
  obtain st' where s: "clean m p st'" "\<not> ev_ruleUnknown st'" "abs_state st' = fs"
    "fst (vm_run m p sk prog n st) = fst (vm_run m p sk prog k st')"
    "ev_uncertainUntil st \<le> ev_uncertainUntil st'" "ev_uncertainUntil st' \<le> max (ev_uncertainUntil st) k"
    using assms(1) by (auto simp: runs_as_def)
  have "runs_as m p sk prog k e st' res" using assms(2) s by blast
  then show ?thesis using s assms(3) by (cases res) (fastforce simp: runs_as_def max_def split: if_splits)+
qed

lemma rule_value_jump_tail [simp]: "rule_value m p (cs @ [jump_tail c k]) = rule_value m p (cs @ [c])"
proof -
  have "clause_value m p (jump_tail c k) = clause_value m p c" by (simp add: clause_value_def jump_tail_def)
  then show ?thesis by (simp add: rule_value_def)
qed

lemma clause_ok_jump_tail [simp]: "clause_ok m p (jump_tail c k) = clause_ok m p c"
  by (simp add: clause_ok_def jump_tail_def)

lemma item_block_runs:
  fixes cs c body
  defines "B \<equiv> length (items_code body)"
  defines "C \<equiv> length (rule_code cs (jump_tail c B) B)"
  assumes at: "code_at prog n (rule_code cs (jump_tail c B) B)" and fit: "n + C + B \<le> length prog" and small: "length prog < u32_mod"
    and ok: "\<forall>d \<in> set (cs @ [c]). clause_ok m p d" and st: "ready m p u n e st" and e: "n + C + B \<le> e"
    and body: "\<And>u st. ready m p u (n + C) (n + C + B) st \<Longrightarrow>
      runs_as m p sk prog (n + C) (n + C + B) st (sem_items m p sk u body (abs_state st))"
  shows "runs_as m p sk prog n (n + C + B) st (sem_item m p sk u (Block cs c body) (abs_state st))"
proof -
  let ?v = "rule_value m p (cs @ [c])" and ?t = "cl_tail (jump_tail c B)" and ?q = "n + C - 1"
  have pos: "0 < C" unfolding C_def by (cases cs) simp_all
  have tl: "ms_action ?t = MA_ConditionalJump" "ms_mark ?t = Suc B" by (simp_all add: jump_tail_def)
  have cl: "clean m p st" "\<not> ev_ruleUnknown st" using st by (simp_all add: ready_def)
  have ok': "\<forall>d \<in> set (cs @ [jump_tail c B]). clause_ok m p d" using ok by simp
  obtain ps st' where s: "settled m p st st'"
    "if ?v = PMiss then \<not> ev_ruleUnknown st' \<and> fst (vm_run m p sk prog n st) = fst (vm_run m p sk prog (n + C + B) st')
     else ev_ruleUnknown st' = (ev_ruleUnknown st \<or> ?v = PUnknown) \<and>
       fst (vm_run m p sk prog n st) = after m p sk prog ps ?q (exec_hit m p sk ps ?q (length prog) ?t st')"
    using rule_runs [of "jump_tail c B" B prog n cs m p st sk] tl at fit ok' cl(1) unfolding C_def rule_value_jump_tail by auto
  show ?thesis
  proof (cases "?v = PMiss")
    case True
    then show ?thesis using s by (auto simp: runs_as_def settled_def)
  next
    case False
    have q: "Suc ?q = n + C" "?q + Suc B = n + C + B" using pos by simp_all
    have jump_ok: "\<not> (Suc B = 0 \<or> Suc B > u32_sub (length prog) ?q)" "u32_add ?q (Suc B) = n + C + B"
      using fit small q by (simp_all add: u32_simps)
    define st2 where "st2 = (if ev_ruleUnknown st' then st'\<lparr>ev_uncertainUntil := max (ev_uncertainUntil st') (n + C + B), ev_ruleUnknown := False\<rparr>
      else st'\<lparr>ev_ruleUnknown := False\<rparr>)"
    have f: "clean m p st2" "\<not> ev_ruleUnknown st2" "abs_state st2 = abs_state st"
      "ev_uncertainUntil st2 = (if ?v = PUnknown then max (ev_uncertainUntil st) (n + C + B) else ev_uncertainUntil st)"
      using s cl(2) False by (auto simp: st2_def settled_def clean_def abs_state_def)
    have "exec_hit m p sk ps ?q (length prog) ?t st' = Advance 1 st2"
      unfolding exec_hit_def tl using jump_ok by (simp add: next_rule_def st2_def)
    then have "fst (vm_run m p sk prog n st) = fst (vm_run m p sk prog (?q + 1) st2)"
      using s(2) False fit q by (simp add: after_Advance)
    then have run: "fst (vm_run m p sk prog n st) = fst (vm_run m p sk prog (n + C) st2)" using q by simp
    have "ready m p (u \<or> ?v = PUnknown) (n + C) (n + C + B) st2"
      using f st e by (auto simp: ready_def)
    from body [OF this] have "runs_as m p sk prog (n + C) (n + C + B) st2 (sem_item m p sk u (Block cs c body) (abs_state st))"
      using False by (simp add: f(3))
    then show ?thesis using run f(4)
      by (cases "sem_item m p sk u (Block cs c body) (abs_state st)") (fastforce simp: runs_as_def max_def split: if_splits)+
  qed
qed

lemma items_run:
  assumes small: "length prog < u32_mod"
  shows "code_at prog n (item_code it) \<Longrightarrow> wf_item it \<Longrightarrow> \<forall>ms \<in> set (items_preds it). pred_ok m p ms \<Longrightarrow>
      ready m p u n e st \<Longrightarrow> n + length (item_code it) \<le> e \<Longrightarrow>
      runs_as m p sk prog n (n + length (item_code it)) st (sem_item m p sk u it (abs_state st))"
    and "code_at prog n (items_code its) \<Longrightarrow> wf_items its \<Longrightarrow> \<forall>ms \<in> set (items_preds_list its). pred_ok m p ms \<Longrightarrow>
      ready m p u n e st \<Longrightarrow> n + length (items_code its) \<le> e \<Longrightarrow>
      runs_as m p sk prog n (n + length (items_code its)) st (sem_items m p sk u its (abs_state st))"
proof (induction it and its arbitrary: n u e st and n u e st rule: item_code_items_code.induct)
  case (1 cs c)
  then show ?case using item_rule_runs [of c prog n cs m p u e st sk] by (auto simp: clause_ok_def)
next
  case (2 cs c body)
  let ?B = "length (items_code body)" and ?C = "length (rule_code cs (jump_tail c (length (items_code body))) (length (items_code body)))"
  have at: "code_at prog n (rule_code cs (jump_tail c ?B) ?B)" "code_at prog (n + ?C) (items_code body)"
    using "2.prems"(1) by (simp_all add: code_at_append)
  have fit: "n + ?C + ?B \<le> length prog" using at(2) by (simp add: code_at_def)
  have "runs_as m p sk prog n (n + ?C + ?B) st (sem_item m p sk u (Block cs c body) (abs_state st))"
  proof (rule item_block_runs [OF at(1) fit small _ "2.prems"(4)])
    show "\<forall>d \<in> set (cs @ [c]). clause_ok m p d" using "2.prems"(3) by (auto simp: clause_ok_def)
    show "n + ?C + ?B \<le> e" using "2.prems"(5) by simp
    show "runs_as m p sk prog (n + ?C) (n + ?C + ?B) st (sem_items m p sk u body (abs_state st))"
      if "ready m p u (n + ?C) (n + ?C + ?B) st" for u st
      using "2.IH" [OF at(2) _ _ that] "2.prems"(2,3) by simp
  qed
  then show ?case by (simp add: add.assoc)
next
  case 3
  then show ?case by (auto simp: runs_as_def ready_def)
next
  case (4 it its)
  let ?k = "n + length (item_code it)" and ?e = "n + length (item_code it) + length (items_code its)"
  have at: "code_at prog n (item_code it)" "code_at prog ?k (items_code its)" using "4.prems"(1) by (simp_all add: code_at_append)
  have p1: "\<forall>ms \<in> set (items_preds it). pred_ok m p ms" "\<forall>ms \<in> set (items_preds_list its). pred_ok m p ms"
    and w: "wf_item it" "wf_items its" using "4.prems"(2,3) by auto
  have le: "?k \<le> e" "?e \<le> e" using "4.prems"(5) by simp_all
  have r1: "runs_as m p sk prog n ?k st (sem_item m p sk u it (abs_state st))"
    by (rule "4.IH"(1) [OF at(1) w(1) p1(1) "4.prems"(4) le(1)])
  have "runs_as m p sk prog n ?e st (sem_items m p sk u (it # its) (abs_state st))"
  proof (cases "sem_item m p sk u it (abs_state st)")
    case (Inl r)
    then show ?thesis using r1 by (simp add: runs_as_def)
  next
    case (Inr fs)
    have sem: "sem_items m p sk u (it # its) (abs_state st) = sem_items m p sk u its fs" using Inr by simp
    show ?thesis unfolding sem
    proof (rule runs_as_seq [OF r1 [unfolded Inr]])
      fix st' assume c: "clean m p st'" "\<not> ev_ruleUnknown st'" "abs_state st' = fs"
        "ev_uncertainUntil st \<le> ev_uncertainUntil st'" "ev_uncertainUntil st' \<le> max (ev_uncertainUntil st) ?k"
      have "ready m p u ?k e st'" using c "4.prems"(4) by (auto simp: ready_def split: if_splits)
      from "4.IH"(2) [OF at(2) w(2) p1(2) this le(2)] show "runs_as m p sk prog ?k ?e st' (sem_items m p sk u its fs)"
        by (simp add: c(3))
    qed simp
  qed
  then show ?case by (simp add: add.assoc)
qed

section \<open>Profiles\<close>

text \<open>
  A profile runs segments of items, each in one phase; once the target is selected the ingress
  segments are not run.
\<close>

definition runs_phase :: "routing_input \<Rightarrow> routing_phase \<Rightarrow> bool" where
  "runs_phase p ph \<longleftrightarrow> \<not> (ri_stage p = RouteAfterTarget \<and> ph = PhaseIngress)"

definition active_items :: "routing_input \<Rightarrow> (routing_phase \<times> item list) list \<Rightarrow> item list" where
  "active_items p segs = concat (map snd (filter (\<lambda>(ph, _). runs_phase p ph) segs))"

definition segs_code :: "(routing_phase \<times> item list) list \<Rightarrow> (match_set \<times> routing_phase) list" where
  "segs_code segs = concat (map (\<lambda>(ph, its). map (\<lambda>ms. (ms, ph)) (items_code its)) segs)"

definition profile_code :: "routing_matcher \<Rightarrow> routing_span list \<Rightarrow> (match_set \<times> routing_phase) list" where
  "profile_code m spans = map (\<lambda>(k, i). (rm_matches m ! i, sp_phase (spans ! k))) (flat spans)"

lemma sem_items_append:
  "sem_items m p sk u (xs @ ys) fs = (case sem_items m p sk u xs fs of Inl r \<Rightarrow> Inl r | Inr fs' \<Rightarrow> sem_items m p sk u ys fs')"
  by (induction xs arbitrary: fs) (auto split: sum.splits)

definition entry_of :: "routing_input \<Rightarrow> match_set \<times> routing_phase \<Rightarrow> match_set \<times> bool" where
  "entry_of p e = (fst e, \<not> runs_phase p (snd e))"

lemma segs_run:
  assumes small: "length prog < u32_mod"
  shows "drop n (map snd prog) = map (entry_of p) (segs_code segs) \<Longrightarrow> n \<le> length prog \<Longrightarrow>
    \<forall>(ph, its) \<in> set segs. wf_items its \<and> (\<forall>ms \<in> set (items_preds_list its). pred_ok m p ms) \<Longrightarrow> ready m p False n (length prog) st \<Longrightarrow>
    runs_as m p sk prog n (length prog) st (sem_items m p sk False (active_items p segs) (abs_state st))"
proof (induction segs arbitrary: n st)
  case Nil
  then have "n = length prog" by (simp add: segs_code_def)
  then show ?case using Nil.prems(4) by (auto simp: active_items_def runs_as_def ready_def)
next
  case (Cons seg segs)
  obtain ph its where seg: "seg = (ph, its)" by fastforce
  let ?L = "length (items_code its)"
  have dr: "drop n (map snd prog) = map (\<lambda>ms. (ms, \<not> runs_phase p ph)) (items_code its) @ map (entry_of p) (segs_code segs)"
    using Cons.prems(1) by (simp add: segs_code_def seg entry_of_def comp_def)
  have len: "length prog - n = ?L + length (segs_code segs)" using arg_cong [OF dr, of length] by simp
  have fit: "n + ?L \<le> length prog" using len Cons.prems(2) by linarith
  have rest: "drop (n + ?L) (map snd prog) = map (entry_of p) (segs_code segs)"
    using arg_cong [OF dr, of "drop ?L"] by (simp add: add.commute)
  have nth: "snd (prog ! (n + j)) = (items_code its ! j, \<not> runs_phase p ph)" if "j < ?L" for j
  proof -
    have "snd (prog ! (n + j)) = drop n (map snd prog) ! j" using fit that by simp
    then show ?thesis unfolding dr using that by (simp add: nth_append)
  qed
  have w: "wf_items its" "\<forall>ms \<in> set (items_preds_list its). pred_ok m p ms"
    "\<forall>(ph, its) \<in> set segs. wf_items its \<and> (\<forall>ms \<in> set (items_preds_list its). pred_ok m p ms)"
    using Cons.prems(3) by (auto simp: seg)
  show ?case
  proof (cases "runs_phase p ph")
    case False
    have skip: "vm_run m p sk prog n st = vm_run m p sk prog (n + ?L) st"
      by (rule vm_run_skips [OF fit]) (simp add: nth False)
    have "ready m p False (n + ?L) (length prog) st" using Cons.prems(4) by (simp add: ready_def)
    from Cons.IH [OF rest fit w(3) this] show ?thesis using False unfolding runs_as_def skip by (simp add: active_items_def seg)
  next
    case True
    have at: "code_at prog n (items_code its)" using fit nth True by (simp add: code_at_def)
    have r1: "runs_as m p sk prog n (n + ?L) st (sem_items m p sk False its (abs_state st))"
      by (rule items_run(2) [OF small at w(1,2) Cons.prems(4) fit])
    have act: "active_items p (seg # segs) = its @ active_items p segs" using True by (simp add: active_items_def seg)
    show ?thesis
    proof (cases "sem_items m p sk False its (abs_state st)")
      case (Inl r)
      then show ?thesis using r1 by (simp add: act sem_items_append runs_as_def)
    next
      case (Inr fs)
      have sem: "sem_items m p sk False (active_items p (seg # segs)) (abs_state st) = sem_items m p sk False (active_items p segs) fs"
        using Inr by (simp add: act sem_items_append)
      show ?thesis unfolding sem
      proof (rule runs_as_seq [OF r1 [unfolded Inr] _ fit])
        fix st' assume c: "clean m p st'" "\<not> ev_ruleUnknown st'" "abs_state st' = fs"
          "ev_uncertainUntil st \<le> ev_uncertainUntil st'" "ev_uncertainUntil st' \<le> max (ev_uncertainUntil st) (n + ?L)"
        have "ready m p False (n + ?L) (length prog) st'" using c Cons.prems(4) by (auto simp: ready_def)
        from Cons.IH [OF rest fit w(3) this]
        show "runs_as m p sk prog (n + ?L) (length prog) st' (sem_items m p sk False (active_items p segs) fs)" by (simp add: c(3))
      qed
    qed
  qed
qed

lemma vm_run_program:
  assumes small: "length prog < u32_mod" and prog: "map snd prog = map (entry_of p) (segs_code segs)"
    and ok: "\<forall>(ph, its) \<in> set segs. wf_items its \<and> (\<forall>ms \<in> set (items_preds_list its). pred_ok m p ms)"
  shows "fst (vm_run m p sk prog 0 (initial_state p)) = sem_program m p sk (active_items p segs)"
proof -
  have rd: "ready m p False 0 (length prog) (initial_state p)"
    using preds_ok_fresh [of m p] by (simp add: ready_def clean_def initial_state_def fresh_preds_def)
  have "drop 0 (map snd prog) = map (entry_of p) (segs_code segs)" using prog by simp
  from segs_run [OF small this _ ok rd, of sk]
  have "runs_as m p sk prog 0 (length prog) (initial_state p) (sem_items m p sk False (active_items p segs) fs_start)"
    by (simp add: abs_state_def initial_state_def fs_start_def)
  then show ?thesis
    by (auto simp: runs_as_def sem_program_def vm_run.simps [of m p sk prog "length prog"] split: sum.splits)
qed

lemma evaluateSpans_items:
  assumes "wf_spans spans" "spans_in m spans" "addr_port_IsValid (ri_src p)" "addr_port_IsValid (ri_dst p)"
    and "profile_code m spans = segs_code segs"
    and "\<forall>(ph, its) \<in> set segs. wf_items its \<and> (\<forall>ms \<in> set (items_preds_list its). pred_ok m p ms)"
  shows "map_option fst (evaluateSpans m spans p) = Some (sem_program m p (simulate_kernel p) (active_items p segs))"
proof -
  have small: "length (profile_program m spans p) < u32_mod" using assms(1) by (simp add: wf_spans_def length_flat)
  have "map snd (profile_program m spans p) = map (entry_of p) (segs_code segs)"
    unfolding assms(5) [symmetric] by (auto simp: profile_program_def profile_code_def entry_of_def runs_phase_def)
  from vm_run_program [OF small this assms(6)]
  have "fst (vm_run m p (simulate_kernel p) (profile_program m spans p) 0 (initial_state p)) =
    sem_program m p (simulate_kernel p) (active_items p segs)" .
  then show ?thesis using evaluateSpans_vm [OF assms(1-4)] by simp
qed

text \<open>
  Claim C2. The result of evaluating a profile is the first-match meaning of its rules: for a profile
  whose instructions are those of well-formed segments and whose predicates can be evaluated, the
  interpreter returns what the structured program means, with the ingress segments left out once
  the target is selected. Jumps over clauses, rules and nested conditional blocks, the caches and the
  single end position of uncertainty do not show in the result.
\<close>

theorem evaluateSpans_meaning:
  assumes "wf_spans spans" "spans_in m spans" "addr_port_IsValid (ri_src p)" "addr_port_IsValid (ri_dst p)"
    and "profile_code m spans = segs_code segs"
    and "\<forall>(ph, its) \<in> set segs. wf_items its \<and> (\<forall>ms \<in> set (items_preds_list its). pred_ok m p ms)"
  shows "map_option fst (evaluateSpans m spans p) = Some (sem_program m p (simulate_kernel p) (active_items p segs))"
  by (rule evaluateSpans_items [OF assms])

text \<open>A sample profile: TCP on port 80 goes to outbound 2 inside a block, everything else is direct.\<close>

definition sample_items :: "item list" where
  "sample_items =
     [Block [] \<lparr>cl_ors = [], cl_tail = (match_set0 MT_Port)\<lparr>ms_value := encode_port_range (80, 80)\<rparr>\<rparr>
        [Rule [] \<lparr>cl_ors = [], cl_tail = (match_set0 MT_L4Proto)\<lparr>ms_value := 1 # replicate 15 0, ms_outbound := 2, ms_mark := 7\<rparr>\<rparr>],
      Rule [] \<lparr>cl_ors = [], cl_tail = match_set0 MT_Fallback\<rparr>]"

definition sample_spans :: "routing_span list" where
  "sample_spans = [\<lparr>sp_start = 0, sp_end = 3, sp_phase = PhaseRoute, sp_global = False\<rparr>]"

definition sample_matcher :: routing_matcher where
  "sample_matcher = \<lparr>rm_matches = items_code sample_items, rm_lpmMatcher = [], rm_defaultProfileID = 1,
     rm_profiles = (\<lambda>i. if i = 1 then Some sample_spans else None), rm_destinations = (\<lambda>_. []), rm_domainMatcher = (\<lambda>_. []),
     rm_httpClientAllowed = None, rm_outboundUsable = None\<rparr>"

definition sample_input :: routing_input where
  "sample_input = \<lparr>ri_src = \<lparr>ap_addr = Addr4 1, ap_port = 1000\<rparr>, ri_dst = \<lparr>ap_addr = Addr4 2, ap_port = 80\<rparr>, ri_l4proto = 1,
     ri_domain = [], ri_processName = zero_value, ri_ifindex = 0, ri_profileID = 0, ri_physinif = 0, ri_dscp = 0, ri_mac = replicate 6 0,
     ri_domainBitmap = None, ri_domainBumpBitmap = None, ri_kernel = False, ri_stage = RouteFromIngress, ri_trace = None\<rparr>"

lemma sample_facts:
  "wf_spans sample_spans" "spans_in sample_matcher sample_spans" "addr_port_IsValid (ri_src sample_input)"
  "addr_port_IsValid (ri_dst sample_input)" "profile_code sample_matcher sample_spans = segs_code [(PhaseRoute, sample_items)]"
  "\<forall>(ph, its) \<in> set [(PhaseRoute, sample_items)]. wf_items its \<and> (\<forall>ms \<in> set (items_preds_list its). pred_ok sample_matcher sample_input ms)"
proof -
  show "wf_spans sample_spans" "spans_in sample_matcher sample_spans" "addr_port_IsValid (ri_src sample_input)"
    "addr_port_IsValid (ri_dst sample_input)"
    by (simp_all add: wf_spans_def sample_spans_def spans_in_def sample_matcher_def sample_items_def sample_input_def addr_port_IsValid_def)
  show "profile_code sample_matcher sample_spans = segs_code [(PhaseRoute, sample_items)]" by code_simp
  show "\<forall>(ph, its) \<in> set [(PhaseRoute, sample_items)]. wf_items its \<and> (\<forall>ms \<in> set (items_preds_list its). pred_ok sample_matcher sample_input ms)"
    by code_simp
qed

theorem evaluateSpans_meaning_witness:
  "map_option fst (evaluateSpans sample_matcher sample_spans sample_input) =
     Some (Inr \<lparr>re_outbound = 2, re_mark = 7, re_must = False, re_captureFlags = 0, re_matched = False\<rparr>)"
proof -
  have "sem_program sample_matcher sample_input (simulate_kernel sample_input) (active_items sample_input [(PhaseRoute, sample_items)]) =
     Inr \<lparr>re_outbound = 2, re_mark = 7, re_must = False, re_captureFlags = 0, re_matched = False\<rparr>"
    by code_simp
  then show ?thesis using evaluateSpans_meaning [OF sample_facts] by simp
qed

text \<open>
  Claim C27. On a profile whose spans are well-formed and lie in the instruction pool, the evaluation
  always returns within its bound, and its result is that of the machine on the flattened
  instruction sequence: sharing and reordering fragments is invisible to the rules.
\<close>

theorem evaluateSpans_refines:
  assumes "wf_spans spans" "spans_in m spans" "addr_port_IsValid (ri_src p)" "addr_port_IsValid (ri_dst p)"
  shows "evaluateSpans m spans p = Some (vm_run m p (simulate_kernel p) (profile_program m spans p) 0 (initial_state p))"
  by (rule evaluateSpans_vm [OF assms])

theorem evaluateSpans_refines_witness:
  "\<exists>r. evaluateSpans sample_matcher sample_spans sample_input = Some r"
  using evaluateSpans_refines [OF sample_facts(1-4)] by blast

end
