(* ===== verification/Go_Strings.thy ===== *)
theory Go_Strings
  imports Go_Base "HOL-Library.List_Lexorder" "HOL-Library.Char_ord"
begin

text \<open>
  The functions of Go's \<^verbatim>\<open>strings\<close>, \<^verbatim>\<open>strconv\<close> and \<^verbatim>\<open>encoding/hex\<close> that the sources call. A Go string
  is a sequence of bytes, here a list of characters; comparison is bytewise, which is the
  lexicographic order of the library.
\<close>

section \<open>Strings\<close>

fun str_join :: "string \<Rightarrow> string list \<Rightarrow> string" where
  "str_join sep [] = ''''"
| "str_join sep [s] = s"
| "str_join sep (s # t # ts) = s @ sep @ str_join sep (t # ts)"

text \<open>\<^verbatim>\<open>strings.Cut\<close> on a one-byte separator: the part before, the part after, and whether it was found.\<close>

fun str_cut :: "char \<Rightarrow> string \<Rightarrow> string \<times> string \<times> bool" where
  "str_cut c [] = ([], [], False)"
| "str_cut c (x # xs) =
     (if x = c then ([], xs, True) else case str_cut c xs of (a, b, ok) \<Rightarrow> (x # a, b, ok))"

text \<open>\<^verbatim>\<open>strings.SplitN\<close> with a positive limit: at most \<open>n\<close> fields, the last one unsplit.\<close>

fun str_splitN :: "nat \<Rightarrow> char \<Rightarrow> string \<Rightarrow> string list" where
  "str_splitN 0 c s = []"
| "str_splitN (Suc 0) c s = [s]"
| "str_splitN (Suc (Suc n)) c s =
     (case str_cut c s of (a, b, ok) \<Rightarrow> if ok then a # str_splitN (Suc n) c b else [s])"

definition str_has_suffix :: "string \<Rightarrow> string \<Rightarrow> bool" where
  "str_has_suffix s t = suffix t s"

definition str_trim_suffix :: "string \<Rightarrow> string \<Rightarrow> string" where
  "str_trim_suffix s t = (if suffix t s then take (length s - length t) s else s)"

text \<open>The last occurrence of a byte, as the number of bytes before it.\<close>

fun str_last_index :: "char \<Rightarrow> string \<Rightarrow> nat option" where
  "str_last_index c [] = None"
| "str_last_index c (x # xs) =
     (case str_last_index c xs of Some i \<Rightarrow> Some (Suc i) | None \<Rightarrow> if x = c then Some 0 else None)"

definition byte_of_char :: "char \<Rightarrow> u8" where
  "byte_of_char c = of_nat (of_char c)"

definition bytes_of_string :: "string \<Rightarrow> bytes" where
  "bytes_of_string s = map byte_of_char s"

lemma length_bytes_of_string [simp]: "length (bytes_of_string s) = length s"
  by (simp add: bytes_of_string_def)

lemma byte_of_char_inject [simp]: "byte_of_char a = byte_of_char b \<longleftrightarrow> a = b"
proof
  assume "byte_of_char a = byte_of_char b"
  then have "unat (byte_of_char a) = unat (byte_of_char b)" by simp
  moreover have "unat (byte_of_char c) = of_char c" for c
    using nat_of_char_less_256 [of c] by (simp add: byte_of_char_def unat_of_nat)
  ultimately have "(of_char a :: nat) = of_char b" by simp
  then show "a = b" by simp
qed simp

lemma bytes_of_string_inject [simp]: "bytes_of_string s = bytes_of_string t \<longleftrightarrow> s = t"
  by (simp add: bytes_of_string_def inj_def map_injective inj_map_eq_map)

lemma str_cut_found: "str_cut c s = (a, b, True) \<Longrightarrow> s = a @ c # b \<and> c \<notin> set a"
  by (induction s arbitrary: a b) (auto split: if_splits prod.splits)

lemma str_cut_missing: "str_cut c s = (a, b, False) \<Longrightarrow> a = s \<and> b = [] \<and> c \<notin> set s"
  by (induction s arbitrary: a b) (auto split: if_splits prod.splits)

lemma str_cut_append: "c \<notin> set a \<Longrightarrow> str_cut c (a @ c # b) = (a, b, True)"
  by (induction a) auto

lemma str_cut_none: "c \<notin> set s \<Longrightarrow> str_cut c s = (s, [], False)"
  by (induction s) auto

section \<open>Numbers\<close>

text \<open>Decimal digits, as \<^verbatim>\<open>strconv.Itoa\<close> prints a non-negative number.\<close>

fun dec_digits :: "nat \<Rightarrow> string" where
  "dec_digits n = (if n < 10 then [char_of (48 + n)] else dec_digits (n div 10) @ [char_of (48 + n mod 10)])"

declare dec_digits.simps [simp del]

definition itoa :: "int \<Rightarrow> string" where
  "itoa i = (if i < 0 then CHR ''-'' # dec_digits (nat (- i)) else dec_digits (nat i))"

text \<open>Why \<^verbatim>\<open>strconv\<close> rejects a number.\<close>

datatype num_error = ErrSyntax | ErrRange

definition char_digit :: "char \<Rightarrow> nat option" where
  "char_digit c =
     (let n = of_char c :: nat in
      if 48 \<le> n \<and> n \<le> 57 then Some (n - 48)
      else if 97 \<le> n \<and> n \<le> 122 then Some (n - 97 + 10)
      else if 65 \<le> n \<and> n \<le> 90 then Some (n - 65 + 10) else None)"

definition lower_char :: "char \<Rightarrow> char" where
  "lower_char c = (if 65 \<le> (of_char c :: nat) \<and> (of_char c :: nat) \<le> 90 then char_of ((of_char c :: nat) + 32) else c)"

text \<open>
  The loop of \<^verbatim>\<open>strconv.ParseUint\<close>: underscores are skipped in base-prefixed mode, a value above
  \<open>2 ^ bits - 1\<close> is a range error.
\<close>

fun parse_uint_loop :: "nat \<Rightarrow> bool \<Rightarrow> nat \<Rightarrow> nat \<Rightarrow> string \<Rightarrow> num_error + nat" where
  "parse_uint_loop base us bits acc [] = Inr acc"
| "parse_uint_loop base us bits acc (c # cs) =
     (if us \<and> c = CHR ''_'' then parse_uint_loop base us bits acc cs
      else case char_digit c of
             None \<Rightarrow> Inl ErrSyntax
           | Some d \<Rightarrow> if d \<ge> base then Inl ErrSyntax
                       else if acc * base + d \<ge> 2 ^ bits then Inl ErrRange
                       else parse_uint_loop base us bits (acc * base + d) cs)"

text \<open>\<^verbatim>\<open>underscoreOK\<close>: underscores only between digits, or after the base prefix.\<close>

datatype underscore_state = UStart | UDigit | UUnder | UOther

fun underscore_loop :: "bool \<Rightarrow> underscore_state \<Rightarrow> string \<Rightarrow> bool" where
  "underscore_loop hex i [] = (i \<noteq> UUnder)"
| "underscore_loop hex i (c # cs) =
     (let n = of_char c :: nat; l = of_char (lower_char c) :: nat in
      if (48 \<le> n \<and> n \<le> 57) \<or> (hex \<and> 97 \<le> l \<and> l \<le> 102) then underscore_loop hex UDigit cs
      else if c = CHR ''_'' then (if i \<noteq> UDigit then False else underscore_loop hex UUnder cs)
      else if i = UUnder then False else underscore_loop hex UOther cs)"

definition underscoreOK :: "string \<Rightarrow> bool" where
  "underscoreOK s0 =
     (let s = (case s0 of c # cs \<Rightarrow> if c = CHR ''-'' \<or> c = CHR ''+'' then cs else s0 | [] \<Rightarrow> s0) in
      case s of
        z # p # rest \<Rightarrow>
          if z = CHR ''0'' \<and> lower_char p \<in> {CHR ''b'', CHR ''o'', CHR ''x''}
          then underscore_loop (lower_char p = CHR ''x'') UDigit rest
          else underscore_loop False UStart s
      | _ \<Rightarrow> underscore_loop False UStart s)"

text \<open>\<^verbatim>\<open>strconv.ParseUint(s, 0, bits)\<close>.\<close>

definition ParseUint0 :: "string \<Rightarrow> nat \<Rightarrow> num_error + nat" where
  "ParseUint0 s bits =
     (if s = [] then Inl ErrSyntax
      else let (base, body) =
                 (case s of
                    z # p # rest \<Rightarrow>
                      if z \<noteq> CHR ''0'' then (10, s)
                      else if rest \<noteq> [] \<and> lower_char p = CHR ''b'' then (2, rest)
                      else if rest \<noteq> [] \<and> lower_char p = CHR ''o'' then (8, rest)
                      else if rest \<noteq> [] \<and> lower_char p = CHR ''x'' then (16, rest)
                      else (8, p # rest)
                  | [z] \<Rightarrow> if z = CHR ''0'' then (8, []) else (10, s)
                  | [] \<Rightarrow> (10, s))
           in case parse_uint_loop base True bits 0 body of
                Inl e \<Rightarrow> Inl e
              | Inr v \<Rightarrow> if CHR ''_'' \<in> set body \<and> \<not> underscoreOK s then Inl ErrSyntax else Inr v)"

text \<open>\<^verbatim>\<open>strconv.Atoi\<close>: an optional sign and decimal digits, in the range of a 64-bit integer.\<close>

definition Atoi :: "string \<Rightarrow> num_error + int" where
  "Atoi s =
     (let (neg, ds) = (case s of c # cs \<Rightarrow> if c = CHR ''-'' then (True, cs) else if c = CHR ''+'' then (False, cs) else (False, s) | [] \<Rightarrow> (False, s))
      in if ds = [] then Inl ErrSyntax
         else case parse_uint_loop 10 False 64 0 ds of
                Inl e \<Rightarrow> Inl e
              | Inr v \<Rightarrow> if neg then (if v > 2 ^ 63 then Inl ErrRange else Inr (- int v))
                         else (if v \<ge> 2 ^ 63 then Inl ErrRange else Inr (int v)))"

definition ParseBool :: "string \<Rightarrow> bool option" where
  "ParseBool s =
     (if s \<in> {''1'', ''t'', ''T'', ''true'', ''TRUE'', ''True''} then Some True
      else if s \<in> {''0'', ''f'', ''F'', ''false'', ''FALSE'', ''False''} then Some False else None)"

definition hex_digit :: "char \<Rightarrow> nat option" where
  "hex_digit c = (case char_digit c of Some d \<Rightarrow> if d < 16 then Some d else None | None \<Rightarrow> None)"

text \<open>\<^verbatim>\<open>hex.DecodeString\<close>: an odd length or another byte is an error.\<close>

fun hex_decode :: "string \<Rightarrow> bytes option" where
  "hex_decode [] = Some []"
| "hex_decode [c] = None"
| "hex_decode (a # b # cs) =
     (case (hex_digit a, hex_digit b, hex_decode cs) of
        (Some x, Some y, Some bs) \<Rightarrow> Some (of_nat (16 * x + y) # bs)
      | _ \<Rightarrow> None)"

section \<open>Runes\<close>

text \<open>
  The runes of a string as a \<^verbatim>\<open>range\<close> loop yields them: a byte that starts no valid UTF-8 sequence is the
  replacement character and one byte long.
\<close>

definition rune_error :: nat where
  "rune_error = 0xFFFD"

definition cont_byte :: "nat \<Rightarrow> nat \<Rightarrow> string \<Rightarrow> nat option" where
  "cont_byte lo hi s = (case s of [] \<Rightarrow> None | c # _ \<Rightarrow> if lo \<le> (of_char c :: nat) \<and> (of_char c :: nat) \<le> hi then Some (of_char c mod 64) else None)"

definition decode_rune :: "string \<Rightarrow> nat \<times> nat" where
  "decode_rune s =
     (let b0 = of_char (hd s) :: nat in
      if b0 < 0x80 then (b0, 1)
      else if 0xC2 \<le> b0 \<and> b0 \<le> 0xDF
      then (case cont_byte 0x80 0xBF (tl s) of Some b1 \<Rightarrow> (64 * (b0 mod 32) + b1, 2) | None \<Rightarrow> (rune_error, 1))
      else if 0xE0 \<le> b0 \<and> b0 \<le> 0xEF
      then (case (cont_byte (if b0 = 0xE0 then 0xA0 else 0x80) (if b0 = 0xED then 0x9F else 0xBF) (tl s), cont_byte 0x80 0xBF (drop 2 s)) of
              (Some b1, Some b2) \<Rightarrow> (4096 * (b0 mod 16) + 64 * b1 + b2, 3)
            | _ \<Rightarrow> (rune_error, 1))
      else if 0xF0 \<le> b0 \<and> b0 \<le> 0xF4
      then (case (cont_byte (if b0 = 0xF0 then 0x90 else 0x80) (if b0 = 0xF4 then 0x8F else 0xBF) (tl s),
                  cont_byte 0x80 0xBF (drop 2 s), cont_byte 0x80 0xBF (drop 3 s)) of
              (Some b1, Some b2, Some b3) \<Rightarrow> (262144 * (b0 mod 8) + 4096 * b1 + 64 * b2 + b3, 4)
            | _ \<Rightarrow> (rune_error, 1))
      else (rune_error, 1))"

lemma decode_rune_pos: "0 < snd (decode_rune s)"
  by (simp add: decode_rune_def Let_def split: option.splits)

function runes :: "string \<Rightarrow> nat list" where
  "runes s = (if s = [] then [] else case decode_rune s of (r, n) \<Rightarrow> r # runes (drop n s))"
  by pat_completeness auto
termination
proof (relation "measure length")
  fix s :: string and r n
  assume s: "s \<noteq> []" and x: "(r, n) = decode_rune s"
  from x have "0 < n" using decode_rune_pos [of s] by (metis snd_conv)
  then show "(drop n s, s) \<in> measure length" using s by simp
qed simp

declare runes.simps [simp del]

text \<open>\<^verbatim>\<open>unicode.IsSpace\<close> and \<^verbatim>\<open>unicode.IsControl\<close>; \<^verbatim>\<open>strings.TrimSpace\<close> of a string is empty iff all its runes are spaces.\<close>

definition is_space :: "nat \<Rightarrow> bool" where
  "is_space r \<longleftrightarrow> (9 \<le> r \<and> r \<le> 13) \<or> r = 32 \<or> r = 0x85 \<or> r = 0xA0 \<or> r = 0x1680 \<or> (0x2000 \<le> r \<and> r \<le> 0x200A) \<or>
     r = 0x2028 \<or> r = 0x2029 \<or> r = 0x202F \<or> r = 0x205F \<or> r = 0x3000"

definition is_control :: "nat \<Rightarrow> bool" where
  "is_control r \<longleftrightarrow> r < 32 \<or> (0x7F \<le> r \<and> r < 0xA0)"

definition is_blank :: "string \<Rightarrow> bool" where
  "is_blank s = list_all is_space (runes s)"

section \<open>Decimal round trip\<close>

lemma char_digit_dec: "d < 10 \<Longrightarrow> char_digit (char_of (48 + d)) = Some d"
  by (simp add: char_digit_def)

lemma parse_uint_loop_append:
  "parse_uint_loop base us bits acc (xs @ ys) =
     (case parse_uint_loop base us bits acc xs of Inl e \<Rightarrow> Inl e | Inr v \<Rightarrow> parse_uint_loop base us bits v ys)"
  by (induction xs arbitrary: acc) (auto split: option.splits)

lemma parse_dec_digits: "n < 2 ^ bits \<Longrightarrow> parse_uint_loop 10 False bits 0 (dec_digits n) = Inr n"
proof (induction n rule: less_induct)
  case (less n)
  show ?case
  proof (cases "n < 10")
    case True
    then show ?thesis using less.prems by (simp add: dec_digits.simps [of n] char_digit_dec)
  next
    case False
    have "n div 10 < 2 ^ bits" using less.prems by (meson div_le_dividend le_less_trans)
    moreover have "n div 10 < n" using False by simp
    ultimately have "parse_uint_loop 10 False bits 0 (dec_digits (n div 10)) = Inr (n div 10)" using less.IH by blast
    then show ?thesis
      using False less.prems
      by (simp add: dec_digits.simps [of n] parse_uint_loop_append char_digit_dec div_mult_mod_eq mult.commute)
  qed
qed

lemma dec_digits_nonempty [simp]: "dec_digits n \<noteq> []"
  by (simp add: dec_digits.simps [of n])

lemma dec_digits_chars: "c \<in> set (dec_digits n) \<Longrightarrow> 48 \<le> (of_char c :: nat) \<and> (of_char c :: nat) \<le> 57"
proof (induction n rule: less_induct)
  case (less n)
  show ?case
  proof (cases "n < 10")
    case True
    then show ?thesis using less.prems by (auto simp: dec_digits.simps [of n])
  next
    case False
    then have "c \<in> set (dec_digits (n div 10)) \<or> c = char_of (48 + n mod 10)"
      using less.prems by (auto simp: dec_digits.simps [of n])
    moreover have "n div 10 < n" using False by simp
    ultimately show ?thesis using less.IH by auto
  qed
qed

lemma dec_digits_no_char:
  assumes "(of_char c :: nat) < 48 \<or> 57 < (of_char c :: nat)"
  shows "c \<notin> set (dec_digits n)"
  using dec_digits_chars [of c n] assms by auto

lemma Atoi_itoa:
  assumes "n < 2 ^ 63"
  shows "Atoi (dec_digits n) = Inr (int n)"
proof -
  obtain c cs where eq: "dec_digits n = c # cs" using dec_digits_nonempty by (cases "dec_digits n") auto
  have "c \<noteq> CHR ''-''" "c \<noteq> CHR ''+''"
    using dec_digits_no_char [of "CHR ''-''" n] dec_digits_no_char [of "CHR ''+''" n] eq by auto
  moreover have "parse_uint_loop 10 False 64 0 (c # cs) = Inr n"
    using parse_dec_digits [of n 64] assms by (simp add: eq)
  ultimately show ?thesis using assms by (simp add: Atoi_def eq del: parse_uint_loop.simps)
qed

end
