(* ===== verification/Netip_Parse.thy ===== *)
theory Netip_Parse
  imports Netip Go_Strings
begin

text \<open>
  The parsers of \<^verbatim>\<open>net/netip\<close> for addresses and prefixes, and the canonical form and order of prefixes,
  as the routing compiler uses them. A parse error is \<open>None\<close>.
\<close>

section \<open>Addresses\<close>

text \<open>\<open>start\<close> says that the loop is at the beginning or right after a dot.\<close>

fun v4_fields :: "nat \<Rightarrow> nat \<Rightarrow> bool \<Rightarrow> bytes \<Rightarrow> string \<Rightarrow> bytes option" where
  "v4_fields val digLen start acc [] = (if length acc < 3 then None else Some (acc @ [of_nat val]))"
| "v4_fields val digLen start acc (c # cs) =
     (let n = of_char c :: nat in
      if 48 \<le> n \<and> n \<le> 57
      then (if digLen = 1 \<and> val = 0 then None
            else let val' = val * 10 + (n - 48) in if val' > 255 then None else v4_fields val' (Suc digLen) False acc cs)
      else if c = CHR ''.''
      then (if start \<or> cs = [] then None else if length acc = 3 then None else v4_fields 0 0 True (acc @ [of_nat val]) cs)
      else None)"

definition addr_From4 :: "bytes \<Rightarrow> addr" where
  "addr_From4 bs = Addr4 (foldl (\<lambda>acc b. push_bit 8 acc OR ucast b) 0 bs)"

definition parseIPv4 :: "string \<Rightarrow> addr option" where
  "parseIPv4 s = map_option addr_From4 (v4_fields 0 0 True [] s)"

text \<open>The hexadecimal digits at the start of a string: their number and value, or an over-long field.\<close>

fun hex_run :: "nat \<Rightarrow> nat \<Rightarrow> string \<Rightarrow> (nat \<times> nat) option" where
  "hex_run off acc [] = Some (off, acc)"
| "hex_run off acc (c # cs) =
     (case hex_digit c of
        None \<Rightarrow> Some (off, acc)
      | Some d \<Rightarrow> if off > 3 \<or> 16 * acc + d > 65535 then None else hex_run (Suc off) (16 * acc + d) cs)"

text \<open>\<open>ip\<close> is the part of the address read so far and \<open>el\<close> where it had a double colon.\<close>

function v6_loop :: "nat option \<Rightarrow> bytes \<Rightarrow> string \<Rightarrow> (bytes \<times> nat option \<times> string) option" where
  "v6_loop el ip s =
     (if length ip \<ge> 16 then Some (ip, el, s)
      else case hex_run 0 0 s of
             None \<Rightarrow> None
           | Some (off, acc) \<Rightarrow>
               if off = 0 then None
               else if off < length s \<and> s ! off = CHR ''.''
               then (if (el = None \<and> length ip \<noteq> 12) \<or> length ip + 4 > 16 then None
                     else case v4_fields 0 0 True [] s of None \<Rightarrow> None | Some fs \<Rightarrow> Some (ip @ fs, el, []))
               else (case drop off s of
                       [] \<Rightarrow> Some (ip @ be16 (of_nat acc), el, [])
                     | c # s1 \<Rightarrow>
                         if c \<noteq> CHR '':'' then None
                         else (case s1 of
                                 [] \<Rightarrow> None
                               | d # s2 \<Rightarrow>
                                   if d = CHR '':''
                                   then (if el \<noteq> None then None
                                         else if s2 = [] then Some (ip @ be16 (of_nat acc), Some (length ip + 2), [])
                                         else v6_loop (Some (length ip + 2)) (ip @ be16 (of_nat acc)) s2)
                                   else v6_loop el (ip @ be16 (of_nat acc)) s1)))"
  by pat_completeness auto
termination
  by (relation "measure (\<lambda>(el, ip, s). 16 - length ip)") auto

declare v6_loop.simps [simp del]

definition v6_finish :: "bytes \<times> nat option \<times> string \<Rightarrow> bytes option" where
  "v6_finish r =
     (case r of (ip, el, s) \<Rightarrow>
        if s \<noteq> [] then None
        else if length ip < 16
        then (case el of None \<Rightarrow> None | Some e \<Rightarrow> Some (take e ip @ replicate (16 - length ip) 0 @ drop e ip))
        else if el \<noteq> None then None else Some ip)"

definition parseIPv6 :: "string \<Rightarrow> addr option" where
  "parseIPv6 inp =
     (case str_cut (CHR ''%'') inp of (s, zn, ok) \<Rightarrow>
        if ok \<and> zn = [] then None
        else case s of
               a # b # rest \<Rightarrow>
                 if a = CHR '':'' \<and> b = CHR '':''
                 then (if rest = [] then Some (Addr6 0 zn)
                       else case v6_loop (Some 0) [] rest of
                              None \<Rightarrow> None | Some r \<Rightarrow> map_option (\<lambda>ip. Addr6 (word_of_bytes ip) zn) (v6_finish r))
                 else (case v6_loop None [] s of
                         None \<Rightarrow> None | Some r \<Rightarrow> map_option (\<lambda>ip. Addr6 (word_of_bytes ip) zn) (v6_finish r))
             | _ \<Rightarrow> (case v6_loop None [] s of
                         None \<Rightarrow> None | Some r \<Rightarrow> map_option (\<lambda>ip. Addr6 (word_of_bytes ip) zn) (v6_finish r)))"

fun parse_addr_kind :: "string \<Rightarrow> char option" where
  "parse_addr_kind [] = None"
| "parse_addr_kind (c # cs) = (if c \<in> {CHR ''.'', CHR '':'', CHR ''%''} then Some c else parse_addr_kind cs)"

definition ParseAddr :: "string \<Rightarrow> addr option" where
  "ParseAddr s =
     (case parse_addr_kind s of
        None \<Rightarrow> None
      | Some c \<Rightarrow> if c = CHR ''.'' then parseIPv4 s else if c = CHR '':'' then parseIPv6 s else None)"

text \<open>\<^verbatim>\<open>ParseAddrPort\<close>: the last colon separates the port; brackets exactly around IPv6 addresses.\<close>

definition splitAddrPort :: "string \<Rightarrow> (string \<times> string \<times> bool) option" where
  "splitAddrPort s =
     (case str_last_index (CHR '':'') s of
        None \<Rightarrow> None
      | Some i \<Rightarrow>
          let ip = take i s; port = drop (Suc i) s in
          if ip = [] \<or> port = [] then None
          else if hd ip = CHR ''[''
          then (if length ip < 2 \<or> last ip \<noteq> CHR '']'' then None else Some (butlast (tl ip), port, True))
          else Some (ip, port, False))"

definition ParseAddrPort :: "string \<Rightarrow> addr_port option" where
  "ParseAddrPort s =
     (case splitAddrPort s of
        None \<Rightarrow> None
      | Some (ip, port, v6) \<Rightarrow>
          (case parse_uint_loop 10 False 16 0 port of
             Inl _ \<Rightarrow> None
           | Inr n \<Rightarrow>
               (case ParseAddr ip of
                  None \<Rightarrow> None
                | Some a \<Rightarrow> if (v6 \<and> addr_Is4 a) \<or> (\<not> v6 \<and> addr_Is6 a) then None else Some \<lparr>ap_addr = a, ap_port = of_nat n\<rparr>)))"

fun addr_Zone :: "addr \<Rightarrow> string" where
  "addr_Zone (Addr6 _ z) = z"
| "addr_Zone _ = []"

section \<open>Prefixes\<close>

fun without_zone :: "addr \<Rightarrow> addr" where
  "without_zone (Addr6 a z) = Addr6 a ''''"
| "without_zone a = a"

definition PrefixFrom :: "addr \<Rightarrow> int \<Rightarrow> ip_prefix" where
  "PrefixFrom ip bits =
     \<lparr>pfx_addr = without_zone ip,
      pfx_bits = (if addr_IsValid ip \<and> 0 \<le> bits \<and> bits \<le> addr_BitLen ip then bits else -1)\<rparr>"

definition ParsePrefix :: "string \<Rightarrow> ip_prefix option" where
  "ParsePrefix s =
     (case str_last_index (CHR ''/'') s of
        None \<Rightarrow> None
      | Some i \<Rightarrow>
          (case ParseAddr (take i s) of
             None \<Rightarrow> None
           | Some ip \<Rightarrow>
               let bitsStr = drop (Suc i) s in
               if (case ip of Addr6 _ z \<Rightarrow> z \<noteq> [] | _ \<Rightarrow> False) then None
               else if length bitsStr > 1 \<and> \<not> (49 \<le> (of_char (hd bitsStr) :: nat) \<and> (of_char (hd bitsStr) :: nat) \<le> 57) then None
               else case Atoi bitsStr of
                      Inl _ \<Rightarrow> None
                    | Inr bits \<Rightarrow> if bits < 0 \<or> bits > addr_BitLen ip then None else Some (PrefixFrom ip bits)))"

text \<open>\<^verbatim>\<open>Masked\<close> clears the bits behind the prefix.\<close>

definition pfx_Masked :: "ip_prefix \<Rightarrow> ip_prefix" where
  "pfx_Masked p =
     (if pfx_bits p < 0 then \<lparr>pfx_addr = AddrInvalid, pfx_bits = -1\<rparr>
      else case pfx_addr p of
             AddrInvalid \<Rightarrow> \<lparr>pfx_addr = AddrInvalid, pfx_bits = -1\<rparr>
           | Addr4 a \<Rightarrow> p\<lparr>pfx_addr := Addr4 (push_bit (32 - nat (pfx_bits p)) (drop_bit (32 - nat (pfx_bits p)) a))\<rparr>
           | Addr6 a z \<Rightarrow> p\<lparr>pfx_addr := Addr6 (push_bit (128 - nat (pfx_bits p)) (drop_bit (128 - nat (pfx_bits p)) a)) z\<rparr>)"

text \<open>
  \<^verbatim>\<open>Prefix.Compare\<close> as a key: validity, family, masked address, length, address.
\<close>

definition addr_num :: "addr \<Rightarrow> nat" where
  "addr_num a = (case a of AddrInvalid \<Rightarrow> 0 | Addr4 w \<Rightarrow> unat w | Addr6 w _ \<Rightarrow> unat w)"

definition pfx_rank :: "ip_prefix \<Rightarrow> nat list" where
  "pfx_rank p = [(if pfx_bits p < 0 then 0 else 1), nat (addr_BitLen (pfx_addr p)),
                 addr_num (pfx_addr (pfx_Masked p)), nat (pfx_bits p), addr_num (pfx_addr p)]"

section \<open>Facts\<close>

text \<open>The prefixes that the parsers and \<^verbatim>\<open>PrefixFrom\<close> build.\<close>

definition pfx_wf :: "ip_prefix \<Rightarrow> bool" where
  "pfx_wf p \<longleftrightarrow> addr_IsValid (pfx_addr p) \<and> 0 \<le> pfx_bits p \<and> pfx_bits p \<le> addr_BitLen (pfx_addr p) \<and> without_zone (pfx_addr p) = pfx_addr p"

lemma without_zone_props [simp]:
  "addr_IsValid (without_zone a) = addr_IsValid a" "addr_BitLen (without_zone a) = addr_BitLen a"
  "without_zone (without_zone a) = without_zone a" "addr_Is4 (without_zone a) = addr_Is4 a" "addr_As16 (without_zone a) = addr_As16 a"
  by (cases a; simp)+

lemma ParseAddr_valid: "ParseAddr t = Some ip \<Longrightarrow> addr_IsValid ip"
  by (auto simp: ParseAddr_def parseIPv4_def parseIPv6_def addr_From4_def split: option.splits if_splits prod.splits list.splits)

lemma ParsePrefix_wf: "ParsePrefix s = Some p \<Longrightarrow> pfx_wf p"
  by (auto simp: ParsePrefix_def Let_def pfx_wf_def PrefixFrom_def not_less dest: ParseAddr_valid
        split: option.splits sum.splits if_splits)

lemma PrefixFrom_full: "addr_IsValid a \<Longrightarrow> pfx_wf (PrefixFrom a (addr_BitLen a))"
  by (cases a) (auto simp: pfx_wf_def PrefixFrom_def)

lemma Masked_wf: "pfx_wf p \<Longrightarrow> pfx_wf (pfx_Masked p)"
  by (cases "pfx_addr p") (auto simp: pfx_wf_def pfx_Masked_def)

end
