(* ===== verification/Config_Syntax.thy ===== *)
theory Config_Syntax
  imports Go_Strings
begin

text \<open>
  The syntax tree of the configuration (\<^verbatim>\<open>pkg/config_parser/section.go\<close>) and its printed forms, which the
  routing compiler uses as keys: literal quoting, parameters, predicate functions and routing rules.
  Pointers to nodes are the nodes themselves; a nil list of functions is kept apart from an empty one.
\<close>

section \<open>Nodes\<close>

datatype param = Param (p_Key: string) (p_Val: string) (p_AndFunctions: "func list option")
    (p_Quoted: bool) (p_ValueList: "string list") (p_Annotation: "param list")
and func = Func (fn_Name: string) (fn_Not: bool) (fn_Params: "param list") (fn_Quoted: bool)

record rule_source =
  rs_File :: string
  rs_Expression :: string
  rs_Line :: int
  rs_Column :: int

record routing_rule =
  rr_AndFunctions :: "func list"
  rr_Outbound :: func
  rr_Sources :: "rule_source list"

record proxy_path =
  pp_Stages :: "param list"

datatype section_item = ItemRule routing_rule | ItemPath proxy_path | ItemParam param | ItemSection config_section | ItemOther
and config_section = Section (sec_Name: string) (sec_Items: "section_item list")

text \<open>The composite literals \<^verbatim>\<open>Param{Key: k, Val: v}\<close> and \<^verbatim>\<open>Function{Name: n, Params: ps}\<close>.\<close>

definition kv_param :: "string \<Rightarrow> string \<Rightarrow> param" where
  "kv_param k v = Param k v None False [] []"

definition plain_func :: "string \<Rightarrow> param list \<Rightarrow> func" where
  "plain_func n ps = Func n False ps False"

lemma kv_param_sel [simp]:
  "p_Key (kv_param k v) = k" "p_Val (kv_param k v) = v" "p_AndFunctions (kv_param k v) = None" "p_Annotation (kv_param k v) = []"
  by (simp_all add: kv_param_def)

lemma plain_func_sel [simp]:
  "fn_Name (plain_func n ps) = n" "fn_Params (plain_func n ps) = ps" "fn_Not (plain_func n ps) = False"
  "fn_Quoted (plain_func n ps) = False"
  by (simp_all add: plain_func_def)

section \<open>Literals\<close>

abbreviation quote_char :: char where "quote_char \<equiv> CHR 0x22"
abbreviation backslash :: char where "backslash \<equiv> CHR 0x5C"

definition QuoteLiteral :: "string \<Rightarrow> string" where
  "QuoteLiteral value =
     [quote_char] @ concat (map (\<lambda>c. if c = quote_char \<or> c = backslash then [backslash, c] else [c]) value) @ [quote_char]"

definition bare_head :: string where
  "bare_head = ''abcdefghijklmnopqrstuvwxyzABCDEFGHIJKLMNOPQRSTUVWXYZ_/'' @ [backslash] @ ''^*.+0123456789-''"

definition bare_rest :: string where
  "bare_rest = bare_head @ ''=@$!#%''"

definition IsBareLiteral :: "string \<Rightarrow> bool" where
  "IsBareLiteral s = (case s of [] \<Rightarrow> False | c # cs \<Rightarrow> c \<in> set bare_head \<and> list_all (\<lambda>r. r \<in> set bare_rest) cs)"

definition formatFunctionName :: "string \<Rightarrow> bool \<Rightarrow> string" where
  "formatFunctionName name quoted = (if quoted \<or> \<not> IsBareLiteral name then QuoteLiteral name else name)"

section \<open>Printing\<close>

fun param_String :: "param \<Rightarrow> bool \<Rightarrow> bool \<Rightarrow> string"
  and func_String :: "func \<Rightarrow> bool \<Rightarrow> bool \<Rightarrow> bool \<Rightarrow> string" where
  "param_String (Param key val fs q vl annots) compact quoteVal =
     (let value = (case fs of
                     Some functions \<Rightarrow> str_join (if compact then ''&&'' else '' && '') (map (\<lambda>f. func_String f compact quoteVal False) functions)
                   | None \<Rightarrow> if quoteVal then QuoteLiteral val else val);
          value1 = (if key \<noteq> [] then key @ (if compact then '':'' else '': '') @ value else value)
      in if annots \<noteq> []
         then value1 @ '' ['' @ str_join (if compact then '','' else '', '') (map (\<lambda>a. param_String a compact quoteVal) annots) @ '']''
         else value1)"
| "func_String (Func name nt params quoted) compact quoteVal omitEmpty =
     (if nt then ''!'' else []) @ formatFunctionName name quoted @
     (if omitEmpty \<and> params = [] then []
      else ''('' @ str_join (if compact then '','' else '', '') (map (\<lambda>p. param_String p compact quoteVal) params) @ '')'')"

definition path_String :: "proxy_path \<Rightarrow> bool \<Rightarrow> bool \<Rightarrow> string" where
  "path_String p compact quoteVal =
     str_join (if compact then ''->'' else '' -> '') (map (\<lambda>s. param_String s compact quoteVal) (pp_Stages p))"

definition rule_String :: "routing_rule \<Rightarrow> bool \<Rightarrow> bool \<Rightarrow> bool \<Rightarrow> string" where
  "rule_String r replaceParamWithN compact quoteVal =
     (let functions = map (\<lambda>f. if replaceParamWithN
                               then (if fn_Not f then ''!'' else []) @ formatFunctionName (fn_Name f) (fn_Quoted f) @
                                    ''([n = '' @ itoa (int (length (fn_Params f))) @ ''])''
                               else func_String f compact quoteVal False) (rr_AndFunctions r)
      in str_join (if compact then ''&&'' else '' && '') functions @ (if compact then ''->'' else '' -> '') @
         func_String (rr_Outbound r) compact quoteVal True)"

text \<open>\<^verbatim>\<open>indent\<close>: a tab before every line.\<close>

definition indent_lines :: "string \<Rightarrow> string" where
  "indent_lines value = CHR 0x09 # concat (map (\<lambda>c. if c = CHR 0x0A then [CHR 0x0A, CHR 0x09] else [c]) value)"

fun item_TypeName :: "section_item \<Rightarrow> string" where
  "item_TypeName (ItemRule _) = ''RoutingRule''"
| "item_TypeName (ItemPath _) = ''ProxyPath''"
| "item_TypeName (ItemParam _) = ''Param''"
| "item_TypeName (ItemSection _) = ''Section''"
| "item_TypeName ItemOther = ''<Unknown>''"

fun item_String :: "section_item \<Rightarrow> bool \<Rightarrow> bool \<Rightarrow> string"
  and section_String :: "config_section \<Rightarrow> bool \<Rightarrow> bool \<Rightarrow> string" where
  "item_String (ItemRule r) compact quoteVal =
     ''type: '' @ item_TypeName (ItemRule r) @ [CHR 0x0A] @ indent_lines (rule_String r False compact quoteVal)"
| "item_String (ItemPath p) compact quoteVal =
     ''type: '' @ item_TypeName (ItemPath p) @ [CHR 0x0A] @ indent_lines (path_String p compact quoteVal)"
| "item_String (ItemParam p) compact quoteVal =
     ''type: '' @ item_TypeName (ItemParam p) @ [CHR 0x0A] @ indent_lines (param_String p False quoteVal)"
| "item_String (ItemSection s) compact quoteVal =
     ''type: '' @ item_TypeName (ItemSection s) @ [CHR 0x0A] @ indent_lines (section_String s compact quoteVal)"
| "item_String ItemOther compact quoteVal = ''<Unknown>'' @ [CHR 0x0A]"
| "section_String (Section name items) compact quoteVal =
     ''section: '' @ name @ [CHR 0x0A] @ str_join [CHR 0x0A] (map (\<lambda>i. indent_lines (item_String i compact quoteVal)) items)"

fun setSourceFile_item :: "string \<Rightarrow> section_item \<Rightarrow> section_item"
  and setSourceFile_section :: "string \<Rightarrow> config_section \<Rightarrow> config_section" where
  "setSourceFile_item file (ItemRule r) = ItemRule (r\<lparr>rr_Sources := map (\<lambda>s. s\<lparr>rs_File := file\<rparr>) (rr_Sources r)\<rparr>)"
| "setSourceFile_item file (ItemSection s) = ItemSection (setSourceFile_section file s)"
| "setSourceFile_item file (ItemPath p) = ItemPath p"
| "setSourceFile_item file (ItemParam p) = ItemParam p"
| "setSourceFile_item file ItemOther = ItemOther"
| "setSourceFile_section file (Section name items) = Section name (map (setSourceFile_item file) items)"

definition SetSourceFile :: "config_section list \<Rightarrow> string \<Rightarrow> config_section list" where
  "SetSourceFile sections file = map (setSourceFile_section file) sections"

section \<open>Reading a quoted literal back\<close>

text \<open>The body of a quoted literal up to the closing quote, as the grammar delimits it.\<close>

fun scan_literal :: "string \<Rightarrow> (string \<times> string) option" where
  "scan_literal [] = None"
| "scan_literal (c # cs) =
     (if c = quote_char then Some ([], cs)
      else if c = backslash
      then (case cs of [] \<Rightarrow> None | d # ds \<Rightarrow> map_option (\<lambda>(v, r). (d # v, r)) (scan_literal ds))
      else map_option (\<lambda>(v, r). (c # v, r)) (scan_literal cs))"

lemma scan_literal_escaped:
  "scan_literal (concat (map (\<lambda>c. if c = quote_char \<or> c = backslash then [backslash, c] else [c]) value) @ quote_char # rest) = Some (value, rest)"
  by (induction "value") auto

lemma scan_QuoteLiteral: "scan_literal (tl (QuoteLiteral v @ rest)) = Some (v, rest)"
  using scan_literal_escaped [of v rest] by (simp add: QuoteLiteral_def)

lemma QuoteLiteral_hd: "\<exists>t. QuoteLiteral v @ rest = quote_char # t"
  by (simp add: QuoteLiteral_def)

lemma QuoteLiteral_prefix_free: "QuoteLiteral v @ r = QuoteLiteral w @ s \<longleftrightarrow> v = w \<and> r = s"
proof
  assume "QuoteLiteral v @ r = QuoteLiteral w @ s"
  then have "Some (v, r) = Some (w, s)" using scan_QuoteLiteral [of v r] scan_QuoteLiteral [of w s] by (simp only:)
  then show "v = w \<and> r = s" by simp
qed simp

section \<open>Printed conditions determine them\<close>

text \<open>
  Predicate parameters as the routing grammar produces them: a bare or no key, one literal, no nested
  functions and no annotations. Printed with quoted values, a condition can be read back from its text.
\<close>

definition plain_key :: "string \<Rightarrow> bool" where
  "plain_key k \<longleftrightarrow> k = [] \<or> IsBareLiteral k"

definition plain_param :: "param \<Rightarrow> bool" where
  "plain_param p \<longleftrightarrow> plain_key (p_Key p) \<and> p_AndFunctions p = None \<and> p_Annotation p = []"

definition plain_predicate :: "func \<Rightarrow> bool" where
  "plain_predicate f \<longleftrightarrow> list_all plain_param (fn_Params f)"

definition key_val :: "param \<Rightarrow> string \<times> string" where
  "key_val p = (p_Key p, p_Val p)"

text \<open>What a predicate function says, without the lexical form of its parts.\<close>

definition func_content :: "func \<Rightarrow> string \<times> bool \<times> (string \<times> string) list" where
  "func_content f = (fn_Name f, fn_Not f, map key_val (fn_Params f))"

lemma bare_rest_chars:
  "quote_char \<notin> set bare_rest" "CHR ''('' \<notin> set bare_rest" "CHR '':'' \<notin> set bare_rest" "CHR '','' \<notin> set bare_rest"
  "CHR '')'' \<notin> set bare_rest" "CHR ''!'' \<notin> set bare_head" "quote_char \<notin> set bare_head"
  by (simp_all add: bare_rest_def bare_head_def)

lemma bare_subset: "IsBareLiteral s \<Longrightarrow> set s \<subseteq> set bare_rest"
  by (cases s) (auto simp: IsBareLiteral_def bare_rest_def list_all_iff)

lemma bare_first: "IsBareLiteral s \<Longrightarrow> \<exists>c cs. s = c # cs \<and> c \<in> set bare_head"
  by (cases s) (auto simp: IsBareLiteral_def)

lemma key_no_quote: "plain_key k \<Longrightarrow> quote_char \<notin> set k \<and> CHR '':'' \<notin> set k"
  unfolding plain_key_def using bare_subset [of k] bare_rest_chars(1,3) by auto

lemma param_String_plain:
  "plain_param p \<Longrightarrow> param_String p True True = (if p_Key p = [] then [] else p_Key p @ '':'') @ QuoteLiteral (p_Val p)"
  by (cases p) (simp add: plain_param_def)

lemma takeWhile_upto: "c \<notin> set xs \<Longrightarrow> takeWhile (\<lambda>x. x \<noteq> c) (xs @ c # ys) = xs"
  by (induction xs) auto

lemma param_prefix_free:
  assumes "plain_param p" "plain_param q" "param_String p True True @ r = param_String q True True @ s"
  shows "key_val p = key_val q \<and> r = s"
proof -
  define h where "h k = (if k = [] then [] else k @ '':'')" for k
  have split: "takeWhile (\<lambda>x. x \<noteq> quote_char) (h (p_Key t) @ QuoteLiteral (p_Val t) @ u) = h (p_Key t)" if "plain_param t" for t u
  proof -
    have "quote_char \<notin> set (h (p_Key t))" using that key_no_quote [of "p_Key t"] by (auto simp: plain_param_def h_def)
    then show ?thesis using takeWhile_upto [of quote_char] by (simp add: QuoteLiteral_def)
  qed
  have e: "h (p_Key p) @ QuoteLiteral (p_Val p) @ r = h (p_Key q) @ QuoteLiteral (p_Val q) @ s"
    using assms by (simp add: param_String_plain h_def)
  then have k: "h (p_Key p) = h (p_Key q)" using split [OF assms(1), of r] split [OF assms(2), of s] by (simp only:)
  then have "QuoteLiteral (p_Val p) @ r = QuoteLiteral (p_Val q) @ s" using e by (simp only: same_append_eq)
  then have "p_Val p = p_Val q \<and> r = s" by (simp only: QuoteLiteral_prefix_free)
  moreover have "p_Key p = p_Key q" using k by (auto simp: h_def split: if_splits)
  ultimately show ?thesis by (simp add: key_val_def)
qed

lemma str_join_concat: "str_join sep (x # xs) = x @ concat (map (\<lambda>y. sep @ y) xs)"
proof (induction xs arbitrary: x)
  case (Cons y ys)
  then show ?case by simp
qed simp

lemma more_params_prefix_free:
  assumes "list_all plain_param ps" "list_all plain_param qs"
    and "concat (map (\<lambda>p. '','' @ param_String p True True) ps) @ '')'' @ r = concat (map (\<lambda>p. '','' @ param_String p True True) qs) @ '')'' @ s"
  shows "map key_val ps = map key_val qs \<and> r = s"
  using assms
proof (induction ps arbitrary: qs)
  case Nil
  then show ?case by (cases qs) auto
next
  case (Cons p ps)
  then obtain q qs' where q: "qs = q # qs'" by (cases qs) auto
  let ?m = "\<lambda>ps r. concat (map (\<lambda>p. '','' @ param_String p True True) ps) @ '')'' @ r"
  have "param_String p True True @ ?m ps r = param_String q True True @ ?m qs' s" using Cons.prems(3) by (simp add: q)
  from param_prefix_free [OF _ _ this] Cons.prems(1,2)
  have "key_val p = key_val q \<and> ?m ps r = ?m qs' s" by (simp add: q)
  moreover have "list_all plain_param ps" "list_all plain_param qs'" using Cons.prems(1,2) by (simp_all add: q)
  ultimately show ?case using Cons.IH [of qs'] by (simp add: q)
qed

lemma param_first: "plain_param p \<Longrightarrow> \<exists>c t. param_String p True True = c # t \<and> (c = quote_char \<or> c \<in> set bare_head)"
  using bare_first [of "p_Key p"] by (auto simp: param_String_plain plain_param_def plain_key_def QuoteLiteral_def)

lemma params_prefix_free:
  assumes "list_all plain_param ps" "list_all plain_param qs"
    and "str_join '','' (map (\<lambda>p. param_String p True True) ps) @ '')'' @ r = str_join '','' (map (\<lambda>p. param_String p True True) qs) @ '')'' @ s"
  shows "map key_val ps = map key_val qs \<and> r = s"
proof -
  have close: "CHR '')'' \<notin> set bare_head" by (simp add: bare_head_def)
  consider "ps = []" "qs = []" | p ps' where "ps = p # ps'" "qs = []" | q qs' where "ps = []" "qs = q # qs'"
    | p ps' q qs' where "ps = p # ps'" "qs = q # qs'" by (cases ps; cases qs) auto
  then show ?thesis
  proof cases
    case 1
    then show ?thesis using assms(3) by simp
  next
    case (2 p ps')
    then show ?thesis using assms close param_first [of p] by (auto simp: str_join_concat)
  next
    case (3 q qs')
    then show ?thesis using assms close param_first [of q] by (auto simp: str_join_concat)
  next
    case (4 p ps' q qs')
    let ?m = "\<lambda>ps r. concat (map (\<lambda>p. '','' @ param_String p True True) ps) @ '')'' @ r"
    have "param_String p True True @ ?m ps' r = param_String q True True @ ?m qs' s"
      using assms(3) by (simp add: 4 str_join_concat comp_def)
    from param_prefix_free [OF _ _ this] assms(1,2) have "key_val p = key_val q" "?m ps' r = ?m qs' s" by (simp_all add: 4)
    moreover have "list_all plain_param ps'" "list_all plain_param qs'" using assms(1,2) by (simp_all add: 4)
    ultimately show ?thesis using more_params_prefix_free [of ps' qs' r s] by (simp add: 4)
  qed
qed

lemma name_prefix_free:
  assumes "formatFunctionName a qa @ ''('' @ r = formatFunctionName b qb @ ''('' @ s"
  shows "a = b \<and> r = s"
proof -
  have bare: "takeWhile (\<lambda>x. x \<noteq> CHR ''('') (n @ ''('' @ t) = n" if "IsBareLiteral n" for n t
    using takeWhile_upto [of "CHR ''(''" n t] bare_subset [OF that] bare_rest_chars(2) by auto
  have mixed: "QuoteLiteral n @ t \<noteq> m @ u" if "IsBareLiteral m" for n m t u
    using bare_first [OF that] bare_rest_chars(7) by (auto simp: QuoteLiteral_def)
  show ?thesis
  proof (cases "qa \<or> \<not> IsBareLiteral a"; cases "qb \<or> \<not> IsBareLiteral b")
    assume "qa \<or> \<not> IsBareLiteral a" "qb \<or> \<not> IsBareLiteral b"
    then show ?thesis using assms QuoteLiteral_prefix_free [of a "''('' @ r" b "''('' @ s"] by (simp add: formatFunctionName_def)
  next
    assume "qa \<or> \<not> IsBareLiteral a" "\<not> (qb \<or> \<not> IsBareLiteral b)"
    then show ?thesis using assms mixed [of b a "''('' @ r" "''('' @ s"] by (simp add: formatFunctionName_def)
  next
    assume "\<not> (qa \<or> \<not> IsBareLiteral a)" "qb \<or> \<not> IsBareLiteral b"
    then show ?thesis using assms mixed [of a b "''('' @ s" "''('' @ r"] by (auto simp: formatFunctionName_def)
  next
    assume ab: "\<not> (qa \<or> \<not> IsBareLiteral a)" "\<not> (qb \<or> \<not> IsBareLiteral b)"
    then have e: "a @ ''('' @ r = b @ ''('' @ s" using assms by (simp add: formatFunctionName_def)
    then have "a = b" using bare [of a r] bare [of b s] ab by metis
    then show ?thesis using e by simp
  qed
qed

lemma name_first: "\<exists>c t. formatFunctionName a q = c # t \<and> c \<noteq> CHR ''!''"
proof (cases "q \<or> \<not> IsBareLiteral a")
  case True
  then show ?thesis by (simp add: formatFunctionName_def QuoteLiteral_def)
next
  case False
  then obtain c cs where "a = c # cs" "c \<in> set bare_head" using bare_first [of a] by blast
  then show ?thesis using False bare_rest_chars(6) by (auto simp: formatFunctionName_def)
qed

lemma func_prefix_free:
  assumes "plain_predicate f" "plain_predicate g" "func_String f True True False @ r = func_String g True True False @ s"
  shows "func_content f = func_content g \<and> r = s"
proof -
  define body where "body h t = formatFunctionName (fn_Name h) (fn_Quoted h) @ ''('' @
      str_join '','' (map (\<lambda>p. param_String p True True) (fn_Params h)) @ '')'' @ t" for h t
  have str: "func_String h True True False @ t = (if fn_Not h then ''!'' else []) @ body h t" for h t
    by (cases h) (simp add: body_def)
  have hd: "\<exists>c u. body h t = c # u \<and> c \<noteq> CHR ''!''" for h t
    using name_first [of "fn_Name h" "fn_Quoted h"] by (auto simp: body_def)
  have e: "(if fn_Not f then ''!'' else []) @ body f r = (if fn_Not g then ''!'' else []) @ body g s"
    using assms(3) unfolding str .
  have nt: "fn_Not f = fn_Not g" using e hd [of f r] hd [of g s] by (auto split: if_splits)
  then have "body f r = body g s" using e by simp
  then have n: "fn_Name f = fn_Name g" and
    "str_join '','' (map (\<lambda>p. param_String p True True) (fn_Params f)) @ '')'' @ r =
     str_join '','' (map (\<lambda>p. param_String p True True) (fn_Params g)) @ '')'' @ s"
    unfolding body_def using name_prefix_free by blast+
  then show ?thesis
    using params_prefix_free [of "fn_Params f" "fn_Params g" r s] assms(1,2) nt by (simp add: plain_predicate_def func_content_def)
qed

lemma conditions_determined:
  assumes "list_all plain_predicate fs" "list_all plain_predicate gs"
    and "concat (map (\<lambda>f. func_String f True True False @ ''&&'') fs) = concat (map (\<lambda>f. func_String f True True False @ ''&&'') gs)"
  shows "map func_content fs = map func_content gs"
  using assms
proof (induction fs arbitrary: gs)
  case Nil
  then show ?case by (cases gs) auto
next
  case (Cons f fs)
  then obtain g gs' where g: "gs = g # gs'" by (cases gs) auto
  let ?c = "\<lambda>fs. concat (map (\<lambda>f. func_String f True True False @ ''&&'') fs)"
  have "func_String f True True False @ ''&&'' @ ?c fs = func_String g True True False @ ''&&'' @ ?c gs'"
    using Cons.prems(3) by (simp add: g)
  from func_prefix_free [OF _ _ this] Cons.prems(1,2)
  have "func_content f = func_content g" "?c fs = ?c gs'" by (simp_all add: g)
  then show ?case using Cons.IH [of gs'] Cons.prems(1,2) by (simp add: g)
qed

end
