(* ===== verification/Routing_Parse.thy ===== *)
theory Routing_Parse
  imports Netip_Parse Config_Syntax
begin

text \<open>
  From rule syntax to predicate callbacks (\<^verbatim>\<open>component/routing\<close>): the outbound of a rule, the value
  parsers of the predicate functions and \<^verbatim>\<open>RulesBuilder.ApplyPredicate\<close>, which splits a condition into
  logical OR, logical AND and terminal match sets. The state the callbacks change is a type parameter.
\<close>

section \<open>Errors of the routing compiler\<close>

datatype build_error =
  EmptyPredicate | MissingArguments | UnknownFunction string | ClientArity | FailedToParse string build_error
| KeyNotAccepted | CannotParse string | InvalidMac string | BadPortRange string | PortNumber num_error | PortOutOfRange int
| UnsupportedL4Proto string | UnsupportedIpVersion string | BadMark num_error | BadSkipWhileNoalive string
| UnknownOutboundParam string | UnknownOutboundKey string | OutboundNotFound string | SkipOnFallback | SkipOnBuiltin string
| UnsupportedDomainKey string | TooManyDomainSets | BadClientName string | BadInterfaceName string
| MissingRuleTail nat | MissingClauseTail nat | BadConditionalJump nat nat
| BlockEndsInsideRule nat | BlockCrossesPhases nat | InvalidJumpAt nat nat | OverlappingBlocks nat
| TooManyMatchSets nat | TooManyDestinationSets nat | TooManyInterfaces nat | ExecutesTooMany | TooManyPhysical nat
| UndefinedRuleSet string | TooManyVariants | UnknownStatement string | InBlock string build_error | InvalidConfig string
| BadDomainSet string | TrieError | BuildPanic

type_synonym 'a build_result = "build_error + 'a"

section \<open>Outbounds\<close>

record outbound =
  ob_Name :: string
  ob_Mark :: nat
  ob_Must :: bool
  ob_SkipWhileNoalive :: bool

definition logicalOrName :: string where "logicalOrName = ''<OR>''"
definition logicalAndName :: string where "logicalAndName = ''<AND>''"

definition direct_outbound :: outbound where
  "direct_outbound = \<lparr>ob_Name = ''direct'', ob_Mark = 0, ob_Must = False, ob_SkipWhileNoalive = False\<rparr>"

definition outbound_param :: "param \<Rightarrow> outbound \<Rightarrow> outbound build_result" where
  "outbound_param p o1 =
     (if p_Key p = ''mark''
      then (case ParseUint0 (p_Val p) 32 of Inl e \<Rightarrow> Inl (BadMark e) | Inr m \<Rightarrow> Inr (o1\<lparr>ob_Mark := m\<rparr>))
      else if p_Key p = ''skip_while_noalive''
      then (case ParseBool (p_Val p) of None \<Rightarrow> Inl (BadSkipWhileNoalive (p_Val p)) | Some b \<Rightarrow> Inr (o1\<lparr>ob_SkipWhileNoalive := b\<rparr>))
      else if p_Key p = []
      then (if p_Val p = ''must'' then Inr (o1\<lparr>ob_Must := True\<rparr>)
            else if p_Val p = ''skip_while_noalive'' then Inr (o1\<lparr>ob_SkipWhileNoalive := True\<rparr>)
            else Inl (UnknownOutboundParam (p_Val p)))
      else Inl (UnknownOutboundKey (p_Key p)))"

fun outbound_params :: "param list \<Rightarrow> outbound \<Rightarrow> outbound build_result" where
  "outbound_params [] o1 = Inr o1"
| "outbound_params (p # ps) o1 = (case outbound_param p o1 of Inl e \<Rightarrow> Inl e | Inr o2 \<Rightarrow> outbound_params ps o2)"

definition ParseOutbound :: "func \<Rightarrow> outbound build_result" where
  "ParseOutbound raw =
     outbound_params (fn_Params raw) \<lparr>ob_Name = fn_Name raw, ob_Mark = 0, ob_Must = False, ob_SkipWhileNoalive = False\<rparr>"

section \<open>Value parsers\<close>

fun parsePrefixes :: "string list \<Rightarrow> ip_prefix list build_result" where
  "parsePrefixes [] = Inr []"
| "parsePrefixes (v # vs) =
     (case (case ParsePrefix v of
              Some p \<Rightarrow> Some p
            | None \<Rightarrow> map_option (\<lambda>a. PrefixFrom a (addr_BitLen a)) (ParseAddr v)) of
        None \<Rightarrow> Inl (CannotParse v)
      | Some p \<Rightarrow> (case parsePrefixes vs of Inl e \<Rightarrow> Inl e | Inr ps \<Rightarrow> Inr (p # ps)))"

text \<open>A fixed \<^verbatim>\<open>[n]byte\<close> array filled by \<^verbatim>\<open>copy\<close>.\<close>

definition copy_into :: "nat \<Rightarrow> bytes \<Rightarrow> bytes" where
  "copy_into n bs = take n bs @ replicate (n - length bs) 0"

definition TaskCommLen :: nat where "TaskCommLen = 16"

definition toProcessName :: "string \<Rightarrow> bytes" where
  "toProcessName processName = copy_into TaskCommLen (bytes_of_string processName)"

fun mac_fields :: "string \<Rightarrow> string list \<Rightarrow> bytes build_result" where
  "mac_fields mac [] = Inr []"
| "mac_fields mac (f # fs) =
     (case hex_decode f of
        None \<Rightarrow> Inl (CannotParse mac)
      | Some v \<Rightarrow> (case v of
                     [b] \<Rightarrow> (case mac_fields mac fs of Inl e \<Rightarrow> Inl e | Inr bs \<Rightarrow> Inr (b # bs))
                   | _ \<Rightarrow> Inl (InvalidMac mac)))"

definition parseMac :: "string \<Rightarrow> bytes build_result" where
  "parseMac mac = (let fields = str_splitN 6 (CHR '':'') mac in if length fields \<noteq> 6 then Inl (InvalidMac mac) else mac_fields mac fields)"

fun port_fields :: "string \<Rightarrow> string list \<Rightarrow> u16 list build_result" where
  "port_fields pr [] = Inr []"
| "port_fields pr (f # fs) =
     (if f = [] then Inl (BadPortRange pr)
      else case Atoi f of
             Inl e \<Rightarrow> Inl (PortNumber e)
           | Inr port \<Rightarrow> if port < 0 \<or> port > 65535 then Inl (PortOutOfRange port)
                         else (case port_fields pr fs of Inl e \<Rightarrow> Inl e | Inr ps \<Rightarrow> Inr (of_int port # ps)))"

definition parsePortRange :: "string \<Rightarrow> (u16 \<times> u16) build_result" where
  "parsePortRange pr =
     (case port_fields pr (str_splitN 2 (CHR ''-'') pr) of
        Inl e \<Rightarrow> Inl e
      | Inr ps \<Rightarrow> (case ps of [a] \<Rightarrow> Inr (a, a) | [a, b] \<Rightarrow> Inr (a, b) | _ \<Rightarrow> Inr (0, 0)))"

text \<open>The loops of the parser factories: the first value that fails ends the loop.\<close>

fun parse_all :: "('a \<Rightarrow> 'b build_result) \<Rightarrow> 'a list \<Rightarrow> 'b list build_result" where
  "parse_all f [] = Inr []"
| "parse_all f (x # xs) = (case f x of Inl e \<Rightarrow> Inl e | Inr y \<Rightarrow> (case parse_all f xs of Inl e \<Rightarrow> Inl e | Inr ys \<Rightarrow> Inr (y # ys)))"

definition L4ProtoType_TCP :: u8 where "L4ProtoType_TCP = 1"
definition L4ProtoType_UDP :: u8 where "L4ProtoType_UDP = 2"
definition L4ProtoType_uTP :: u8 where "L4ProtoType_uTP = 4"
definition IpVersion_4 :: u8 where "IpVersion_4 = 1"
definition IpVersion_6 :: u8 where "IpVersion_6 = 2"

fun parse_l4protos :: "u8 \<Rightarrow> string list \<Rightarrow> u8 build_result" where
  "parse_l4protos acc [] = Inr acc"
| "parse_l4protos acc (v # vs) =
     (if v = ''tcp'' then parse_l4protos (acc OR L4ProtoType_TCP) vs
      else if v = ''udp'' then parse_l4protos (acc OR L4ProtoType_UDP) vs
      else if v = ''utp'' then parse_l4protos (acc OR L4ProtoType_uTP) vs
      else Inl (UnsupportedL4Proto v))"

fun parse_ipversions :: "u8 \<Rightarrow> string list \<Rightarrow> u8 build_result" where
  "parse_ipversions acc [] = Inr acc"
| "parse_ipversions acc (v # vs) =
     (if v = ''4'' then parse_ipversions (acc OR IpVersion_4) vs
      else if v = ''6'' then parse_ipversions (acc OR IpVersion_6) vs
      else Inl (UnsupportedIpVersion v))"

definition parse_uint8 :: "string \<Rightarrow> u8 build_result" where
  "parse_uint8 v = (case ParseUint0 v 8 of Inl e \<Rightarrow> Inl (CannotParse v) | Inr n \<Rightarrow> Inr (of_nat n))"

section \<open>Parser factories\<close>

type_synonym 's function_parser = "func \<Rightarrow> string \<Rightarrow> string list \<Rightarrow> outbound \<Rightarrow> 's \<Rightarrow> 's build_result"

definition PlainParserFactory :: "(func \<Rightarrow> string \<Rightarrow> string list \<Rightarrow> outbound \<Rightarrow> 's \<Rightarrow> 's build_result) \<Rightarrow> 's function_parser" where
  "PlainParserFactory callback = (\<lambda>f key vals ob. callback f key vals ob)"

definition EmptyKeyPlainParserFactory :: "(func \<Rightarrow> string list \<Rightarrow> outbound \<Rightarrow> 's \<Rightarrow> 's build_result) \<Rightarrow> 's function_parser" where
  "EmptyKeyPlainParserFactory callback = (\<lambda>f key vals ob b. if key \<noteq> [] then Inl KeyNotAccepted else callback f vals ob b)"

text \<open>The shape the typed factories share: parse the values, then call back.\<close>

definition parsed_factory :: "(string list \<Rightarrow> 'v build_result) \<Rightarrow> (func \<Rightarrow> 'v \<Rightarrow> outbound \<Rightarrow> 's \<Rightarrow> 's build_result) \<Rightarrow> 's function_parser" where
  "parsed_factory parse callback =
     EmptyKeyPlainParserFactory (\<lambda>f vals ob b. case parse vals of Inl e \<Rightarrow> Inl e | Inr v \<Rightarrow> callback f v ob b)"

definition IpParserFactory :: "(func \<Rightarrow> ip_prefix list \<Rightarrow> outbound \<Rightarrow> 's \<Rightarrow> 's build_result) \<Rightarrow> 's function_parser" where
  "IpParserFactory = parsed_factory parsePrefixes"

definition MacParserFactory :: "(func \<Rightarrow> bytes list \<Rightarrow> outbound \<Rightarrow> 's \<Rightarrow> 's build_result) \<Rightarrow> 's function_parser" where
  "MacParserFactory = parsed_factory (parse_all parseMac)"

definition PortRangeParserFactory :: "(func \<Rightarrow> (u16 \<times> u16) list \<Rightarrow> outbound \<Rightarrow> 's \<Rightarrow> 's build_result) \<Rightarrow> 's function_parser" where
  "PortRangeParserFactory = parsed_factory (parse_all parsePortRange)"

definition L4ProtoParserFactory :: "(func \<Rightarrow> u8 \<Rightarrow> outbound \<Rightarrow> 's \<Rightarrow> 's build_result) \<Rightarrow> 's function_parser" where
  "L4ProtoParserFactory = parsed_factory (parse_l4protos 0)"

definition IpVersionParserFactory :: "(func \<Rightarrow> u8 \<Rightarrow> outbound \<Rightarrow> 's \<Rightarrow> 's build_result) \<Rightarrow> 's function_parser" where
  "IpVersionParserFactory = parsed_factory (parse_ipversions 0)"

definition ProcessNameParserFactory :: "(func \<Rightarrow> bytes list \<Rightarrow> outbound \<Rightarrow> 's \<Rightarrow> 's build_result) \<Rightarrow> 's function_parser" where
  "ProcessNameParserFactory = parsed_factory (\<lambda>vals. Inr (map toProcessName vals))"

definition UintParserFactory :: "(func \<Rightarrow> u8 list \<Rightarrow> outbound \<Rightarrow> 's \<Rightarrow> 's build_result) \<Rightarrow> 's function_parser" where
  "UintParserFactory = parsed_factory (parse_all parse_uint8)"

section \<open>Applying a predicate\<close>

text \<open>\<^verbatim>\<open>groupParamValuesByKey\<close>: the values of every key, keys in order of first appearance.\<close>

fun group_insert :: "(string \<times> string list) list \<Rightarrow> param \<Rightarrow> (string \<times> string list) list" where
  "group_insert [] p = [(p_Key p, [p_Val p])]"
| "group_insert ((k, vs) # gs) p = (if k = p_Key p then (k, vs @ [p_Val p]) # gs else (k, vs) # group_insert gs p)"

definition groupParamValuesByKey :: "param list \<Rightarrow> (string \<times> string list) list" where
  "groupParamValuesByKey params = foldl group_insert [] params"

text \<open>The match sets of one function, key by key; \<open>lastFunc\<close> says that it is the last of the predicate.\<close>

fun apply_groups :: "'s function_parser \<Rightarrow> func \<Rightarrow> bool \<Rightarrow> outbound \<Rightarrow> (string \<times> string list) list \<Rightarrow> 's \<Rightarrow> 's build_result" where
  "apply_groups parser f lastFunc ob [] b = Inr b"
| "apply_groups parser f lastFunc ob ((key, vals) # gs) b =
     (let name = (if gs = [] then (if lastFunc then ob_Name ob else logicalAndName) else logicalOrName)
      in case parser f key vals (ob\<lparr>ob_Name := name\<rparr>) b of
           Inl e \<Rightarrow> Inl (FailedToParse (func_String f False False False) e)
         | Inr b' \<Rightarrow> apply_groups parser f lastFunc ob gs b')"

definition apply_function :: "(string \<Rightarrow> 's function_parser option) \<Rightarrow> func \<Rightarrow> bool \<Rightarrow> outbound \<Rightarrow> 's \<Rightarrow> 's build_result" where
  "apply_function parsers f lastFunc ob b =
     (if fn_Params f = [] then Inl MissingArguments
      else case parsers (fn_Name f) of
             None \<Rightarrow> Inl (UnknownFunction (fn_Name f))
           | Some parser \<Rightarrow>
               if fn_Name f = ''client'' \<and> length (fn_Params f) \<noteq> 1 then Inl ClientArity
               else apply_groups parser f lastFunc ob (groupParamValuesByKey (fn_Params f)) b)"

fun apply_functions :: "(string \<Rightarrow> 's function_parser option) \<Rightarrow> outbound \<Rightarrow> func list \<Rightarrow> 's \<Rightarrow> 's build_result" where
  "apply_functions parsers ob [] b = Inr b"
| "apply_functions parsers ob (f # fs) b =
     (case apply_function parsers f (fs = []) ob b of Inl e \<Rightarrow> Inl e | Inr b' \<Rightarrow> apply_functions parsers ob fs b')"

definition ApplyPredicate :: "(string \<Rightarrow> 's function_parser option) \<Rightarrow> func list \<Rightarrow> outbound \<Rightarrow> 's \<Rightarrow> 's build_result" where
  "ApplyPredicate parsers functions ob b = (if functions = [] then Inl EmptyPredicate else apply_functions parsers ob functions b)"

fun rules_Apply :: "(string \<Rightarrow> 's function_parser option) \<Rightarrow> routing_rule list \<Rightarrow> 's \<Rightarrow> 's build_result" where
  "rules_Apply parsers [] b = Inr b"
| "rules_Apply parsers (r # rs) b =
     (case ParseOutbound (rr_Outbound r) of
        Inl e \<Rightarrow> Inl e
      | Inr ob \<Rightarrow> (case ApplyPredicate parsers (rr_AndFunctions r) ob b of Inl e \<Rightarrow> Inl e | Inr b' \<Rightarrow> rules_Apply parsers rs b'))"

section \<open>Facts about the parsers\<close>

definition group_pairs :: "(string \<times> string list) list \<Rightarrow> (string \<times> string) set" where
  "group_pairs gs = {(k, v). \<exists>vs. (k, vs) \<in> set gs \<and> v \<in> set vs}"

lemma group_pairs_Cons: "group_pairs ((k, vs) # gs) = Pair k ` set vs \<union> group_pairs gs"
  by (auto simp: group_pairs_def)

lemma group_insert_keys: "set (map fst (group_insert gs p)) = insert (p_Key p) (set (map fst gs))"
  by (induction gs p rule: group_insert.induct) auto

lemma group_insert_wf:
  assumes "distinct (map fst gs)" "\<forall>(k, vs) \<in> set gs. vs \<noteq> []"
  shows "distinct (map fst (group_insert gs p)) \<and> (\<forall>(k, vs) \<in> set (group_insert gs p). vs \<noteq> []) \<and>
    group_pairs (group_insert gs p) = insert (key_val p) (group_pairs gs)"
  using assms
proof (induction gs p rule: group_insert.induct)
  case (1 p)
  then show ?case by (auto simp: group_pairs_def key_val_def)
next
  case (2 k vs gs p)
  show ?case
  proof (cases "k = p_Key p")
    case True
    then show ?thesis using 2 by (auto simp: group_pairs_Cons key_val_def)
  next
    case False
    moreover have "k \<notin> set (map fst (group_insert gs p))" using 2 False by (simp only: group_insert_keys) auto
    ultimately show ?thesis using 2 by (auto simp: group_pairs_Cons)
  qed
qed

text \<open>Grouping loses no value, invents none and keeps the keys apart.\<close>

lemma groupParamValuesByKey_spec:
  "distinct (map fst (groupParamValuesByKey ps)) \<and> (\<forall>(k, vs) \<in> set (groupParamValuesByKey ps). vs \<noteq> []) \<and>
   group_pairs (groupParamValuesByKey ps) = set (map key_val ps)"
proof (induction ps rule: rev_induct)
  case Nil
  then show ?case by (simp add: groupParamValuesByKey_def group_pairs_def)
next
  case (snoc p ps)
  then show ?case
    using group_insert_wf [of "groupParamValuesByKey ps" p] by (simp add: groupParamValuesByKey_def)
qed

lemma group_insert_nonempty [simp]: "group_insert gs p \<noteq> []"
  by (induction gs p rule: group_insert.induct) auto

lemma groupParamValuesByKey_nonempty: "ps \<noteq> [] \<Longrightarrow> groupParamValuesByKey ps \<noteq> []"
  by (cases ps rule: rev_cases) (auto simp: groupParamValuesByKey_def)

lemma parsePrefixes_wf: "parsePrefixes vs = Inr ps \<Longrightarrow> \<forall>p \<in> set ps. pfx_wf p"
proof (induction vs arbitrary: ps)
  case (Cons v vs)
  then obtain q qs where q: "ps = q # qs" "parsePrefixes vs = Inr qs"
    "(case ParsePrefix v of Some p \<Rightarrow> Some p | None \<Rightarrow> map_option (\<lambda>a. PrefixFrom a (addr_BitLen a)) (ParseAddr v)) = Some q"
    by (auto split: option.splits sum.splits)
  then have "pfx_wf q" by (auto dest: ParsePrefix_wf ParseAddr_valid intro: PrefixFrom_full split: option.splits)
  then show ?case using Cons.IH [OF q(2)] q(1) by simp
qed simp

lemma length_toProcessName [simp]: "length (toProcessName s) = 16"
  by (simp add: toProcessName_def copy_into_def TaskCommLen_def)

lemma mac_fields_length: "mac_fields mac fs = Inr bs \<Longrightarrow> length bs = length fs"
  by (induction mac fs arbitrary: bs rule: mac_fields.induct) (auto split: option.splits list.splits sum.splits)

lemma parseMac_length: "parseMac mac = Inr bs \<Longrightarrow> length bs = 6"
  by (auto simp: parseMac_def Let_def dest: mac_fields_length split: if_splits)

lemma parse_all_Forall: "parse_all f xs = Inr ys \<Longrightarrow> (\<And>x y. f x = Inr y \<Longrightarrow> P y) \<Longrightarrow> \<forall>y \<in> set ys. P y"
  by (induction xs arbitrary: ys) (auto split: sum.splits)

section \<open>Port ranges\<close>

definition print_port :: "u16 \<Rightarrow> string" where
  "print_port p = itoa (int (unat p))"

lemma print_port_digits: "print_port p = dec_digits (unat p)"
  by (simp add: print_port_def itoa_def)

lemma no_dash: "CHR ''-'' \<notin> set (print_port p)"
  unfolding print_port_digits by (rule dec_digits_no_char) simp

lemma port_field_parses:
  "port_fields pr (print_port p # fs) = (case port_fields pr fs of Inl e \<Rightarrow> Inl e | Inr ps \<Rightarrow> Inr (p # ps))"
proof -
  have b: "unat p < 65536" using unsigned_less [of p] by simp
  then have "unat p < 2 ^ 63" by (rule less_trans) simp
  then have "Atoi (print_port p) = Inr (int (unat p))" using Atoi_itoa by (simp add: print_port_digits)
  moreover have "print_port p \<noteq> []" by (simp add: print_port_digits)
  moreover have "int (unat p) \<le> 65535" using b by linarith
  ultimately show ?thesis by (simp add: sum.case_eq_if)
qed

text \<open>
  Claim C28: port ranges round-trip. A range printed as \<open>a-b\<close> is parsed to exactly its two ports, whatever
  their order, and a single port to the range of that port alone.
\<close>

theorem parsePortRange_roundtrip:
  "parsePortRange (print_port a @ ''-'' @ print_port b) = Inr (a, b) \<and> parsePortRange (print_port a) = Inr (a, a)"
proof -
  have "str_splitN 2 (CHR ''-'') (print_port a @ ''-'' @ print_port b) = [print_port a, print_port b]"
    using str_cut_append [OF no_dash, of a "print_port b"] by (simp add: numeral_2_eq_2)
  moreover have "str_splitN 2 (CHR ''-'') (print_port a) = [print_port a]"
    using str_cut_none [OF no_dash, of a] by (simp add: numeral_2_eq_2)
  ultimately show ?thesis
    by (simp add: parsePortRange_def port_field_parses del: port_fields.simps(2))
qed

end
