(* ===== verification/Routing_Config.thy ===== *)
theory Routing_Config
  imports Routing_Parse
begin

text \<open>
  The routing section of the configuration (\<^verbatim>\<open>config/routing_parser.go\<close>, \<^verbatim>\<open>config/routing_actions.go\<close>,
  \<^verbatim>\<open>config/rules.go\<close>): rule sets, policies and interface bindings, their parsing from sections, the
  validation of names and of the reference graph, and the classification of rule sets.
\<close>

section \<open>Structures\<close>

datatype statement_kind = StRule | StUse | StOther u8

record routing_statement =
  st_Kind :: statement_kind
  st_Rule :: "routing_rule option"
  st_Use :: string
  st_Condition :: "func list"

definition rule_statement :: "routing_rule \<Rightarrow> routing_statement" where
  "rule_statement r = \<lparr>st_Kind = StRule, st_Rule = Some r, st_Use = [], st_Condition = []\<rparr>"

definition use_statement :: "string \<Rightarrow> func list \<Rightarrow> routing_statement" where
  "use_statement name cond = \<lparr>st_Kind = StUse, st_Rule = None, st_Use = name, st_Condition = cond\<rparr>"

record routing_rule_set =
  rset_Name :: string
  rset_Statements :: "routing_statement list"

record routing_policy =
  pol_Name :: string
  pol_Rules :: "routing_statement list"
  pol_Statements :: "routing_statement list"
  pol_Fallback :: "func option"

record routing_interface =
  rif_Name :: string
  rif_Policy :: string

record routing_config =
  rcf_Default :: string
  rcf_RuleSets :: "routing_rule_set list"
  rcf_Policies :: "routing_policy list"
  rcf_Interfaces :: "routing_interface list"

definition maxRoutingBlocks :: nat where "maxRoutingBlocks = 1024"
definition maxRoutingStatements :: nat where "maxRoutingStatements = 65536"
definition maxRoutingReferenceDepth :: nat where "maxRoutingReferenceDepth = 64"
definition maxRoutingInterfaceBindings :: nat where "maxRoutingInterfaceBindings = 256"

text \<open>A Go map built by a loop of insertions: the last entry of a name wins.\<close>

definition set_map :: "routing_rule_set list \<Rightarrow> string \<Rightarrow> routing_rule_set option" where
  "set_map sets = foldl (\<lambda>m s. m(rset_Name s \<mapsto> s)) (\<lambda>_. None) sets"

section \<open>Parsing\<close>

definition routingReference :: "param \<Rightarrow> string build_result" where
  "routingReference p =
     (if p_Annotation p \<noteq> [] \<or> p_AndFunctions p \<noteq> None \<or> length (p_ValueList p) \<noteq> 1 \<or> hd (p_ValueList p) = []
      then Inl (InvalidConfig ''reference'') else Inr (hd (p_ValueList p)))"

text \<open>The values that \<^verbatim>\<open>ParseFunctionOrString\<close> distinguishes.\<close>

datatype function_or_string = FsString string | FsQuoted string | FsFunctions "func list"

fun ParseFunctionOrString :: "function_or_string \<Rightarrow> func build_result" where
  "ParseFunctionOrString (FsString s) = Inr (Func s False [] False)"
| "ParseFunctionOrString (FsQuoted s) = Inr (Func s False [] True)"
| "ParseFunctionOrString (FsFunctions fs) = (case fs of [f] \<Rightarrow> Inr f | _ \<Rightarrow> Inl (InvalidConfig ''one function''))"

definition parseRoutingFallback :: "param \<Rightarrow> func build_result" where
  "parseRoutingFallback p =
     (if p_AndFunctions p = None \<and> length (p_ValueList p) \<noteq> 1 then Inl (InvalidConfig ''fallback'')
      else let raw = (case p_AndFunctions p of Some fs \<Rightarrow> FsFunctions fs
                      | None \<Rightarrow> if p_Quoted p then FsQuoted (p_Val p) else FsString (p_Val p))
           in case ParseFunctionOrString raw of
                Inl e \<Rightarrow> Inl e
              | Inr fallback \<Rightarrow>
                  if fn_Name fallback = ''use'' \<and> \<not> fn_Quoted fallback \<and> fn_Params fallback \<noteq> []
                  then Inl (InvalidConfig ''use fallback'') else Inr fallback)"

fun use_params :: "func list \<Rightarrow> param list \<Rightarrow> routing_statement list build_result" where
  "use_params cond [] = Inr []"
| "use_params cond (p # ps) =
     (if p_Key p \<noteq> [] \<or> p_Val p = [] \<or> p_AndFunctions p \<noteq> None \<or> p_Annotation p \<noteq> [] then Inl (InvalidConfig ''use names'')
      else case use_params cond ps of Inl e \<Rightarrow> Inl e | Inr sts \<Rightarrow> Inr (use_statement (p_Val p) cond # sts))"

fun use_names :: "string list \<Rightarrow> routing_statement list build_result" where
  "use_names [] = Inr []"
| "use_names (n # ns) =
     (if n = [] then Inl (InvalidConfig ''use names'')
      else case use_names ns of Inl e \<Rightarrow> Inl e | Inr sts \<Rightarrow> Inr (use_statement n [] # sts))"

text \<open>The loop of \<^verbatim>\<open>parseRoutingBlock\<close>: the statements so far and the fallback.\<close>

fun parse_block_items :: "bool \<Rightarrow> section_item list \<Rightarrow> routing_statement list \<Rightarrow> func option \<Rightarrow> (routing_statement list \<times> func option) build_result" where
  "parse_block_items policy [] sts fallback = Inr (sts, fallback)"
| "parse_block_items policy (ItemRule r # items) sts fallback =
     (let target = rr_Outbound r in
      if fn_Name target = ''use'' \<and> \<not> fn_Quoted target \<and> (fn_Not target \<or> fn_Params target \<noteq> [])
      then (if fn_Not target \<or> fn_Params target = [] then Inl (InvalidConfig ''conditional use'')
            else case use_params (rr_AndFunctions r) (fn_Params target) of
                   Inl e \<Rightarrow> Inl e
                 | Inr uses \<Rightarrow> parse_block_items policy items (sts @ uses) fallback)
      else parse_block_items policy items (sts @ [rule_statement r]) fallback)"
| "parse_block_items policy (ItemParam p # items) sts fallback =
     (if p_Annotation p \<noteq> [] then Inl (InvalidConfig ''annotation'')
      else if p_Key p = ''use''
      then (if p_AndFunctions p \<noteq> None \<or> p_ValueList p = [] then Inl (InvalidConfig ''use'')
            else case use_names (p_ValueList p) of
                   Inl e \<Rightarrow> Inl e
                 | Inr uses \<Rightarrow> parse_block_items policy items (sts @ uses) fallback)
      else if p_Key p = ''fallback''
      then (if \<not> policy then Inl (InvalidConfig ''rule_set fallback'')
            else if fallback \<noteq> None then Inl (InvalidConfig ''duplicate fallback'')
            else case parseRoutingFallback p of
                   Inl e \<Rightarrow> Inl e
                 | Inr f \<Rightarrow> parse_block_items policy items sts (Some f))
      else Inl (InvalidConfig ''key''))"
| "parse_block_items policy (ItemPath _ # items) sts fallback = Inl (InvalidConfig ''item'')"
| "parse_block_items policy (ItemSection _ # items) sts fallback = Inl (InvalidConfig ''item'')"
| "parse_block_items policy (ItemOther # items) sts fallback = Inl (InvalidConfig ''item'')"

definition parseRoutingBlock :: "section_item list \<Rightarrow> bool \<Rightarrow> (routing_statement list \<times> func option) build_result" where
  "parseRoutingBlock items policy =
     (case parse_block_items policy items [] None of
        Inl e \<Rightarrow> Inl e
      | Inr (sts, fallback) \<Rightarrow> if policy \<and> fallback = None then Inl (InvalidConfig ''missing fallback'') else Inr (sts, fallback))"

text \<open>The rules section of a policy is set apart from its body.\<close>

fun is_rules_section :: "section_item \<Rightarrow> bool" where
  "is_rules_section (ItemSection s) = (sec_Name s = ''rules'')"
| "is_rules_section _ = False"

fun item_section_items :: "section_item \<Rightarrow> section_item list" where
  "item_section_items (ItemSection s) = sec_Items s"
| "item_section_items _ = []"

fun policy_rules_items :: "section_item list \<Rightarrow> routing_statement list option \<Rightarrow> section_item list \<Rightarrow> (routing_statement list option \<times> section_item list) build_result" where
  "policy_rules_items [] rules body = Inr (rules, body)"
| "policy_rules_items (it # items) rules body =
     (if is_rules_section it
      then (if rules \<noteq> None then Inl (InvalidConfig ''duplicate rules'')
            else case parseRoutingBlock (item_section_items it) False of
                   Inl e \<Rightarrow> Inl e
                 | Inr (sts, _) \<Rightarrow> policy_rules_items items (Some sts) body)
      else policy_rules_items items rules (body @ [it]))"

definition parseRoutingPolicy :: "string \<Rightarrow> section_item list \<Rightarrow> routing_policy build_result" where
  "parseRoutingPolicy name items =
     (case policy_rules_items items None [] of
        Inl e \<Rightarrow> Inl e
      | Inr (rules, body) \<Rightarrow>
          (case parseRoutingBlock body True of
             Inl e \<Rightarrow> Inl e
           | Inr (sts, fallback) \<Rightarrow>
               Inr \<lparr>pol_Name = name, pol_Rules = (case rules of None \<Rightarrow> [] | Some rs \<Rightarrow> rs), pol_Statements = sts, pol_Fallback = fallback\<rparr>))"

section \<open>Flow actions\<close>

text \<open>\<^verbatim>\<open>routing.DestinationRewrite\<close> and \<^verbatim>\<open>routing.FlowRule\<close>.\<close>

record destination_rewrite =
  dr_Filter :: "func list"
  dr_To :: "addr list"
  dr_Port :: u16
  dr_Sources :: "rule_source list"

datatype flow_action = FlowMust | FlowBump

record flow_rule =
  fr_Filter :: "func list"
  fr_Action :: flow_action
  fr_Sources :: "rule_source list"

record rule_plan =
  rp_Destinations :: "destination_rewrite list"
  rp_Controls :: "flow_rule list"

text \<open>The target of \<^verbatim>\<open>dnat\<close>: an address, or an address and a non-zero port, without a zone.\<close>

definition dnat_target :: "string \<Rightarrow> (addr \<times> u16) option" where
  "dnat_target v =
     (case (case ParseAddr v of
              Some ip \<Rightarrow> Some (ip, 0)
            | None \<Rightarrow> (case ParseAddrPort v of
                         None \<Rightarrow> None
                       | Some t \<Rightarrow> if ap_port t = 0 then None else Some (ap_addr t, ap_port t))) of
        None \<Rightarrow> None
      | Some (ip, port) \<Rightarrow> if addr_Zone ip \<noteq> [] then None else Some (addr_Unmap ip, port))"

fun plan_loop :: "routing_rule list \<Rightarrow> rule_plan \<Rightarrow> rule_plan build_result" where
  "plan_loop [] plan = Inr plan"
| "plan_loop (r # rs) plan =
     (let a = rr_Outbound r in
      if rr_AndFunctions r = [] then Inl (InvalidConfig ''empty filter'')
      else if fn_Not a \<or> fn_Quoted a then Inl (InvalidConfig ''action form'')
      else if fn_Name a = ''must'' \<or> fn_Name a = ''bump''
      then (if fn_Params a \<noteq> [] then Inl (InvalidConfig ''action arguments'')
            else plan_loop rs (plan\<lparr>rp_Controls := rp_Controls plan @
                   [\<lparr>fr_Filter = rr_AndFunctions r, fr_Action = (if fn_Name a = ''must'' then FlowMust else FlowBump), fr_Sources = rr_Sources r\<rparr>]\<rparr>))
      else if fn_Name a = ''dnat''
      then (case fn_Params a of
              [p] \<Rightarrow>
                if p_Key p \<noteq> [] \<or> p_AndFunctions p \<noteq> None \<or> p_Annotation p \<noteq> [] then Inl (InvalidConfig ''dnat argument'')
                else (case dnat_target (p_Val p) of
                        None \<Rightarrow> Inl (InvalidConfig ''dnat target'')
                      | Some (ip, port) \<Rightarrow>
                          plan_loop rs (plan\<lparr>rp_Destinations := rp_Destinations plan @
                            [\<lparr>dr_Filter = rr_AndFunctions r, dr_To = [ip], dr_Port = port, dr_Sources = rr_Sources r\<rparr>]\<rparr>))
            | _ \<Rightarrow> Inl (InvalidConfig ''dnat argument''))
      else Inl (InvalidConfig ''action''))"

definition rules_Plan :: "routing_rule list \<Rightarrow> rule_plan build_result" where
  "rules_Plan rs = plan_loop rs \<lparr>rp_Destinations = [], rp_Controls = []\<rparr>"

definition validateRoutingAction :: "func \<Rightarrow> unit build_result" where
  "validateRoutingAction f =
     (if \<not> fn_Quoted f \<and> (fn_Name f = ''must'' \<or> prefix ''must_'' (fn_Name f)) then Inl (InvalidConfig ''must target'')
      else if fn_Name f = ''bump'' \<or> (\<not> fn_Quoted f \<and> fn_Name f = ''dnat'') then Inl (InvalidConfig ''flow target'')
      else if list_ex (\<lambda>p. p_Key p = [] \<and> p_Val p = ''must'') (fn_Params f) then Inl (InvalidConfig ''must parameter'')
      else Inr ())"

section \<open>Classification\<close>

datatype rule_set_kind = KindEmpty | KindRoutes | KindFlow

text \<open>
  \<^verbatim>\<open>classify\<close> follows references without a guard of its own: the fuel bounds the reference depth, and no
  result means that it did not end within it.
\<close>

function classify :: "nat \<Rightarrow> (string \<Rightarrow> routing_rule_set option) \<Rightarrow> (string \<Rightarrow> rule_set_kind option) \<Rightarrow> rule_set_kind \<Rightarrow> routing_statement list \<Rightarrow>
    (rule_set_kind \<times> (string \<Rightarrow> rule_set_kind option)) build_result option" where
  "classify fuel sets kinds kind [] = Some (Inr (kind, kinds))"
| "classify fuel sets kinds kind (st # sts) =
     (case (if st_Kind st = StUse
            then (case kinds (st_Use st) of
                    Some k \<Rightarrow> Some (Inr (k, kinds))
                  | None \<Rightarrow>
                      if fuel = 0 then None
                      else (case classify (fuel - 1) sets kinds KindEmpty
                                   (case sets (st_Use st) of None \<Rightarrow> [] | Some s \<Rightarrow> rset_Statements s) of
                              None \<Rightarrow> None
                            | Some (Inl e) \<Rightarrow> Some (Inl e)
                            | Some (Inr (k, kinds')) \<Rightarrow> Some (Inr (k, kinds'(st_Use st \<mapsto> k)))))
            else (case st_Rule st of
                    None \<Rightarrow> Some (Inl BuildPanic)
                  | Some r \<Rightarrow>
                      let action = rr_Outbound r in
                      if \<not> fn_Quoted action \<and> (fn_Name action = ''must'' \<or> fn_Name action = ''bump'' \<or> fn_Name action = ''dnat'')
                      then (case rules_Plan [r] of Inl e \<Rightarrow> Some (Inl e) | Inr _ \<Rightarrow> Some (Inr (KindFlow, kinds)))
                      else (case validateRoutingAction action of Inl e \<Rightarrow> Some (Inl e) | Inr _ \<Rightarrow> Some (Inr (KindRoutes, kinds))))) of
        None \<Rightarrow> None
      | Some (Inl e) \<Rightarrow> Some (Inl e)
      | Some (Inr (current, kinds1)) \<Rightarrow>
          if current = KindEmpty then classify fuel sets kinds1 kind sts
          else if kind \<noteq> KindEmpty \<and> kind \<noteq> current then Some (Inl (InvalidConfig ''mixed actions''))
          else classify fuel sets kinds1 current sts)"
  by pat_completeness auto
termination
  by (relation "measures [\<lambda>(fuel, sets, kinds, kind, sts). fuel, \<lambda>(fuel, sets, kinds, kind, sts). length sts]") auto

fun classify_sets :: "nat \<Rightarrow> (string \<Rightarrow> routing_rule_set option) \<Rightarrow> (string \<Rightarrow> rule_set_kind option) \<Rightarrow> routing_rule_set list \<Rightarrow>
    (string \<Rightarrow> rule_set_kind option) build_result option" where
  "classify_sets fuel sets kinds [] = Some (Inr kinds)"
| "classify_sets fuel sets kinds (s # ss) =
     (if kinds (rset_Name s) \<noteq> None then classify_sets fuel sets kinds ss
      else case classify fuel sets kinds KindEmpty (rset_Statements s) of
             None \<Rightarrow> None
           | Some (Inl e) \<Rightarrow> Some (Inl e)
           | Some (Inr (k, kinds')) \<Rightarrow> classify_sets fuel sets (kinds'(rset_Name s \<mapsto> k)) ss)"

fun classify_policies :: "nat \<Rightarrow> (string \<Rightarrow> routing_rule_set option) \<Rightarrow> (string \<Rightarrow> rule_set_kind option) \<Rightarrow> routing_policy list \<Rightarrow>
    (string \<Rightarrow> rule_set_kind option) build_result option" where
  "classify_policies fuel sets kinds [] = Some (Inr kinds)"
| "classify_policies fuel sets kinds (p # ps) =
     (case classify fuel sets kinds KindEmpty (pol_Statements p) of
        None \<Rightarrow> None
      | Some (Inl e) \<Rightarrow> Some (Inl e)
      | Some (Inr (k, kinds1)) \<Rightarrow>
          if k = KindFlow then Some (Inl (InvalidConfig ''flow in policy''))
          else (case classify fuel sets kinds1 KindEmpty (pol_Rules p) of
                  None \<Rightarrow> None
                | Some (Inl e) \<Rightarrow> Some (Inl e)
                | Some (Inr (k2, kinds2)) \<Rightarrow>
                    if k2 = KindRoutes then Some (Inl (InvalidConfig ''route in rules''))
                    else (case pol_Fallback p of
                            None \<Rightarrow> Some (Inl BuildPanic)
                          | Some f \<Rightarrow> (case validateRoutingAction f of
                                         Inl e \<Rightarrow> Some (Inl e)
                                       | Inr _ \<Rightarrow> classify_policies fuel sets kinds2 ps))))"

definition RuleSetKinds :: "routing_config \<Rightarrow> (string \<Rightarrow> rule_set_kind option) build_result option" where
  "RuleSetKinds r =
     (let sets = set_map (rcf_RuleSets r) in
      case classify_sets maxRoutingReferenceDepth sets (\<lambda>_. None) (rcf_RuleSets r) of
        None \<Rightarrow> None
      | Some (Inl e) \<Rightarrow> Some (Inl e)
      | Some (Inr kinds) \<Rightarrow> classify_policies maxRoutingReferenceDepth sets kinds (rcf_Policies r))"

section \<open>Validation\<close>

definition isBareRoutingValue :: "string \<Rightarrow> bool" where
  "isBareRoutingValue v \<longleftrightarrow> \<not> prefix ''/*'' v \<and> IsBareLiteral v"

definition section_name_ok :: "string \<Rightarrow> bool" where
  "section_name_ok name \<longleftrightarrow> isBareRoutingValue name \<and>
     hd name \<in> set ''abcdefghijklmnopqrstuvwxyzABCDEFGHIJKLMNOPQRSTUVWXYZ_''"

definition routing_function_ok :: "func \<Rightarrow> bool" where
  "routing_function_ok f \<longleftrightarrow> list_all (\<lambda>p. p_AndFunctions p = None \<and> p_Annotation p = []) (fn_Params f)"

definition statement_ok :: "routing_statement \<Rightarrow> bool" where
  "statement_ok st =
     (case st_Kind st of
        StRule \<Rightarrow> (case st_Rule st of
                     None \<Rightarrow> False
                   | Some r \<Rightarrow> rr_AndFunctions r \<noteq> [] \<and> st_Use st = [] \<and> st_Condition st = [] \<and>
                       routing_function_ok (rr_Outbound r) \<and> list_all routing_function_ok (rr_AndFunctions r))
      | StUse \<Rightarrow> st_Use st \<noteq> [] \<and> st_Rule st = None \<and> list_all routing_function_ok (st_Condition st)
      | StOther _ \<Rightarrow> False)"

text \<open>\<^verbatim>\<open>validateBlock\<close> counts the statements of all blocks.\<close>

definition validate_block :: "nat \<Rightarrow> routing_statement list \<Rightarrow> nat build_result" where
  "validate_block count sts =
     (let c = count + length sts in
      if c > maxRoutingStatements then Inl (InvalidConfig ''too many statements'')
      else if list_all statement_ok sts then Inr c else Inl (InvalidConfig ''statement''))"

fun validate_sets :: "routing_rule_set list \<Rightarrow> nat \<Rightarrow> (string \<Rightarrow> routing_rule_set option) \<Rightarrow> (nat \<times> (string \<Rightarrow> routing_rule_set option)) build_result" where
  "validate_sets [] count sets = Inr (count, sets)"
| "validate_sets (s # ss) count sets =
     (if \<not> section_name_ok (rset_Name s) then Inl (InvalidConfig ''name'')
      else case validate_block count (rset_Statements s) of
             Inl e \<Rightarrow> Inl e
           | Inr c \<Rightarrow> if sets (rset_Name s) \<noteq> None then Inl (InvalidConfig ''duplicate rule_set'')
                       else validate_sets ss c (sets(rset_Name s \<mapsto> s)))"

fun validate_policies :: "string \<Rightarrow> routing_policy list \<Rightarrow> nat \<Rightarrow> string list \<Rightarrow> string list build_result" where
  "validate_policies dflt [] count names = Inr names"
| "validate_policies dflt (p # ps) count names =
     (if pol_Name p \<noteq> [] \<and> \<not> section_name_ok (pol_Name p) then Inl (InvalidConfig ''name'')
      else if pol_Name p = [] \<and> dflt \<noteq> [] then Inl (InvalidConfig ''default with inline policy'')
      else if pol_Name p \<in> set names then Inl (InvalidConfig ''duplicate policy'')
      else case pol_Fallback p of
             None \<Rightarrow> Inl (InvalidConfig ''missing fallback'')
           | Some f \<Rightarrow>
               if \<not> routing_function_ok f then Inl (InvalidConfig ''fallback'')
               else (case validate_block count (pol_Statements p) of
                       Inl e \<Rightarrow> Inl e
                     | Inr c1 \<Rightarrow> (case validate_block c1 (pol_Rules p) of
                                   Inl e \<Rightarrow> Inl e
                                 | Inr c2 \<Rightarrow> validate_policies dflt ps c2 (names @ [pol_Name p]))))"

definition ValidateRoutingInterfaceName :: "string \<Rightarrow> bool" where
  "ValidateRoutingInterfaceName name \<longleftrightarrow>
     \<not> (name = [] \<or> length name > 15 \<or> name = ''.'' \<or> name = ''..'' \<or>
        list_ex (\<lambda>c. c \<in> set ([CHR ''/'', CHR '':'', CHR 0x00, CHR '' '', CHR 0x09, CHR 0x0A, CHR 0x0D, CHR 0x0B, CHR 0x0C])) name)"

fun validate_interfaces :: "string list \<Rightarrow> routing_interface list \<Rightarrow> string list \<Rightarrow> unit build_result" where
  "validate_interfaces policies [] names = Inr ()"
| "validate_interfaces policies (i # is) names =
     (if \<not> ValidateRoutingInterfaceName (rif_Name i) then Inl (BadInterfaceName (rif_Name i))
      else if rif_Name i \<in> set names then Inl (InvalidConfig ''duplicate interface'')
      else if rif_Policy i \<notin> set policies \<or> rif_Policy i = [] then Inl (InvalidConfig ''undefined policy'')
      else validate_interfaces policies is (names @ [rif_Name i]))"

text \<open>
  The reference check: \<open>depths\<close> is the memo table, with zero for a set that is being visited; the stack
  bounds the recursion.
\<close>

function resolve_refs :: "(string \<Rightarrow> routing_rule_set option) \<Rightarrow> string list \<Rightarrow> (string \<Rightarrow> nat option) \<Rightarrow> nat \<Rightarrow> routing_statement list \<Rightarrow>
    (nat \<times> (string \<Rightarrow> nat option)) build_result" where
  "resolve_refs sets stack depths depth [] = Inr (depth, depths)"
| "resolve_refs sets stack depths depth (st # sts) =
     (if st_Kind st \<noteq> StUse then resolve_refs sets stack depths depth sts
      else case sets (st_Use st) of
             None \<Rightarrow> Inl (UndefinedRuleSet (st_Use st))
           | Some s \<Rightarrow>
               (case (case depths (rset_Name s) of
                        Some d \<Rightarrow> if d = 0 then Inl (InvalidConfig ''cycle'') else Inr (d, depths)
                      | None \<Rightarrow>
                          if length stack \<ge> maxRoutingReferenceDepth then Inl (InvalidConfig ''reference depth'')
                          else (case resolve_refs sets (stack @ [rset_Name s]) (depths(rset_Name s \<mapsto> 0)) 1 (rset_Statements s) of
                                  Inl e \<Rightarrow> Inl e
                                | Inr (cd, depths') \<Rightarrow> Inr (cd, depths'(rset_Name s \<mapsto> cd)))) of
                  Inl e \<Rightarrow> Inl e
                | Inr (cd, depths1) \<Rightarrow>
                    let depth1 = max depth (cd + 1) in
                    if depth1 > maxRoutingReferenceDepth then Inl (InvalidConfig ''reference depth'')
                    else resolve_refs sets stack depths1 depth1 sts))"
  by pat_completeness auto
termination
  by (relation "measures [\<lambda>(sets, stack, depths, depth, sts). maxRoutingReferenceDepth - length stack,
                          \<lambda>(sets, stack, depths, depth, sts). length sts]") auto

fun resolve_all :: "(string \<Rightarrow> routing_rule_set option) \<Rightarrow> (string \<Rightarrow> nat option) \<Rightarrow> routing_statement list list \<Rightarrow> unit build_result" where
  "resolve_all sets depths [] = Inr ()"
| "resolve_all sets depths (sts # blocks) =
     (case resolve_refs sets [] depths 1 sts of Inl e \<Rightarrow> Inl e | Inr (_, depths') \<Rightarrow> resolve_all sets depths' blocks)"

definition routing_Validate :: "routing_config \<Rightarrow> unit build_result option" where
  "routing_Validate r =
     (if length (rcf_RuleSets r) + length (rcf_Policies r) > maxRoutingBlocks then Some (Inl (InvalidConfig ''too many blocks''))
      else case validate_sets (rcf_RuleSets r) 0 (\<lambda>_. None) of
             Inl e \<Rightarrow> Some (Inl e)
           | Inr (count, sets) \<Rightarrow>
               (case validate_policies (rcf_Default r) (rcf_Policies r) count [] of
                  Inl e \<Rightarrow> Some (Inl e)
                | Inr policies \<Rightarrow>
                    if rcf_Default r \<notin> set policies then Some (Inl (InvalidConfig ''undefined default''))
                    else if length (rcf_Interfaces r) > maxRoutingInterfaceBindings then Some (Inl (InvalidConfig ''too many interfaces''))
                    else (case validate_interfaces policies (rcf_Interfaces r) [] of
                            Inl e \<Rightarrow> Some (Inl e)
                          | Inr _ \<Rightarrow>
                              (case resolve_all sets (\<lambda>_. None)
                                      (map rset_Statements (rcf_RuleSets r) @ concat (map (\<lambda>p. [pol_Statements p, pol_Rules p]) (rcf_Policies r))) of
                                 Inl e \<Rightarrow> Some (Inl e)
                               | Inr _ \<Rightarrow> (case RuleSetKinds r of None \<Rightarrow> None | Some (Inl e) \<Rightarrow> Some (Inl e) | Some (Inr _) \<Rightarrow> Some (Inr ()))))))"

section \<open>The routing section\<close>

fun parse_named_sections :: "bool \<Rightarrow> section_item list \<Rightarrow> routing_config \<Rightarrow> routing_config build_result" where
  "parse_named_sections isSet [] r = Inr r"
| "parse_named_sections isSet (ItemSection (Section name items) # rest) r =
     (if isSet
      then (case parseRoutingBlock items False of
              Inl e \<Rightarrow> Inl (InBlock name e)
            | Inr (sts, _) \<Rightarrow> parse_named_sections isSet rest (r\<lparr>rcf_RuleSets := rcf_RuleSets r @ [\<lparr>rset_Name = name, rset_Statements = sts\<rparr>]\<rparr>))
      else (case parseRoutingPolicy name items of
              Inl e \<Rightarrow> Inl (InBlock name e)
            | Inr p \<Rightarrow> parse_named_sections isSet rest (r\<lparr>rcf_Policies := rcf_Policies r @ [p]\<rparr>)))"
| "parse_named_sections isSet (_ # rest) r = Inl (InvalidConfig ''named sections'')"

fun parse_interfaces :: "section_item list \<Rightarrow> routing_config \<Rightarrow> routing_config build_result" where
  "parse_interfaces [] r = Inr r"
| "parse_interfaces (ItemParam p # rest) r =
     (case routingReference p of
        Inl e \<Rightarrow> Inl e
      | Inr name \<Rightarrow> parse_interfaces rest (r\<lparr>rcf_Interfaces := rcf_Interfaces r @ [\<lparr>rif_Name = p_Key p, rif_Policy = name\<rparr>]\<rparr>))"
| "parse_interfaces (_ # rest) r = Inl (InvalidConfig ''interface'')"

text \<open>The loop of \<^verbatim>\<open>parseRouting\<close>: the configuration so far, the inline items and whether a default was selected.\<close>

fun parse_routing_items :: "section_item list \<Rightarrow> routing_config \<Rightarrow> section_item list \<Rightarrow> bool \<Rightarrow> (routing_config \<times> section_item list \<times> bool) build_result" where
  "parse_routing_items [] r inline selected = Inr (r, inline, selected)"
| "parse_routing_items (ItemSection (Section name items) # rest) r inline selected =
     (if name = ''rule_set'' \<or> name = ''policy''
      then (case parse_named_sections (name = ''rule_set'') items r of
              Inl e \<Rightarrow> Inl e | Inr r' \<Rightarrow> parse_routing_items rest r' inline selected)
      else if name = ''rules'' then parse_routing_items rest r (inline @ [ItemSection (Section name items)]) selected
      else if name = ''interface''
      then (case parse_interfaces items r of Inl e \<Rightarrow> Inl e | Inr r' \<Rightarrow> parse_routing_items rest r' inline selected)
      else Inl (InvalidConfig ''section''))"
| "parse_routing_items (ItemParam p # rest) r inline selected =
     (if p_Key p = ''default''
      then (if selected then Inl (InvalidConfig ''duplicate default'')
            else case routingReference p of
                   Inl e \<Rightarrow> Inl e | Inr name \<Rightarrow> parse_routing_items rest (r\<lparr>rcf_Default := name\<rparr>) inline True)
      else parse_routing_items rest r (inline @ [ItemParam p]) selected)"
| "parse_routing_items (it # rest) r inline selected = parse_routing_items rest r (inline @ [it]) selected"

definition parseRouting :: "routing_config \<Rightarrow> section_item list \<Rightarrow> routing_config build_result option" where
  "parseRouting to items =
     (case parse_routing_items items to [] False of
        Inl e \<Rightarrow> Some (Inl e)
      | Inr (r, inline, selected) \<Rightarrow>
          (case (if selected then (if inline \<noteq> [] then Inl (InvalidConfig ''default with inline'') else Inr r)
                 else (case parseRoutingPolicy [] inline of
                         Inl e \<Rightarrow> Inl e | Inr p \<Rightarrow> Inr (r\<lparr>rcf_Policies := p # rcf_Policies r\<rparr>))) of
             Inl e \<Rightarrow> Some (Inl e)
           | Inr r1 \<Rightarrow> (case routing_Validate r1 of
                          None \<Rightarrow> None | Some (Inl e) \<Rightarrow> Some (Inl e) | Some (Inr _) \<Rightarrow> Some (Inr r1))))"

end
