(* ===== verification/Routing_Refs.thy ===== *)
theory Routing_Refs
  imports Routing_Config
begin

text \<open>
  The reference graph of the rule sets. A successful validation assigns every rule set that is used a
  positive depth above the depths of the sets it uses, at most the configured maximum: references are
  acyclic, and every recursion along them ends.
\<close>

section \<open>Ranked references\<close>

definition uses_below :: "(string \<Rightarrow> nat option) \<Rightarrow> nat \<Rightarrow> routing_statement list \<Rightarrow> bool" where
  "uses_below depths k sts \<longleftrightarrow> (\<forall>st \<in> set sts. st_Kind st = StUse \<longrightarrow> (\<exists>d. depths (st_Use st) = Some d \<and> 0 < d \<and> d < k))"

definition ranked :: "(string \<Rightarrow> routing_rule_set option) \<Rightarrow> (string \<Rightarrow> nat option) \<Rightarrow> bool" where
  "ranked sets depths \<longleftrightarrow> (\<forall>n d. depths n = Some d \<longrightarrow> 0 < d \<longrightarrow>
     d \<le> maxRoutingReferenceDepth \<and> (\<exists>s. sets n = Some s \<and> uses_below depths d (rset_Statements s)))"

definition named :: "(string \<Rightarrow> routing_rule_set option) \<Rightarrow> bool" where
  "named sets \<longleftrightarrow> (\<forall>n s. sets n = Some s \<longrightarrow> rset_Name s = n)"

lemma uses_below_mono:
  assumes "uses_below depths k sts" "k \<le> k'" "\<forall>n d. depths n = Some d \<longrightarrow> depths' n = Some d"
  shows "uses_below depths' k' sts"
  unfolding uses_below_def
proof (intro ballI impI)
  fix st assume "st \<in> set sts" "st_Kind st = StUse"
  then obtain d where "depths (st_Use st) = Some d" "0 < d" "d < k" using assms(1) unfolding uses_below_def by blast
  then show "\<exists>d. depths' (st_Use st) = Some d \<and> 0 < d \<and> d < k'" using assms(2,3) by (intro exI [of _ d]) auto
qed

text \<open>Marking a new set as visited, and recording its depth afterwards.\<close>

lemma ranked_visit: "ranked sets depths \<Longrightarrow> depths n = None \<Longrightarrow> ranked sets (depths(n \<mapsto> 0))"
proof -
  assume r: "ranked sets depths" and n: "depths n = None"
  have "uses_below (depths(n \<mapsto> 0)) d sts" if "uses_below depths d sts" for d sts
    by (rule uses_below_mono [OF that]) (use n in auto)
  then show ?thesis using r by (auto simp: ranked_def split: if_splits) blast
qed

lemma ranked_record:
  assumes "ranked sets depths" "depths n = Some 0" "sets n = Some s" "uses_below depths d (rset_Statements s)" "d \<le> maxRoutingReferenceDepth"
  shows "ranked sets (depths(n \<mapsto> d))"
proof -
  have keep: "uses_below (depths(n \<mapsto> d)) k sts" if u: "uses_below depths k sts" for k sts
    unfolding uses_below_def
  proof (intro ballI impI)
    fix st assume "st \<in> set sts" "st_Kind st = StUse"
    then obtain e where "depths (st_Use st) = Some e" "0 < e" "e < k" using u unfolding uses_below_def by blast
    then show "\<exists>e. (depths(n \<mapsto> d)) (st_Use st) = Some e \<and> 0 < e \<and> e < k" using assms(2) by (intro exI [of _ e]) auto
  qed
  show ?thesis
    unfolding ranked_def
  proof (intro allI impI)
    fix m e assume m: "(depths(n \<mapsto> d)) m = Some e" "0 < e"
    show "e \<le> maxRoutingReferenceDepth \<and> (\<exists>s. sets m = Some s \<and> uses_below (depths(n \<mapsto> d)) e (rset_Statements s))"
    proof (cases "m = n")
      case True
      then show ?thesis using m assms(3,5) keep [OF assms(4)] by auto
    next
      case False
      then show ?thesis using m assms(1) keep unfolding ranked_def by (metis fun_upd_other)
    qed
  qed
qed

definition extends_depths :: "(string \<Rightarrow> nat option) \<Rightarrow> (string \<Rightarrow> nat option) \<Rightarrow> bool" where
  "extends_depths depths depths' \<longleftrightarrow> (\<forall>n d. depths n = Some d \<longrightarrow> depths' n = Some d)"

lemma extends_depths_trans: "extends_depths a b \<Longrightarrow> extends_depths b c \<Longrightarrow> extends_depths a c"
  by (simp add: extends_depths_def)

lemma resolve_refs_ranked:
  assumes "named sets"
  shows "resolve_refs sets stack depths depth sts = Inr (depth', depths') \<Longrightarrow> ranked sets depths \<Longrightarrow> 0 < depth \<Longrightarrow>
    depth \<le> maxRoutingReferenceDepth \<Longrightarrow>
    ranked sets depths' \<and> extends_depths depths depths' \<and> depth \<le> depth' \<and> depth' \<le> maxRoutingReferenceDepth \<and> uses_below depths' depth' sts"
proof (induction "maxRoutingReferenceDepth - length stack" arbitrary: stack depths depth sts depth' depths' rule: less_induct)
  case less
  note outer = less.hyps
  show ?case using less.prems
  proof (induction sts arbitrary: depths depth)
    case Nil
    then show ?case by (auto simp: uses_below_def extends_depths_def)
  next
    case (Cons st sts)
    show ?case
    proof (cases "st_Kind st = StUse")
      case False
      then have "resolve_refs sets stack depths depth sts = Inr (depth', depths')" using Cons.prems(1) by simp
      from Cons.IH [OF this Cons.prems(2-4)] show ?thesis using False by (auto simp: uses_below_def)
    next
      case use: True
      then obtain s where s: "sets (st_Use st) = Some s" using Cons.prems(1) by (auto split: option.splits)
      have name: "rset_Name s = st_Use st" using assms s by (simp add: named_def)
      define child where "child = (case depths (rset_Name s) of
          Some d \<Rightarrow> if d = 0 then Inl (InvalidConfig ''cycle'') else Inr (d, depths)
        | None \<Rightarrow> if length stack \<ge> maxRoutingReferenceDepth then Inl (InvalidConfig ''reference depth'')
            else (case resolve_refs sets (stack @ [rset_Name s]) (depths(rset_Name s \<mapsto> 0)) 1 (rset_Statements s) of
                    Inl e \<Rightarrow> Inl e | Inr (cd, depths') \<Rightarrow> Inr (cd, depths'(rset_Name s \<mapsto> cd))))"
      have eq: "resolve_refs sets stack depths depth (st # sts) =
          (case child of Inl e \<Rightarrow> Inl e
           | Inr (cd, depths1) \<Rightarrow> if max depth (cd + 1) > maxRoutingReferenceDepth then Inl (InvalidConfig ''reference depth'')
               else resolve_refs sets stack depths1 (max depth (cd + 1)) sts)"
        unfolding resolve_refs.simps child_def Let_def using use s by simp
      note child_def' = child_def [unfolded name]
      obtain cd depths1 where c: "child = Inr (cd, depths1)" and lim: "\<not> max depth (cd + 1) > maxRoutingReferenceDepth"
        and rest: "resolve_refs sets stack depths1 (max depth (cd + 1)) sts = Inr (depth', depths')"
        using Cons.prems(1) unfolding eq by (auto split: sum.splits if_splits)
      have inv: "ranked sets depths1 \<and> extends_depths depths depths1 \<and> depths1 (st_Use st) = Some cd \<and> 0 < cd"
      proof (cases "depths (st_Use st)")
        case (Some d)
        then show ?thesis using c Cons.prems(2) by (auto simp: child_def' extends_depths_def split: if_splits)
      next
        case None
        then obtain depths2 where r: "resolve_refs sets (stack @ [st_Use st]) (depths(st_Use st \<mapsto> 0)) 1 (rset_Statements s) = Inr (cd, depths2)"
          and d1: "depths1 = depths2(st_Use st \<mapsto> cd)" and len: "length stack < maxRoutingReferenceDepth"
          using c by (auto simp: child_def' split: if_splits sum.splits)
        have "maxRoutingReferenceDepth - length (stack @ [st_Use st]) < maxRoutingReferenceDepth - length stack" using len by simp
        from outer [OF this r ranked_visit [OF Cons.prems(2) None]]
        have o: "ranked sets depths2" "extends_depths (depths(st_Use st \<mapsto> 0)) depths2" "1 \<le> cd" "cd \<le> maxRoutingReferenceDepth"
          "uses_below depths2 cd (rset_Statements s)" by (auto simp: maxRoutingReferenceDepth_def)
        have "depths2 (st_Use st) = Some 0" using o(2) by (simp add: extends_depths_def)
        from ranked_record [OF o(1) this s o(5,4)] have "ranked sets depths1" by (simp add: d1)
        moreover have "extends_depths depths depths1" using o(2) None by (auto simp: extends_depths_def d1)
        ultimately show ?thesis using o(3) by (simp add: d1)
      qed
      have "0 < max depth (cd + 1)" by simp
      from Cons.IH [OF rest _ this] lim inv
      have f: "ranked sets depths'" "extends_depths depths1 depths'" "max depth (cd + 1) \<le> depth'" "depth' \<le> maxRoutingReferenceDepth"
        "uses_below depths' depth' sts" by (simp_all add: not_less)
      have "depths' (st_Use st) = Some cd" using inv f(2) by (simp add: extends_depths_def)
      then have "uses_below depths' depth' (st # sts)" using f(3,5) inv by (auto simp: uses_below_def)
      then show ?thesis using f extends_depths_trans [of depths depths1 depths'] inv by auto
    qed
  qed
qed

text \<open>All blocks of a validated configuration refer below one bound.\<close>

lemma resolve_all_ranked:
  assumes "named sets"
  shows "resolve_all sets depths blocks = Inr () \<Longrightarrow> ranked sets depths \<Longrightarrow>
    \<exists>depths'. ranked sets depths' \<and> extends_depths depths depths' \<and> (\<forall>sts \<in> set blocks. uses_below depths' maxRoutingReferenceDepth sts)"
proof (induction blocks arbitrary: depths)
  case Nil
  then show ?case by (auto simp: extends_depths_def)
next
  case (Cons sts blocks)
  obtain d depths1 where r: "resolve_refs sets [] depths 1 sts = Inr (d, depths1)" "resolve_all sets depths1 blocks = Inr ()"
    using Cons.prems(1) by (auto split: sum.splits)
  from resolve_refs_ranked [OF assms r(1) Cons.prems(2)]
  have a: "ranked sets depths1" "extends_depths depths depths1" "d \<le> maxRoutingReferenceDepth" "uses_below depths1 d sts"
    by (auto simp: maxRoutingReferenceDepth_def)
  from Cons.IH [OF r(2) a(1)] obtain depths' where b: "ranked sets depths'" "extends_depths depths1 depths'"
    "\<forall>sts \<in> set blocks. uses_below depths' maxRoutingReferenceDepth sts" by blast
  have "uses_below depths' maxRoutingReferenceDepth sts"
    using uses_below_mono [OF a(4,3)] b(2) by (simp add: extends_depths_def)
  then show ?case using b extends_depths_trans [OF a(2) b(2)] by auto
qed

section \<open>Classification ends\<close>

lemma classify_total:
  assumes "ranked sets depths"
  shows "uses_below depths (Suc fuel) sts \<Longrightarrow> classify fuel sets kinds kind sts \<noteq> None"
proof (induction fuel arbitrary: kinds kind sts rule: less_induct)
  case (less fuel)
  note outer = less.IH
  show ?case using less.prems
  proof (induction sts arbitrary: kinds kind)
    case (Cons st sts)
    have rest: "classify fuel sets kinds' kind' sts \<noteq> None" for kinds' kind'
      by (rule Cons.IH) (use Cons.prems in \<open>simp add: uses_below_def\<close>)
    have child: "classify (fuel - 1) sets kinds KindEmpty (case sets (st_Use st) of None \<Rightarrow> [] | Some s \<Rightarrow> rset_Statements s) \<noteq> None \<and> fuel \<noteq> 0"
      if use: "st_Kind st = StUse"
    proof -
      obtain d where d: "depths (st_Use st) = Some d" "0 < d" "d \<le> fuel" using Cons.prems use by (auto simp: uses_below_def)
      then obtain s where s: "sets (st_Use st) = Some s" "uses_below depths d (rset_Statements s)"
        using assms unfolding ranked_def by blast
      have "uses_below depths (Suc (fuel - 1)) (rset_Statements s)" by (rule uses_below_mono [OF s(2)]) (use d in auto)
      from outer [OF _ this] show ?thesis using d s by simp
    qed
    define used where "used = classify (fuel - 1) sets kinds KindEmpty (case sets (st_Use st) of None \<Rightarrow> [] | Some s \<Rightarrow> rset_Statements s)"
    define cur where "cur = (if st_Kind st = StUse
        then (case kinds (st_Use st) of
                Some k \<Rightarrow> Some (Inr (k, kinds))
              | None \<Rightarrow> if fuel = 0 then None
                  else (case used of None \<Rightarrow> None | Some (Inl e) \<Rightarrow> Some (Inl e) | Some (Inr (k, kinds')) \<Rightarrow> Some (Inr (k, kinds'(st_Use st \<mapsto> k)))))
        else (case st_Rule st of
                None \<Rightarrow> Some (Inl BuildPanic)
              | Some r \<Rightarrow> let action = rr_Outbound r in
                  if \<not> fn_Quoted action \<and> (fn_Name action = ''must'' \<or> fn_Name action = ''bump'' \<or> fn_Name action = ''dnat'')
                  then (case rules_Plan [r] of Inl e \<Rightarrow> Some (Inl e) | Inr _ \<Rightarrow> Some (Inr (KindFlow, kinds)))
                  else (case validateRoutingAction action of Inl e \<Rightarrow> Some (Inl e) | Inr _ \<Rightarrow> Some (Inr (KindRoutes, kinds)))))"
    have eq: "classify fuel sets kinds kind (st # sts) =
        (case cur of
           None \<Rightarrow> None
         | Some (Inl e) \<Rightarrow> Some (Inl e)
         | Some (Inr (current, kinds1)) \<Rightarrow>
             if current = KindEmpty then classify fuel sets kinds1 kind sts
             else if kind \<noteq> KindEmpty \<and> kind \<noteq> current then Some (Inl (InvalidConfig ''mixed actions''))
             else classify fuel sets kinds1 current sts)"
      unfolding classify.simps cur_def used_def ..
    have "cur \<noteq> None"
    proof (cases "st_Kind st = StUse")
      case True
      then obtain r where "used = Some r" "fuel \<noteq> 0" using child unfolding used_def by blast
      then show ?thesis using True by (cases r) (auto simp: cur_def split: option.splits)
    next
      case False
      then show ?thesis by (auto simp: cur_def Let_def split: option.splits sum.splits)
    qed
    then obtain r where "cur = Some r" by blast
    then show ?case unfolding eq using rest by (cases r) (auto split: prod.splits)
  qed simp
qed

lemma classify_sets_total:
  assumes "ranked sets depths"
  shows "\<forall>s \<in> set ss. uses_below depths (Suc fuel) (rset_Statements s) \<Longrightarrow> classify_sets fuel sets kinds ss \<noteq> None"
proof (induction ss arbitrary: kinds)
  case (Cons s ss)
  have "classify fuel sets kinds KindEmpty (rset_Statements s) \<noteq> None" by (rule classify_total [OF assms]) (use Cons.prems in simp)
  moreover have "classify_sets fuel sets k ss \<noteq> None" for k using Cons by simp
  ultimately show ?case by (auto split: option.splits sum.splits)
qed simp

lemma classify_policies_total:
  assumes "ranked sets depths"
  shows "\<forall>p \<in> set ps. uses_below depths (Suc fuel) (pol_Statements p) \<and> uses_below depths (Suc fuel) (pol_Rules p) \<Longrightarrow>
    classify_policies fuel sets kinds ps \<noteq> None"
proof (induction ps arbitrary: kinds)
  case (Cons p ps)
  have "classify fuel sets k KindEmpty (pol_Statements p) \<noteq> None" "classify fuel sets k KindEmpty (pol_Rules p) \<noteq> None" for k
    by (rule classify_total [OF assms], use Cons.prems in simp)+
  moreover have "classify_policies fuel sets k ps \<noteq> None" for k using Cons by simp
  ultimately show ?case by (auto split: option.splits sum.splits) (metis option.simps(3))+
qed simp

lemma set_map_named: "named (set_map sets)"
proof -
  have step: "named m \<Longrightarrow> named (m(rset_Name s \<mapsto> s))" for m s by (auto simp: named_def)
  have "named m \<Longrightarrow> named (foldl (\<lambda>m s. m(rset_Name s \<mapsto> s)) m sets)" for m
    by (induction sets arbitrary: m) (simp_all add: step)
  moreover have "named (\<lambda>_. None)" by (simp add: named_def)
  ultimately show ?thesis unfolding set_map_def by blast
qed

lemma validate_sets_map: "validate_sets ss count sets = Inr (c, sets') \<Longrightarrow> sets' = foldl (\<lambda>m s. m(rset_Name s \<mapsto> s)) sets ss"
  by (induction ss arbitrary: count sets) (auto split: if_splits sum.splits)

text \<open>The reference bound that a successful check of the graph establishes, for every block of the configuration.\<close>

definition refs_bounded :: "routing_config \<Rightarrow> (string \<Rightarrow> nat option) \<Rightarrow> bool" where
  "refs_bounded r depths \<longleftrightarrow> ranked (set_map (rcf_RuleSets r)) depths \<and>
     (\<forall>s \<in> set (rcf_RuleSets r). uses_below depths maxRoutingReferenceDepth (rset_Statements s)) \<and>
     (\<forall>p \<in> set (rcf_Policies r). uses_below depths maxRoutingReferenceDepth (pol_Statements p) \<and> uses_below depths maxRoutingReferenceDepth (pol_Rules p))"

lemma resolve_all_bounded:
  assumes "resolve_all (set_map (rcf_RuleSets r)) (\<lambda>_. None)
      (map rset_Statements (rcf_RuleSets r) @ concat (map (\<lambda>p. [pol_Statements p, pol_Rules p]) (rcf_Policies r))) = Inr ()"
  shows "\<exists>depths. refs_bounded r depths"
proof -
  have "ranked (set_map (rcf_RuleSets r)) (\<lambda>_. None)" by (simp add: ranked_def)
  from resolve_all_ranked [OF set_map_named assms this] show ?thesis by (auto simp: refs_bounded_def)
qed

lemma RuleSetKinds_total: "refs_bounded r depths \<Longrightarrow> RuleSetKinds r \<noteq> None"
proof -
  assume b: "refs_bounded r depths"
  have rk: "ranked (set_map (rcf_RuleSets r)) depths" using b by (simp add: refs_bounded_def)
  have up: "uses_below depths (Suc maxRoutingReferenceDepth) sts" if "uses_below depths maxRoutingReferenceDepth sts" for sts
    by (rule uses_below_mono [OF that]) auto
  have "classify_sets maxRoutingReferenceDepth (set_map (rcf_RuleSets r)) (\<lambda>_. None) (rcf_RuleSets r) \<noteq> None"
    by (rule classify_sets_total [OF rk]) (use b up in \<open>simp add: refs_bounded_def\<close>)
  moreover have "classify_policies maxRoutingReferenceDepth (set_map (rcf_RuleSets r)) k (rcf_Policies r) \<noteq> None" for k
    by (rule classify_policies_total [OF rk]) (use b up in \<open>simp add: refs_bounded_def\<close>)
  ultimately show ?thesis by (auto simp: RuleSetKinds_def Let_def split: option.splits sum.splits)
qed

text \<open>Validation returns, and what it accepts is bounded.\<close>

lemma validate_returns: "routing_Validate r \<noteq> None"
proof -
  have "RuleSetKinds r \<noteq> None"
    if "validate_sets (rcf_RuleSets r) 0 (\<lambda>_. None) = Inr (c, sets)"
      "resolve_all sets (\<lambda>_. None) (map rset_Statements (rcf_RuleSets r) @ concat (map (\<lambda>p. [pol_Statements p, pol_Rules p]) (rcf_Policies r))) = Inr ()"
    for c sets
    using that validate_sets_map [OF that(1)] resolve_all_bounded [of r] RuleSetKinds_total [of r] by (auto simp: set_map_def)
  then show ?thesis
    by (auto simp: routing_Validate_def split: sum.splits prod.splits option.splits)
qed

lemma validated_bounded:
  assumes "routing_Validate r = Some (Inr ())"
  shows "\<exists>depths. refs_bounded r depths"
proof -
  obtain c sets where v: "validate_sets (rcf_RuleSets r) 0 (\<lambda>_. None) = Inr (c, sets)"
    "resolve_all sets (\<lambda>_. None) (map rset_Statements (rcf_RuleSets r) @ concat (map (\<lambda>p. [pol_Statements p, pol_Rules p]) (rcf_Policies r))) = Inr ()"
    using assms by (auto simp: routing_Validate_def split: sum.splits prod.splits option.splits if_splits)
  show ?thesis by (rule resolve_all_bounded) (use v validate_sets_map [OF v(1)] in \<open>simp add: set_map_def\<close>)
qed

text \<open>
  Claim C21: validation of a routing configuration always ends, with an error or with success. The
  classification of rule sets, which follows references without a guard, runs only after the reference
  check, and the depths that check computes bound its recursion.
\<close>

theorem routing_Validate_total: "routing_Validate r \<noteq> None"
  by (rule validate_returns)

text \<open>
  Claim C20: a configuration that validates has acyclic references of bounded depth: some assignment of
  depths gives every rule set that is used a defined set, a depth between one and the maximum, and only
  uses of strictly smaller depth; every policy and every rule set uses only such sets.
\<close>

theorem routing_Validate_acyclic:
  assumes "routing_Validate r = Some (Inr ())"
  shows "\<exists>depths. refs_bounded r depths"
  by (rule validated_bounded [OF assms])

definition nested_config :: routing_config where
  "nested_config = \<lparr>rcf_Default = [],
     rcf_RuleSets = [\<lparr>rset_Name = ''o'', rset_Statements = [use_statement ''i'' []]\<rparr>,
                     \<lparr>rset_Name = ''i'', rset_Statements = [rule_statement \<lparr>rr_AndFunctions = [plain_func ''dport'' [kv_param [] ''53'']],
                        rr_Outbound = plain_func ''direct'' [], rr_Sources = []\<rparr>]\<rparr>],
     rcf_Policies = [\<lparr>pol_Name = [], pol_Rules = [], pol_Statements = [use_statement ''o'' []], pol_Fallback = Some (plain_func ''direct'' [])\<rparr>],
     rcf_Interfaces = []\<rparr>"

theorem routing_Validate_acyclic_witness: "routing_Validate nested_config = Some (Inr ()) \<and> (\<exists>depths. refs_bounded nested_config depths)"
proof -
  have "routing_Validate nested_config = Some (Inr ())"
    by (simp add: routing_Validate_def nested_config_def maxRoutingBlocks_def maxRoutingStatements_def maxRoutingReferenceDepth_def
        maxRoutingInterfaceBindings_def validate_block_def statement_ok_def section_name_ok_def isBareRoutingValue_def IsBareLiteral_def
        bare_head_def use_statement_def rule_statement_def plain_func_def routing_function_ok_def RuleSetKinds_def set_map_def
        validateRoutingAction_def kv_param_def)
  then show ?thesis using routing_Validate_acyclic by blast
qed

end
