(* ===== verification/Routing_Build.thy ===== *)
theory Routing_Build
  imports Routing_Config Routing_VM
begin

text \<open>
  The match-set builder of \<^verbatim>\<open>control\<close> (\<^verbatim>\<open>routing_matcher_builder.go\<close>, \<^verbatim>\<open>routing_instruction.go\<close>,
  \<^verbatim>\<open>routing_conditional.go\<close>, \<^verbatim>\<open>routing_metadata.go\<close>): the callbacks that turn parsed predicate values into
  instructions, interning of domain and prefix sets, diagnostic side tables, jump encoding and block
  validation. The digest function of \<^verbatim>\<open>crypto/sha256\<close> is the parameter \<open>sha\<close>: it only buckets the interned
  sets, which are compared in full.
\<close>

section \<open>Builder state\<close>

text \<open>The default of the limit; a build may set it to another multiple of 32, up to 65536.\<close>

definition MaxMatchSetLen :: nat where "MaxMatchSetLen = 32 * 32"
definition maxRoutingInterfaces :: nat where "maxRoutingInterfaces = 256"

record domain_set =
  ds_Key :: string
  ds_RuleIndex :: nat
  ds_Domains :: "string list"

record rule_metadata =
  rmd_start :: nat
  rmd_end :: nat
  rmd_expression :: string
  rmd_sources :: "rule_source list"
  rmd_owner :: string
  rmd_section :: string

record match_metadata =
  mmd_expression :: string
  mmd_function :: string
  mmd_client :: string

record routing_profile =
  pf_ID :: nat
  pf_Name :: string
  pf_InterfaceNames :: "string list"
  pf_Spans :: "routing_span list"
  pf_Destination :: "destination_predicate list"

record interface_rule_patch =
  irp_ifname :: string
  irp_matchIndex :: nat

record builder =
  b_rules :: "match_set list"
  b_lpmTries :: "ip_prefix list list"
  b_clientSetSlots :: "string \<Rightarrow> nat option"
  b_kernelLpmLen :: nat
  b_routingEnd :: nat
  b_outboundName2Id :: "string \<Rightarrow> u8 option"
  b_domainSetIDs :: "bytes \<Rightarrow> nat list"
  b_staticLpmIDs :: "bytes \<Rightarrow> nat list"
  b_domainSets :: "domain_set list"
  b_defaultProfileID :: nat
  b_profiles :: "routing_profile list"
  b_fallbackSpans :: "match_set \<Rightarrow> routing_span option"
  b_interfaceRulePatches :: "interface_rule_patch list"
  b_ruleMetadata :: "nat \<Rightarrow> rule_metadata option"
  b_matchMetadata :: "nat \<Rightarrow> match_metadata option"
  b_inactiveRules :: "rule_metadata list"

definition empty_builder :: "(string \<Rightarrow> u8 option) \<Rightarrow> builder" where
  "empty_builder outboundName2Id =
     \<lparr>b_rules = [], b_lpmTries = [], b_clientSetSlots = (\<lambda>_. None), b_kernelLpmLen = 0, b_routingEnd = 0,
      b_outboundName2Id = outboundName2Id, b_domainSetIDs = (\<lambda>_. []), b_staticLpmIDs = (\<lambda>_. []), b_domainSets = [],
      b_defaultProfileID = 0, b_profiles = [], b_fallbackSpans = (\<lambda>_. None), b_interfaceRulePatches = [],
      b_ruleMetadata = (\<lambda>_. None), b_matchMetadata = (\<lambda>_. None), b_inactiveRules = []\<rparr>"

section \<open>Metadata\<close>

definition rememberMatch :: "nat \<Rightarrow> func \<Rightarrow> builder \<Rightarrow> builder" where
  "rememberMatch index f b =
     (let text0 = func_String f False True False;
          text1 = (if length text0 > 1024 then fn_Name f @ ''('' @ itoa (int (length (fn_Params f))) @ '' expanded values)'' else text0);
          client = (if fn_Name f = ''client'' \<and> length (fn_Params f) = 1 then p_Val (hd (fn_Params f)) else [])
      in b\<lparr>b_matchMetadata := (b_matchMetadata b)(index \<mapsto> \<lparr>mmd_expression = text1, mmd_function = fn_Name f, mmd_client = client\<rparr>)\<rparr>)"

definition rememberRule :: "nat \<Rightarrow> routing_rule \<Rightarrow> string \<Rightarrow> string \<Rightarrow> builder \<Rightarrow> builder" where
  "rememberRule start rule owner sect b =
     (let e0 = rule_String rule False False True;
          e1 = (if length e0 > 2048 then rule_String rule True False True else e0)
      in b\<lparr>b_ruleMetadata := (b_ruleMetadata b)(start \<mapsto>
            \<lparr>rmd_start = start, rmd_end = length (b_rules b), rmd_expression = e1, rmd_sources = rr_Sources rule,
             rmd_owner = owner, rmd_section = sect\<rparr>)\<rparr>)"

text \<open>\<^verbatim>\<open>rememberInactive\<close> visits the rule starts of the other builder in increasing order.\<close>

definition rememberInactive :: "builder \<Rightarrow> string \<Rightarrow> builder \<Rightarrow> builder" where
  "rememberInactive other owner b =
     b\<lparr>b_inactiveRules := b_inactiveRules b @
         concat (map (\<lambda>start. case b_ruleMetadata other start of None \<Rightarrow> [] | Some m \<Rightarrow> [m\<lparr>rmd_owner := owner\<rparr>])
                     [0..<b_routingEnd other])\<rparr>"

section \<open>Match sets\<close>

definition OutboundIndex_String :: "u8 \<Rightarrow> string" where
  "OutboundIndex_String i =
     (if i = 252 then ''must_rules'' else if i = OutboundDirect then ''direct'' else if i = OutboundBlock then ''block''
      else if i = OutboundControlPlaneRouting then ''bump'' else if i = 254 then logicalOrName
      else if i = 255 then logicalAndName else ''<index: '' @ itoa (int (unat i)) @ ''>'')"

definition matchSet :: "builder \<Rightarrow> match_type \<Rightarrow> bool \<Rightarrow> outbound \<Rightarrow> match_set build_result" where
  "matchSet b kind nt ob =
     (let set = (match_set0 kind)\<lparr>ms_flags := routingMatchFlags nt False False\<rparr> in
      if ob_Name ob = logicalOrName then Inr (set\<lparr>ms_action := MA_Or\<rparr>)
      else if ob_Name ob = logicalAndName then Inr (set\<lparr>ms_action := MA_And\<rparr>)
      else case b_outboundName2Id b (ob_Name ob) of
             None \<Rightarrow> Inl (OutboundNotFound (ob_Name ob))
           | Some idx \<Rightarrow>
               if ob_SkipWhileNoalive ob \<and> kind = MT_Fallback then Inl SkipOnFallback
               else if ob_SkipWhileNoalive ob \<and> (idx = OutboundDirect \<or> idx = OutboundBlock) then Inl (SkipOnBuiltin (ob_Name ob))
               else Inr (set\<lparr>ms_outbound := idx, ms_mark := ob_Mark ob,
                             ms_flags := routingMatchFlags nt (ob_Must ob) (ob_SkipWhileNoalive ob)\<rparr>))"

definition push_rule :: "func \<Rightarrow> match_set \<Rightarrow> builder \<Rightarrow> builder" where
  "push_rule f ms b = (let b1 = rememberMatch (length (b_rules b)) f b in b1\<lparr>b_rules := b_rules b1 @ [ms]\<rparr>)"

definition addMatch :: "func \<Rightarrow> match_type \<Rightarrow> bytes \<Rightarrow> outbound \<Rightarrow> builder \<Rightarrow> builder build_result" where
  "addMatch f kind val ob b =
     (case matchSet b kind (fn_Not f) ob of Inl e \<Rightarrow> Inl e | Inr ms \<Rightarrow> Inr (push_rule f (ms\<lparr>ms_value := val\<rparr>) b))"

fun add_matches_loop :: "func \<Rightarrow> match_type \<Rightarrow> match_set \<Rightarrow> ('v \<Rightarrow> bytes) \<Rightarrow> 'v list \<Rightarrow> builder \<Rightarrow> builder" where
  "add_matches_loop f kind tail encode [] b = b"
| "add_matches_loop f kind tail encode (v # vs) b =
     (let set = (if vs = [] then tail
                 else (match_set0 kind)\<lparr>ms_action := MA_Or, ms_flags := routingMatchFlags (fn_Not f) False False\<rparr>)
      in add_matches_loop f kind tail encode vs (push_rule f (set\<lparr>ms_value := encode v\<rparr>) b))"

definition addMatches :: "func \<Rightarrow> match_type \<Rightarrow> 'v list \<Rightarrow> outbound \<Rightarrow> ('v \<Rightarrow> bytes) \<Rightarrow> builder \<Rightarrow> builder build_result" where
  "addMatches f kind vals ob encode b =
     (case matchSet b kind (fn_Not f) ob of Inl e \<Rightarrow> Inl e | Inr tail \<Rightarrow> Inr (add_matches_loop f kind tail encode vals b))"

section \<open>Domain sets\<close>

definition le64_len :: "nat \<Rightarrow> bytes" where
  "le64_len n = map (\<lambda>i. of_nat (n div 256 ^ i)) [0..<8]"

definition domain_signature :: "(bytes \<Rightarrow> bytes) \<Rightarrow> string \<Rightarrow> string list \<Rightarrow> bytes" where
  "domain_signature sha key vals = sha (concat (map (\<lambda>v. le64_len (length v) @ bytes_of_string v) (key # vals)))"

text \<open>The first candidate of a bucket with the same key and domains; an index out of range panics.\<close>

fun find_domain_set :: "domain_set list \<Rightarrow> string \<Rightarrow> string list \<Rightarrow> nat list \<Rightarrow> nat option build_result" where
  "find_domain_set sets key vals [] = Inr None"
| "find_domain_set sets key vals (c # cs) =
     (if c \<ge> length sets then Inl BuildPanic
      else if ds_Key (sets ! c) = key \<and> ds_Domains (sets ! c) = vals then Inr (Some c)
      else find_domain_set sets key vals cs)"

definition compact_strings :: "string list \<Rightarrow> string list" where
  "compact_strings vals = remdups_adj (sort vals)"

definition addDomain :: "(bytes \<Rightarrow> bytes) \<Rightarrow> func \<Rightarrow> string \<Rightarrow> string list \<Rightarrow> outbound \<Rightarrow> builder \<Rightarrow> builder build_result" where
  "addDomain sha f key vals0 ob b =
     (if key \<notin> {''regex'', ''full'', ''keyword'', ''suffix''} then Inl (UnsupportedDomainKey key)
      else let vals = compact_strings vals0; signature = domain_signature sha key vals in
           case find_domain_set (b_domainSets b) key vals (b_domainSetIDs b signature) of
             Inl e \<Rightarrow> Inl e
           | Inr (Some idx) \<Rightarrow> addMatch f MT_DomainSet (index_value idx) ob b
           | Inr None \<Rightarrow>
               let idx = length (b_domainSets b) in
               if idx \<ge> MaxMatchSetLen then Inl TooManyDomainSets
               else addMatch f MT_DomainSet (index_value idx) ob
                      (b\<lparr>b_domainSetIDs := (b_domainSetIDs b)(signature := b_domainSetIDs b signature @ [idx]),
                         b_domainSets := b_domainSets b @ [\<lparr>ds_Key = key, ds_RuleIndex = idx, ds_Domains = vals\<rparr>]\<rparr>))"

section \<open>Prefix sets\<close>

definition sourceMacPrefixes :: "bytes list \<Rightarrow> ip_prefix list" where
  "sourceMacPrefixes macAddrs = map (\<lambda>mac. PrefixFrom (addr_From16 (replicate 10 0 @ mac)) 128) macAddrs"

definition canonical_prefixes :: "ip_prefix list \<Rightarrow> ip_prefix list" where
  "canonical_prefixes vals = remdups_adj (sort_key pfx_rank (map pfx_Masked vals))"

definition lpm_signature :: "(bytes \<Rightarrow> bytes) \<Rightarrow> ip_prefix list \<Rightarrow> bytes" where
  "lpm_signature sha vals =
     sha (concat (map (\<lambda>p. addr_As16 (pfx_addr p) @ [of_int (pfx_bits p), of_int (addr_BitLen (pfx_addr p))]) vals))"

fun find_lpm :: "ip_prefix list list \<Rightarrow> ip_prefix list \<Rightarrow> nat list \<Rightarrow> nat option build_result" where
  "find_lpm tries vals [] = Inr None"
| "find_lpm tries vals (idx # idxs) =
     (if idx \<ge> length tries then Inl BuildPanic else if tries ! idx = vals then Inr (Some idx) else find_lpm tries vals idxs)"

definition internLPM :: "(bytes \<Rightarrow> bytes) \<Rightarrow> ip_prefix list \<Rightarrow> builder \<Rightarrow> (nat \<times> builder) build_result" where
  "internLPM sha vals0 b =
     (let vals = canonical_prefixes vals0; key = lpm_signature sha vals in
      case find_lpm (b_lpmTries b) vals (b_staticLpmIDs b key) of
        Inl e \<Rightarrow> Inl e
      | Inr (Some idx) \<Rightarrow> Inr (idx, b)
      | Inr None \<Rightarrow>
          let idx = length (b_lpmTries b) in
          Inr (idx, b\<lparr>b_staticLpmIDs := (b_staticLpmIDs b)(key := b_staticLpmIDs b key @ [idx]), b_lpmTries := b_lpmTries b @ [vals]\<rparr>))"

definition addMacMatch :: "func \<Rightarrow> nat \<Rightarrow> outbound \<Rightarrow> builder \<Rightarrow> builder build_result" where
  "addMacMatch f lpmTrieIndex ob b = addMatch f MT_Mac (index_value lpmTrieIndex) ob b"

definition addSourceMac :: "(bytes \<Rightarrow> bytes) \<Rightarrow> func \<Rightarrow> bytes list \<Rightarrow> outbound \<Rightarrow> builder \<Rightarrow> builder build_result" where
  "addSourceMac sha f macAddrs ob b =
     (case internLPM sha (sourceMacPrefixes macAddrs) b of Inl e \<Rightarrow> Inl e | Inr (i, b1) \<Rightarrow> addMacMatch f i ob b1)"

definition ValidateClientName :: "string \<Rightarrow> bool" where
  "ValidateClientName name \<longleftrightarrow>
     \<not> (is_blank name \<or> length name > 128 \<or> CHR ''/'' \<in> set name \<or> list_ex is_control (runes name))"

definition addClient :: "func \<Rightarrow> string list \<Rightarrow> outbound \<Rightarrow> builder \<Rightarrow> builder build_result" where
  "addClient f names ob b =
     (case names of
        [] \<Rightarrow> Inl BuildPanic
      | name # _ \<Rightarrow>
          if \<not> ValidateClientName name then Inl (BadClientName name)
          else case b_clientSetSlots b name of
                 Some slot \<Rightarrow> addMacMatch f slot ob b
               | None \<Rightarrow>
                   let slot = length (b_lpmTries b) in
                   addMacMatch f slot ob (b\<lparr>b_clientSetSlots := (b_clientSetSlots b)(name \<mapsto> slot), b_lpmTries := b_lpmTries b @ [[]]\<rparr>))"

definition addIp :: "(bytes \<Rightarrow> bytes) \<Rightarrow> func \<Rightarrow> ip_prefix list \<Rightarrow> outbound \<Rightarrow> builder \<Rightarrow> builder build_result" where
  "addIp sha f vals ob b =
     (case internLPM sha vals b of Inl e \<Rightarrow> Inl e | Inr (i, b1) \<Rightarrow> addMatch f MT_IpSet (index_value i) ob b1)"

definition addSourceIp :: "(bytes \<Rightarrow> bytes) \<Rightarrow> func \<Rightarrow> ip_prefix list \<Rightarrow> outbound \<Rightarrow> builder \<Rightarrow> builder build_result" where
  "addSourceIp sha f vals ob b =
     (case internLPM sha vals b of Inl e \<Rightarrow> Inl e | Inr (i, b1) \<Rightarrow> addMatch f MT_SourceIpSet (index_value i) ob b1)"

section \<open>Plain values\<close>

definition encodePortRange :: "u16 \<times> u16 \<Rightarrow> bytes" where
  "encodePortRange r = encode_port_range r"

definition byte_value :: "u8 \<Rightarrow> bytes" where
  "byte_value v = v # replicate 15 0"

definition addPort :: "func \<Rightarrow> (u16 \<times> u16) list \<Rightarrow> outbound \<Rightarrow> builder \<Rightarrow> builder build_result" where
  "addPort f vals ob b = addMatches f MT_Port vals ob encodePortRange b"

definition addSourcePort :: "func \<Rightarrow> (u16 \<times> u16) list \<Rightarrow> outbound \<Rightarrow> builder \<Rightarrow> builder build_result" where
  "addSourcePort f vals ob b = addMatches f MT_SourcePort vals ob encodePortRange b"

definition addL4Proto :: "func \<Rightarrow> u8 \<Rightarrow> outbound \<Rightarrow> builder \<Rightarrow> builder build_result" where
  "addL4Proto f vals ob b = addMatch f MT_L4Proto (byte_value vals) ob b"

definition addIpVersion :: "func \<Rightarrow> u8 \<Rightarrow> outbound \<Rightarrow> builder \<Rightarrow> builder build_result" where
  "addIpVersion f vals ob b = addMatch f MT_IpVersion (byte_value vals) ob b"

definition addProcessName :: "func \<Rightarrow> bytes list \<Rightarrow> outbound \<Rightarrow> builder \<Rightarrow> builder build_result" where
  "addProcessName f vals ob b = addMatches f MT_ProcessName vals ob (copy_into 16) b"

definition addDscp :: "func \<Rightarrow> u8 list \<Rightarrow> outbound \<Rightarrow> builder \<Rightarrow> builder build_result" where
  "addDscp f vals ob b = addMatches f MT_Dscp vals ob byte_value b"

definition addInterface :: "func \<Rightarrow> string list \<Rightarrow> outbound \<Rightarrow> builder \<Rightarrow> builder build_result" where
  "addInterface f vals ob b =
     (case find (\<lambda>v. \<not> ValidateRoutingInterfaceName v) vals of
        Some v \<Rightarrow> Inl (BadInterfaceName v)
      | None \<Rightarrow>
          let start = length (b_rules b) in
          (case addMatches f MT_IfIndex vals ob (\<lambda>_. zero_value) b of
             Inl e \<Rightarrow> Inl e
           | Inr b1 \<Rightarrow>
               Inr (b1\<lparr>b_interfaceRulePatches := b_interfaceRulePatches b1 @
                         map (\<lambda>i. \<lparr>irp_ifname = vals ! i, irp_matchIndex = start + i\<rparr>) [0..<length vals]\<rparr>)))"

text \<open>The parsers that \<^verbatim>\<open>newRoutingMatcherBuilder\<close> registers.\<close>

definition routing_parsers :: "(bytes \<Rightarrow> bytes) \<Rightarrow> string \<Rightarrow> builder function_parser option" where
  "routing_parsers sha name =
     (if name = ''domain'' then Some (PlainParserFactory (addDomain sha))
      else if name = ''dip'' then Some (IpParserFactory (addIp sha))
      else if name = ''sip'' then Some (IpParserFactory (addSourceIp sha))
      else if name = ''dport'' then Some (PortRangeParserFactory addPort)
      else if name = ''sport'' then Some (PortRangeParserFactory addSourcePort)
      else if name = ''l4proto'' then Some (L4ProtoParserFactory addL4Proto)
      else if name = ''mac'' then Some (MacParserFactory (addSourceMac sha))
      else if name = ''client'' then Some (EmptyKeyPlainParserFactory addClient)
      else if name = ''pname'' then Some (ProcessNameParserFactory addProcessName)
      else if name = ''interface'' then Some (EmptyKeyPlainParserFactory addInterface)
      else if name = ''dscp'' then Some (UintParserFactory addDscp)
      else if name = ''ipversion'' then Some (IpVersionParserFactory addIpVersion)
      else None)"

section \<open>Rules and fallbacks\<close>

fun applyRules :: "(bytes \<Rightarrow> bytes) \<Rightarrow> routing_rule list \<Rightarrow> string \<Rightarrow> builder \<Rightarrow> builder build_result" where
  "applyRules sha [] owner b = Inr b"
| "applyRules sha (r # rs) owner b =
     (let start = length (b_rules b) in
      case rules_Apply (routing_parsers sha) [r] b of
        Inl e \<Rightarrow> Inl e
      | Inr b1 \<Rightarrow> applyRules sha rs owner (rememberRule start r owner ''routing'' b1))"

definition parseFallback :: "func \<Rightarrow> builder \<Rightarrow> match_set build_result" where
  "parseFallback fallback b = (case ParseOutbound fallback of Inl e \<Rightarrow> Inl e | Inr ob \<Rightarrow> matchSet b MT_Fallback False ob)"

definition addFallback :: "match_set \<Rightarrow> builder \<Rightarrow> (routing_span \<times> builder) build_result" where
  "addFallback fallback b =
     (case b_fallbackSpans b fallback of
        Some existing \<Rightarrow> Inr (existing, b)
      | None \<Rightarrow>
          if length (b_rules b) \<ge> MaxMatchSetLen then Inl (TooManyPhysical (length (b_rules b)))
          else let start = length (b_rules b);
                   b1 = rememberRule start \<lparr>rr_AndFunctions = [], rr_Outbound = plain_func ''fallback'' [], rr_Sources = []\<rparr> ''fallback'' ''routing''
                          (b\<lparr>b_rules := b_rules b @ [fallback]\<rparr>);
                   span = \<lparr>sp_start = start, sp_end = Suc start, sp_phase = PhaseRoute, sp_global = False\<rparr>
               in Inr (span, b1\<lparr>b_fallbackSpans := (b_fallbackSpans b1)(fallback \<mapsto> span)\<rparr>))"

definition criticalOutbounds :: "builder \<Rightarrow> nat \<Rightarrow> bool list" where
  "criticalOutbounds b outboundCount =
     foldl (\<lambda>critical rule.
              if ms_action rule = MA_Route \<and> 2 \<le> unat (ms_outbound rule) \<and> unat (ms_outbound rule) < outboundCount \<and>
                 \<not> has_flag rule matchFlagSkipNoalive
              then critical[unat (ms_outbound rule) := True] else critical)
       (replicate outboundCount False) (take (b_routingEnd b) (b_rules b))"

section \<open>Jumps\<close>

definition setConditionalJump :: "nat \<Rightarrow> nat \<Rightarrow> builder \<Rightarrow> builder" where
  "setConditionalJump tail bodyLength b =
     b\<lparr>b_rules := (b_rules b)[tail := (b_rules b ! tail)\<lparr>ms_action := MA_ConditionalJump, ms_mark := u32_add bodyLength 1\<rparr>]\<rparr>"

text \<open>The backward loop: \<open>Suc i\<close> instructions remain, \<open>ruleEnd\<close> and \<open>clauseTail\<close> start at \<open>-1\<close>.\<close>

fun encode_jumps_loop :: "nat \<Rightarrow> int \<Rightarrow> int \<Rightarrow> match_set list \<Rightarrow> match_set list build_result" where
  "encode_jumps_loop 0 ruleEnd clauseTail rules = Inr rules"
| "encode_jumps_loop (Suc i) ruleEnd clauseTail rules =
     (let rule = rules ! i in
      if ms_action rule = MA_And
      then (if ruleEnd \<le> int i then Inl (MissingRuleTail i)
            else encode_jumps_loop i ruleEnd (int i) (rules[i := rule\<lparr>ms_mark := nat (ruleEnd - int i) mod u32_mod\<rparr>]))
      else if ms_action rule = MA_Or
      then (if clauseTail \<le> int i then Inl (MissingClauseTail i)
            else encode_jumps_loop i ruleEnd clauseTail (rules[i := rule\<lparr>ms_mark := nat (clauseTail - int i) mod u32_mod\<rparr>]))
      else if ms_action rule = MA_ConditionalJump
      then (if ms_mark rule \<le> 1 \<or> ms_mark rule > MaxMatchSetLen then Inl (BadConditionalJump i (ms_mark rule))
            else encode_jumps_loop i (int i + int (ms_mark rule)) (int i) rules)
      else encode_jumps_loop i (int i + 1) (int i) rules)"

definition encodeRoutingJumps :: "match_set list \<Rightarrow> match_set list build_result" where
  "encodeRoutingJumps rules = encode_jumps_loop (length rules) (-1) (-1) rules"

section \<open>Block validation\<close>

record block_scope =
  sc_end :: nat
  sc_phase :: routing_phase

text \<open>The stack of scopes is a list with its top first.\<close>

fun pop_scopes :: "nat \<Rightarrow> match_action \<Rightarrow> block_scope list \<Rightarrow> block_scope list build_result" where
  "pop_scopes position previous [] = Inr []"
| "pop_scopes position previous (s # ss) =
     (if sc_end s \<le> position
      then (if previous = MA_Or \<or> previous = MA_And then Inl (BlockEndsInsideRule position) else pop_scopes position previous ss)
      else Inr (s # ss))"

fun validate_loop :: "nat \<Rightarrow> match_set list \<Rightarrow> routing_cursor \<Rightarrow> block_scope list \<Rightarrow> match_action \<Rightarrow> unit build_result option" where
  "validate_loop 0 rules c scopes0 previous = None"
| "validate_loop (Suc fuel) rules c scopes0 previous =
     (if rc_span c < length (rc_spans c)
      then (let position = rc_position c in
            case pop_scopes position previous scopes0 of
              Inl e \<Rightarrow> Some (Inl e)
            | Inr scopes \<Rightarrow>
                let phase = sp_phase (rc_spans c ! rc_span c) in
                if scopes \<noteq> [] \<and> phase \<noteq> sc_phase (hd scopes) then Some (Inl (BlockCrossesPhases position))
                else if rc_instruction c \<ge> length rules then Some (Inl BuildPanic)
                else let ms = rules ! rc_instruction c; action = ms_action ms in
                     if (action = MA_Or \<or> action = MA_And \<or> action = MA_ConditionalJump) \<and>
                        (ms_mark ms = 0 \<or> ms_mark ms > u32_sub (rc_length c) position)
                     then Some (Inl (InvalidJumpAt position (ms_mark ms)))
                     else if action = MA_ConditionalJump
                     then (let end' = u32_add position (ms_mark ms) in
                           if scopes \<noteq> [] \<and> end' > sc_end (hd scopes) then Some (Inl (OverlappingBlocks position))
                           else validate_loop fuel rules (fst (rc_advance c 1)) (\<lparr>sc_end = end', sc_phase = phase\<rparr> # scopes) action)
                     else validate_loop fuel rules (fst (rc_advance c 1)) scopes action)
      else Some (Inr ()))"

definition validateRoutingBlocks :: "match_set list \<Rightarrow> routing_span list \<Rightarrow> unit build_result option" where
  "validateRoutingBlocks rules spans = validate_loop (Suc (spanExecutionLen spans)) rules (newRoutingCursor spans) [] MA_Route"

fun validate_profiles :: "match_set list \<Rightarrow> routing_profile list \<Rightarrow> unit build_result option" where
  "validate_profiles rules [] = Some (Inr ())"
| "validate_profiles rules (p # ps) =
     (case validateRoutingBlocks rules (pf_Spans p) of
        None \<Rightarrow> None
      | Some (Inl e) \<Rightarrow> Some (Inl (InBlock (pf_Name p) e))
      | Some (Inr _) \<Rightarrow> validate_profiles rules ps)"

text \<open>\<^verbatim>\<open>validate\<close> encodes the jumps in place and then checks every profile.\<close>

definition builder_validate :: "builder \<Rightarrow> builder build_result option" where
  "builder_validate b =
     (if b_routingEnd b > MaxMatchSetLen then Some (Inl (TooManyMatchSets (b_routingEnd b)))
      else if length (b_rules b) - b_routingEnd b > MaxMatchSetLen * 2 then Some (Inl (TooManyDestinationSets (length (b_rules b) - b_routingEnd b)))
      else let interfaceCount = sum_list (map (length \<circ> pf_InterfaceNames) (b_profiles b)) in
           if interfaceCount > maxRoutingInterfaces then Some (Inl (TooManyInterfaces interfaceCount))
           else case encodeRoutingJumps (b_rules b) of
                  Inl e \<Rightarrow> Some (Inl e)
                | Inr rules \<Rightarrow>
                    (case validate_profiles rules (b_profiles b) of
                       None \<Rightarrow> None
                     | Some (Inl e) \<Rightarrow> Some (Inl e)
                     | Some (Inr _) \<Rightarrow> Some (Inr (b\<lparr>b_rules := rules\<rparr>))))"

end
