(* ===== verification/Trie_Segments.thy ===== *)
theory Trie_Segments
  imports Succinct_Trie
begin

text \<open>
  Correctness of the succinct trie: the queue of the construction is the breadth-first list of the
  segments of keys that share a prefix, the bitmap is its unary degree sequence, and a query walks
  from segment to segment.
\<close>

section \<open>Segments of sorted keys\<close>

definition seg_ok :: "bytes list \<Rightarrow> q_elt \<Rightarrow> bytes \<Rightarrow> bool" where
  "seg_ok keys q w = (case q of (s, e, col) \<Rightarrow>
     s < e \<and> e \<le> length keys \<and> length w = col \<and> (\<forall>k < length keys. prefix w (keys ! k) \<longleftrightarrow> s \<le> k \<and> k < e))"

lemma append_le: "(w :: bytes) \<le> w @ y"
  by (induction w) simp_all

lemma prefix_le: "prefix w (x :: bytes) \<Longrightarrow> w \<le> x"
  by (auto simp: prefix_def append_le)

lemma prefix_full: "prefix w x \<Longrightarrow> length x \<le> length w \<Longrightarrow> w = x"
  by (auto simp: prefix_def)

lemma prefix_snoc_iff: "prefix (w @ [c]) x \<longleftrightarrow> prefix w x \<and> length w < length x \<and> x ! length w = c"
proof
  assume "prefix (w @ [c]) x"
  then show "prefix w x \<and> length w < length x \<and> x ! length w = c" by (auto simp: prefix_def)
next
  assume a: "prefix w x \<and> length w < length x \<and> x ! length w = c"
  then obtain y where y: "x = w @ y" by (auto simp: prefix_def)
  then show "prefix (w @ [c]) x" using a by (cases y) auto
qed

lemma common_prefix_le: "w @ (a :: u8) # x \<le> w @ b # y \<Longrightarrow> a \<le> b"
  by (induction w) (auto simp: Cons_le_Cons)

lemma segment_chars_mono:
  assumes "sorted keys" "k \<le> k'" "k' < length keys" "prefix w (keys ! k)" "prefix w (keys ! k')"
    "length w < length (keys ! k)" "length w < length (keys ! k')"
  shows "(keys ! k ! length w :: u8) \<le> keys ! k' ! length w"
proof -
  obtain x where x: "keys ! k = w @ x" using assms(4) by (auto simp: prefix_def)
  obtain y where y: "keys ! k' = w @ y" using assms(5) by (auto simp: prefix_def)
  obtain a x' where x': "x = a # x'" using x assms(6) by (cases x) auto
  obtain b y' where y': "y = b # y'" using y assms(7) by (cases y) auto
  have "keys ! k \<le> keys ! k'" using assms(1-3) by (simp add: sorted_iff_nth_mono)
  then have "a \<le> b" using x y x' y' common_prefix_le by simp
  then show ?thesis using x y x' y' by simp
qed

lemma seg_leaf:
  assumes s: "sorted keys" "distinct keys" and q: "seg_ok keys (s, e, col) w"
  shows "col = length (keys ! s) \<longleftrightarrow> w \<in> set keys"
    and "s < k \<Longrightarrow> k < e \<Longrightarrow> col < length (keys ! k)"
    and "col \<le> length (keys ! s)"
proof -
  note q' = q [unfolded seg_ok_def prod.case]
  have ps: "prefix w (keys ! s)" using q' by simp
  show "col \<le> length (keys ! s)" using prefix_length_le [OF ps] q' by simp
  show "col = length (keys ! s) \<longleftrightarrow> w \<in> set keys"
  proof
    assume "col = length (keys ! s)"
    then have "w = keys ! s" using prefix_full [OF ps] q' by simp
    then show "w \<in> set keys" using q' by simp
  next
    assume "w \<in> set keys"
    then obtain k where k: "k < length keys" "keys ! k = w" by (auto simp: in_set_conv_nth)
    then have "s \<le> k" using q' by auto
    then have "keys ! s \<le> w" using s(1) k by (auto simp: sorted_iff_nth_mono)
    then have "keys ! s = w" using prefix_le [OF ps] by simp
    then show "col = length (keys ! s)" using q' by simp
  qed
  assume k: "s < k" "k < e"
  have pk: "prefix w (keys ! k)" using q' k by simp
  show "col < length (keys ! k)"
  proof (rule ccontr)
    assume "\<not> col < length (keys ! k)"
    then have w: "keys ! k = w" using prefix_full [OF pk] q' by simp
    have "keys ! s \<le> w" using s(1) k q' w [symmetric] by (simp add: sorted_iff_nth_mono)
    then have "keys ! s = keys ! k" using prefix_le [OF ps] w by simp
    then show False using s(2) k q' by (simp add: nth_eq_iff_index_eq)
  qed
qed

section \<open>The children of a segment\<close>

function groups :: "bytes list \<Rightarrow> nat \<Rightarrow> nat \<Rightarrow> nat \<Rightarrow> (q_elt \<times> u8) list option" where
  "groups keys col j e =
     (if j < e
      then (case group_end keys col j j e of
              None \<Rightarrow> None
            | Some j' \<Rightarrow> (case key_char keys j col of
                None \<Rightarrow> None
              | Some c \<Rightarrow> map_option (\<lambda>gs. ((j, j', Suc col), c) # gs) (groups keys col j' e)))
      else Some [])"
  by pat_completeness auto
termination
  by (relation "measure (\<lambda>(keys, col, j, e). e - j)") (auto dest: group_end_gt)

declare groups.simps [simp del]

lemma group_end_spec:
  "j \<le> e \<Longrightarrow> \<forall>k. (k = frm \<or> j \<le> k \<and> k < e) \<longrightarrow> k < length keys \<and> col < length (keys ! k) \<Longrightarrow>
   \<exists>j'. group_end keys col frm j e = Some j' \<and> j \<le> j' \<and> j' \<le> e \<and>
     (\<forall>k. j \<le> k \<and> k < j' \<longrightarrow> keys ! k ! col = keys ! frm ! col) \<and> (j' < e \<longrightarrow> keys ! j' ! col \<noteq> keys ! frm ! col)"
proof (induction keys col frm j e rule: group_end.induct)
  case (1 keys col frm j e)
  show ?case
  proof (cases "j < e \<and> keys ! j ! col = keys ! frm ! col")
    case True
    have kc: "key_char keys j col = Some (keys ! j ! col)" "key_char keys frm col = Some (keys ! frm ! col)"
      using "1.prems" True by (auto simp: key_char_def)
    have eq: "group_end keys col frm j e = group_end keys col frm (Suc j) e"
      using True kc by (simp add: group_end.simps [of keys col frm j e])
    from "1.IH" [OF _ kc] True "1.prems" obtain j' where "group_end keys col frm (Suc j) e = Some j'" "Suc j \<le> j'" "j' \<le> e"
      "\<forall>k. Suc j \<le> k \<and> k < j' \<longrightarrow> keys ! k ! col = keys ! frm ! col" "j' < e \<longrightarrow> keys ! j' ! col \<noteq> keys ! frm ! col"
      by fastforce
    then show ?thesis unfolding eq using True
      by (intro exI [of _ j']) (metis Suc_leD Suc_leI le_neq_implies_less)
  next
    case False
    then have "group_end keys col frm j e = Some j"
      using "1.prems" by (auto simp: group_end.simps [of keys col frm j e] key_char_def)
    then show ?thesis using False "1.prems" by auto
  qed
qed

definition grp_ok :: "bytes list \<Rightarrow> nat \<Rightarrow> nat \<Rightarrow> nat \<Rightarrow> q_elt \<times> u8 \<Rightarrow> bool" where
  "grp_ok keys col j e g = (case g of ((f, t, d), c) \<Rightarrow>
     j \<le> f \<and> f < t \<and> t \<le> e \<and> d = Suc col \<and> (\<forall>k. f \<le> k \<and> k < t \<longrightarrow> keys ! k ! col = c))"

definition grp_mem :: "nat \<Rightarrow> q_elt \<times> u8 \<Rightarrow> bool" where
  "grp_mem k g = (case g of ((f, t, d), c) \<Rightarrow> f \<le> k \<and> k < t)"

lemma grp_ok_mono: "grp_ok keys col j' e g \<Longrightarrow> j \<le> j' \<Longrightarrow> grp_ok keys col j e g"
  by (auto simp: grp_ok_def)

definition grouped :: "bytes list \<Rightarrow> nat \<Rightarrow> nat \<Rightarrow> nat \<Rightarrow> (q_elt \<times> u8) list \<Rightarrow> bool" where
  "grouped keys col j e gs \<longleftrightarrow>
     sorted_wrt (<) (map snd gs) \<and>
     (\<forall>g \<in> set gs. grp_ok keys col j e g) \<and>
     (\<forall>k. j \<le> k \<and> k < e \<longrightarrow> (\<exists>g \<in> set gs. grp_mem k g))"

lemma groups_spec:
  "j \<le> e \<Longrightarrow> \<forall>k. j \<le> k \<and> k < e \<longrightarrow> k < length keys \<and> col < length (keys ! k) \<Longrightarrow>
   \<forall>k k'. j \<le> k \<and> k \<le> k' \<and> k' < e \<longrightarrow> keys ! k ! col \<le> keys ! k' ! col \<Longrightarrow>
   \<exists>gs. groups keys col j e = Some gs \<and> grouped keys col j e gs"
proof (induction keys col j e rule: groups.induct)
  case (1 keys col j e)
  show ?case
  proof (cases "j < e")
    case False
    then have "groups keys col j e = Some []" by (simp add: groups.simps [of keys col j e])
    moreover have "grouped keys col j e []" using False by (simp add: grouped_def)
    ultimately show ?thesis by blast
  next
    case True
    have p1: "\<forall>k. (k = j \<or> j \<le> k \<and> k < e) \<longrightarrow> k < length keys \<and> col < length (keys ! k)"
      using "1.prems"(2) True by simp
    obtain j' where g: "group_end keys col j j e = Some j'" and le: "j' \<le> e"
      and same: "\<forall>k. j \<le> k \<and> k < j' \<longrightarrow> keys ! k ! col = keys ! j ! col" and diff: "j' < e \<longrightarrow> keys ! j' ! col \<noteq> keys ! j ! col"
      using group_end_spec [OF "1.prems"(1) p1] by blast
    have gt: "j < j'" using group_end_gt [OF g True] .
    have kc: "key_char keys j col = Some (keys ! j ! col)" using True "1.prems"(2) by (simp add: key_char_def)
    have p2: "\<forall>k. j' \<le> k \<and> k < e \<longrightarrow> k < length keys \<and> col < length (keys ! k)" using "1.prems"(2) gt by auto
    have p3: "\<forall>k k'. j' \<le> k \<and> k \<le> k' \<and> k' < e \<longrightarrow> keys ! k ! col \<le> keys ! k' ! col"
      using "1.prems"(3) gt by (meson le_trans less_imp_le)
    obtain gs where gs: "groups keys col j' e = Some gs" and r: "grouped keys col j' e gs"
      using "1.IH" [OF True g kc le p2 p3] by blast
    let ?gs = "((j, j', Suc col), keys ! j ! col) # gs"
    have eq: "groups keys col j e = Some ?gs" using True g kc gs by (simp add: groups.simps [of keys col j e])
    have above: "keys ! j ! col < snd g" if "g \<in> set gs" for g
    proof -
      obtain f t d c where gd: "g = ((f, t, d), c)" by (metis surj_pair)
      have "grp_ok keys col j' e g" using r that by (auto simp: grouped_def)
      then have f: "j' \<le> f" "f < e" "keys ! f ! col = c" by (auto simp: grp_ok_def gd)
      have "keys ! j ! col \<le> keys ! j' ! col" using "1.prems"(3) gt f by auto
      then have "keys ! j ! col < keys ! j' ! col" using diff f by simp
      also have "\<dots> \<le> keys ! f ! col" using p3 f by auto
      finally show ?thesis using f gd by simp
    qed
    have "grouped keys col j e ?gs" unfolding grouped_def
    proof (intro conjI)
      show "sorted_wrt (<) (map snd ?gs)" using r above by (simp add: grouped_def)
      have "grp_ok keys col j e ((j, j', Suc col), keys ! j ! col)"
        unfolding grp_ok_def prod.case using gt le same by blast
      then show "\<forall>g \<in> set ?gs. grp_ok keys col j e g"
        using r gt grp_ok_mono [of keys col j' e _ j] by (simp add: grouped_def)
      show "\<forall>k. j \<le> k \<and> k < e \<longrightarrow> (\<exists>g \<in> set ?gs. grp_mem k g)"
        using r by (simp add: grouped_def grp_mem_def [of _ "((j, j', Suc col), keys ! j ! col)"]) (meson not_le_imp_less)
    qed
    then show ?thesis using eq by blast
  qed
qed

text \<open>The segment of a node and the groups of its children.\<close>

definition elt_leaf :: "bytes list \<Rightarrow> q_elt \<Rightarrow> bool" where
  "elt_leaf keys q = (case q of (s, e, col) \<Rightarrow> col = length (keys ! s))"

definition kids :: "bytes list \<Rightarrow> q_elt \<Rightarrow> (q_elt \<times> u8) list" where
  "kids keys q = (case q of (s, e, col) \<Rightarrow>
     (case groups keys col (if elt_leaf keys q then Suc s else s) e of None \<Rightarrow> [] | Some gs \<Rightarrow> gs))"

lemma kids_spec:
  assumes s: "sorted keys" "distinct keys" and q: "seg_ok keys (s, e, col) w"
  defines "j \<equiv> if elt_leaf keys (s, e, col) then Suc s else s"
  shows "groups keys col j e = Some (kids keys (s, e, col))" "grouped keys col j e (kids keys (s, e, col))"
    "\<And>k. j \<le> k \<Longrightarrow> k < e \<Longrightarrow> col < length (keys ! k)"
proof -
  note q' = q [unfolded seg_ok_def prod.case]
  show len: "col < length (keys ! k)" if k: "j \<le> k" "k < e" for k
  proof (cases "k = s")
    case True
    then have "\<not> elt_leaf keys (s, e, col)" using k by (auto simp: j_def split: if_splits)
    then show ?thesis using seg_leaf(3) [OF s q] True by (simp add: elt_leaf_def)
  next
    case False
    then show ?thesis using seg_leaf(2) [OF s q] k by (simp add: j_def split: if_splits)
  qed
  have js: "s \<le> j" by (simp add: j_def)
  have "keys ! k ! col \<le> keys ! k' ! col" if "j \<le> k" "k \<le> k'" "k' < e" for k k'
    using segment_chars_mono [OF s(1) that(2), of w] len that q' js by simp
  then have mono: "\<forall>k k'. j \<le> k \<and> k \<le> k' \<and> k' < e \<longrightarrow> keys ! k ! col \<le> keys ! k' ! col" by blast
  have range: "\<forall>k. j \<le> k \<and> k < e \<longrightarrow> k < length keys \<and> col < length (keys ! k)" using len q' by auto
  have "j \<le> e" using q' by (simp add: j_def)
  from groups_spec [OF this range mono]
  obtain gs where gs: "groups keys col j e = Some gs" "grouped keys col j e gs" by blast
  moreover have "kids keys (s, e, col) = gs" using gs by (simp add: kids_def j_def)
  ultimately show "groups keys col j e = Some (kids keys (s, e, col))" "grouped keys col j e (kids keys (s, e, col))"
    by simp_all
qed

text \<open>The children of a node are the one-character extensions of its prefix, one per character.\<close>

lemma seg_kid:
  assumes s: "sorted keys" "distinct keys" and q: "seg_ok keys q w" and t: "t < length (kids keys q)"
  shows "seg_ok keys (fst (kids keys q ! t)) (w @ [snd (kids keys q ! t)])"
proof -
  obtain a e col where qd: "q = (a, e, col)" by (metis prod_cases3)
  obtain f u d c where g: "kids keys q ! t = ((f, u, d), c)" by (metis surj_pair)
  define j where "j = (if elt_leaf keys (a, e, col) then Suc a else a)"
  note q' = q [unfolded seg_ok_def qd prod.case]
  note ks = kids_spec [OF s q [unfolded qd], folded j_def, folded qd]
  have ja: "a \<le> j" by (simp add: j_def)
  have gm: "((f, u, d), c) \<in> set (kids keys q)" using t g nth_mem by metis
  then have "grp_ok keys col j e ((f, u, d), c)" using ks(2) by (auto simp: grouped_def)
  then have G: "j \<le> f" "f < u" "u \<le> e" "d = Suc col" "\<And>k. f \<le> k \<Longrightarrow> k < u \<Longrightarrow> keys ! k ! col = c"
    by (auto simp: grp_ok_def)
  have one: "f \<le> k \<and> k < u" if k: "j \<le> k" "k < e" "keys ! k ! col = c" for k
  proof -
    obtain g' where g': "g' \<in> set (kids keys q)" "grp_mem k g'" using ks(2) k by (auto simp: grouped_def)
    obtain f' u' d' c' where gd: "g' = ((f', u', d'), c')" by (metis surj_pair)
    have "grp_ok keys col j e g'" using ks(2) g' by (auto simp: grouped_def)
    then have "keys ! k ! col = c'" using g'(2) by (auto simp: grp_ok_def grp_mem_def gd)
    then have "c' = c" using k by simp
    moreover have "inj_on snd (set (kids keys q))"
      using ks(2) by (simp add: grouped_def strict_sorted_iff distinct_map)
    ultimately have "g' = ((f, u, d), c)" using g'(1) gm gd by (metis inj_onD snd_conv)
    then show ?thesis using g'(2) by (simp add: grp_mem_def)
  qed
  have "prefix (w @ [c]) (keys ! k) \<longleftrightarrow> f \<le> k \<and> k < u" if k: "k < length keys" for k
  proof
    assume "prefix (w @ [c]) (keys ! k)"
    then have p: "prefix w (keys ! k)" "col < length (keys ! k)" "keys ! k ! col = c" using q' by (auto simp: prefix_snoc_iff)
    have "a \<le> k" "k < e" using p(1) q' k by auto
    moreover have "j \<le> k" using p(2) \<open>a \<le> k\<close> by (cases "k = a") (auto simp: j_def elt_leaf_def)
    ultimately show "f \<le> k \<and> k < u" using one p(3) by blast
  next
    assume fk: "f \<le> k \<and> k < u"
    then have r: "j \<le> k" "k < e" "a \<le> k" using G ja by auto
    have "prefix w (keys ! k)" using q' r k by simp
    moreover have "col < length (keys ! k)" using ks(3) r by blast
    moreover have "keys ! k ! col = c" using G(5) fk by blast
    ultimately show "prefix (w @ [c]) (keys ! k)" using q' by (simp add: prefix_snoc_iff)
  qed
  then show ?thesis using G q' by (simp add: seg_ok_def g)
qed

lemma kid_exists:
  assumes s: "sorted keys" "distinct keys" and q: "seg_ok keys q w" and k: "k \<in> set keys" "prefix (w @ [c]) k"
  shows "\<exists>t < length (kids keys q). snd (kids keys q ! t) = c"
proof -
  obtain a e col where qd: "q = (a, e, col)" by (metis prod_cases3)
  define j where "j = (if elt_leaf keys (a, e, col) then Suc a else a)"
  note q' = q [unfolded seg_ok_def qd prod.case]
  note ks = kids_spec [OF s q [unfolded qd], folded j_def, folded qd]
  obtain i where i: "i < length keys" "keys ! i = k" using k(1) by (auto simp: in_set_conv_nth)
  have p: "prefix w (keys ! i)" "col < length (keys ! i)" "keys ! i ! col = c" using q' k(2) i by (auto simp: prefix_snoc_iff)
  have r: "a \<le> i" "i < e" using p(1) q' i by auto
  have "j \<le> i" using p(2) \<open>a \<le> i\<close> by (cases "i = a") (auto simp: j_def elt_leaf_def)
  then obtain g where g: "g \<in> set (kids keys q)" "grp_mem i g" using ks(2) r by (auto simp: grouped_def)
  have "grp_ok keys col j e g" using ks(2) g by (auto simp: grouped_def)
  then have "snd g = c" using g(2) p(3) by (auto simp: grp_ok_def grp_mem_def split: prod.splits)
  then show ?thesis using g(1) by (auto simp: in_set_conv_nth)
qed

lemma kids_distinct:
  assumes "sorted keys" "distinct keys" "seg_ok keys q w"
  shows "distinct (map snd (kids keys q))"
proof -
  obtain a e col where qd: "q = (a, e, col)" by (metis prod_cases3)
  show ?thesis using kids_spec(2) [OF assms(1,2) assms(3) [unfolded qd]]
    by (simp add: qd grouped_def strict_sorted_iff)
qed

lemma no_kids_leaf:
  assumes "sorted keys" "distinct keys" "seg_ok keys q w" "kids keys q = []"
  shows "elt_leaf keys q"
proof (rule ccontr)
  assume n: "\<not> elt_leaf keys q"
  obtain a e col where qd: "q = (a, e, col)" by (metis prod_cases3)
  have "grouped keys col a e []" using kids_spec(2) [OF assms(1,2) assms(3) [unfolded qd]] n assms(4) qd by simp
  moreover have "a < e" using assms(3) by (simp add: qd seg_ok_def)
  ultimately show False by (auto simp: grouped_def)
qed

end
