(* ===== verification/Trie_Layout.thy ===== *)
theory Trie_Layout
  imports Trie_Segments
begin

text \<open>
  Correctness of the succinct trie: the construction lays out the breadth-first list of segments
  as a unary degree sequence, and the queries walk from segment to segment. The main results are
  that \<^verbatim>\<open>HasPrefix\<close> decides membership of a prefix and \<^verbatim>\<open>HasPrefixIP\<close> membership in a prefix set
  of addresses.
\<close>

section \<open>Alphabets\<close>

definition chars_ok :: "valid_chars \<Rightarrow> bool" where
  "chars_ok cs \<longleftrightarrow> 0 < vc_Size cs \<and>
     (\<forall>c. IsValidChar cs c \<longrightarrow> unat (vc_table cs ! unat c) < vc_Size cs) \<and>
     (\<forall>c d. IsValidChar cs c \<longrightarrow> IsValidChar cs d \<longrightarrow> vc_table cs ! unat c = vc_table cs ! unat d \<longrightarrow> c = d)"

definition keys_valid :: "valid_chars \<Rightarrow> bytes list \<Rightarrow> bool" where
  "keys_valid cs keys \<longleftrightarrow> (\<forall>k \<in> set keys. \<forall>c \<in> set k. IsValidChar cs c)"

definition lab :: "valid_chars \<Rightarrow> q_elt \<times> u8 \<Rightarrow> u64" where
  "lab cs g = ucast (vc_table cs ! unat (snd g))"

lemma unat_lab: "unat (lab cs g) = unat (vc_table cs ! unat (snd g))"
  using unsigned_less [of "vc_table cs ! unat (snd g)", where 'a = nat]
  by (simp add: lab_def unsigned_ucast_eq take_bit_nat_eq_self_iff)

lemma lab_fits: "chars_ok cs \<Longrightarrow> IsValidChar cs (snd g) \<Longrightarrow> bits_Len (unat (lab cs g)) \<le> bits_Len (vc_Size cs)"
  by (intro bits_Len_mono) (simp add: unat_lab chars_ok_def less_imp_le)

lemma kid_label_valid:
  assumes "sorted keys" "distinct keys" "seg_ok keys q w" "g \<in> set (kids keys q)"
    and "keys_valid cs keys"
  shows "IsValidChar cs (snd g)"
proof -
  obtain t where t: "t < length (kids keys q)" "kids keys q ! t = g" using assms(4) by (auto simp: in_set_conv_nth)
  obtain f u d where g: "fst g = (f, u, d)" by (metis surj_pair)
  have "seg_ok keys (fst g) (w @ [snd g])" using seg_kid [OF assms(1-3) t(1)] t(2) by simp
  then have "f < length keys" "prefix (w @ [snd g]) (keys ! f)" unfolding g by (auto simp: seg_ok_def)
  then have "keys ! f \<in> set keys" "snd g \<in> set (keys ! f)" by (auto simp: prefix_def)
  then show ?thesis using assms(5) by (auto simp: keys_valid_def)
qed

section \<open>The layout the construction maintains\<close>

lemma ceil64_setBit: "length bm = (n + 63) div 64 \<Longrightarrow> length (setBit bm n v) = (Suc n + 63) div 64"
  by (auto simp: length_setBit)

lemma node_loop_runs:
  "groups keys col j e = Some gs \<Longrightarrow> chars_ok cs \<Longrightarrow> \<forall>g \<in> set gs. IsValidChar cs (snd g) \<Longrightarrow>
   cbl_invar (tb_labels st) \<Longrightarrow> unitBitSize (tb_labels st) = bits_Len (vc_Size cs) \<Longrightarrow>
   length (tb_bitmap st) = (tb_lIdx st + 63) div 64 \<Longrightarrow>
   \<exists>st'. node_loop keys cs col j e st = Some st' \<and> tb_queue st' = tb_queue st @ map fst gs \<and>
     tb_leaves st' = tb_leaves st \<and> tb_lIdx st' = tb_lIdx st + length gs \<and>
     cbl_invar (tb_labels st') \<and> unitBitSize (tb_labels st') = bits_Len (vc_Size cs) \<and>
     cbl_content (tb_labels st') = cbl_content (tb_labels st) @ map (lab cs) gs \<and>
     length (tb_bitmap st') = (tb_lIdx st' + 63) div 64 \<and> (\<forall>p. bmbit (tb_bitmap st') p = bmbit (tb_bitmap st) p)"
proof (induction keys cs col j e st arbitrary: gs rule: node_loop.induct)
  case (1 keys cs col j e st)
  show ?case
  proof (cases "j < e")
    case False
    then show ?thesis using "1.prems"
      by (auto simp: node_loop.simps [of keys cs col j e st] groups.simps [of keys col j e])
  next
    case True
    obtain j' c gs' where g: "group_end keys col j j e = Some j'" and c: "key_char keys j col = Some c"
      and gs': "groups keys col j' e = Some gs'" "gs = ((j, j', Suc col), c) # gs'"
      using "1.prems"(1) True by (subst (asm) groups.simps) (auto split: option.splits)
    have v: "bits_Len (unat (lab cs ((j, j', Suc col), c))) \<le> unitBitSize (tb_labels st)"
      using lab_fits [OF "1.prems"(2), of "((j, j', Suc col), c)"] "1.prems"(3,5) gs'(2) by simp
    obtain ls where ls: "cbl_Append (tb_labels st) (lab cs ((j, j', Suc col), c)) = Some ls" "cbl_invar ls"
      "unitBitSize ls = bits_Len (vc_Size cs)" "cbl_content ls = cbl_content (tb_labels st) @ [lab cs ((j, j', Suc col), c)]"
      using cbl_Append_ok [OF "1.prems"(4) v] "1.prems"(5) by auto
    then have a: "cbl_Append (tb_labels st) (ucast (vc_table cs ! unat c)) = Some ls" by (simp add: lab_def)
    let ?st = "st\<lparr>tb_queue := tb_queue st @ [(j, j', Suc col)], tb_labels := ls,
                  tb_bitmap := setBit (tb_bitmap st) (tb_lIdx st) 0, tb_lIdx := Suc (tb_lIdx st)\<rparr>"
    have eq: "node_loop keys cs col j e st = node_loop keys cs col j' e ?st"
      using True g c a by (simp add: node_loop.simps [of keys cs col j e st])
    have prem: "\<forall>g \<in> set gs'. IsValidChar cs (snd g)" "cbl_invar (tb_labels ?st)"
      "unitBitSize (tb_labels ?st) = bits_Len (vc_Size cs)" "length (tb_bitmap ?st) = (tb_lIdx ?st + 63) div 64"
      using "1.prems"(3) gs'(2) ls(2,3) ceil64_setBit [OF "1.prems"(6)] by simp_all
    show ?thesis unfolding eq gs'(2)
      using "1.IH" [OF True g c a gs'(1) "1.prems"(2) prem] ls(4) by (auto simp: bmbit_setBit)
  qed
qed

definition node_degrees :: "bytes list \<Rightarrow> q_elt list \<Rightarrow> nat list" where
  "node_degrees keys qs = map (\<lambda>q. length (kids keys q)) qs"

definition layout :: "bytes list \<Rightarrow> valid_chars \<Rightarrow> nat \<Rightarrow> trie_build \<Rightarrow> bool" where
  "layout keys cs i st \<longleftrightarrow>
     (let ds = node_degrees keys (take i (tb_queue st)) in
      i \<le> length (tb_queue st) \<and>
      tb_queue st = (0, length keys, 0) # concat (map (\<lambda>q. map fst (kids keys q)) (take i (tb_queue st))) \<and>
      (\<forall>q \<in> set (tb_queue st). \<exists>w. seg_ok keys q w) \<and>
      cbl_invar (tb_labels st) \<and> unitBitSize (tb_labels st) = bits_Len (vc_Size cs) \<and>
      cbl_content (tb_labels st) = concat (map (\<lambda>q. map (lab cs) (kids keys q)) (take i (tb_queue st))) \<and>
      tb_lIdx st = length (degree_bits ds) \<and> length (tb_bitmap st) = (tb_lIdx st + 63) div 64 \<and>
      (\<forall>p. bmbit (tb_bitmap st) p = (p < length (degree_bits ds) \<and> degree_bits ds ! p)) \<and>
      (\<forall>p. bmbit (tb_leaves st) p = (p < i \<and> elt_leaf keys (tb_queue st ! p))) \<and>
      (\<forall>v < i. v \<le> sum_list (take v ds)) \<and>
      i + sum_list (map (elt_weight keys) (drop i (tb_queue st))) \<le> elt_weight keys (0, length keys, 0))"

lemma length_children: "length (concat (map (\<lambda>q. map fst (kids keys q)) qs)) = sum_list (node_degrees keys qs)"
  by (simp add: length_concat node_degrees_def comp_def)

lemma degree_bits_append: "degree_bits (ds @ es) = degree_bits ds @ degree_bits es"
  by (induction ds) auto

lemma layout_step:
  assumes s: "sorted keys" "distinct keys" and cs: "chars_ok cs"
    and valid: "keys_valid cs keys"
    and inv: "layout keys cs i st" and i: "i < length (tb_queue st)"
  shows "\<exists>st'. node_step keys cs i st = Some st' \<and> layout keys cs (Suc i) st'"
proof -
  let ?Q = "tb_queue st"
  note L = inv [unfolded layout_def Let_def]
  obtain a e col where q: "?Q ! i = (a, e, col)" by (metis prod_cases3)
  obtain w where w: "seg_ok keys (a, e, col) w" using L i q nth_mem by metis
  define leaf where "leaf = elt_leaf keys (a, e, col)"
  define gs where "gs = kids keys (a, e, col)"
  note ks = kids_spec [OF s w, folded leaf_def gs_def]
  define st1 where "st1 = (if leaf then st\<lparr>tb_leaves := setBit (tb_leaves st) i 1\<rparr> else st)"
  have f1: "tb_queue st1 = ?Q" "tb_labels st1 = tb_labels st" "tb_bitmap st1 = tb_bitmap st" "tb_lIdx st1 = tb_lIdx st"
    by (simp_all add: st1_def)
  have lv1: "bmbit (tb_leaves st1) p = (p < Suc i \<and> elt_leaf keys (?Q ! p))" for p
    using L q by (auto simp: st1_def bmbit_setBit leaf_def less_Suc_eq)
  have gv: "\<forall>g \<in> set gs. IsValidChar cs (snd g)"
    using kid_label_valid [OF s w] valid by (simp add: gs_def)
  obtain st2 where n: "node_loop keys cs col (if leaf then Suc a else a) e st1 = Some st2" and r: "tb_queue st2 = ?Q @ map fst gs"
     "tb_leaves st2 = tb_leaves st1" "tb_lIdx st2 = tb_lIdx st + length gs"
     "cbl_invar (tb_labels st2)" "unitBitSize (tb_labels st2) = bits_Len (vc_Size cs)"
     "cbl_content (tb_labels st2) = cbl_content (tb_labels st) @ map (lab cs) gs"
     "length (tb_bitmap st2) = (tb_lIdx st2 + 63) div 64" "\<And>p. bmbit (tb_bitmap st2) p = bmbit (tb_bitmap st) p"
    using node_loop_runs [OF ks(1) cs gv, of st1] L unfolding f1 by auto
  define st' where "st' = st2\<lparr>tb_bitmap := setBit (tb_bitmap st2) (tb_lIdx st2) 1, tb_lIdx := Suc (tb_lIdx st2)\<rparr>"
  have "a < length keys" using w by (simp add: seg_ok_def)
  then have step: "node_step keys cs i st = Some st'"
    using q n by (simp add: node_step_def Let_def st'_def st1_def leaf_def elt_leaf_def)
  obtain ks' where ks': "tb_queue st' = ?Q @ ks'" and wt: "sum_list (map (elt_weight keys) ks') < elt_weight keys (?Q ! i)"
    using node_step_queue [OF step] by blast
  have Q': "tb_queue st' = ?Q @ map fst gs" using r by (simp add: st'_def)
  have ks'': "ks' = map fst gs" using ks' Q' by simp
  let ?ds = "node_degrees keys (take i ?Q)"
  have tk: "take (Suc i) (tb_queue st') = take i ?Q @ [(a, e, col)]" using i q Q' by (simp add: take_Suc_conv_app_nth)
  have ds: "degree_bits (node_degrees keys (take (Suc i) (tb_queue st'))) = degree_bits ?ds @ replicate (length gs) False @ [True]"
    unfolding tk by (simp add: node_degrees_def degree_bits_append gs_def)
  have seg: "\<exists>w. seg_ok keys q w" if mem: "q \<in> set (tb_queue st')" for q
  proof (cases "q \<in> set ?Q")
    case True
    then show ?thesis using L by blast
  next
    case False
    then obtain t where "t < length gs" "q = fst (gs ! t)" using mem unfolding Q' by (auto simp: in_set_conv_nth)
    then show ?thesis using seg_kid [OF s w] by (auto simp: gs_def)
  qed
  have bits: "bmbit (tb_bitmap st') p = (p < length (degree_bits ?ds @ replicate (length gs) False @ [True]) \<and>
      (degree_bits ?ds @ replicate (length gs) False @ [True]) ! p)" for p
    using L r(3,8) by (auto simp: st'_def bmbit_setBit nth_append)
  have lv: "bmbit (tb_leaves st') p = (p < Suc i \<and> elt_leaf keys (tb_queue st' ! p))" for p
    using lv1 [of p] r(2) Q' i by (auto simp: st'_def nth_append)
  have weight: "Suc i + sum_list (map (elt_weight keys) (drop (Suc i) (tb_queue st'))) \<le> elt_weight keys (0, length keys, 0)"
    using L wt i ks' by (simp add: Cons_nth_drop_Suc [symmetric, of i ?Q])
  have "length ?Q = Suc (sum_list ?ds)"
    using L length_children [of keys "take i ?Q"] by (metis length_Cons)
  then have ahead: "\<forall>v < Suc i. v \<le> sum_list (take v (node_degrees keys (take (Suc i) (tb_queue st'))))"
    using L i unfolding tk by (auto simp: node_degrees_def less_Suc_eq)
  have "layout keys cs (Suc i) st'" unfolding layout_def Let_def ds
  proof (intro conjI)
    show "tb_queue st' = (0, length keys, 0) # concat (map (\<lambda>q. map fst (kids keys q)) (take (Suc i) (tb_queue st')))"
      unfolding tk using L Q' by (simp add: gs_def)
    show "length (tb_bitmap st') = (tb_lIdx st' + 63) div 64"
      using ceil64_setBit [OF r(7)] by (simp add: st'_def)
    show "cbl_content (tb_labels st') = concat (map (\<lambda>q. map (lab cs) (kids keys q)) (take (Suc i) (tb_queue st')))"
      unfolding tk using L r(6) by (simp add: st'_def gs_def)
  qed (use seg bits lv weight ahead L r Q' i in \<open>auto simp: st'_def\<close>)
  then show ?thesis using step by blast
qed

lemma bfs_layout:
  assumes s: "sorted keys" "distinct keys" and cs: "chars_ok cs"
    and valid: "keys_valid cs keys"
  shows "layout keys cs i st \<Longrightarrow> \<exists>st'. bfs_loop keys cs i st = Some st' \<and> layout keys cs (length (tb_queue st')) st'"
  using assms
proof (induction keys cs i st rule: bfs_loop.induct)
  case (1 keys cs i st)
  show ?case
  proof (cases "i < length (tb_queue st)")
    case True
    obtain st1 where st1: "node_step keys cs i st = Some st1" "layout keys cs (Suc i) st1"
      using layout_step [OF "1.prems"(2-5) "1.prems"(1) True] by blast
    have eq: "bfs_loop keys cs i st = bfs_loop keys cs (Suc i) st1"
      using True st1 by (simp add: bfs_loop.simps [of keys cs i st])
    show ?thesis unfolding eq using "1.IH" [OF True st1(1) st1(2) "1.prems"(2-5)] .
  next
    case False
    then have "i = length (tb_queue st)" using "1.prems"(1) by (simp add: layout_def Let_def)
    moreover have "bfs_loop keys cs i st = Some st" using False by (simp add: bfs_loop.simps [of keys cs i st])
    ultimately show ?thesis using "1.prems"(1) by blast
  qed
qed

lemma layout_start:
  assumes "keys \<noteq> []" "chars_ok cs" "bits_Len (vc_Size cs) \<le> 64"
  shows "layout keys cs 0 \<lparr>tb_queue = [(0, length keys, 0)], tb_leaves = [],
     tb_labels = NewCompactBitList (bits_Len (vc_Size cs)), tb_bitmap = [], tb_lIdx = 0\<rparr>"
  using assms bits.empty_ok [of "bits_Len (vc_Size cs)"] bits_Len_pos [of "vc_Size cs"]
  by (simp add: layout_def Let_def node_degrees_def seg_ok_def chars_ok_def bmbit_def)

section \<open>The finished trie\<close>

definition represents :: "bytes list \<Rightarrow> q_elt list \<Rightarrow> trie \<Rightarrow> bool" where
  "represents keys Q ss \<longleftrightarrow>
     (let ds = node_degrees keys Q in
      sorted keys \<and> distinct keys \<and> chars_ok (chars ss) \<and> keys_valid (chars ss) keys \<and>
      Q = (0, length keys, 0) # concat (map (\<lambda>q. map fst (kids keys q)) Q) \<and>
      (\<forall>q \<in> set Q. \<exists>w. seg_ok keys q w) \<and>
      cbl_invar (labels ss) \<and> cbl_content (labels ss) = concat (map (\<lambda>q. map (lab (chars ss)) (kids keys q)) Q) \<and>
      rs_ok (labelBitmap ss) \<and> trie_init (labelBitmap ss) = Some (ranksBL ss, selectsBL ss) \<and>
      length (degree_bits ds) \<le> 64 * length (labelBitmap ss) \<and>
      (\<forall>p < length (degree_bits ds). bmbit (labelBitmap ss) p = degree_bits ds ! p) \<and>
      (\<forall>p. bmbit (leaves ss) p = (p < length Q \<and> elt_leaf keys (Q ! p))) \<and>
      (\<forall>v < length Q. v \<le> sum_list (take v ds)))"

lemma nth_concat_block:
  "v < length xss \<Longrightarrow> t < length (xss ! v) \<Longrightarrow>
   sum_list (map length (take v xss)) + t < length (concat xss) \<and>
   concat xss ! (sum_list (map length (take v xss)) + t) = xss ! v ! t"
proof (induction xss arbitrary: v)
  case Nil
  then show ?case by simp
next
  case (Cons xs xss)
  then show ?case by (cases v) (auto simp: nth_append length_concat)
qed

lemma represents_degrees:
  assumes "represents keys Q ss"
  shows "length (node_degrees keys Q) = length Q"
    and "v < length Q \<Longrightarrow> node_degrees keys Q ! v = length (kids keys (Q ! v))"
    and "sum_list (take v (node_degrees keys Q)) = sum_list (map length (take v (map (kids keys) Q)))"
  by (simp_all add: node_degrees_def take_map [symmetric] comp_def)

lemma represents_child:
  assumes r: "represents keys Q ss" and v: "v < length Q" "t < length (kids keys (Q ! v))"
  defines "c \<equiv> sum_list (take v (node_degrees keys Q)) + t + 1"
  shows "c < length Q" "Q ! c = fst (kids keys (Q ! v) ! t)"
proof -
  have Q: "Q = (0, length keys, 0) # concat (map (\<lambda>q. map fst (kids keys q)) Q)"
    using r by (simp add: represents_def Let_def)
  let ?x = "map (\<lambda>q. map fst (kids keys q)) Q"
  have sum: "sum_list (map length (take v ?x)) = sum_list (take v (node_degrees keys Q))"
    by (simp add: node_degrees_def take_map [symmetric] comp_def)
  have b: "sum_list (map length (take v ?x)) + t < length (concat ?x)"
    "concat ?x ! (sum_list (map length (take v ?x)) + t) = ?x ! v ! t"
    using nth_concat_block [of v ?x t] v by simp_all
  have l: "length Q = Suc (length (concat ?x))" by (subst Q) (simp only: length_Cons)
  then show "c < length Q" using b(1) sum by (simp add: c_def)
  have "Q ! c = concat ?x ! (sum_list (take v (node_degrees keys Q)) + t)" unfolding c_def by (subst Q) simp
  then show "Q ! c = fst (kids keys (Q ! v) ! t)" using b(2) v unfolding sum by simp
qed

lemma represents_label:
  assumes r: "represents keys Q ss" and v: "v < length Q" "t < length (kids keys (Q ! v))"
  shows "cbl_Get (labels ss) (sum_list (take v (node_degrees keys Q)) + t) = Some (lab (chars ss) (kids keys (Q ! v) ! t))"
proof -
  let ?x = "map (\<lambda>q. map (lab (chars ss)) (kids keys q)) Q"
  have c: "cbl_invar (labels ss)" "cbl_content (labels ss) = concat ?x" using r by (simp_all add: represents_def Let_def)
  have sum: "sum_list (map length (take v ?x)) = sum_list (take v (node_degrees keys Q))"
    by (simp add: node_degrees_def take_map [symmetric] comp_def)
  have b: "sum_list (map length (take v ?x)) + t < length (concat ?x)"
    "concat ?x ! (sum_list (map length (take v ?x)) + t) = ?x ! v ! t"
    using nth_concat_block [of v ?x t] v by simp_all
  then show ?thesis using bits.get_ok [OF c(1), unfolded c(2) sum, of "sum_list (take v (node_degrees keys Q)) + t"] v
    unfolding sum by simp
qed

lemma represents_bit:
  assumes r: "represents keys Q ss" and v: "v < length Q" "t \<le> length (kids keys (Q ! v))"
  shows "\<exists>b. getBit (labelBitmap ss) (block_start (node_degrees keys Q) v + t) = Some b \<and> (b \<noteq> 0) = (t = length (kids keys (Q ! v)))"
proof -
  let ?ds = "node_degrees keys Q"
  note d = represents_degrees [OF r]
  have p: "block_start ?ds v + t < length (degree_bits ?ds)" "degree_bits ?ds ! (block_start ?ds v + t) = (t = length (kids keys (Q ! v)))"
    using degree_bits_block [of v ?ds t] d(1,2) v by simp_all
  have "block_start ?ds v + t < 64 * length (labelBitmap ss)" using p(1) r by (simp add: represents_def Let_def)
  then have "(block_start ?ds v + t) div 64 < length (labelBitmap ss)" by (simp add: div_less_iff_less_mult mult.commute)
  moreover have "bmbit (labelBitmap ss) (block_start ?ds v + t) = (t = length (kids keys (Q ! v)))"
    using r p by (simp add: represents_def Let_def)
  ultimately show ?thesis by (auto simp: getBit_iff push_bit_one_neq_0)
qed

lemma find_label_finds:
  assumes r: "represents keys Q ss" and v: "v < length Q"
  shows "t0 \<le> length (kids keys (Q ! v)) \<Longrightarrow>
    (\<exists>t < length (kids keys (Q ! v)). hit (lab (chars ss) (kids keys (Q ! v) ! t)) \<and>
       find_label ss hit v (block_start (node_degrees keys Q) v + t0) = Some (Some (block_start (node_degrees keys Q) v + t))) \<or>
    (\<forall>t. t0 \<le> t \<longrightarrow> t < length (kids keys (Q ! v)) \<longrightarrow> \<not> hit (lab (chars ss) (kids keys (Q ! v) ! t))) \<and>
       find_label ss hit v (block_start (node_degrees keys Q) v + t0) = Some None"
proof (induction "length (kids keys (Q ! v)) - t0" arbitrary: t0)
  case 0
  then have t0: "t0 = length (kids keys (Q ! v))" by simp
  obtain b where "getBit (labelBitmap ss) (block_start (node_degrees keys Q) v + t0) = Some b" "b \<noteq> 0"
    using represents_bit [OF r v, of t0] t0 by auto
  then show ?case using t0 by (simp add: find_label.simps [of ss hit v])
next
  case (Suc n)
  then have lt: "t0 < length (kids keys (Q ! v))" by simp
  let ?p = "block_start (node_degrees keys Q) v + t0"
  have b: "getBit (labelBitmap ss) ?p = Some 0" using represents_bit [OF r v, of t0] lt by auto
  have "?p - v = sum_list (take v (node_degrees keys Q)) + t0" "\<not> ?p < v" by (simp_all add: block_start_def)
  then have eq: "find_label ss hit v ?p = (if hit (lab (chars ss) (kids keys (Q ! v) ! t0)) then Some (Some ?p)
      else find_label ss hit v (block_start (node_degrees keys Q) v + Suc t0))"
    using b represents_label [OF r v lt] by (simp add: find_label.simps [of ss hit v ?p])
  show ?case
  proof (cases "hit (lab (chars ss) (kids keys (Q ! v) ! t0))")
    case True
    then show ?thesis using eq lt by auto
  next
    case False
    have "n = length (kids keys (Q ! v)) - Suc t0" "Suc t0 \<le> length (kids keys (Q ! v))" using Suc(2) lt by simp_all
    from Suc(1) [OF this] show ?thesis
    proof
      assume "\<exists>t < length (kids keys (Q ! v)). hit (lab (chars ss) (kids keys (Q ! v) ! t)) \<and>
        find_label ss hit v (block_start (node_degrees keys Q) v + Suc t0) = Some (Some (block_start (node_degrees keys Q) v + t))"
      then show ?thesis unfolding eq using False by simp
    next
      assume "(\<forall>t. Suc t0 \<le> t \<longrightarrow> t < length (kids keys (Q ! v)) \<longrightarrow> \<not> hit (lab (chars ss) (kids keys (Q ! v) ! t))) \<and>
        find_label ss hit v (block_start (node_degrees keys Q) v + Suc t0) = Some None"
      then show ?thesis unfolding eq using False by (metis le_antisym not_less_eq_eq)
    qed
  qed
qed

lemma represents_next:
  assumes r: "represents keys Q ss" and v: "v < length Q" "t < length (kids keys (Q ! v))"
  shows "next_level ss (block_start (node_degrees keys Q) v + t) =
    Some (sum_list (take v (node_degrees keys Q)) + t + 1,
          block_start (node_degrees keys Q) (sum_list (take v (node_degrees keys Q)) + t + 1))"
proof -
  let ?ds = "node_degrees keys Q" and ?c = "sum_list (take v (node_degrees keys Q)) + t + 1"
  have ok: "rs_ok (labelBitmap ss)" "trie_init (labelBitmap ss) = Some (ranksBL ss, selectsBL ss)"
    "length (degree_bits ?ds) \<le> 64 * length (labelBitmap ss)"
    and bit: "\<And>p. p < length (degree_bits ?ds) \<Longrightarrow> bmbit (labelBitmap ss) p = degree_bits ?ds ! p"
    using r by (simp_all add: represents_def Let_def)
  note d = represents_degrees [OF r]
  have "countZeros (labelBitmap ss) (ranksBL ss) (block_start ?ds v + t + 1) = Some ?c"
    using rs.child_number [OF ok bit, of v t] d v by simp
  moreover obtain p where "selectIthOne (labelBitmap ss) (ranksBL ss) (selectsBL ss) (?c - 1) = Some p" "p + 1 = block_start ?ds ?c"
    using rs.child_block [OF ok(1,2) bit, of ?c] represents_child(1) [OF r v] d(1) by auto
  ultimately show ?thesis by (simp add: next_level_def)
qed

lemma represents_last_leaf:
  assumes r: "represents keys Q ss"
  shows "Q \<noteq> [] \<and> bmbit (leaves ss) (length Q - 1)"
proof -
  have Q: "Q = (0, length keys, 0) # concat (map (\<lambda>q. map fst (kids keys q)) Q)"
    and s: "sorted keys" "distinct keys" and ge: "\<forall>v < length Q. v \<le> sum_list (take v (node_degrees keys Q))"
    using r by (simp_all add: represents_def Let_def)
  have ne: "Q \<noteq> []" by (subst Q) simp
  define v where "v = length Q - 1"
  have v: "v < length Q" "length Q \<le> Suc v" using ne by (simp_all add: v_def)
  have "kids keys (Q ! v) = []"
  proof (rule ccontr)
    assume "kids keys (Q ! v) \<noteq> []"
    then have t: "0 < length (kids keys (Q ! v))" by simp
    then show False using represents_child(1) [OF r v(1) t] ge v by fastforce
  qed
  moreover obtain w where "seg_ok keys (Q ! v) w" using r v(1) nth_mem unfolding represents_def Let_def by meson
  ultimately have "elt_leaf keys (Q ! v)" using no_kids_leaf [OF s] by blast
  then show ?thesis using r ne v by (simp add: represents_def Let_def v_def)
qed

lemma represents_leaf:
  assumes r: "represents keys Q ss" and v: "v < length Q"
  shows "\<exists>b. getBit (leaves ss) v = Some b \<and> (b \<noteq> 0) = elt_leaf keys (Q ! v)"
proof -
  have "bmbit (leaves ss) (length Q - 1)" using represents_last_leaf [OF r] by simp
  then have "(length Q - 1) div 64 < length (leaves ss)" by (simp add: bmbit_def)
  moreover have "v div 64 \<le> (length Q - 1) div 64" using v by (intro div_le_mono) simp
  ultimately have "v div 64 < length (leaves ss)" by simp
  moreover have "bmbit (leaves ss) v = elt_leaf keys (Q ! v)" using r v by (simp add: represents_def Let_def)
  ultimately show ?thesis by (auto simp: getBit_iff push_bit_one_neq_0)
qed

text \<open>Following one edge of the represented tree.\<close>

lemma edge_step:
  assumes r: "represents keys Q ss" and v: "v < length Q" and w: "seg_ok keys (Q ! v) w"
    and hit: "\<forall>d. IsValidChar (chars ss) d \<longrightarrow> hit (ucast (vc_table (chars ss) ! unat d)) = (d = c)"
  shows "(\<exists>p u. find_label ss hit v (block_start (node_degrees keys Q) v) = Some (Some p) \<and>
            next_level ss p = Some (u, block_start (node_degrees keys Q) u) \<and> u < length Q \<and> seg_ok keys (Q ! u) (w @ [c])) \<or>
         find_label ss hit v (block_start (node_degrees keys Q) v) = Some None \<and> (\<forall>k \<in> set keys. \<not> prefix (w @ [c]) k)"
proof -
  have s: "sorted keys" "distinct keys" and kv: "keys_valid (chars ss) keys"
    using r by (simp_all add: represents_def Let_def)
  have h: "hit (lab (chars ss) (kids keys (Q ! v) ! t)) = (snd (kids keys (Q ! v) ! t) = c)"
    if "t < length (kids keys (Q ! v))" for t
    using hit kid_label_valid [OF s w nth_mem [OF that] kv] by (simp add: lab_def)
  from find_label_finds [OF r v le0, of hit] show ?thesis
  proof (elim disjE exE conjE, goal_cases)
    case (1 t)
    let ?c = "sum_list (take v (node_degrees keys Q)) + t + 1"
    have "?c < length Q" "Q ! ?c = fst (kids keys (Q ! v) ! t)" using represents_child [OF r v] 1 by simp_all
    moreover have "seg_ok keys (fst (kids keys (Q ! v) ! t)) (w @ [c])" using seg_kid [OF s w 1(1)] h 1 by simp
    ultimately show ?case using 1 represents_next [OF r v 1(1)] by auto
  next
    case 2
    have "\<not> prefix (w @ [c]) k" if "k \<in> set keys" for k
      using kid_exists [OF s w that, of c] 2 h by auto
    then show ?case using 2 by simp
  qed
qed

lemma prefix_extend:
  assumes "k \<noteq> w"
  shows "prefix w k \<and> prefix k (w @ c # r) \<longleftrightarrow> prefix (w @ [c]) k \<and> prefix k ((w @ [c]) @ r)"
proof
  assume a: "prefix w k \<and> prefix k (w @ c # r)"
  then obtain y where y: "k = w @ y" by (auto simp: prefix_def)
  then have "y \<noteq> []" "prefix y (c # r)" using a assms by auto
  then obtain z where "y = c # z" by (cases y) auto
  then show "prefix (w @ [c]) k \<and> prefix k ((w @ [c]) @ r)" using a y by simp
next
  assume "prefix (w @ [c]) k \<and> prefix k ((w @ [c]) @ r)"
  then show "prefix w k \<and> prefix k (w @ c # r)" by (auto dest: append_prefixD)
qed

lemma represents_leaf_key:
  assumes r: "represents keys Q ss" and v: "v < length Q" "seg_ok keys (Q ! v) w"
  shows "\<exists>b. getBit (leaves ss) v = Some b \<and> (b \<noteq> 0) = (w \<in> set keys)"
proof -
  have s: "sorted keys" "distinct keys" using r by (simp_all add: represents_def Let_def)
  obtain a e col where q: "Q ! v = (a, e, col)" by (metis prod_cases3)
  have "elt_leaf keys (Q ! v) = (w \<in> set keys)" using seg_leaf(1) [OF s, of a e col w] v(2) by (simp add: q elt_leaf_def)
  then show ?thesis using represents_leaf [OF r v(1)] by simp
qed

lemma table_hit:
  assumes "chars_ok cs" "IsValidChar cs c"
  shows "\<forall>d. IsValidChar cs d \<longrightarrow> ((ucast (ucast (vc_table cs ! unat d) :: u64) :: u8) = vc_table cs ! unat c) = (d = c)"
proof -
  have "(ucast (ucast (vc_table cs ! unat d) :: u64) :: u8) = vc_table cs ! unat d" for d
    by (rule bit_word_eqI) (simp add: bit_simps)
  then show ?thesis using assms by (auto simp: chars_ok_def)
qed

lemma has_prefix_loop_correct:
  assumes r: "represents keys Q ss"
  shows "v < length Q \<Longrightarrow> seg_ok keys (Q ! v) w \<Longrightarrow>
    has_prefix_loop ss v (block_start (node_degrees keys Q) v) word = Some (\<exists>k \<in> set keys. prefix w k \<and> prefix k (w @ word))"
proof (induction word arbitrary: v w)
  case (Nil v w)
  have "(\<exists>k \<in> set keys. prefix w k \<and> prefix k w) = (w \<in> set keys)" using prefix_order.antisym by blast
  then show ?case using represents_leaf_key [OF r Nil] by auto
next
  case (Cons c word v w)
  obtain b where b: "getBit (leaves ss) v = Some b" "(b \<noteq> 0) = (w \<in> set keys)"
    using represents_leaf_key [OF r Cons.prems] by blast
  have kv: "keys_valid (chars ss) keys" and ok: "chars_ok (chars ss)" using r by (simp_all add: represents_def Let_def)
  show ?case
  proof (cases "w \<in> set keys")
    case True
    then show ?thesis using b by auto
  next
    case False
    then have ext: "(\<exists>k \<in> set keys. prefix w k \<and> prefix k (w @ c # word)) \<longleftrightarrow>
        (\<exists>k \<in> set keys. prefix (w @ [c]) k \<and> prefix k ((w @ [c]) @ word))"
      using prefix_extend by metis
    show ?thesis
    proof (cases "IsValidChar (chars ss) c")
      case invalid: False
      have "\<not> prefix (w @ [c]) k" if "k \<in> set keys" for k
        using that kv invalid by (fastforce simp: keys_valid_def prefix_def)
      then show ?thesis unfolding ext using b False invalid by simp
    next
      case True
      let ?hit = "\<lambda>l. (ucast l :: u8) = vc_table (chars ss) ! unat c"
      from edge_step [OF r Cons.prems, of ?hit c, OF table_hit [OF ok True]] show ?thesis
      proof (elim disjE exE conjE, goal_cases)
        case (1 p u)
        then show ?case unfolding ext using Cons.IH [OF 1(3,4)] b False True by simp
      next
        case 2
        then show ?case unfolding ext using b False True by auto
      qed
    qed
  qed
qed

section \<open>The construction succeeds\<close>

lemma layout_represents:
  assumes L: "layout keys cs (length (tb_queue st)) st" and s: "sorted keys" "distinct keys"
    and cs: "chars_ok cs" "keys_valid cs keys" and small: "sum_list (map length keys) < 2 ^ 29"
  shows "\<exists>rk se. trie_init (tb_bitmap st) = Some (rk, se) \<and> (\<forall>cur. represents keys (tb_queue st)
    \<lparr>leaves = tb_leaves st, labelBitmap = tb_bitmap st, labels = tb_labels st, ranksBL = rk, selectsBL = se, chars = cs, ipv4 = cur\<rparr>)"
proof -
  let ?Q = "tb_queue st" and ?ds = "node_degrees keys (tb_queue st)"
  note L' = L [unfolded layout_def Let_def take_all [OF order_refl] drop_all [OF order_refl]]
  have "length ?Q \<le> elt_weight keys (0, length keys, 0)" using L' by simp
  also have "\<dots> = Suc (sum_list (map length keys))"
    by (simp add: elt_weight_def sum_list_sum_nth atLeast0LessThan)
  finally have n: "length ?Q \<le> 2 ^ 29" using small by simp
  have sum: "length ?Q = Suc (sum_list ?ds)" using L' length_children [of keys ?Q] by (metis length_Cons)
  have len: "length (degree_bits ?ds) = sum_list ?ds + length ?Q" by (simp add: length_degree_bits node_degrees_def)
  have bl: "length (tb_bitmap st) = (length (degree_bits ?ds) + 63) div 64" using L' by simp
  have "\<exists>p. bmbit (tb_bitmap st) p"
    using L' degree_bits_block [of 0 ?ds "?ds ! 0"] sum by (auto simp: node_degrees_def)
  moreover have "64 * length (tb_bitmap st) < 2 ^ 31" using bl len sum n by simp
  ultimately have rs: "rs_ok (tb_bitmap st)" by (simp add: rs_ok_def)
  then obtain rk se where ti: "trie_init (tb_bitmap st) = Some (rk, se)" using trie_init_ok by blast
  have "length (degree_bits ?ds) \<le> 64 * length (tb_bitmap st)" using bl by simp
  then show ?thesis using rs ti L' s cs
    by (intro exI [of _ rk] exI [of _ se]) (simp add: represents_def Let_def)
qed

end
