(* ===== verification/Trie_Correct.thy ===== *)
theory Trie_Correct
  imports Trie_Layout "HOL-Library.Multiset"
begin

text \<open>
  What the trie promises to its clients. \<^verbatim>\<open>HasPrefix\<close> decides whether some key is a prefix of
  the word; \<^verbatim>\<open>HasPrefixIP\<close>, with its stored cursor for the IPv4-mapped range, decides whether some
  address prefix covers the address. Both hold for every key set of fewer than \<open>2 ^ 29\<close> characters,
  the bound under which the \<^verbatim>\<open>int32\<close> rank and select buffers do not overflow.
\<close>

section \<open>Alphabets built by NewValidChars\<close>

lemma valid_chars_loop_spec:
  "distinct cs \<Longrightarrow> unat (vc_n v) + length cs \<le> 256 \<Longrightarrow> length (vc_table v) = 256 \<Longrightarrow>
   vc_n (valid_chars_loop v cs) = vc_n v + of_nat (length cs) \<and>
   length (vc_table (valid_chars_loop v cs)) = 256 \<and>
   (\<forall>i < length cs. vc_table (valid_chars_loop v cs) ! unat (cs ! i) = of_nat (unat (vc_n v) + i)) \<and>
   (\<forall>c. c \<notin> set cs \<longrightarrow> vc_table (valid_chars_loop v cs) ! unat c = vc_table v ! unat c) \<and>
   vc_zeroChar (valid_chars_loop v cs) = (if vc_n v = 0 \<and> cs \<noteq> [] then hd cs else vc_zeroChar v)"
proof (induction cs arbitrary: v)
  case Nil
  then show ?case by simp
next
  case (Cons c cs)
  define v1 where "v1 = (if vc_n v = 0 then v\<lparr>vc_zeroChar := c\<rparr> else v)"
  define v2 where "v2 = v1\<lparr>vc_table := (vc_table v1)[unat c := ucast (vc_n v1)], vc_n := vc_n v1 + 1\<rparr>"
  have eq: "valid_chars_loop v (c # cs) = valid_chars_loop v2 cs" by (simp add: v1_def v2_def Let_def)
  have n: "unat (vc_n v2) = Suc (unat (vc_n v))"
  proof -
    have "unat (vc_n v + 1) = Suc (unat (vc_n v))"
      using Cons.prems(2) by (simp add: unat_word_ariths)
    then show ?thesis by (simp add: v2_def v1_def)
  qed
  have c256: "unat c < 256" for c :: u8 using unsigned_less [of c, where 'a = nat] by simp
  have t: "vc_table v2 = (vc_table v)[unat c := ucast (vc_n v)]" "vc_n v2 \<noteq> 0"
    using n by (auto simp: v2_def v1_def)
  have ih: "vc_n (valid_chars_loop v2 cs) = vc_n v2 + of_nat (length cs)"
     "length (vc_table (valid_chars_loop v2 cs)) = 256"
     "\<forall>i < length cs. vc_table (valid_chars_loop v2 cs) ! unat (cs ! i) = of_nat (unat (vc_n v2) + i)"
     "\<forall>c. c \<notin> set cs \<longrightarrow> vc_table (valid_chars_loop v2 cs) ! unat c = vc_table v2 ! unat c"
     "vc_zeroChar (valid_chars_loop v2 cs) = vc_zeroChar v2"
    using Cons.IH [of v2] Cons.prems n t by simp_all
  have hd: "vc_table (valid_chars_loop v2 cs) ! unat c = of_nat (unat (vc_n v))"
    using ih(4) Cons.prems c256 [of c] by (simp add: t)
  show ?case unfolding eq
  proof (intro conjI allI impI)
    show "vc_n (valid_chars_loop v2 cs) = vc_n v + of_nat (length (c # cs))"
      using ih(1) by (simp add: v2_def v1_def)
    show "vc_table (valid_chars_loop v2 cs) ! unat ((c # cs) ! i) = of_nat (unat (vc_n v) + i)" if "i < length (c # cs)" for i
      using that hd ih(3) n by (cases i) auto
    show "vc_table (valid_chars_loop v2 cs) ! unat d = vc_table v ! unat d" if "d \<notin> set (c # cs)" for d
    proof -
      have "unat c \<noteq> unat d" using that by (auto simp: word_unat_eq_iff [symmetric])
      then show ?thesis using that ih(4) by (simp add: t)
    qed
    show "vc_zeroChar (valid_chars_loop v2 cs) = (if vc_n v = 0 \<and> c # cs \<noteq> [] then hd (c # cs) else vc_zeroChar v)"
      using ih(5) by (simp add: v2_def v1_def)
  qed (rule ih(2))
qed

lemma NewValidChars_spec:
  assumes "distinct cs" "cs \<noteq> []" "length cs \<le> 256"
  shows "vc_Size (NewValidChars cs) = length cs"
    and "\<And>i. i < length cs \<Longrightarrow> unat (vc_table (NewValidChars cs) ! unat (cs ! i)) = i"
    and "IsValidChar (NewValidChars cs) c \<longleftrightarrow> c \<in> set cs"
proof -
  note r = valid_chars_loop_spec [OF assms(1), of "\<lparr>vc_table = replicate 256 0, vc_n = 0, vc_zeroChar = 0\<rparr>",
      folded NewValidChars_def]
  have len: "length cs mod 65536 = length cs" using assms(3) by simp
  show "vc_Size (NewValidChars cs) = length cs" using r assms(3) by (simp add: vc_Size_def unsigned_of_nat take_bit_nat_def)
  show nth: "unat (vc_table (NewValidChars cs) ! unat (cs ! i)) = i" if "i < length cs" for i
    using r assms(3) that by (simp add: unsigned_of_nat take_bit_nat_def)
  have c256: "unat c < 256" using unsigned_less [of c, where 'a = nat] by simp
  have z: "vc_zeroChar (NewValidChars cs) = hd cs" using r assms by simp
  show "IsValidChar (NewValidChars cs) c \<longleftrightarrow> c \<in> set cs"
  proof
    assume "IsValidChar (NewValidChars cs) c"
    then show "c \<in> set cs"
      using r assms z c256 by (auto simp: IsValidChar_def)
  next
    assume "c \<in> set cs"
    then obtain i where i: "i < length cs" "cs ! i = c" by (auto simp: in_set_conv_nth)
    show "IsValidChar (NewValidChars cs) c"
    proof (cases "i = 0")
      case True
      then show ?thesis using z i assms(2) by (simp add: IsValidChar_def hd_conv_nth)
    next
      case False
      then have "vc_table (NewValidChars cs) ! unat c \<noteq> 0" using nth [OF i(1)] i(2) by auto
      then show ?thesis by (simp add: IsValidChar_def word_neq_0_conv)
    qed
  qed
qed

lemma NewValidChars_ok:
  assumes "distinct cs" "cs \<noteq> []" "length cs \<le> 256"
  shows "chars_ok (NewValidChars cs)"
  unfolding chars_ok_def
proof (intro conjI allI impI)
  note sp = NewValidChars_spec [OF assms]
  show "0 < vc_Size (NewValidChars cs)" using sp(1) assms by simp
  show "unat (vc_table (NewValidChars cs) ! unat c) < vc_Size (NewValidChars cs)" if "IsValidChar (NewValidChars cs) c" for c
    using that sp by (auto simp: in_set_conv_nth)
  show "c = d" if "IsValidChar (NewValidChars cs) c" "IsValidChar (NewValidChars cs) d"
    "vc_table (NewValidChars cs) ! unat c = vc_table (NewValidChars cs) ! unat d" for c d
    using that sp(2,3) by (auto simp: in_set_conv_nth) metis
qed

section \<open>Seeking an address\<close>

definition bin_chars :: "bytes \<Rightarrow> bytes" where
  "bin_chars address = map (\<lambda>i. if net_bit address i then 0x31 else 0x30) [0..<8 * length address]"

text \<open>
  What a cursor says after the first \<open>e\<close> characters of \<open>A\<close>: a miss rules out every key that is a
  prefix of a continuation; otherwise the cursor stands on the node of some \<open>take b A\<close>, with no
  shorter key before it, and only a key stops it early.
\<close>

definition cursor_ok :: "bytes list \<Rightarrow> q_elt list \<Rightarrow> bytes \<Rightarrow> nat \<Rightarrow> ip_cursor \<Rightarrow> bool" where
  "cursor_ok keys Q A e cur \<longleftrightarrow>
     (if cur_node cur < 0 then \<forall>k \<in> set keys. \<forall>B. take e B = take e A \<longrightarrow> \<not> prefix k B
      else nat (cur_node cur) < length Q \<and> cur_bitmap cur = block_start (node_degrees keys Q) (nat (cur_node cur)) \<and>
        (\<exists>b \<le> e. seg_ok keys (Q ! nat (cur_node cur)) (take b A) \<and> b \<le> length A \<and> (b < e \<longrightarrow> take b A \<in> set keys) \<and>
           (\<forall>k \<in> set keys. prefix k (take b A) \<longrightarrow> b \<le> length k)))"

lemma net_bit_label:
  "(ucast (drop_bit (7 - i mod 8) (a ! (i div 8)) AND 1 :: u8) :: u64) = (if net_bit a i then 1 else 0)"
  by (rule bit_word_eqI) (auto simp: net_bit_def bit_simps intro!: gr0I)

lemma cidr_chars:
  "chars_ok ValidCidrChars" "IsValidChar ValidCidrChars c \<longleftrightarrow> c = 0x30 \<or> c = 0x31"
  "vc_table ValidCidrChars ! unat (0x30 :: u8) = 0" "vc_table ValidCidrChars ! unat (0x31 :: u8) = 1"
proof -
  have d: "distinct [0x30, 0x31 :: u8]" "[0x30, 0x31 :: u8] \<noteq> []" "length [0x30, 0x31 :: u8] \<le> 256" by simp_all
  note sp = NewValidChars_spec [OF d, folded ValidCidrChars_def]
  show "chars_ok ValidCidrChars" using NewValidChars_ok [OF d] by (simp add: ValidCidrChars_def)
  show "IsValidChar ValidCidrChars c \<longleftrightarrow> c = 0x30 \<or> c = 0x31" using sp(3) by simp
  show "vc_table ValidCidrChars ! unat (0x30 :: u8) = 0" "vc_table ValidCidrChars ! unat (0x31 :: u8) = 1"
    using sp(2) [of 0] sp(2) [of 1] by (simp_all add: word_unat_eq_iff)
qed

lemma cidr_hit:
  "\<forall>d. IsValidChar ValidCidrChars d \<longrightarrow>
     ((ucast (vc_table ValidCidrChars ! unat d) :: u64) = (if x then 1 else 0)) = (d = (if x then 0x31 else 0x30))"
  using cidr_chars(2-4) by auto

lemma agree_take:
  assumes "prefix k B" "take e B = take e A" "n \<le> e"
  shows "take n k = take (min n (length k)) A"
proof -
  have k: "k = take (length k) B" using assms(1) by (auto simp: prefix_def)
  have "take n k = take (min n (length k)) B" by (subst k) simp
  also have "\<dots> = take (min n (length k)) (take e B)" using assms(3) by (simp add: min.absorb1)
  also have "\<dots> = take (min n (length k)) A" using assms(3) unfolding assms(2) by (simp add: min.absorb1)
  finally show ?thesis .
qed

lemma seek_loop_ok:
  assumes r: "represents keys Q ss" and cs: "chars ss = ValidCidrChars"
  shows "v < length Q \<Longrightarrow> bitmap = block_start (node_degrees keys Q) v \<Longrightarrow> e \<le> 8 * length address \<Longrightarrow> bt \<le> e \<Longrightarrow>
    seg_ok keys (Q ! v) (take bt (bin_chars address)) \<Longrightarrow>
    (\<forall>k \<in> set keys. prefix k (take bt (bin_chars address)) \<longrightarrow> bt \<le> length k) \<Longrightarrow>
    \<exists>cur. seek_loop ss address bt e v bitmap = Some cur \<and> cursor_ok keys Q (bin_chars address) e cur"
  using r cs
proof (induction ss address bt e v bitmap rule: seek_loop.induct)
  case (1 ss address bt e v bitmap)
  let ?A = "bin_chars address"
  have len: "length ?A = 8 * length address" by (simp add: bin_chars_def)
  obtain b where b: "getBit (leaves ss) v = Some b" "(b \<noteq> 0) = (take bt ?A \<in> set keys)"
    using represents_leaf_key [OF "1.prems"(7) "1.prems"(1,5)] by blast
  have here: "cursor_ok keys Q ?A e \<lparr>cur_node = int v, cur_bitmap = bitmap\<rparr>" if "bt = e \<or> b \<noteq> 0"
    using that "1.prems" b len by (auto simp: cursor_ok_def)
  show ?case
  proof (cases "bt < e \<and> b = 0")
    case False
    then have "seek_loop ss address bt e v bitmap = Some \<lparr>cur_node = int v, cur_bitmap = bitmap\<rparr>"
      using b by (auto simp: seek_loop.simps [of ss address bt e v bitmap])
    then show ?thesis using here False "1.prems"(4) by auto
  next
    case True
    let ?c = "if net_bit address bt then 0x31 else (0x30 :: u8)"
    let ?lab = "if net_bit address bt then 1 else (0 :: u64)"
    have br: "bt div 8 < length address" using True "1.prems"(3) by (simp add: div_less_iff_less_mult mult.commute)
    have nw: "take bt ?A \<notin> set keys" using True b by simp
    have tk: "take (Suc bt) ?A = take bt ?A @ [?c]" using True "1.prems"(3) len by (simp add: take_Suc_conv_app_nth bin_chars_def)
    have longer: "Suc bt \<le> length k" if "k \<in> set keys" "prefix k (take (Suc bt) ?A)" for k
    proof (cases "k = take (Suc bt) ?A")
      case k: True
      show ?thesis unfolding k using True "1.prems"(3) len by simp
    next
      case False
      then have p: "prefix k (take bt ?A)" using that(2) unfolding tk by simp
      then have "k = take bt ?A" using prefix_full [OF p] "1.prems"(6) that(1) by fastforce
      then show ?thesis using nw that(1) by simp
    qed
    note IH = "1.IH"
    from edge_step [OF "1.prems"(7) "1.prems"(1,5), of "\<lambda>l. l = ?lab" ?c, unfolded "1.prems"(8), OF cidr_hit]
    show ?thesis unfolding "1.prems"(2) [symmetric]
    proof (elim disjE exE conjE, goal_cases)
      case (1 p u)
      have eq: "seek_loop ss address bt e v bitmap = seek_loop ss address (Suc bt) e u (block_start (node_degrees keys Q) u)"
        using True b br 1 by (simp add: seek_loop.simps [of ss address bt e v bitmap] net_bit_label Let_def)
      show ?case unfolding eq
        using IH [of b ?lab "Some p" p "(u, block_start (node_degrees keys Q) u)" u "block_start (node_degrees keys Q) u"]
          True b br 1 "1.prems" tk longer by (simp add: net_bit_label)
    next
      case 2
      have "seek_loop ss address bt e v bitmap = Some \<lparr>cur_node = -1, cur_bitmap = 0\<rparr>"
        using True b br 2 by (simp add: seek_loop.simps [of ss address bt e v bitmap] net_bit_label Let_def)
      moreover have "\<not> prefix k B" if k: "k \<in> set keys" "take e B = take e ?A" for k B
      proof
        assume p: "prefix k B"
        note ag = agree_take [OF p k(2)]
        show False
        proof (cases "length k \<le> bt")
          case le: True
          have "k = take (length k) ?A" using ag [of bt] True le by simp
          then have pk: "prefix k (take bt ?A)" using le by (metis take_is_prefix take_take min.absorb2 min.commute)
          then have "bt \<le> length k" using "1.prems"(6) k(1) by blast
          then have "k = take bt ?A" using \<open>k = take (length k) ?A\<close> le by simp
          then show False using nw k(1) by simp
        next
          case False
          then have "take (Suc bt) k = take bt ?A @ [?c]" using ag [of "Suc bt"] True tk by simp
          then have "prefix (take bt ?A @ [?c]) k" by (metis take_is_prefix)
          then show False using 2(2) k(1) by blast
        qed
      qed
      ultimately show ?case by (simp add: cursor_ok_def)
    qed
  qed
qed

lemma seekIP_ok:
  assumes r: "represents keys Q ss" and cs: "chars ss = ValidCidrChars"
    and cur: "cursor_ok keys Q (bin_chars address) s cur" and se: "s \<le> e" "e \<le> 8 * length address"
  shows "\<exists>cur'. seekIP ss address s e cur = Some cur' \<and> cursor_ok keys Q (bin_chars address) e cur'"
proof (cases "cur_node cur < 0")
  case True
  have ag: "take s B = take s (bin_chars address)" if "take e B = take e (bin_chars address)" for B
    using that se(1) by (metis min.absorb1 take_take)
  have "\<forall>k \<in> set keys. \<forall>B. take s B = take s (bin_chars address) \<longrightarrow> \<not> prefix k B"
    using cur True by (simp add: cursor_ok_def)
  then have "\<forall>k \<in> set keys. \<forall>B. take e B = take e (bin_chars address) \<longrightarrow> \<not> prefix k B" using ag by blast
  then have "cursor_ok keys Q (bin_chars address) e cur" using True by (simp add: cursor_ok_def)
  then show ?thesis using True by (simp add: seekIP_def)
next
  case False
  let ?v = "nat (cur_node cur)"
  have v: "?v < length Q" "cur_bitmap cur = block_start (node_degrees keys Q) ?v"
    using cur False by (simp_all add: cursor_ok_def)
  obtain b where b: "b \<le> s" "seg_ok keys (Q ! ?v) (take b (bin_chars address))" "b \<le> length (bin_chars address)"
      "b < s \<longrightarrow> take b (bin_chars address) \<in> set keys"
      "\<forall>k \<in> set keys. prefix k (take b (bin_chars address)) \<longrightarrow> b \<le> length k"
    using cur False by (auto simp: cursor_ok_def)
  show ?thesis
  proof (cases "b = s")
    case True
    then show ?thesis
      using seek_loop_ok [OF r cs v se(2), of s] b se(1) False by (simp add: seekIP_def)
  next
    case bs: False
    then have key: "take b (bin_chars address) \<in> set keys" using b by simp
    then obtain x where "getBit (leaves ss) ?v = Some x" "x \<noteq> 0" using represents_leaf_key [OF r v(1) b(2)] by auto
    then have "seek_loop ss address s e ?v (cur_bitmap cur) = Some \<lparr>cur_node = int ?v, cur_bitmap = cur_bitmap cur\<rparr>"
      by (simp add: seek_loop.simps [of ss])
    moreover have "cursor_ok keys Q (bin_chars address) e \<lparr>cur_node = int ?v, cur_bitmap = cur_bitmap cur\<rparr>"
      using v b key se(1) by (auto simp: cursor_ok_def intro!: exI [of _ b])
    ultimately show ?thesis using False by (simp add: seekIP_def)
  qed
qed

lemma cursor_ok_agree:
  assumes "cursor_ok keys Q A e cur" "take e A = take e B" "length A = length B"
  shows "cursor_ok keys Q B e cur"
proof -
  have "take b A = take b B" if "b \<le> e" for b using assms(2) that by (metis min.absorb1 take_take)
  then show ?thesis using assms unfolding cursor_ok_def by (auto split: if_splits)
qed

lemma cursor_ok_start: "represents keys Q ss \<Longrightarrow> cursor_ok keys Q A 0 \<lparr>cur_node = 0, cur_bitmap = 0\<rparr>"
proof -
  assume r: "represents keys Q ss"
  have Q: "Q = (0, length keys, 0) # concat (map (\<lambda>q. map fst (kids keys q)) Q)"
    using r by (simp add: represents_def Let_def)
  have ne: "0 < length Q" by (subst Q) simp
  have q0: "Q ! 0 = (0, length keys, 0)" by (subst Q) simp
  obtain w where w: "seg_ok keys (Q ! 0) w" using r ne nth_mem unfolding represents_def Let_def by meson
  then have "w = []" by (simp add: q0 seg_ok_def)
  then show ?thesis using ne w by (simp add: cursor_ok_def block_start_def)
qed

lemma cursor_ok_end:
  assumes r: "represents keys Q ss" and cur: "cursor_ok keys Q A (length A) cur"
  shows "(if 0 \<le> cur_node cur then map_option (\<lambda>b. b \<noteq> 0) (getBit (leaves ss) (nat (cur_node cur))) else Some False) =
    Some (\<exists>k \<in> set keys. prefix k A)"
proof (cases "cur_node cur < 0")
  case True
  then show ?thesis using cur by (auto simp: cursor_ok_def)
next
  case False
  let ?v = "nat (cur_node cur)"
  obtain b where v: "?v < length Q" and b: "b \<le> length A" "seg_ok keys (Q ! ?v) (take b A)"
      "b < length A \<longrightarrow> take b A \<in> set keys" "\<forall>k \<in> set keys. prefix k (take b A) \<longrightarrow> b \<le> length k"
    using cur False by (auto simp: cursor_ok_def)
  have "(\<exists>k \<in> set keys. prefix k A) \<longleftrightarrow> take b A \<in> set keys"
  proof
    assume "\<exists>k \<in> set keys. prefix k A"
    then obtain k where k: "k \<in> set keys" "prefix k A" by blast
    show "take b A \<in> set keys"
    proof (cases "b < length A")
      case False
      then have "take b A = A" by simp
      then have "k = A" using prefix_full [OF k(2)] b(4) k b(1) False by auto
      then show ?thesis using k(1) \<open>take b A = A\<close> by simp
    qed (use b in simp)
  next
    assume "take b A \<in> set keys"
    then show "\<exists>k \<in> set keys. prefix k A" using take_is_prefix by blast
  qed
  then show ?thesis using represents_leaf_key [OF r v b(2)] False by auto
qed

lemma length_mapped_prefix [simp]: "length mapped_prefix = 16"
  by (simp add: mapped_prefix_def)

lemma net_bit_mapped_prefix: "i < 96 \<Longrightarrow> net_bit mapped_prefix i = (80 \<le> i)"
proof -
  assume i: "i < 96"
  define q r where "q = i div 8" and "r = i mod 8"
  have q: "q < 12" and r: "r < 8" and eq: "i = q * 8 + r" using i by (auto simp: q_def r_def)
  have "bit (0xff :: u8) (7 - r)"
  proof -
    have "(0xff :: u8) = mask 8" by (simp add: mask_eq_exp_minus_1)
    then show ?thesis by (simp only: bit_mask_iff) simp
  qed
  moreover have "(80 \<le> i) = (q = 10 \<or> q = 11)" using q r eq by linarith
  ultimately show ?thesis using q by (auto simp: net_bit_def mapped_prefix_def q_def [symmetric] r_def [symmetric] nth_list_update)
qed

lemma mapped_chars:
  assumes "length a = 16" "addr_Is4In6 (addr_From16 a)"
  shows "take 96 (bin_chars mapped_prefix) = take 96 (bin_chars a)"
  using assms mapped_iff [OF assms(1)] net_bit_mapped_prefix
  by (intro nth_equalityI) (simp_all add: bin_chars_def)

section \<open>Building and querying\<close>

lemma vc_Size_width: "bits_Len (vc_Size cs) \<le> 64"
proof -
  have "vc_Size cs < 2 ^ 16" using unsigned_less [of "vc_n cs", where 'a = nat] by (simp add: vc_Size_def)
  then have "bits_Len (vc_Size cs) \<le> 16" by (simp add: bits_Len_le_iff)
  then show ?thesis by simp
qed

lemma sum_list_remdups_adj: "sum_list (map length (remdups_adj (xs :: bytes list))) \<le> sum_list (map length xs)"
  by (induction xs rule: remdups_adj.induct) auto

lemma sum_list_sort: "sum_list (map length (sort (xs :: bytes list))) = sum_list (map length xs)"
proof -
  have "mset (map length (sort xs)) = mset (map length xs)" by simp
  then show ?thesis by (metis sum_mset_sum_list)
qed

lemma sorted_remdups_adj_distinct: "sorted (xs :: bytes list) \<Longrightarrow> distinct (remdups_adj xs)"
  by (induction xs rule: remdups_adj.induct) auto

lemma sorted_keys:
  fixes keys0 :: "bytes list"
  defines "keys \<equiv> remdups_adj (sort keys0)"
  shows "sorted keys" "distinct keys" "set keys = set keys0" "sum_list (map length keys) \<le> sum_list (map length keys0)"
    "keys0 \<noteq> [] \<Longrightarrow> keys \<noteq> []"
proof -
  show "sorted keys" by (simp add: keys_def sorted_remdups_adj)
  show "distinct keys" by (simp add: keys_def sorted_remdups_adj_distinct)
  show "set keys = set keys0" by (simp add: keys_def)
  show "sum_list (map length keys) \<le> sum_list (map length keys0)"
    using sum_list_remdups_adj [of "sort keys0"] by (simp add: keys_def sum_list_sort)
  show "keys0 \<noteq> [] \<Longrightarrow> keys \<noteq> []"
    by (metis keys_def remdups_adj_Nil_iff set_empty set_sort)
qed

lemma find_invalid_None: "find_invalid cs keys = None \<longleftrightarrow> keys_valid cs keys"
  by (auto simp: find_invalid_def keys_valid_def find_None_iff)

lemma NewTrie_represents:
  assumes ne: "keys0 \<noteq> []" and cs: "chars_ok cs" "keys_valid cs keys0" and small: "sum_list (map length keys0) < 2 ^ 29"
  shows "\<exists>t Q. NewTrie keys0 cs = Inr (Some t) \<and> represents (remdups_adj (sort keys0)) Q t \<and> chars t = cs \<and>
    (cs = ValidCidrChars \<longrightarrow> cursor_ok (remdups_adj (sort keys0)) Q (bin_chars mapped_prefix) 96 (ipv4 t))"
proof -
  define keys where "keys = remdups_adj (sort keys0)"
  note K = sorted_keys [of keys0, folded keys_def]
  have kv: "keys_valid cs keys" using cs(2) K(3) by (simp add: keys_valid_def)
  obtain st where st: "bfs_loop keys cs 0 \<lparr>tb_queue = [(0, length keys, 0)], tb_leaves = [],
      tb_labels = NewCompactBitList (bits_Len (vc_Size cs)), tb_bitmap = [], tb_lIdx = 0\<rparr> = Some st"
    and L: "layout keys cs (length (tb_queue st)) st"
    using bfs_layout [OF K(1,2) cs(1) kv layout_start [OF K(5) [OF ne] cs(1) vc_Size_width]] by blast
  obtain rk se where ti: "trie_init (tb_bitmap st) = Some (rk, se)" and R: "\<And>cur. represents keys (tb_queue st)
    \<lparr>leaves = tb_leaves st, labelBitmap = tb_bitmap st, labels = tb_labels st, ranksBL = rk, selectsBL = se, chars = cs, ipv4 = cur\<rparr>"
    using layout_represents [OF L K(1,2) cs(1) kv] K(4) small by auto
  define ss where "ss = \<lparr>leaves = tb_leaves st, labelBitmap = tb_bitmap st, labels = tb_labels st, ranksBL = rk,
      selectsBL = se, chars = cs, ipv4 = \<lparr>cur_node = 0, cur_bitmap = 0\<rparr>\<rparr>"
  obtain cur where cur: "(if cs = ValidCidrChars then seekIP ss mapped_prefix 0 96 \<lparr>cur_node = 0, cur_bitmap = 0\<rparr>
      else Some (ipv4 ss)) = Some cur" and ok: "cs = ValidCidrChars \<longrightarrow> cursor_ok keys (tb_queue st) (bin_chars mapped_prefix) 96 cur"
  proof (cases "cs = ValidCidrChars")
    case True
    have r: "represents keys (tb_queue st) ss" using R by (simp add: ss_def)
    show ?thesis
      using that seekIP_ok [where address = mapped_prefix and e = 96, OF r _ cursor_ok_start [OF r]] True by (auto simp: ss_def)
  qed (use that in auto)
  have "NewTrie keys0 cs = Inr (Some (ss\<lparr>ipv4 := cur\<rparr>))"
    unfolding NewTrie_def Let_def keys_def [symmetric]
    using ne kv st ti cur unfolding find_invalid_None [symmetric]
    by (cases "cs = ValidCidrChars") (simp_all add: ss_def cbl_Tighten_def)
  moreover have "represents keys (tb_queue st) (ss\<lparr>ipv4 := cur\<rparr>)" using R by (simp add: ss_def)
  ultimately show ?thesis unfolding keys_def [symmetric] using ok by (auto simp: ss_def)
qed

lemma trie_of_keys:
  assumes "distinct cs" "cs \<noteq> []" "length cs \<le> 256"
    and "\<forall>k \<in> set keys. set k \<subseteq> set cs" and "sum_list (map length keys) < 2 ^ 29"
  shows "\<exists>t. NewTrie keys (NewValidChars cs) = Inr t \<and> (\<forall>word. HasPrefix t word = Some (\<exists>k \<in> set keys. prefix k word))"
proof (cases "keys = []")
  case True
  then show ?thesis by (simp add: NewTrie_def HasPrefix_def)
next
  case False
  have "keys_valid (NewValidChars cs) keys"
    using assms(4) NewValidChars_spec(3) [OF assms(1-3)] by (auto simp: keys_valid_def)
  from NewTrie_represents [OF False NewValidChars_ok [OF assms(1-3)] this assms(5)]
  obtain t Q where t: "NewTrie keys (NewValidChars cs) = Inr (Some t)" and r: "represents (remdups_adj (sort keys)) Q t" by blast
  have c: "cursor_ok (remdups_adj (sort keys)) Q [] 0 \<lparr>cur_node = 0, cur_bitmap = 0\<rparr>" by (rule cursor_ok_start [OF r])
  have "has_prefix_loop t 0 0 word = Some (\<exists>k \<in> set keys. prefix k word)" for word
    using has_prefix_loop_correct [OF r, of 0 "[]" word] c sorted_keys(3) [of keys] by (simp add: cursor_ok_def block_start_def)
  then show ?thesis using t by (simp add: HasPrefix_def)
qed

text \<open>
  Claim C22. For an alphabet without repetitions and keys over it (fewer than \<open>2 ^ 29\<close> characters in
  all), \<^verbatim>\<open>NewTrie\<close> succeeds without a panic, and \<^verbatim>\<open>HasPrefix\<close> of the result returns, for every word,
  whether some key is a prefix of the word.
\<close>

theorem HasPrefix_correct:
  assumes "distinct cs" "cs \<noteq> []" "length cs \<le> 256"
    and "\<forall>k \<in> set keys. set k \<subseteq> set cs" and "sum_list (map length keys) < 2 ^ 29"
  shows "\<exists>t. NewTrie keys (NewValidChars cs) = Inr t \<and> (\<forall>word. HasPrefix t word = Some (\<exists>k \<in> set keys. prefix k word))"
  by (rule trie_of_keys [OF assms])

theorem HasPrefix_correct_witness:
  "\<exists>t. NewTrie [[0x61, 0x62], [0x61]] (NewValidChars [0x61, 0x62]) = Inr t \<and> HasPrefix t [0x61, 0x61] = Some True \<and>
     HasPrefix t [0x62] = Some False"
proof -
  obtain t where "NewTrie [[0x61, 0x62], [0x61]] (NewValidChars [0x61, 0x62]) = Inr t"
    "\<forall>word. HasPrefix t word = Some (\<exists>k \<in> set [[0x61, 0x62], [0x61]]. prefix k word)"
    using HasPrefix_correct [of "[0x61, 0x62]" "[[0x61, 0x62], [0x61]]"] by auto
  then show ?thesis by simp
qed

text \<open>
  Claim C25. \<^verbatim>\<open>NewTrie\<close> reports an error, and names an offending character, exactly when some key has a
  character outside the alphabet.
\<close>

theorem NewTrie_rejects:
  assumes "distinct cs" "cs \<noteq> []" "length cs \<le> 256" "k \<in> set keys" "\<not> set k \<subseteq> set cs"
  shows "\<exists>c k'. NewTrie keys (NewValidChars cs) = Inl (CharOutOfRange c) \<and> k' \<in> set keys \<and> c \<in> set k' \<and> c \<notin> set cs"
proof -
  have valid: "IsValidChar (NewValidChars cs) c \<longleftrightarrow> c \<in> set cs" for c using NewValidChars_spec(3) [OF assms(1-3)] .
  have "\<not> keys_valid (NewValidChars cs) (remdups_adj (sort keys))"
    using assms(4,5) valid by (auto simp: keys_valid_def)
  then obtain c where c: "find_invalid (NewValidChars cs) (remdups_adj (sort keys)) = Some c"
    using find_invalid_None by (metis not_None_eq)
  then have "c \<in> set (concat (remdups_adj (sort keys)))" "c \<notin> set cs"
    using valid unfolding find_invalid_def find_Some_iff by (metis nth_mem)+
  then obtain k' where "k' \<in> set keys" "c \<in> set k'" by auto
  moreover have "NewTrie keys (NewValidChars cs) = Inl (CharOutOfRange c)"
    using assms(4) c by (auto simp: NewTrie_def Let_def)
  ultimately show ?thesis using \<open>c \<notin> set cs\<close> by blast
qed

theorem NewTrie_rejects_witness:
  "\<exists>c k'. NewTrie [[0x61], [0x7a]] (NewValidChars [0x61, 0x62]) = Inl (CharOutOfRange c) \<and>
     k' \<in> set [[0x61], [0x7a]] \<and> c \<in> set k' \<and> c \<notin> set [0x61, 0x62]"
  by (rule NewTrie_rejects [of _ "[0x7a]"]) simp_all

section \<open>Address prefixes\<close>

definition pfx_len :: "ip_prefix \<Rightarrow> nat" where
  "pfx_len p = nat (pfx_bits p + (if addr_Is4 (pfx_addr p) then 96 else 0))"

definition pfx_ok :: "ip_prefix \<Rightarrow> bool" where
  "pfx_ok p \<longleftrightarrow> addr_IsValid (pfx_addr p) \<and> 0 \<le> pfx_bits p \<and> pfx_bits p \<le> addr_BitLen (pfx_addr p)"

definition covers :: "ip_prefix \<Rightarrow> bytes \<Rightarrow> bool" where
  "covers p a \<longleftrightarrow> (\<forall>i < pfx_len p. net_bit (addr_As16 (pfx_addr p)) i = net_bit a i)"

lemma pfx_len_le: "pfx_ok p \<Longrightarrow> pfx_len p \<le> 128"
  by (cases "pfx_addr p") (auto simp: pfx_ok_def pfx_len_def)

lemma bin128_loop_take: "0 < n \<Longrightarrow> bin128_loop bs n = map (\<lambda>b. if b then 0x31 else 0x30) (take (nat n) bs)"
proof (induction bs arbitrary: n)
  case Nil
  then show ?case by simp
next
  case (Cons b bs)
  have "nat n = Suc (nat (n - 1))" using Cons.prems by simp
  then show ?case using Cons.IH [of "n - 1"] Cons.prems by simp
qed

lemma bytewise_bits:
  "concat (map (\<lambda>i. map (f i) (rev [0..<8])) [0..<n]) = map (\<lambda>p. f (p div 8) (7 - p mod 8)) [0..<8 * n]"
proof (induction n)
  case 0
  show ?case by simp
next
  case (Suc n)
  have "map (f n) (rev [0..<8]) = map (\<lambda>p. f (p div 8) (7 - p mod 8)) [8 * n..<8 * n + 8]"
    by (rule nth_equalityI) (auto simp: rev_nth)
  moreover have "[0..<8 * Suc n] = [0..<8 * n] @ [8 * n..<8 * n + 8]"
    using upt_add_eq_append [of 0 "8 * n" 8] by (simp add: add.commute)
  ultimately show ?case using Suc by simp
qed

lemma ip_bits_net: "ip_bits ip = map (net_bit ip) [0..<128]"
proof -
  have b: "(drop_bit j (x :: u8) AND 1 = 1) = bit x j" for x j
    by (simp add: bit_iff_odd_drop_bit odd_iff_mod_2_eq_one and_one_eq)
  have n: "net_bit ip = (\<lambda>p. bit (ip ! (p div 8)) (7 - p mod 8))" by (simp add: fun_eq_iff net_bit_def)
  show ?thesis unfolding ip_bits_def b n using bytewise_bits [of "\<lambda>i. bit (ip ! i)" 16] by simp
qed

lemma Prefix2bin128_chars:
  assumes "pfx_ok p"
  shows "Prefix2bin128 p = Some (take (pfx_len p) (bin_chars (addr_As16 (pfx_addr p))))"
proof -
  let ?n = "if addr_Is4 (pfx_addr p) then pfx_bits p + 96 else pfx_bits p"
  have n: "0 \<le> ?n" "pfx_len p = nat ?n" using assms by (auto simp: pfx_ok_def pfx_len_def)
  have "pfx_bits p \<noteq> -1" using assms by (simp add: pfx_ok_def)
  then show ?thesis
    using n bin128_loop_take [of ?n] by (auto simp: Prefix2bin128_def Let_def ip_bits_net bin_chars_def take_map)
qed

lemma prefix_take_iff: "n \<le> length x \<Longrightarrow> length x = length y \<Longrightarrow> prefix (take n x) y \<longleftrightarrow> (\<forall>i < n. x ! i = y ! i)"
proof -
  assume a: "n \<le> length x" "length x = length y"
  have "prefix (take n x) y \<longleftrightarrow> take n x = take n y"
    by (metis a length_take min.absorb2 prefix_def append_eq_conv_conj take_is_prefix)
  then show ?thesis using a by (auto simp: list_eq_iff_nth_eq)
qed

lemma bin_chars_nth_eq:
  "length a = length b \<Longrightarrow> i < 8 * length a \<Longrightarrow> (bin_chars a ! i = bin_chars b ! i) = (net_bit a i = net_bit b i)"
  by (simp add: bin_chars_def)

lemma length_bin_chars [simp]: "length (bin_chars a) = 8 * length a"
  by (simp add: bin_chars_def)

lemma pfx_key_covers:
  assumes "pfx_ok p" "length a = 16"
  shows "prefix (the (Prefix2bin128 p)) (bin_chars a) \<longleftrightarrow> covers p a"
  using prefix_take_iff [of "pfx_len p" "bin_chars (addr_As16 (pfx_addr p))" "bin_chars a"] pfx_len_le [OF assms(1)] assms(2)
    bin_chars_nth_eq [of "addr_As16 (pfx_addr p)" a]
  by (auto simp: Prefix2bin128_chars [OF assms(1)] covers_def)

lemma pfx_keys_valid:
  assumes "\<forall>p \<in> set cidrs. pfx_ok p"
  shows "keys_valid ValidCidrChars (map (the \<circ> Prefix2bin128) cidrs)"
  using assms by (auto simp: keys_valid_def Prefix2bin128_chars cidr_chars bin_chars_def dest!: in_set_takeD)

lemma pfx_keys_small:
  assumes "\<forall>p \<in> set cidrs. pfx_ok p"
  shows "sum_list (map length (map (the \<circ> Prefix2bin128) cidrs)) \<le> 128 * length cidrs"
  using assms pfx_len_le by (induction cidrs) (auto simp: Prefix2bin128_chars min_def intro!: add_mono)

lemma trie_of_prefixes:
  assumes "\<forall>p \<in> set cidrs. pfx_ok p" "length cidrs < 2 ^ 22"
  shows "\<exists>t. NewTrieFromPrefixes cidrs = Inr t \<and>
    (\<forall>a. length a = 16 \<longrightarrow> HasPrefixIP t a = Some (\<exists>p \<in> set cidrs. covers p a))"
proof (cases "cidrs = []")
  case True
  then show ?thesis by (simp add: NewTrieFromPrefixes_def NewTrie_def HasPrefixIP_def)
next
  case False
  let ?keys = "map (the \<circ> Prefix2bin128) cidrs"
  let ?K = "remdups_adj (sort ?keys)"
  have "sum_list (map length ?keys) < 2 ^ 29" using pfx_keys_small [OF assms(1)] assms(2) by simp
  then obtain t Q where t: "NewTrie ?keys ValidCidrChars = Inr (Some t)" and r: "represents ?K Q t"
    and cs: "chars t = ValidCidrChars" and c4: "cursor_ok ?K Q (bin_chars mapped_prefix) 96 (ipv4 t)"
    using NewTrie_represents [OF _ cidr_chars(1) pfx_keys_valid [OF assms(1)]] False by auto
  have "HasPrefixIP (Some t) a = Some (\<exists>p \<in> set cidrs. covers p a)" if a: "length a = 16" for a
  proof -
    define c s where "c = (if addr_Is4In6 (addr_From16 a) then ipv4 t else \<lparr>cur_node = 0, cur_bitmap = 0\<rparr>)"
      and "s = (if addr_Is4In6 (addr_From16 a) then 96 else 0 :: nat)"
    have s: "s \<le> 128" by (simp add: s_def)
    have c: "cursor_ok ?K Q (bin_chars a) s c"
      using cursor_ok_agree [OF c4 mapped_chars [OF a]] cursor_ok_start [OF r] a by (simp add: c_def s_def)
    obtain cur where cur: "seekIP t a s 128 c = Some cur" "cursor_ok ?K Q (bin_chars a) 128 cur"
      using seekIP_ok [OF r cs c s] a by auto
    have "HasPrefixIP (Some t) a = (if 0 \<le> cur_node cur then map_option (\<lambda>b. b \<noteq> 0) (getBit (leaves t) (nat (cur_node cur))) else Some False)"
      using cs cur(1) by (auto simp: HasPrefixIP_def c_def s_def)
    also have "\<dots> = Some (\<exists>k \<in> set ?K. prefix k (bin_chars a))" using cursor_ok_end [OF r] cur(2) a by simp
    also have "(\<exists>k \<in> set ?K. prefix k (bin_chars a)) = (\<exists>p \<in> set cidrs. covers p a)"
      using pfx_key_covers [OF _ a] assms(1) by auto
    finally show ?thesis .
  qed
  moreover have "NewTrieFromPrefixes cidrs = Inr (Some t)"
    using t assms(1) by (auto simp: NewTrieFromPrefixes_def Prefix2bin128_chars)
  ultimately show ?thesis by blast
qed

text \<open>
  Claim C1. For valid address prefixes (fewer than \<open>2 ^ 22\<close> of them), \<^verbatim>\<open>NewTrieFromPrefixes\<close> succeeds,
  and \<^verbatim>\<open>HasPrefixIP\<close> of a 16-byte address returns whether one of the prefixes covers it, also on the
  shortcut for IPv4-mapped addresses that starts at the cursor stored at bit 96.
\<close>

theorem HasPrefixIP_correct:
  assumes "\<forall>p \<in> set cidrs. pfx_ok p" "length cidrs < 2 ^ 22"
  shows "\<exists>t. NewTrieFromPrefixes cidrs = Inr t \<and>
    (\<forall>a. length a = 16 \<longrightarrow> HasPrefixIP t a = Some (\<exists>p \<in> set cidrs. covers p a))"
  by (rule trie_of_prefixes [OF assms])

text \<open>The prefixes 10.0.0.0/8 and 2001:db8::/32.\<close>

definition sample_cidrs :: "ip_prefix list" where
  "sample_cidrs = [\<lparr>pfx_addr = Addr4 0x0a000000, pfx_bits = 8\<rparr>, \<lparr>pfx_addr = Addr6 (push_bit 96 0x20010db8) '''', pfx_bits = 32\<rparr>]"

theorem HasPrefixIP_correct_witness:
  "\<exists>t. NewTrieFromPrefixes sample_cidrs = Inr t \<and> HasPrefixIP t (addr_As16 (Addr4 0x0a000000)) = Some True \<and>
     HasPrefixIP t (addr_As16 (Addr4 0x0b000000)) = Some False"
proof -
  have "\<forall>p \<in> set sample_cidrs. pfx_ok p" "length sample_cidrs < 2 ^ 22" by (simp_all add: sample_cidrs_def pfx_ok_def)
  from HasPrefixIP_correct [OF this] obtain t where t: "NewTrieFromPrefixes sample_cidrs = Inr t"
    "\<forall>a. length a = 16 \<longrightarrow> HasPrefixIP t a = Some (\<exists>p \<in> set sample_cidrs. covers p a)" by blast
  have "\<exists>p \<in> set sample_cidrs. covers p (addr_As16 (Addr4 0x0a000000))" by (simp add: sample_cidrs_def covers_def)
  moreover have "net_bit (addr_As16 (Addr4 0x0a000000)) 103 \<noteq> net_bit (addr_As16 (Addr4 0x0b000000)) 103"
    "net_bit (addr_As16 (Addr6 (push_bit 96 0x20010db8) '''')) 2 \<noteq> net_bit (addr_As16 (Addr4 0x0b000000)) 2"
    by code_simp+
  then have "\<not> (\<exists>p \<in> set sample_cidrs. covers p (addr_As16 (Addr4 0x0b000000)))"
    by (force simp: sample_cidrs_def covers_def pfx_len_def simp del: addr_As16.simps)
  ultimately show ?thesis using t by auto
qed

end
