(* ===== verification/Routing_Emit.thy ===== *)
theory Routing_Emit
  imports Routing_Build Routing_Semantics Trie_Correct
begin

text \<open>
  What the builder emits. Every predicate function of a rule becomes one clause: logical-OR instructions
  and a tail that ends the function or the rule. The instructions of a function hold exactly when one of
  its values does, whatever the interning of domain and prefix sets shares, because the tables only grow.
\<close>

section \<open>The meaning of predicate values\<close>

text \<open>
  One value of a function on a packet, from its text. Client sets start empty and interfaces unbound;
  the truth of a set of domain patterns is the parameter \<open>D\<close>.
\<close>

definition value_prefix :: "string \<Rightarrow> ip_prefix option" where
  "value_prefix v = (case ParsePrefix v of Some p \<Rightarrow> Some p | None \<Rightarrow> map_option (\<lambda>a. PrefixFrom a (addr_BitLen a)) (ParseAddr v))"

definition l4_bit :: "string \<Rightarrow> u8" where
  "l4_bit v = (if v = ''tcp'' then L4ProtoType_TCP else if v = ''udp'' then L4ProtoType_UDP else if v = ''utp'' then L4ProtoType_uTP else 0)"

definition ipversion_bit :: "string \<Rightarrow> u8" where
  "ipversion_bit v = (if v = ''4'' then IpVersion_4 else if v = ''6'' then IpVersion_6 else 0)"

definition port_in :: "string \<Rightarrow> u16 \<Rightarrow> bool" where
  "port_in v port = (case parsePortRange v of Inr (s, e) \<Rightarrow> s \<le> port \<and> port \<le> e | Inl _ \<Rightarrow> False)"

text \<open>Whether one value of a function holds of a packet. A compiled \<^verbatim>\<open>client\<close> set is empty and the index of an
  \<^verbatim>\<open>interface\<close> is zero until the running program fills them in, so that these functions do not hold here.\<close>

definition value_hit :: "routing_input \<Rightarrow> string \<Rightarrow> string \<Rightarrow> bool" where
  "value_hit p name v =
     (if name = ''dip'' then (case value_prefix v of Some q \<Rightarrow> covers q (addr_As16 (ap_addr (ri_dst p))) | None \<Rightarrow> False)
      else if name = ''sip'' then (case value_prefix v of Some q \<Rightarrow> covers q (addr_As16 (ap_addr (ri_src p))) | None \<Rightarrow> False)
      else if name = ''dport'' then port_in v (ap_port (ri_dst p))
      else if name = ''sport'' then port_in v (ap_port (ri_src p))
      else if name = ''l4proto'' then ri_l4proto p AND l4_bit v \<noteq> 0
      else if name = ''mac'' then parseMac v = Inr (ri_mac p)
      else if name = ''pname'' then ri_processName p ! 0 \<noteq> 0 \<and> toProcessName v = ri_processName p
      else if name = ''dscp'' then parse_uint8 v = Inr (ri_dscp p)
      else if name = ''ipversion'' then IpVersionFromAddr (ap_addr (ri_dst p)) AND ipversion_bit v \<noteq> 0
      else False)"

definition group_value :: "(string \<Rightarrow> string list \<Rightarrow> predicate_result) \<Rightarrow> routing_input \<Rightarrow> string \<Rightarrow> string \<Rightarrow> string list \<Rightarrow> predicate_result" where
  "group_value D p name key vals =
     (if name = ''domain'' then D key (compact_strings vals) else hit_result (list_ex (value_hit p name) vals))"

definition func_value :: "(string \<Rightarrow> string list \<Rightarrow> predicate_result) \<Rightarrow> routing_input \<Rightarrow> func \<Rightarrow> predicate_result" where
  "func_value D p f =
     (let v = foldr max (map (\<lambda>(key, vals). group_value D p (fn_Name f) key vals) (groupParamValuesByKey (fn_Params f))) PMiss
      in if fn_Not f then pr_neg v else v)"

section \<open>The meaning of instructions over the tables of a builder\<close>

definition ms_value_in :: "(string \<Rightarrow> string list \<Rightarrow> predicate_result) \<Rightarrow> builder \<Rightarrow> routing_input \<Rightarrow> match_set \<Rightarrow> predicate_result" where
  "ms_value_in D b p ms =
     (case ms_type ms of
        MT_DomainSet \<Rightarrow> (let s = b_domainSets b ! value_index (ms_value ms) in D (ds_Key s) (ds_Domains s))
      | MT_Port \<Rightarrow> hit_result (in_port_range ms (ap_port (ri_dst p)))
      | MT_SourcePort \<Rightarrow> hit_result (in_port_range ms (ap_port (ri_src p)))
      | MT_IpVersion \<Rightarrow> hit_result (IpVersionFromAddr (ap_addr (ri_dst p)) AND ms_value ms ! 0 \<noteq> 0)
      | MT_L4Proto \<Rightarrow> hit_result (ri_l4proto p AND ms_value ms ! 0 \<noteq> 0)
      | MT_ProcessName \<Rightarrow> hit_result (ri_processName p ! 0 \<noteq> 0 \<and> ms_value ms = ri_processName p)
      | MT_IfIndex \<Rightarrow> (let i = value_index (ms_value ms) in hit_result (i \<noteq> 0 \<and> (ri_ifindex p = i \<or> ri_physinif p = i)))
      | MT_Dscp \<Rightarrow> hit_result (ri_dscp p = ms_value ms ! 0)
      | MT_Fallback \<Rightarrow> PMatch
      | MT_HTTPClient \<Rightarrow> PMiss
      | MT_Other _ \<Rightarrow> PMiss
      | k \<Rightarrow> hit_result (\<exists>q \<in> set (b_lpmTries b ! value_index (ms_value ms)). covers q (lpmKey p k)))"

text \<open>An instruction whose table entries exist.\<close>

definition ms_in :: "builder \<Rightarrow> match_set \<Rightarrow> bool" where
  "ms_in b ms =
     (case ms_type ms of
        MT_DomainSet \<Rightarrow> value_index (ms_value ms) < length (b_domainSets b)
      | MT_IpSet \<Rightarrow> value_index (ms_value ms) < length (b_lpmTries b)
      | MT_SourceIpSet \<Rightarrow> value_index (ms_value ms) < length (b_lpmTries b)
      | MT_Mac \<Rightarrow> value_index (ms_value ms) < length (b_lpmTries b)
      | MT_HTTPClient \<Rightarrow> False
      | MT_Other _ \<Rightarrow> False
      | _ \<Rightarrow> True)"

definition extends :: "builder \<Rightarrow> builder \<Rightarrow> bool" where
  "extends b b' \<longleftrightarrow> prefix (b_lpmTries b) (b_lpmTries b') \<and> prefix (b_domainSets b) (b_domainSets b') \<and>
     b_outboundName2Id b' = b_outboundName2Id b"

lemma extends_refl [simp]: "extends b b"
  by (simp add: extends_def)

lemma extends_trans: "extends a b \<Longrightarrow> extends b c \<Longrightarrow> extends a c"
  by (auto simp: extends_def intro: prefix_order.trans)

lemma prefix_nth: "prefix xs ys \<Longrightarrow> i < length xs \<Longrightarrow> ys ! i = xs ! i \<and> i < length ys"
  by (auto simp: prefix_def nth_append)

lemma ms_in_extends: "ms_in b ms \<Longrightarrow> extends b b' \<Longrightarrow> ms_in b' ms"
  by (auto simp: ms_in_def extends_def dest: prefix_nth prefix_length_le split: match_type.splits)

lemma ms_value_extends: "ms_in b ms \<Longrightarrow> extends b b' \<Longrightarrow> ms_value_in D b' p ms = ms_value_in D b p ms"
proof -
  assume a: "ms_in b ms" "extends b b'"
  have "b_lpmTries b' ! i = b_lpmTries b ! i" if "i < length (b_lpmTries b)" for i
    using a(2) prefix_nth that by (auto simp: extends_def)
  moreover have "b_domainSets b' ! i = b_domainSets b ! i" if "i < length (b_domainSets b)" for i
    using a(2) prefix_nth that by (auto simp: extends_def)
  ultimately show ?thesis
    using a(1) unfolding ms_in_def ms_value_in_def Let_def by (cases "ms_type ms") simp_all
qed

lemma ms_value_in_cong:
  "ms_type x = ms_type y \<Longrightarrow> ms_value x = ms_value y \<Longrightarrow> ms_value_in D b p x = ms_value_in D b p y"
  unfolding ms_value_in_def in_port_range_def by (simp only:)

lemma ms_in_cong: "ms_type x = ms_type y \<Longrightarrow> ms_value x = ms_value y \<Longrightarrow> ms_in b x = ms_in b y"
  unfolding ms_in_def by (simp only:)

section \<open>Builder invariant\<close>

text \<open>The slack is one between the interning of a prefix set and the instruction that refers to it.\<close>

definition builder_inv :: "nat \<Rightarrow> builder \<Rightarrow> bool" where
  "builder_inv slack b \<longleftrightarrow>
     (\<forall>sig. \<forall>i \<in> set (b_staticLpmIDs b sig). i < length (b_lpmTries b)) \<and>
     (\<forall>sig. \<forall>i \<in> set (b_domainSetIDs b sig). i < length (b_domainSets b)) \<and>
     (\<forall>name slot. b_clientSetSlots b name = Some slot \<longrightarrow> slot < length (b_lpmTries b) \<and> b_lpmTries b ! slot = []) \<and>
     (\<forall>ps \<in> set (b_lpmTries b). \<forall>q \<in> set ps. pfx_wf q) \<and>
     length (b_lpmTries b) \<le> length (b_rules b) + slack \<and> length (b_domainSets b) \<le> MaxMatchSetLen"

abbreviation builder_ok :: "builder \<Rightarrow> bool" where "builder_ok \<equiv> builder_inv 0"

lemma builder_ok_empty: "builder_ok (empty_builder outs)"
  by (simp add: builder_inv_def empty_builder_def)

lemma value_index_index_value: "n < u32_mod \<Longrightarrow> value_index (index_value n) = n"
  by (simp add: value_index_def index_value_def codec_simps unat_of_nat)

text \<open>Masking a prefix does not change what it covers.\<close>

lemma net_bit_Masked:
  assumes "pfx_wf q" "i < pfx_len q"
  shows "net_bit (addr_As16 (pfx_addr (pfx_Masked q))) i = net_bit (addr_As16 (pfx_addr q)) i"
proof (cases "pfx_addr q")
  case AddrInvalid
  then show ?thesis using assms by (simp add: pfx_wf_def)
next
  case (Addr4 a)
  define n where "n = nat (pfx_bits q)"
  have n: "pfx_bits q = int n" "n \<le> 32" using assms(1) Addr4 by (auto simp: pfx_wf_def n_def)
  have i: "i < n + 96" "i < 128" using assms(2) n Addr4 by (auto simp: pfx_len_def)
  have "bit (push_bit (32 - n) (drop_bit (32 - n) a)) (127 - i) = bit a (127 - i)" if "127 - i < 32"
    using that i n by (auto simp: bit_simps)
  moreover have "k < 32" if "bit a k" for k using bit_imp_le_length [OF that] by simp
  ultimately show ?thesis using i n Addr4 by (auto simp: pfx_Masked_def net_bit_be128 bit_simps)
next
  case (Addr6 a z)
  define n where "n = nat (pfx_bits q)"
  have n: "pfx_bits q = int n" "n \<le> 128" using assms(1) Addr6 by (auto simp: pfx_wf_def n_def)
  have i: "i < n" "i < 128" using assms(2) n Addr6 by (auto simp: pfx_len_def)
  then show ?thesis using n Addr6 by (auto simp: pfx_Masked_def net_bit_be128 bit_simps)
qed

lemma covers_Masked: "pfx_wf q \<Longrightarrow> covers (pfx_Masked q) a = covers q a"
proof -
  assume w: "pfx_wf q"
  have "pfx_len (pfx_Masked q) = pfx_len q"
    using w by (cases "pfx_addr q") (auto simp: pfx_len_def pfx_Masked_def pfx_wf_def)
  then show ?thesis using net_bit_Masked [OF w] by (simp add: covers_def)
qed

lemma set_canonical: "set (canonical_prefixes ps) = pfx_Masked ` set ps"
  by (simp add: canonical_prefixes_def)

lemma canonical_covers:
  assumes "\<forall>q \<in> set ps. pfx_wf q"
  shows "(\<exists>q \<in> set (canonical_prefixes ps). covers q a) \<longleftrightarrow> (\<exists>q \<in> set ps. covers q a)"
  using assms covers_Masked by (auto simp: set_canonical)

lemma canonical_wf: "\<forall>q \<in> set ps. pfx_wf q \<Longrightarrow> \<forall>q \<in> set (canonical_prefixes ps). pfx_wf q"
  by (auto simp: set_canonical intro: Masked_wf)

section \<open>Single instructions\<close>

text \<open>The tail of a clause: the match set that \<^verbatim>\<open>matchSet\<close> gives for the outbound, with some value.\<close>

definition tail_like :: "builder \<Rightarrow> outbound \<Rightarrow> bool \<Rightarrow> match_set \<Rightarrow> bool" where
  "tail_like b ob nt ms \<longleftrightarrow> matchSet b (ms_type ms) nt ob = Inr (ms\<lparr>ms_value := zero_value\<rparr>)"

definition emitted :: "(string \<Rightarrow> string list \<Rightarrow> predicate_result) \<Rightarrow> routing_input \<Rightarrow> bool \<Rightarrow> outbound \<Rightarrow> builder \<Rightarrow> builder \<Rightarrow> predicate_result \<Rightarrow> bool" where
  "emitted D p nt ob b b' v \<longleftrightarrow>
     (\<exists>sets. b_rules b' = b_rules b @ sets \<and> sets \<noteq> [] \<and> (\<forall>ms \<in> set (butlast sets). ms_action ms = MA_Or) \<and>
        tail_like b ob nt (last sets) \<and> extends b b' \<and> builder_ok b' \<and> (\<forall>ms \<in> set sets. ms_in b' ms) \<and>
        foldr max (map (ms_value_in D b' p) sets) PMiss = v)"

lemma push_rule_fields [simp]:
  "b_rules (push_rule f ms b) = b_rules b @ [ms]" "b_lpmTries (push_rule f ms b) = b_lpmTries b"
  "b_domainSets (push_rule f ms b) = b_domainSets b" "b_outboundName2Id (push_rule f ms b) = b_outboundName2Id b"
  "b_staticLpmIDs (push_rule f ms b) = b_staticLpmIDs b" "b_domainSetIDs (push_rule f ms b) = b_domainSetIDs b"
  "b_clientSetSlots (push_rule f ms b) = b_clientSetSlots b"
  by (simp_all add: push_rule_def rememberMatch_def Let_def)

lemma matchSet_type: "matchSet b kind nt ob = Inr ms \<Longrightarrow> ms_type ms = kind \<and> ms_value ms = zero_value"
  by (auto simp: matchSet_def Let_def match_set0_def split: if_splits option.splits)

lemma matchSet_cong: "b_outboundName2Id b = b_outboundName2Id b' \<Longrightarrow> matchSet b kind nt ob = matchSet b' kind nt ob"
  unfolding matchSet_def by (simp only:)

lemma ms_value_back: "ms_value ms = v \<Longrightarrow> ms\<lparr>ms_value := w, ms_value := v\<rparr> = ms"
  by simp

lemma addMatch_emitted:
  assumes "addMatch f kind val ob b1 = Inr b'" "builder_inv 1 b1" "extends b b1" "b_rules b1 = b_rules b"
    and "ms_in b1 ((match_set0 kind)\<lparr>ms_value := val\<rparr>)"
  shows "emitted D p (fn_Not f) ob b b' (ms_value_in D b1 p ((match_set0 kind)\<lparr>ms_value := val\<rparr>))"
proof -
  obtain ms where ms: "matchSet b1 kind (fn_Not f) ob = Inr ms" and b': "b' = push_rule f (ms\<lparr>ms_value := val\<rparr>) b1"
    using assms(1) by (auto simp: addMatch_def split: sum.splits)
  let ?ms = "ms\<lparr>ms_value := val\<rparr>"
  have t: "ms_type ms = kind" "ms_value ms = zero_value" using matchSet_type [OF ms] by simp_all
  have ext: "extends b1 b'" by (simp add: b' extends_def)
  have "matchSet b kind (fn_Not f) ob = Inr ms" using ms matchSet_cong [of b1 b] assms(3) by (simp add: extends_def)
  then have "tail_like b ob (fn_Not f) ?ms" using t ms_value_back [OF t(2)] by (simp add: tail_like_def)
  moreover have "ms_in b1 ?ms" using assms(5) ms_in_cong [of ?ms "(match_set0 kind)\<lparr>ms_value := val\<rparr>" b1] t by (simp add: match_set0_def)
  moreover have "ms_value_in D b1 p ?ms = ms_value_in D b1 p ((match_set0 kind)\<lparr>ms_value := val\<rparr>)"
    by (rule ms_value_in_cong) (simp_all add: t match_set0_def)
  moreover have "builder_ok b'" using assms(2) by (simp add: builder_inv_def b')
  ultimately show ?thesis
    using ms_in_extends [OF _ ext] ms_value_extends [OF _ ext] extends_trans [OF assms(3) ext] assms(4)
    by (auto simp: emitted_def b' intro!: exI [of _ "[?ms]"])
qed

section \<open>Values one by one\<close>

definition match_list :: "func \<Rightarrow> match_type \<Rightarrow> match_set \<Rightarrow> ('v \<Rightarrow> bytes) \<Rightarrow> 'v list \<Rightarrow> match_set list" where
  "match_list f kind tail encode vals =
     map (\<lambda>v. (match_set0 kind)\<lparr>ms_action := MA_Or, ms_flags := routingMatchFlags (fn_Not f) False False, ms_value := encode v\<rparr>) (butlast vals) @
     [tail\<lparr>ms_value := encode (last vals)\<rparr>]"

lemma add_matches_loop_fields:
  "vals \<noteq> [] \<Longrightarrow> b_rules (add_matches_loop f kind tail encode vals b) = b_rules b @ match_list f kind tail encode vals"
  "b_lpmTries (add_matches_loop f kind tail encode vals b) = b_lpmTries b"
  "b_domainSets (add_matches_loop f kind tail encode vals b) = b_domainSets b"
  "b_outboundName2Id (add_matches_loop f kind tail encode vals b) = b_outboundName2Id b"
  "b_staticLpmIDs (add_matches_loop f kind tail encode vals b) = b_staticLpmIDs b"
  "b_domainSetIDs (add_matches_loop f kind tail encode vals b) = b_domainSetIDs b"
  "b_clientSetSlots (add_matches_loop f kind tail encode vals b) = b_clientSetSlots b"
  by (induction vals arbitrary: b) (auto simp: match_list_def Let_def)

definition plain_type :: "match_type \<Rightarrow> bool" where
  "plain_type k \<longleftrightarrow> k \<in> {MT_Port, MT_SourcePort, MT_IpVersion, MT_L4Proto, MT_ProcessName, MT_IfIndex, MT_Dscp, MT_Fallback}"

lemma foldr_max_hits: "foldr max (map (\<lambda>x. hit_result (P x)) xs) PMiss = hit_result (list_ex P xs)"
  by (induction xs) (auto simp: hit_result_def)

lemma addMatches_emitted:
  assumes "addMatches f kind vals ob encode b = Inr b'" "builder_ok b" "vals \<noteq> []" "plain_type kind"
    and "\<And>v. ms_value_in D b p ((match_set0 kind)\<lparr>ms_value := encode v\<rparr>) = hit_result (P v)"
  shows "emitted D p (fn_Not f) ob b b' (hit_result (list_ex P vals))"
proof -
  obtain ms where ms: "matchSet b kind (fn_Not f) ob = Inr ms" and b': "b' = add_matches_loop f kind ms encode vals b"
    using assms(1) by (auto simp: addMatches_def split: sum.splits)
  have t: "ms_type ms = kind" "ms_value ms = zero_value" using matchSet_type [OF ms] by simp_all
  have rules: "b_rules b' = b_rules b @ match_list f kind ms encode vals" using assms(3) by (simp add: b' add_matches_loop_fields)
  have ext: "extends b b'" by (simp add: extends_def b' add_matches_loop_fields)
  have all: "ms_type x = kind" if "x \<in> set (match_list f kind ms encode vals)" for x
    using that by (auto simp: match_list_def match_set0_def t)
  have in_b: "ms_in b x" if "x \<in> set (match_list f kind ms encode vals)" for x
    using all [OF that] assms(4) by (auto simp: ms_in_def plain_type_def)
  have "map (ms_value_in D b p) (match_list f kind ms encode vals) = map (\<lambda>v. hit_result (P v)) (butlast vals @ [last vals])"
  proof -
    have "ms_value_in D b p x = hit_result (P v)" if "ms_type x = kind" "ms_value x = encode v" for x v
      using assms(5) [of v] ms_value_in_cong [of x "(match_set0 kind)\<lparr>ms_value := encode v\<rparr>" D b p] that by (simp add: match_set0_def)
    then show ?thesis by (simp add: match_list_def t match_set0_def)
  qed
  then have val: "map (ms_value_in D b p) (match_list f kind ms encode vals) = map (\<lambda>v. hit_result (P v)) vals" using assms(3) by simp
  have val': "map (ms_value_in D b' p) (match_list f kind ms encode vals) = map (ms_value_in D b p) (match_list f kind ms encode vals)"
    using in_b ms_value_extends [OF _ ext] by simp
  have "tail_like b ob (fn_Not f) (last (match_list f kind ms encode vals))"
    using ms t ms_value_back [OF t(2)] by (simp add: match_list_def tail_like_def)
  moreover have "\<forall>x \<in> set (butlast (match_list f kind ms encode vals)). ms_action x = MA_Or" by (auto simp: match_list_def butlast_append)
  moreover have "builder_ok b'" using assms(2) by (auto simp: builder_inv_def b' add_matches_loop_fields(2-) rules [unfolded b'])
  moreover have "match_list f kind ms encode vals \<noteq> []" by (simp add: match_list_def)
  ultimately show ?thesis
    unfolding emitted_def using rules ext in_b ms_in_extends [OF _ ext]
    by (intro exI [of _ "match_list f kind ms encode vals"]) (simp add: val' val foldr_max_hits)
qed

section \<open>Interning\<close>

lemma find_lpm_Some: "find_lpm tries vals ids = Inr (Some i) \<Longrightarrow> i < length tries \<and> tries ! i = vals"
  by (induction tries vals ids rule: find_lpm.induct) (auto split: if_splits)

lemma find_domain_set_Some:
  "find_domain_set sets key vals ids = Inr (Some i) \<Longrightarrow> i < length sets \<and> ds_Key (sets ! i) = key \<and> ds_Domains (sets ! i) = vals"
  by (induction sets key vals ids rule: find_domain_set.induct) (auto split: if_splits)

text \<open>An interned prefix set is found again under the returned slot, and no slot changes.\<close>

lemma internLPM_spec:
  assumes "internLPM sha vals b = Inr (i, b1)" "builder_ok b" "\<forall>q \<in> set vals. pfx_wf q"
  shows "builder_inv 1 b1 \<and> extends b b1 \<and> b_rules b1 = b_rules b \<and> i < length (b_lpmTries b1) \<and> b_lpmTries b1 ! i = canonical_prefixes vals"
proof (cases "find_lpm (b_lpmTries b) (canonical_prefixes vals) (b_staticLpmIDs b (lpm_signature sha (canonical_prefixes vals)))")
  case (Inl e)
  then show ?thesis using assms(1) by (simp add: internLPM_def Let_def)
next
  case (Inr r)
  show ?thesis
  proof (cases r)
    case None
    have b1: "b1 = b\<lparr>b_staticLpmIDs := (b_staticLpmIDs b)(lpm_signature sha (canonical_prefixes vals) :=
        b_staticLpmIDs b (lpm_signature sha (canonical_prefixes vals)) @ [length (b_lpmTries b)]), b_lpmTries := b_lpmTries b @ [canonical_prefixes vals]\<rparr>"
      and i: "i = length (b_lpmTries b)" using assms(1) Inr None by (auto simp: internLPM_def Let_def)
    have "extends b b1" by (simp add: b1 extends_def)
    moreover have "builder_inv 1 b1"
      using assms(2) canonical_wf [OF assms(3)] by (fastforce simp: builder_inv_def b1 nth_append less_Suc_eq)
    ultimately show ?thesis by (simp add: b1 i)
  next
    case (Some j)
    then have "b1 = b" "i = j" using assms(1) Inr by (simp_all add: internLPM_def Let_def)
    then show ?thesis using find_lpm_Some Inr Some assms(2) by (auto simp: builder_inv_def)
  qed
qed

lemma lpm_emitted:
  assumes "internLPM sha vals b = Inr (i, b1)" "addMatch f kind (index_value i) ob b1 = Inr b'" "builder_ok b"
    and "\<forall>q \<in> set vals. pfx_wf q" "kind \<in> {MT_IpSet, MT_SourceIpSet, MT_Mac}" "length (b_rules b') < u32_mod"
  shows "emitted D p (fn_Not f) ob b b' (hit_result (\<exists>q \<in> set vals. covers q (lpmKey p kind)))"
proof -
  have s: "builder_inv 1 b1" "extends b b1" "b_rules b1 = b_rules b" "i < length (b_lpmTries b1)" "b_lpmTries b1 ! i = canonical_prefixes vals"
    using internLPM_spec [OF assms(1,3,4)] by simp_all
  have "length (b_rules b') = Suc (length (b_rules b1))" using assms(2) by (auto simp: addMatch_def split: sum.splits)
  then have "i < u32_mod" using s(1,4) assms(6) by (auto simp: builder_inv_def)
  then have ix: "value_index (index_value i) = i" by (rule value_index_index_value)
  have "ms_in b1 ((match_set0 kind)\<lparr>ms_value := index_value i\<rparr>)" using assms(5) s(4) ix by (auto simp: ms_in_def match_set0_def)
  from addMatch_emitted [OF assms(2) s(1,2,3) this, of D p]
  have "emitted D p (fn_Not f) ob b b' (ms_value_in D b1 p ((match_set0 kind)\<lparr>ms_value := index_value i\<rparr>))" .
  moreover have "ms_value_in D b1 p ((match_set0 kind)\<lparr>ms_value := index_value i\<rparr>) = hit_result (\<exists>q \<in> set vals. covers q (lpmKey p kind))"
    using assms(5) canonical_covers [OF assms(4)] by (auto simp: ms_value_in_def match_set0_def ix s(5))
  ultimately show ?thesis by simp
qed

lemma addDomain_emitted:
  assumes "addDomain sha f key vals ob b = Inr b'" "builder_ok b"
  shows "emitted D p (fn_Not f) ob b b' (D key (compact_strings vals))"
proof -
  let ?vals = "compact_strings vals"
  let ?sig = "domain_signature sha key ?vals"
  obtain r where r: "find_domain_set (b_domainSets b) key ?vals (b_domainSetIDs b ?sig) = Inr r"
    using assms(1) by (auto simp: addDomain_def Let_def split: sum.splits if_splits)
  define b1 where "b1 = (case r of Some j \<Rightarrow> b | None \<Rightarrow>
      b\<lparr>b_domainSetIDs := (b_domainSetIDs b)(?sig := b_domainSetIDs b ?sig @ [length (b_domainSets b)]),
        b_domainSets := b_domainSets b @ [\<lparr>ds_Key = key, ds_RuleIndex = length (b_domainSets b), ds_Domains = ?vals\<rparr>]\<rparr>)"
  define i where "i = (case r of Some j \<Rightarrow> j | None \<Rightarrow> length (b_domainSets b))"
  have room: "r = None \<Longrightarrow> length (b_domainSets b) < MaxMatchSetLen" and add: "addMatch f MT_DomainSet (index_value i) ob b1 = Inr b'"
    using assms(1) r by (auto simp: addDomain_def Let_def b1_def i_def split: if_splits option.splits)
  have ext: "extends b b1" "b_rules b1 = b_rules b" by (auto simp: b1_def extends_def split: option.splits)
  have inv: "builder_inv 1 b1" using assms(2) room by (fastforce simp: builder_inv_def b1_def less_Suc_eq split: option.splits)
  have i: "i < length (b_domainSets b1)" "ds_Key (b_domainSets b1 ! i) = key" "ds_Domains (b_domainSets b1 ! i) = ?vals"
    using r find_domain_set_Some [of "b_domainSets b" key ?vals "b_domainSetIDs b ?sig"] by (auto simp: i_def b1_def split: option.splits)
  have "i < u32_mod" using i(1) inv by (auto simp: builder_inv_def MaxMatchSetLen_def)
  then have ix: "value_index (index_value i) = i" by (rule value_index_index_value)
  have "ms_in b1 ((match_set0 MT_DomainSet)\<lparr>ms_value := index_value i\<rparr>)" using i(1) ix by (simp add: ms_in_def match_set0_def)
  from addMatch_emitted [OF add inv ext this, of D p] show ?thesis
    by (simp add: ms_value_in_def match_set0_def ix i Let_def)
qed

lemma addClient_emitted:
  assumes "addClient f names ob b = Inr b'" "builder_ok b" "length (b_rules b') < u32_mod"
  shows "emitted D p (fn_Not f) ob b b' PMiss"
proof -
  obtain name ns where n: "names = name # ns" using assms(1) by (cases names) (auto simp: addClient_def)
  define i where "i = (case b_clientSetSlots b name of Some slot \<Rightarrow> slot | None \<Rightarrow> length (b_lpmTries b))"
  define b1 where "b1 = (case b_clientSetSlots b name of Some slot \<Rightarrow> b | None \<Rightarrow>
      b\<lparr>b_clientSetSlots := (b_clientSetSlots b)(name \<mapsto> i), b_lpmTries := b_lpmTries b @ [[]]\<rparr>)"
  have add: "addMatch f MT_Mac (index_value i) ob b1 = Inr b'"
    using assms(1) by (auto simp: addClient_def addMacMatch_def n b1_def i_def Let_def split: if_splits option.splits)
  have ext: "extends b b1" "b_rules b1 = b_rules b" by (auto simp: b1_def extends_def split: option.splits)
  have inv: "builder_inv 1 b1"
    using assms(2) by (fastforce simp: builder_inv_def b1_def i_def nth_append less_Suc_eq split: option.splits if_splits)
  have i: "i < length (b_lpmTries b1)" "b_lpmTries b1 ! i = []"
    using assms(2) by (auto simp: i_def b1_def builder_inv_def split: option.splits)
  have "length (b_rules b') = Suc (length (b_rules b1))" using add by (auto simp: addMatch_def split: sum.splits)
  then have "i < u32_mod" using i(1) inv assms(3) by (auto simp: builder_inv_def)
  then have ix: "value_index (index_value i) = i" by (rule value_index_index_value)
  have "ms_in b1 ((match_set0 MT_Mac)\<lparr>ms_value := index_value i\<rparr>)" using i(1) ix by (simp add: ms_in_def match_set0_def)
  from addMatch_emitted [OF add inv ext this, of D p] show ?thesis
    by (simp add: ms_value_in_def match_set0_def ix i hit_result_def)
qed

section \<open>The registered parsers\<close>

lemma parsed_factory_Inr:
  "parsed_factory parse callback f key vals ob b = Inr b' \<longleftrightarrow> key = [] \<and> (\<exists>v. parse vals = Inr v \<and> callback f v ob b = Inr b')"
  by (auto simp: parsed_factory_def EmptyKeyPlainParserFactory_def split: sum.splits)

lemma parsePrefixes_values:
  "parsePrefixes vals = Inr ps \<Longrightarrow> (\<exists>q \<in> set ps. C q) \<longleftrightarrow> list_ex (\<lambda>v. case value_prefix v of Some q \<Rightarrow> C q | None \<Rightarrow> False) vals"
proof (induction vals arbitrary: ps)
  case (Cons v vs)
  then obtain q qs where "ps = q # qs" "parsePrefixes vs = Inr qs" "value_prefix v = Some q"
    by (auto simp: value_prefix_def split: option.splits sum.splits)
  then show ?case using Cons.IH by simp
qed simp

lemma parse_all_values:
  "parse_all f vals = Inr ys \<Longrightarrow> list_ex (\<lambda>v. case f v of Inr y \<Rightarrow> P y | Inl _ \<Rightarrow> False) vals = list_ex P ys"
  by (induction vals arbitrary: ys) (auto split: sum.splits)

lemma parse_all_length: "parse_all f vals = Inr ys \<Longrightarrow> length ys = length vals"
  by (induction vals arbitrary: ys) (auto split: sum.splits)

lemma Inr_case: "(case r of Inr y \<Rightarrow> y = m | Inl _ \<Rightarrow> False) \<longleftrightarrow> r = Inr m"
  by (auto split: sum.splits)

lemma ParsePortRange_encode: "ParsePortRange (encode_port_range r) = Some r"
  using read_le16_le16 [of "fst r" "le16 (snd r) @ replicate 12 0"] read_le16_le16 [of "snd r" "replicate 12 0"]
  by (simp add: ParsePortRange_def encode_port_range_def)

lemma and_or_zero: "(x :: u8) AND (a OR c) \<noteq> 0 \<longleftrightarrow> x AND a \<noteq> 0 \<or> x AND c \<noteq> 0"
  by (simp add: bit.conj_disj_distrib or_eq_0_iff)

lemma parse_l4protos_value:
  "parse_l4protos acc vals = Inr bits \<Longrightarrow> x AND bits \<noteq> 0 \<longleftrightarrow> x AND acc \<noteq> 0 \<or> list_ex (\<lambda>v. x AND l4_bit v \<noteq> 0) vals"
  by (induction acc vals rule: parse_l4protos.induct) (auto simp: l4_bit_def and_or_zero split: if_splits)

lemma parse_ipversions_value:
  "parse_ipversions acc vals = Inr bits \<Longrightarrow> x AND bits \<noteq> 0 \<longleftrightarrow> x AND acc \<noteq> 0 \<or> list_ex (\<lambda>v. x AND ipversion_bit v \<noteq> 0) vals"
  by (induction acc vals rule: parse_ipversions.induct) (auto simp: ipversion_bit_def and_or_zero split: if_splits)

lemma mac_covers:
  assumes "length mac = 6" "length (ri_mac p) = 6"
  shows "covers (PrefixFrom (addr_From16 (replicate 10 0 @ mac)) 128) (lpmKey p MT_Mac) \<longleftrightarrow> mac = ri_mac p"
proof -
  have as16: "addr_As16 (addr_From16 (replicate 10 0 @ x)) = replicate 10 0 @ x" if "length x = 6" for x
    using that be128_word_of_bytes [of "replicate 10 0 @ x"] by (simp add: addr_From16_def)
  have "covers (PrefixFrom (addr_From16 (replicate 10 0 @ mac)) 128) (lpmKey p MT_Mac) \<longleftrightarrow>
      (\<forall>i < 128. net_bit (replicate 10 0 @ mac) i = net_bit (replicate 10 0 @ ri_mac p) i)"
    using as16 [OF assms(1)] as16 [OF assms(2)]
    by (simp add: covers_def lpmKey_def PrefixFrom_def pfx_len_def addr_From16_def)
  also have "\<dots> \<longleftrightarrow> replicate 10 0 @ mac = replicate 10 0 @ ri_mac p"
    using net_bit_eqI [of "replicate 10 0 @ mac" "replicate 10 0 @ ri_mac p"] assms by auto
  finally show ?thesis by simp
qed

lemma mac_prefix_wf: "pfx_wf (PrefixFrom (addr_From16 bs) 128)"
  by (simp add: pfx_wf_def PrefixFrom_def addr_From16_def)

lemma lpmKey_sets:
  "lpmKey p MT_IpSet = addr_As16 (ap_addr (ri_dst p))" "lpmKey p MT_SourceIpSet = addr_As16 (ap_addr (ri_src p))"
  by (simp_all add: lpmKey_def)

lemma ip_emitted:
  assumes "IpParserFactory (\<lambda>f vals ob b. case internLPM sha vals b of Inl e \<Rightarrow> Inl e | Inr (i, b1) \<Rightarrow> addMatch f kind (index_value i) ob b1)
      f key vals ob b = Inr b'"
    and "builder_ok b" "kind \<in> {MT_IpSet, MT_SourceIpSet}" "length (b_rules b') < u32_mod"
  shows "emitted D p (fn_Not f) ob b b'
    (hit_result (list_ex (\<lambda>v. case value_prefix v of Some q \<Rightarrow> covers q (lpmKey p kind) | None \<Rightarrow> False) vals))"
proof -
  obtain ps where "parsePrefixes vals = Inr ps"
      "(case internLPM sha ps b of Inl e \<Rightarrow> Inl e | Inr (i, b1) \<Rightarrow> addMatch f kind (index_value i) ob b1) = Inr b'"
    using assms(1) by (auto simp: IpParserFactory_def parsed_factory_Inr)
  then obtain i b1 where ps: "parsePrefixes vals = Inr ps" "internLPM sha ps b = Inr (i, b1)" "addMatch f kind (index_value i) ob b1 = Inr b'"
    by (cases "internLPM sha ps b") auto
  have "kind \<in> {MT_IpSet, MT_SourceIpSet, MT_Mac}" using assms(3) by auto
  from lpm_emitted [OF ps(2,3) assms(2) parsePrefixes_wf [OF ps(1)] this assms(4), of D p]
  show ?thesis by (simp add: parsePrefixes_values [OF ps(1)])
qed

lemma port_emitted:
  assumes "PortRangeParserFactory (\<lambda>f vals ob b. addMatches f kind vals ob encodePortRange b) f key vals ob b = Inr b'"
    and "builder_ok b" "vals \<noteq> []" "kind \<in> {MT_Port, MT_SourcePort}"
    and "port = (if kind = MT_Port then ap_port (ri_dst p) else ap_port (ri_src p))"
  shows "emitted D p (fn_Not f) ob b b' (hit_result (list_ex (\<lambda>v. port_in v port) vals))"
proof -
  obtain rs where rs: "parse_all parsePortRange vals = Inr rs" "addMatches f kind rs ob encodePortRange b = Inr b'"
    using assms(1) by (auto simp: PortRangeParserFactory_def parsed_factory_Inr)
  have "rs \<noteq> []" using parse_all_length [OF rs(1)] assms(3) by auto
  have v: "ms_value_in D b p ((match_set0 kind)\<lparr>ms_value := encodePortRange r\<rparr>) = hit_result (case r of (s, e) \<Rightarrow> s \<le> port \<and> port \<le> e)" for r
    using assms(4,5) by (auto simp: ms_value_in_def match_set0_def in_port_range_def encodePortRange_def ParsePortRange_encode)
  have "plain_type kind" using assms(4) by (auto simp: plain_type_def)
  from addMatches_emitted [OF rs(2) assms(2) \<open>rs \<noteq> []\<close> this v]
  have "emitted D p (fn_Not f) ob b b' (hit_result (list_ex (\<lambda>r. case r of (s, e) \<Rightarrow> s \<le> port \<and> port \<le> e) rs))" .
  moreover have "list_ex (\<lambda>r. case r of (s, e) \<Rightarrow> s \<le> port \<and> port \<le> e) rs = list_ex (\<lambda>v. port_in v port) vals"
    unfolding port_in_def by (rule parse_all_values [OF rs(1), symmetric])
  ultimately show ?thesis by simp
qed

lemma mac_emitted:
  assumes "MacParserFactory (addSourceMac sha) f key vals ob b = Inr b'"
    and "builder_ok b" "length (ri_mac p) = 6" "length (b_rules b') < u32_mod"
  shows "emitted D p (fn_Not f) ob b b' (hit_result (list_ex (\<lambda>v. parseMac v = Inr (ri_mac p)) vals))"
proof -
  obtain macs where macs: "parse_all parseMac vals = Inr macs" "addSourceMac sha f macs ob b = Inr b'"
    using assms(1) by (auto simp: MacParserFactory_def parsed_factory_Inr)
  have len: "\<forall>m \<in> set macs. length m = 6" by (rule parse_all_Forall [OF macs(1)]) (rule parseMac_length)
  obtain i b1 where ps: "internLPM sha (sourceMacPrefixes macs) b = Inr (i, b1)" "addMatch f MT_Mac (index_value i) ob b1 = Inr b'"
    using macs(2) by (cases "internLPM sha (sourceMacPrefixes macs) b") (auto simp: addSourceMac_def addMacMatch_def)
  have wf: "\<forall>q \<in> set (sourceMacPrefixes macs). pfx_wf q" by (auto simp: sourceMacPrefixes_def mac_prefix_wf)
  have "(\<exists>q \<in> set (sourceMacPrefixes macs). covers q (lpmKey p MT_Mac)) \<longleftrightarrow> list_ex (\<lambda>m. m = ri_mac p) macs"
    using mac_covers [OF _ assms(3)] len by (auto simp: sourceMacPrefixes_def list_ex_iff)
  also have "\<dots> \<longleftrightarrow> list_ex (\<lambda>v. parseMac v = Inr (ri_mac p)) vals"
    using parse_all_values [OF macs(1), of "\<lambda>m. m = ri_mac p"] by (simp add: Inr_case)
  finally show ?thesis using lpm_emitted [OF ps assms(2) wf _ assms(4), of D p] by simp
qed

lemma list_emitted:
  assumes "addMatches f kind ys ob encode b = Inr b'" "builder_ok b" "ys \<noteq> []" "plain_type kind"
    and "\<And>y. ms_value_in D b p ((match_set0 kind)\<lparr>ms_value := encode y\<rparr>) = hit_result (P y)" "list_ex P ys = r"
  shows "emitted D p (fn_Not f) ob b b' (hit_result r)"
  using addMatches_emitted [OF assms(1-5)] assms(6) by simp

lemma plain_emitted:
  assumes "addMatch f kind (byte_value v) ob b = Inr b'" "builder_ok b" "plain_type kind"
    and "ms_value_in D b p ((match_set0 kind)\<lparr>ms_value := byte_value v\<rparr>) = r"
  shows "emitted D p (fn_Not f) ob b b' r"
proof -
  have "builder_inv 1 b" using assms(2) by (simp add: builder_inv_def)
  moreover have "ms_in b ((match_set0 kind)\<lparr>ms_value := byte_value v\<rparr>)" using assms(3) by (auto simp: ms_in_def plain_type_def match_set0_def)
  ultimately show ?thesis using addMatch_emitted [OF assms(1), of b D p] assms(4) by simp
qed

lemma emitted_same_tables:
  assumes "emitted D p nt ob b b' v" "extends b' b2" "b_rules b2 = b_rules b'" "builder_ok b2"
  shows "emitted D p nt ob b b2 v"
proof -
  obtain sets where s: "b_rules b' = b_rules b @ sets" "sets \<noteq> []" "\<forall>ms \<in> set (butlast sets). ms_action ms = MA_Or"
    "tail_like b ob nt (last sets)" "extends b b'" "\<forall>ms \<in> set sets. ms_in b' ms" "foldr max (map (ms_value_in D b' p) sets) PMiss = v"
    using assms(1) unfolding emitted_def by blast
  have "map (ms_value_in D b2 p) sets = map (ms_value_in D b' p) sets"
    using s(6) ms_value_extends [OF _ assms(2)] by simp
  then have "foldr max (map (ms_value_in D b2 p) sets) PMiss = v" by (simp only: s(7))
  then show ?thesis
    unfolding emitted_def using s assms(3,4) ms_in_extends [OF _ assms(2)] extends_trans [OF s(5) assms(2)]
    by (intro exI [of _ sets]) simp
qed

lemma copy_into_processName: "copy_into 16 (toProcessName v) = toProcessName v"
  by (simp add: copy_into_def)

text \<open>Every registered parser emits instructions that mean its group of values.\<close>

lemma parser_emitted:
  assumes "routing_parsers sha (fn_Name f) = Some parser" "parser f key vals ob b = Inr b'"
    and "builder_ok b" "vals \<noteq> []" "length (ri_mac p) = 6" "length (b_rules b') < u32_mod"
  shows "emitted D p (fn_Not f) ob b b' (group_value D p (fn_Name f) key vals)"
proof -
  let ?names = "[''domain'', ''dip'', ''sip'', ''dport'', ''sport'', ''l4proto'', ''mac'', ''client'', ''pname'', ''interface'', ''dscp'', ''ipversion'']"
  have "fn_Name f \<in> set ?names" using assms(1) by (auto simp: routing_parsers_def split: if_splits)
  then consider "fn_Name f = ''domain''" | "fn_Name f = ''dip''" | "fn_Name f = ''sip''" | "fn_Name f = ''dport''" | "fn_Name f = ''sport''"
    | "fn_Name f = ''l4proto''" | "fn_Name f = ''mac''" | "fn_Name f = ''client''" | "fn_Name f = ''pname''"
    | "fn_Name f = ''interface''" | "fn_Name f = ''dscp''" | "fn_Name f = ''ipversion''" by auto
  then show ?thesis
  proof cases
    case 1
    then have "addDomain sha f key vals ob b = Inr b'" using assms(1,2) by (auto simp: routing_parsers_def PlainParserFactory_def)
    from addDomain_emitted [OF this assms(3)] show ?thesis using 1 by (simp add: group_value_def)
  next
    case 2
    have "parser = IpParserFactory (addIp sha)" using assms(1) 2 by (simp add: routing_parsers_def)
    with assms(2) have "IpParserFactory (\<lambda>f vals ob b. case internLPM sha vals b of Inl e \<Rightarrow> Inl e | Inr (i, b1) \<Rightarrow> addMatch f MT_IpSet (index_value i) ob b1)
      f key vals ob b = Inr b'" by (simp add: addIp_def [abs_def])
    from ip_emitted [OF this assms(3) _ assms(6), of D p, unfolded lpmKey_sets] show ?thesis
      using 2 by (simp add: group_value_def value_hit_def [abs_def])
  next
    case 3
    have "parser = IpParserFactory (addSourceIp sha)" using assms(1) 3 by (simp add: routing_parsers_def)
    with assms(2) have "IpParserFactory (\<lambda>f vals ob b. case internLPM sha vals b of Inl e \<Rightarrow> Inl e | Inr (i, b1) \<Rightarrow> addMatch f MT_SourceIpSet (index_value i) ob b1)
      f key vals ob b = Inr b'" by (simp add: addSourceIp_def [abs_def])
    from ip_emitted [OF this assms(3) _ assms(6), of D p, unfolded lpmKey_sets] show ?thesis
      using 3 by (simp add: group_value_def value_hit_def [abs_def])
  next
    case 4
    have "PortRangeParserFactory addPort f key vals ob b = Inr b'" using assms(1,2) 4 by (simp add: routing_parsers_def)
    from port_emitted [OF this [unfolded addPort_def [abs_def]] assms(3,4) _ refl] show ?thesis
      using 4 by (simp add: group_value_def value_hit_def [abs_def])
  next
    case 5
    have "PortRangeParserFactory addSourcePort f key vals ob b = Inr b'" using assms(1,2) 5 by (simp add: routing_parsers_def)
    from port_emitted [OF this [unfolded addSourcePort_def [abs_def]] assms(3,4) _ refl] show ?thesis
      using 5 by (simp add: group_value_def value_hit_def [abs_def])
  next
    case 6
    obtain bits where bits: "parse_l4protos 0 vals = Inr bits" "addMatch f MT_L4Proto (byte_value bits) ob b = Inr b'"
      using assms(1,2) 6 by (auto simp: routing_parsers_def L4ProtoParserFactory_def parsed_factory_Inr addL4Proto_def)
    from plain_emitted [OF bits(2) assms(3), of D p] parse_l4protos_value [OF bits(1), of "ri_l4proto p"] show ?thesis
      using 6 by (simp add: group_value_def value_hit_def [abs_def] plain_type_def ms_value_in_def match_set0_def byte_value_def)
  next
    case 7
    have "MacParserFactory (addSourceMac sha) f key vals ob b = Inr b'" using assms(1,2) 7 by (simp add: routing_parsers_def)
    from mac_emitted [OF this assms(3,5,6)] show ?thesis using 7 by (simp add: group_value_def value_hit_def [abs_def])
  next
    case 8
    have "addClient f vals ob b = Inr b'"
      using assms(1,2) 8 by (auto simp: routing_parsers_def EmptyKeyPlainParserFactory_def split: if_splits)
    from addClient_emitted [OF this assms(3,6)] show ?thesis
      using 8 by (simp add: group_value_def value_hit_def [abs_def] list_ex_iff hit_result_def)
  next
    case 9
    have add: "addMatches f MT_ProcessName (map toProcessName vals) ob (copy_into 16) b = Inr b'"
      using assms(1,2) 9 by (auto simp: routing_parsers_def ProcessNameParserFactory_def parsed_factory_Inr addProcessName_def)
    have "emitted D p (fn_Not f) ob b b' (hit_result (list_ex (\<lambda>y. ri_processName p ! 0 \<noteq> 0 \<and> copy_into 16 y = ri_processName p) (map toProcessName vals)))"
      by (rule list_emitted [OF add assms(3)]) (use assms(4) in \<open>auto simp: plain_type_def ms_value_in_def match_set0_def\<close>)
    then show ?thesis using 9 by (simp add: group_value_def value_hit_def [abs_def] list_ex_iff copy_into_processName)
  next
    case 10
    obtain b1 x where b1: "addMatches f MT_IfIndex vals ob (\<lambda>_. zero_value) b = Inr b1" "b' = b1\<lparr>b_interfaceRulePatches := x\<rparr>"
      using assms(1,2) 10
      by (auto simp: routing_parsers_def EmptyKeyPlainParserFactory_def addInterface_def Let_def split: if_splits option.splits sum.splits)
    have "value_index zero_value = 0" by (simp add: value_index_def zero_value_def numeral_eq_Suc)
    then have v: "ms_value_in D b p ((match_set0 MT_IfIndex)\<lparr>ms_value := zero_value\<rparr>) = hit_result False"
      by (simp add: ms_value_in_def match_set0_def)
    have e: "emitted D p (fn_Not f) ob b b1 (hit_result False)"
      by (rule list_emitted [OF b1(1) assms(3,4) _ v]) (auto simp: plain_type_def list_ex_iff)
    then have "builder_ok b1" by (auto simp: emitted_def)
    then have "emitted D p (fn_Not f) ob b b' (hit_result False)"
      unfolding b1(2) by (intro emitted_same_tables [OF e]) (simp_all add: extends_def builder_inv_def)
    then show ?thesis using 10 by (simp add: group_value_def value_hit_def [abs_def] list_ex_iff)
  next
    case 11
    obtain ys where ys: "parse_all parse_uint8 vals = Inr ys" "addMatches f MT_Dscp ys ob byte_value b = Inr b'"
      using assms(1,2) 11 by (auto simp: routing_parsers_def UintParserFactory_def parsed_factory_Inr addDscp_def)
    have "ys \<noteq> []" using parse_all_length [OF ys(1)] assms(4) by auto
    have "emitted D p (fn_Not f) ob b b' (hit_result (list_ex (\<lambda>v. parse_uint8 v = Inr (ri_dscp p)) vals))"
      by (rule list_emitted [OF ys(2) assms(3) \<open>ys \<noteq> []\<close>, of D p "\<lambda>y. y = ri_dscp p"])
         (use parse_all_values [OF ys(1), of "\<lambda>y. y = ri_dscp p"] in
           \<open>auto simp: plain_type_def ms_value_in_def match_set0_def byte_value_def Inr_case eq_commute [of "ri_dscp p"]\<close>)
    then show ?thesis using 11 by (simp add: group_value_def value_hit_def [abs_def])
  next
    case 12
    obtain bits where bits: "parse_ipversions 0 vals = Inr bits" "addMatch f MT_IpVersion (byte_value bits) ob b = Inr b'"
      using assms(1,2) 12 by (auto simp: routing_parsers_def IpVersionParserFactory_def parsed_factory_Inr addIpVersion_def)
    from plain_emitted [OF bits(2) assms(3), of D p] parse_ipversions_value [OF bits(1), of "IpVersionFromAddr (ap_addr (ri_dst p))"] show ?thesis
      using 12 by (simp add: group_value_def value_hit_def [abs_def] plain_type_def ms_value_in_def match_set0_def byte_value_def)
  qed
qed

section \<open>A function is a clause\<close>

lemma tail_like_extends: "extends b b' \<Longrightarrow> tail_like b' ob nt ms = tail_like b ob nt ms"
  using matchSet_cong [of b' b] by (simp add: tail_like_def extends_def)

lemma tail_like_or: "tail_like b (ob\<lparr>ob_Name := logicalOrName\<rparr>) nt ms \<Longrightarrow> ms_action ms = MA_Or"
  by (cases ms) (auto simp: tail_like_def matchSet_def Let_def match_set0_def)

lemma foldr_max_append: "foldr max (xs @ ys) (PMiss :: predicate_result) = max (foldr max xs PMiss) (foldr max ys PMiss)"
  by (induction xs) (simp_all add: max.assoc)

lemma emitted_then:
  assumes "emitted D p nt (ob\<lparr>ob_Name := logicalOrName\<rparr>) b b1 v1" "emitted D p nt ob2 b1 b2 v2"
  shows "emitted D p nt ob2 b b2 (max v1 v2)"
proof -
  obtain s1 where s1: "b_rules b1 = b_rules b @ s1" "s1 \<noteq> []" "\<forall>ms \<in> set (butlast s1). ms_action ms = MA_Or"
    "tail_like b (ob\<lparr>ob_Name := logicalOrName\<rparr>) nt (last s1)" "extends b b1" "\<forall>ms \<in> set s1. ms_in b1 ms"
    "foldr max (map (ms_value_in D b1 p) s1) PMiss = v1"
    using assms(1) unfolding emitted_def by blast
  obtain s2 where s2: "b_rules b2 = b_rules b1 @ s2" "s2 \<noteq> []" "\<forall>ms \<in> set (butlast s2). ms_action ms = MA_Or"
    "tail_like b1 ob2 nt (last s2)" "extends b1 b2" "builder_ok b2" "\<forall>ms \<in> set s2. ms_in b2 ms"
    "foldr max (map (ms_value_in D b2 p) s2) PMiss = v2"
    using assms(2) unfolding emitted_def by blast
  have or1: "\<forall>ms \<in> set s1. ms_action ms = MA_Or"
  proof
    fix ms assume "ms \<in> set s1"
    then have "ms \<in> set (butlast s1) \<or> ms = last s1" using append_butlast_last_id [OF s1(2)] by (metis Un_iff set_append set_ConsD list.set(1) empty_iff)
    then show "ms_action ms = MA_Or" using s1(3) tail_like_or [OF s1(4)] by blast
  qed
  have "map (ms_value_in D b2 p) s1 = map (ms_value_in D b1 p) s1"
    using s1(6) ms_value_extends [OF _ s2(5)] by simp
  then have v: "foldr max (map (ms_value_in D b2 p) (s1 @ s2)) PMiss = max v1 v2"
    by (simp only: map_append foldr_max_append s1(7) s2(8))
  have a: "\<forall>ms \<in> set (butlast (s1 @ s2)). ms_action ms = MA_Or" using or1 s2(2,3) by (auto simp: butlast_append)
  have t: "tail_like b ob2 nt (last (s1 @ s2))" using s2(2,4) tail_like_extends [OF s1(5)] by simp
  have m: "\<forall>ms \<in> set (s1 @ s2). ms_in b2 ms" using s1(6) s2(7) ms_in_extends [OF _ s2(5)] by auto
  show ?thesis
    unfolding emitted_def using s1(1) s2(1,2,6) extends_trans [OF s1(5) s2(5)] v a t m
    by (intro exI [of _ "s1 @ s2"]) simp
qed

lemma emitted_grows: "emitted D p nt ob b b' v \<Longrightarrow> length (b_rules b) \<le> length (b_rules b')"
  by (auto simp: emitted_def)

text \<open>No operation removes instructions.\<close>

lemma addMatch_grows: "addMatch f kind val ob b = Inr b' \<Longrightarrow> length (b_rules b') = Suc (length (b_rules b))"
  by (auto simp: addMatch_def split: sum.splits)

lemma addMatch_le: "addMatch f kind val ob b = Inr b' \<Longrightarrow> length (b_rules b) \<le> length (b_rules b')"
  by (auto dest: addMatch_grows)

lemma addMatches_grows: "addMatches f kind vals ob encode b = Inr b' \<Longrightarrow> length (b_rules b) \<le> length (b_rules b')"
proof -
  have "length (b_rules b) \<le> length (b_rules (add_matches_loop f kind tail encode vals b))" for tail
    by (cases "vals = []") (simp_all add: add_matches_loop_fields)
  then show "addMatches f kind vals ob encode b = Inr b' \<Longrightarrow> ?thesis" by (auto simp: addMatches_def split: sum.splits)
qed

lemma internLPM_rules: "internLPM sha vals b = Inr (i, b1) \<Longrightarrow> b_rules b1 = b_rules b"
  by (auto simp: internLPM_def Let_def split: sum.splits option.splits)

lemma lpm_grows:
  "(case internLPM sha vals b of Inl e \<Rightarrow> Inl e | Inr (i, b1) \<Rightarrow> addMatch f kind (index_value i) ob b1) = Inr b' \<Longrightarrow>
   length (b_rules b) \<le> length (b_rules b')"
  by (cases "internLPM sha vals b") (fastforce dest: internLPM_rules addMatch_le)+

lemma addSourceMac_grows: "addSourceMac sha f macs ob b = Inr b' \<Longrightarrow> length (b_rules b) \<le> length (b_rules b')"
  by (cases "internLPM sha (sourceMacPrefixes macs) b") (fastforce simp: addSourceMac_def addMacMatch_def dest: internLPM_rules addMatch_le)+

lemma addDomain_grows: "addDomain sha f key vals ob b = Inr b' \<Longrightarrow> length (b_rules b) \<le> length (b_rules b')"
  by (auto simp: addDomain_def Let_def dest!: addMatch_grows split: if_splits sum.splits option.splits)

lemma addClient_grows: "addClient f vals ob b = Inr b' \<Longrightarrow> length (b_rules b) \<le> length (b_rules b')"
  by (auto simp: addClient_def addMacMatch_def Let_def dest!: addMatch_grows split: if_splits option.splits list.splits)

lemma addInterface_grows: "addInterface f vals ob b = Inr b' \<Longrightarrow> length (b_rules b) \<le> length (b_rules b')"
  by (auto simp: addInterface_def Let_def dest: addMatches_grows split: option.splits sum.splits)

lemma parser_grows:
  assumes "routing_parsers sha name = Some parser" "parser f key vals ob b = Inr b'"
  shows "length (b_rules b) \<le> length (b_rules b')"
  using assms
  by (auto simp: routing_parsers_def PlainParserFactory_def EmptyKeyPlainParserFactory_def IpParserFactory_def PortRangeParserFactory_def
      L4ProtoParserFactory_def MacParserFactory_def ProcessNameParserFactory_def UintParserFactory_def IpVersionParserFactory_def
      parsed_factory_Inr addIp_def addSourceIp_def addPort_def addSourcePort_def addL4Proto_def
      addProcessName_def addDscp_def addIpVersion_def split: if_splits
      dest: addDomain_grows addSourceMac_grows addMatches_grows addMatch_le addClient_grows addInterface_grows lpm_grows)

lemma apply_groups_grows:
  assumes "routing_parsers sha name = Some parser"
  shows "apply_groups parser f lastFunc ob gs b = Inr b' \<Longrightarrow> length (b_rules b) \<le> length (b_rules b')"
proof (induction gs arbitrary: b)
  case (Cons g gs)
  obtain key vals where g: "g = (key, vals)" by fastforce
  obtain name' b1 where "parser f key vals (ob\<lparr>ob_Name := name'\<rparr>) b = Inr b1" "apply_groups parser f lastFunc ob gs b1 = Inr b'"
    using Cons.prems by (auto simp: g Let_def split: sum.splits)
  then show ?case using parser_grows [OF assms] Cons.IH by (meson le_trans)
qed simp

lemma apply_groups_emitted:
  assumes "routing_parsers sha (fn_Name f) = Some parser" "length (ri_mac p) = 6" "length (b_rules b') < u32_mod"
  shows "apply_groups parser f lastFunc ob gs b = Inr b' \<Longrightarrow> gs \<noteq> [] \<Longrightarrow> \<forall>(k, vs) \<in> set gs. vs \<noteq> [] \<Longrightarrow> builder_ok b \<Longrightarrow>
    emitted D p (fn_Not f) (ob\<lparr>ob_Name := if lastFunc then ob_Name ob else logicalAndName\<rparr>) b b'
      (foldr max (map (\<lambda>(key, vals). group_value D p (fn_Name f) key vals) gs) PMiss)"
proof (induction gs arbitrary: b)
  case (Cons g gs)
  obtain key vals where g: "g = (key, vals)" by fastforce
  let ?name = "if gs = [] then (if lastFunc then ob_Name ob else logicalAndName) else logicalOrName"
  obtain b1 where b1: "parser f key vals (ob\<lparr>ob_Name := ?name\<rparr>) b = Inr b1" "apply_groups parser f lastFunc ob gs b1 = Inr b'"
    using Cons.prems(1) unfolding g apply_groups.simps Let_def by (auto split: sum.splits)
  have "length (b_rules b1) < u32_mod" using apply_groups_grows [OF assms(1) b1(2)] assms(3) by linarith
  moreover have "vals \<noteq> []" using Cons.prems(3) by (auto simp: g)
  ultimately have e: "emitted D p (fn_Not f) (ob\<lparr>ob_Name := ?name\<rparr>) b b1 (group_value D p (fn_Name f) key vals)"
    using parser_emitted [OF assms(1) b1(1) Cons.prems(4) _ assms(2)] by blast
  show ?case
  proof (cases "gs = []")
    case True
    then show ?thesis using e b1(2) by (simp add: g)
  next
    case False
    have "builder_ok b1" using e by (auto simp: emitted_def)
    from Cons.IH [OF b1(2) False _ this] Cons.prems(3)
    have "emitted D p (fn_Not f) (ob\<lparr>ob_Name := if lastFunc then ob_Name ob else logicalAndName\<rparr>) b1 b'
      (foldr max (map (\<lambda>(key, vals). group_value D p (fn_Name f) key vals) gs) PMiss)" by simp
    from emitted_then [OF _ this] e False show ?thesis by (simp add: g)
  qed
qed simp

text \<open>The instructions of one function, over the tables of a builder.\<close>

definition func_sets :: "(string \<Rightarrow> string list \<Rightarrow> predicate_result) \<Rightarrow> routing_input \<Rightarrow> builder \<Rightarrow> outbound \<Rightarrow> func \<Rightarrow> match_set list \<Rightarrow> bool" where
  "func_sets D p b ob f sets \<longleftrightarrow> sets \<noteq> [] \<and> (\<forall>ms \<in> set (butlast sets). ms_action ms = MA_Or) \<and> tail_like b ob (fn_Not f) (last sets) \<and>
     (\<forall>ms \<in> set sets. ms_in b ms) \<and>
     foldr max (map (ms_value_in D b p) sets) PMiss =
       foldr max (map (\<lambda>(key, vals). group_value D p (fn_Name f) key vals) (groupParamValuesByKey (fn_Params f))) PMiss"

lemma func_sets_extends: "func_sets D p b ob f sets \<Longrightarrow> extends b b' \<Longrightarrow> func_sets D p b' ob f sets"
proof -
  assume a: "func_sets D p b ob f sets" and e: "extends b b'"
  then have "map (ms_value_in D b' p) sets = map (ms_value_in D b p) sets"
    using ms_value_extends [OF _ e] by (simp add: func_sets_def)
  then have "foldr max (map (ms_value_in D b' p) sets) PMiss = foldr max (map (ms_value_in D b p) sets) PMiss" by (simp only:)
  then show ?thesis using a ms_in_extends [OF _ e] tail_like_extends [OF e] by (simp add: func_sets_def)
qed

definition func_outbound :: "outbound \<Rightarrow> bool \<Rightarrow> outbound" where
  "func_outbound ob lastFunc = (ob\<lparr>ob_Name := if lastFunc then ob_Name ob else logicalAndName\<rparr>)"

lemma apply_function_sets:
  assumes "apply_function (routing_parsers sha) f lastFunc ob b = Inr b'" "builder_ok b"
    and "length (ri_mac p) = 6" "length (b_rules b') < u32_mod"
  shows "\<exists>sets. b_rules b' = b_rules b @ sets \<and> extends b b' \<and> builder_ok b' \<and> func_sets D p b' (func_outbound ob lastFunc) f sets"
proof -
  obtain parser where parser: "routing_parsers sha (fn_Name f) = Some parser" "fn_Params f \<noteq> []"
    "apply_groups parser f lastFunc ob (groupParamValuesByKey (fn_Params f)) b = Inr b'"
    using assms(1) by (auto simp: apply_function_def split: if_splits option.splits)
  have "\<forall>(k, vs) \<in> set (groupParamValuesByKey (fn_Params f)). vs \<noteq> []" using groupParamValuesByKey_spec by blast
  from apply_groups_emitted [OF parser(1) assms(3,4) parser(3) groupParamValuesByKey_nonempty [OF parser(2)] this assms(2), of D]
  obtain sets where "b_rules b' = b_rules b @ sets" "sets \<noteq> []" "\<forall>ms \<in> set (butlast sets). ms_action ms = MA_Or"
    "tail_like b (func_outbound ob lastFunc) (fn_Not f) (last sets)" "extends b b'" "builder_ok b'" "\<forall>ms \<in> set sets. ms_in b' ms"
    "foldr max (map (ms_value_in D b' p) sets) PMiss =
      foldr max (map (\<lambda>(key, vals). group_value D p (fn_Name f) key vals) (groupParamValuesByKey (fn_Params f))) PMiss"
    unfolding emitted_def func_outbound_def by blast
  then show ?thesis using tail_like_extends by (intro exI [of _ sets]) (simp add: func_sets_def)
qed

lemma apply_function_grows:
  "apply_function (routing_parsers sha) f lastFunc ob b = Inr b' \<Longrightarrow> length (b_rules b) \<le> length (b_rules b')"
  by (auto simp: apply_function_def dest: apply_groups_grows split: if_splits option.splits)

lemma apply_functions_grows:
  "apply_functions (routing_parsers sha) ob fs b = Inr b' \<Longrightarrow> length (b_rules b) \<le> length (b_rules b')"
proof (induction fs arbitrary: b)
  case (Cons f fs)
  obtain b1 where "apply_function (routing_parsers sha) f (fs = []) ob b = Inr b1" "apply_functions (routing_parsers sha) ob fs b1 = Inr b'"
    using Cons.prems by (auto split: sum.splits)
  then show ?case using apply_function_grows Cons.IH by (meson le_trans)
qed simp

section \<open>A condition is a list of clauses\<close>

text \<open>One list of instructions per function; the tail of the last one carries the outbound.\<close>

fun cond_sets :: "(string \<Rightarrow> string list \<Rightarrow> predicate_result) \<Rightarrow> routing_input \<Rightarrow> builder \<Rightarrow> outbound \<Rightarrow> func list \<Rightarrow> match_set list list \<Rightarrow> bool" where
  "cond_sets D p b ob [] sss = (sss = [])"
| "cond_sets D p b ob (f # fs) sss =
     (case sss of [] \<Rightarrow> False | sets # sss' \<Rightarrow> func_sets D p b (func_outbound ob (fs = [])) f sets \<and> cond_sets D p b ob fs sss')"

lemma cond_sets_extends: "cond_sets D p b ob fs sss \<Longrightarrow> extends b b' \<Longrightarrow> cond_sets D p b' ob fs sss"
  by (induction fs arbitrary: sss) (auto split: list.splits dest: func_sets_extends)

lemma apply_functions_sets:
  assumes "length (ri_mac p) = 6" "length (b_rules b') < u32_mod"
  shows "apply_functions (routing_parsers sha) ob fs b = Inr b' \<Longrightarrow> builder_ok b \<Longrightarrow>
    \<exists>sss. b_rules b' = b_rules b @ concat sss \<and> extends b b' \<and> builder_ok b' \<and> cond_sets D p b' ob fs sss"
proof (induction fs arbitrary: b)
  case Nil
  then show ?case by (intro exI [of _ "[]"]) simp
next
  case (Cons f fs)
  obtain b1 where b1: "apply_function (routing_parsers sha) f (fs = []) ob b = Inr b1" "apply_functions (routing_parsers sha) ob fs b1 = Inr b'"
    using Cons.prems(1) by (auto split: sum.splits)
  have "length (b_rules b1) < u32_mod" using apply_functions_grows [OF b1(2)] assms(2) by linarith
  from apply_function_sets [OF b1(1) Cons.prems(2) assms(1) this, of D] obtain sets where
    s: "b_rules b1 = b_rules b @ sets" "extends b b1" "builder_ok b1" "func_sets D p b1 (func_outbound ob (fs = [])) f sets" by blast
  from Cons.IH [OF b1(2) s(3)] obtain sss where
    t: "b_rules b' = b_rules b1 @ concat sss" "extends b1 b'" "builder_ok b'" "cond_sets D p b' ob fs sss" by blast
  show ?case
    using s t extends_trans [OF s(2) t(2)] func_sets_extends [OF s(4) t(2)] by (intro exI [of _ "sets # sss"]) simp
qed

lemma ApplyPredicate_sets:
  assumes "ApplyPredicate (routing_parsers sha) fs ob b = Inr b'" "builder_ok b" "length (ri_mac p) = 6" "length (b_rules b') < u32_mod"
  shows "fs \<noteq> [] \<and> (\<exists>sss. b_rules b' = b_rules b @ concat sss \<and> extends b b' \<and> builder_ok b' \<and> cond_sets D p b' ob fs sss)"
  using apply_functions_sets [OF assms(3,4) _ assms(2)] assms(1) by (auto simp: ApplyPredicate_def split: if_splits)

end
