(* ===== verification/Routing_Encode.thy ===== *)
theory Routing_Encode
  imports Routing_Build Routing_Semantics
begin

text \<open>
  Jump encoding. The instruction pool is a sequence of fragments, each the clauses of one rule or of one
  block entry. One backward pass over the pool gives every fragment the relative jumps of the
  structured code, independently of the fragments around it.
\<close>

section \<open>Fragments\<close>

definition clause_of :: "match_set list \<Rightarrow> clause" where
  "clause_of sets = \<lparr>cl_ors = butlast sets, cl_tail = last sets\<rparr>"

definition frag_tail :: "match_set list list \<Rightarrow> match_set" where
  "frag_tail sss = last (last sss)"

text \<open>The number of instructions that a miss of the whole fragment jumps over besides its own.\<close>

definition frag_ext :: "match_set list list \<Rightarrow> nat" where
  "frag_ext sss = (if ms_action (frag_tail sss) = MA_ConditionalJump then ms_mark (frag_tail sss) - 1 else 0)"

definition frag_code :: "match_set list list \<Rightarrow> match_set list" where
  "frag_code sss = rule_code (map clause_of (butlast sss)) (clause_of (last sss)) (frag_ext sss)"

definition sets_ok :: "match_set list \<Rightarrow> bool" where
  "sets_ok sets \<longleftrightarrow> sets \<noteq> [] \<and> (\<forall>ms \<in> set (butlast sets). ms_action ms = MA_Or)"

definition frag_ok :: "match_set list list \<Rightarrow> bool" where
  "frag_ok sss \<longleftrightarrow> sss \<noteq> [] \<and> (\<forall>sets \<in> set sss. sets_ok sets) \<and> (\<forall>sets \<in> set (butlast sss). ms_action (last sets) = MA_And) \<and>
     ms_action (frag_tail sss) \<noteq> MA_And \<and> ms_action (frag_tail sss) \<noteq> MA_Or \<and>
     (ms_action (frag_tail sss) = MA_ConditionalJump \<longrightarrow> 1 < ms_mark (frag_tail sss) \<and> ms_mark (frag_tail sss) \<le> MaxMatchSetLen)"

section \<open>Logical OR\<close>

fun or_code_at :: "nat \<Rightarrow> match_set list \<Rightarrow> match_set list" where
  "or_code_at k [] = []"
| "or_code_at k (ms # mss) = ms\<lparr>ms_action := MA_Or, ms_mark := Suc (length mss) + k\<rparr> # or_code_at k mss"

lemma or_code_at_0: "or_code_at 0 mss = or_code mss"
  by (induction mss) simp_all

lemma or_code_at_snoc: "or_code_at k (xs @ [x]) = or_code_at (Suc k) xs @ [x\<lparr>ms_action := MA_Or, ms_mark := Suc k\<rparr>]"
  by (induction xs) simp_all

lemma length_or_code_at [simp]: "length (or_code_at k mss) = length mss"
  by (induction mss) simp_all

lemma action_self: "ms_action ms = a \<Longrightarrow> ms\<lparr>ms_mark := k\<rparr> = ms\<lparr>ms_action := a, ms_mark := k\<rparr>"
  by simp

lemma encode_ors:
  assumes "length pre + length ors + k < u32_mod"
  shows "\<forall>ms \<in> set ors. ms_action ms = MA_Or \<Longrightarrow>
    encode_jumps_loop (length pre + length ors) re (int (length pre + length ors + k)) (pre @ ors @ post) =
    encode_jumps_loop (length pre) re (int (length pre + length ors + k)) (pre @ or_code_at k ors @ post)"
  using assms
proof (induction ors arbitrary: k post rule: rev_induct)
  case (snoc x xs)
  let ?i = "length pre + length xs"
  let ?ct = "int (length pre + length (xs @ [x]) + k)"
  have i: "length pre + length (xs @ [x]) = Suc ?i" by simp
  have nth: "(pre @ (xs @ [x]) @ post) ! ?i = x" by (simp add: nth_append)
  have upd: "(pre @ (xs @ [x]) @ post)[?i := y] = pre @ xs @ [y] @ post" for y by (simp add: list_update_append)
  have ct: "?ct - int ?i = int (Suc k)" by simp
  have "encode_jumps_loop (Suc ?i) re ?ct (pre @ (xs @ [x]) @ post) =
      encode_jumps_loop ?i re ?ct (pre @ xs @ [x\<lparr>ms_mark := Suc k\<rparr>] @ post)"
    unfolding encode_jumps_loop.simps Let_def nth upd ct using snoc.prems by (simp add: nat_add_distrib)
  also have "x\<lparr>ms_mark := Suc k\<rparr> = x\<lparr>ms_action := MA_Or, ms_mark := Suc k\<rparr>" using snoc.prems(1) by (intro action_self) simp
  also have "encode_jumps_loop ?i re ?ct (pre @ xs @ [x\<lparr>ms_action := MA_Or, ms_mark := Suc k\<rparr>] @ post) =
      encode_jumps_loop (length pre) re ?ct (pre @ or_code_at (Suc k) xs @ [x\<lparr>ms_action := MA_Or, ms_mark := Suc k\<rparr>] @ post)"
    using snoc.IH [of "Suc k" "[x\<lparr>ms_action := MA_Or, ms_mark := Suc k\<rparr>] @ post"] snoc.prems by (simp add: add.commute add.left_commute)
  finally show ?case unfolding i or_code_at_snoc by simp
qed simp

section \<open>Logical AND\<close>

fun and_code :: "nat \<Rightarrow> match_set list list \<Rightarrow> match_set list" where
  "and_code r [] = []"
| "and_code r (d # ds) =
     or_code (butlast d) @ [(last d)\<lparr>ms_action := MA_And, ms_mark := Suc (length (concat ds) + r)\<rparr>] @ and_code r ds"

lemma and_code_snoc: "and_code r (ds @ [d]) = and_code (length d + r) ds @ and_code r [d]"
  by (induction ds) (simp_all add: add.assoc)

lemma encode_clause:
  assumes "sets_ok d" "ms_action (last d) = MA_And" "length pre + length d + r < u32_mod"
  shows "encode_jumps_loop (length pre + length d) (int (length pre + length d + r)) ct (pre @ d @ post) =
    encode_jumps_loop (length pre) (int (length pre + length d + r)) (int (length pre + length (butlast d))) (pre @ and_code r [d] @ post)"
proof -
  obtain ors t where d: "d = ors @ [t]" using assms(1) by (cases d rule: rev_cases) (auto simp: sets_ok_def)
  let ?i = "length pre + length ors"
  let ?re = "int (length pre + length d + r)"
  let ?t = "t\<lparr>ms_action := MA_And, ms_mark := Suc r\<rparr>"
  have i: "length pre + length d = Suc ?i" by (simp add: d)
  have nth: "(pre @ d @ post) ! ?i = t" by (simp add: d nth_append)
  have upd: "(pre @ d @ post)[?i := y] = pre @ ors @ [y] @ post" for y by (simp add: d list_update_append)
  have re: "?re - int ?i = int (Suc r)" by (simp add: d)
  have small: "Suc r < u32_mod" using assms(3) by (simp add: d)
  have "encode_jumps_loop (Suc ?i) ?re ct (pre @ d @ post) = encode_jumps_loop ?i ?re (int ?i) (pre @ ors @ [t\<lparr>ms_mark := Suc r\<rparr>] @ post)"
    unfolding encode_jumps_loop.simps Let_def nth upd re using assms(2) small by (simp add: d nat_add_distrib)
  also have "t\<lparr>ms_mark := Suc r\<rparr> = ?t" using assms(2) by (intro action_self) (simp add: d)
  also have "encode_jumps_loop ?i ?re (int ?i) (pre @ ors @ [?t] @ post) =
      encode_jumps_loop (length pre) ?re (int ?i) (pre @ or_code_at 0 ors @ [?t] @ post)"
    using encode_ors [of pre ors 0 ?re "[?t] @ post"] assms(1,3) by (simp add: sets_ok_def d)
  finally show ?thesis unfolding i by (simp add: d or_code_at_0)
qed

lemma encode_clauses:
  assumes "\<forall>d \<in> set ds. sets_ok d \<and> ms_action (last d) = MA_And" "length pre + length (concat ds) + r < u32_mod"
  shows "\<exists>ct'. encode_jumps_loop (length pre + length (concat ds)) (int (length pre + length (concat ds) + r)) ct (pre @ concat ds @ post) =
    encode_jumps_loop (length pre) (int (length pre + length (concat ds) + r)) ct' (pre @ and_code r ds @ post)"
  using assms
proof (induction ds arbitrary: r ct post rule: rev_induct)
  case Nil
  then show ?case by auto
next
  case (snoc d ds)
  let ?pre = "pre @ concat ds"
  have "encode_jumps_loop (length ?pre + length d) (int (length ?pre + length d + r)) ct (?pre @ d @ post) =
    encode_jumps_loop (length ?pre) (int (length ?pre + length d + r)) (int (length ?pre + length (butlast d))) (?pre @ and_code r [d] @ post)"
    by (rule encode_clause) (use snoc.prems in auto)
  moreover obtain ct' where "encode_jumps_loop (length pre + length (concat ds)) (int (length pre + length (concat ds) + (length d + r)))
      (int (length ?pre + length (butlast d))) (pre @ concat ds @ and_code r [d] @ post) =
    encode_jumps_loop (length pre) (int (length pre + length (concat ds) + (length d + r))) ct' (pre @ and_code (length d + r) ds @ and_code r [d] @ post)"
    using snoc.IH [of "length d + r" "int (length ?pre + length (butlast d))" "and_code r [d] @ post"] snoc.prems by auto
  ultimately show ?case
    by (intro exI [of _ ct']) (simp add: and_code_snoc add.assoc del: and_code.simps)
qed

section \<open>Fragments and pools\<close>

lemma clause_of_sel [simp]: "cl_ors (clause_of d) = butlast d" "cl_tail (clause_of d) = last d"
  by (simp_all add: clause_of_def)

lemma length_rule_code_sets:
  "d \<noteq> [] \<Longrightarrow> \<forall>x \<in> set ds. x \<noteq> [] \<Longrightarrow> length (rule_code (map clause_of ds) (clause_of d) ext) = length (concat ds) + length d"
  by (induction ds) (simp_all add: length_or_code)

lemma rule_code_and:
  assumes "d \<noteq> []"
  shows "\<forall>x \<in> set ds. x \<noteq> [] \<Longrightarrow> rule_code (map clause_of ds) (clause_of d) ext = and_code (length d + ext) ds @ or_code (butlast d) @ [last d]"
proof (induction ds)
  case (Cons x xs)
  then show ?case using length_rule_code_sets [OF assms, of xs ext] by (simp add: add.assoc)
qed simp

lemma encode_frag:
  assumes "frag_ok sss" "length pre + length (concat sss) + MaxMatchSetLen < u32_mod"
  shows "\<exists>re' ct'. encode_jumps_loop (length pre + length (concat sss)) re ct (pre @ concat sss @ post) =
    encode_jumps_loop (length pre) re' ct' (pre @ frag_code sss @ post)"
proof -
  obtain ds d where sss: "sss = ds @ [d]" using assms(1) by (cases sss rule: rev_cases) (auto simp: frag_ok_def)
  have ok: "sets_ok d" "\<forall>x \<in> set ds. sets_ok x \<and> ms_action (last x) = MA_And" using assms(1) by (auto simp: frag_ok_def sss)
  obtain ors t where d: "d = ors @ [t]" using ok(1) by (cases d rule: rev_cases) (auto simp: sets_ok_def)
  have t: "frag_tail sss = t" by (simp add: frag_tail_def sss d)
  let ?pre = "pre @ concat ds"
  let ?i = "length ?pre + length ors"
  let ?ext = "frag_ext sss"
  let ?re = "int (length ?pre + (length d + ?ext))"
  have ext: "?ext < MaxMatchSetLen" using assms(1) by (auto simp: frag_ext_def frag_ok_def MaxMatchSetLen_def)
  have i: "length pre + length (concat sss) = Suc ?i" by (simp add: sss d)
  have nth: "(pre @ concat sss @ post) ! ?i = t" by (simp add: sss d nth_append)
  have "encode_jumps_loop (Suc ?i) re ct (pre @ concat sss @ post) = encode_jumps_loop ?i ?re (int ?i) (pre @ concat sss @ post)"
    unfolding encode_jumps_loop.simps Let_def nth using assms(1) by (auto simp: frag_ok_def t frag_ext_def d algebra_simps of_nat_diff)
  also have "\<dots> = encode_jumps_loop (length ?pre + length ors) ?re (int ?i) (?pre @ ors @ [t] @ post)" by (simp add: sss d)
  also have "\<dots> = encode_jumps_loop (length ?pre) ?re (int ?i) (?pre @ or_code_at 0 ors @ [t] @ post)"
    using encode_ors [of ?pre ors 0 ?re "[t] @ post"] ok(1) assms(2) by (simp add: sets_ok_def sss d)
  finally have A: "encode_jumps_loop (Suc ?i) re ct (pre @ concat sss @ post) =
      encode_jumps_loop (length ?pre) ?re (int ?i) (?pre @ or_code_at 0 ors @ [t] @ post)" .
  have "length pre + length (concat ds) + (length d + ?ext) < u32_mod" using assms(2) ext by (simp add: sss)
  from encode_clauses [OF ok(2) this, of "int ?i" "or_code_at 0 ors @ [t] @ post"] obtain ct' where
    "encode_jumps_loop (length ?pre) ?re (int ?i) (?pre @ or_code_at 0 ors @ [t] @ post) =
      encode_jumps_loop (length pre) ?re ct' (pre @ and_code (length d + ?ext) ds @ or_code_at 0 ors @ [t] @ post)"
    by (auto simp: add.assoc)
  with A have ct': "encode_jumps_loop (Suc ?i) re ct (pre @ concat sss @ post) =
      encode_jumps_loop (length pre) ?re ct' (pre @ and_code (length d + ?ext) ds @ or_code_at 0 ors @ [t] @ post)" by (rule trans)
  have "frag_code sss = and_code (length d + ?ext) ds @ or_code ors @ [t]"
    using rule_code_and [of d ds ?ext] ok by (simp add: frag_code_def sss d sets_ok_def)
  then show ?thesis using ct' unfolding i by (auto simp: or_code_at_0)
qed

text \<open>A pool of well-formed fragments always encodes, fragment by fragment.\<close>

lemma encodeRoutingJumps_frags:
  assumes "\<forall>sss \<in> set frags. frag_ok sss" "length (concat (map concat frags)) + MaxMatchSetLen < u32_mod"
  shows "encodeRoutingJumps (concat (map concat frags)) = Inr (concat (map frag_code frags))"
proof -
  have "\<exists>re' ct'. encode_jumps_loop (length (concat (map concat frags))) re ct (concat (map concat frags) @ post) =
      encode_jumps_loop 0 re' ct' (concat (map frag_code frags) @ post)" for re ct post
    using assms
  proof (induction frags arbitrary: re ct post rule: rev_induct)
    case Nil
    then show ?case by auto
  next
    case (snoc sss frags)
    let ?pre = "concat (map concat frags)"
    obtain re1 ct1 where "encode_jumps_loop (length ?pre + length (concat sss)) re ct (?pre @ concat sss @ post) =
        encode_jumps_loop (length ?pre) re1 ct1 (?pre @ frag_code sss @ post)"
      using encode_frag [of sss ?pre re ct post] snoc.prems by auto
    moreover obtain re2 ct2 where "encode_jumps_loop (length ?pre) re1 ct1 (?pre @ frag_code sss @ post) =
        encode_jumps_loop 0 re2 ct2 (concat (map frag_code frags) @ frag_code sss @ post)"
      using snoc.IH [of re1 ct1 "frag_code sss @ post"] snoc.prems by auto
    ultimately show ?case by auto
  qed
  from this [of "-1" "-1" "[]"] show ?thesis by (auto simp: encodeRoutingJumps_def)
qed

end
