(* ===== verification/Domain_Matcher.thy ===== *)
theory Domain_Matcher
  imports Trie_Correct Routing_Build
begin

text \<open>
  The matcher of all domain predicates (\<^verbatim>\<open>component/routing/domain_matcher\<close>): full names and suffixes in one
  succinct trie per set, over reversed names between the marks \<^verbatim>\<open>^\<close> and \<^verbatim>\<open>$\<close>; keywords in an Aho-Corasick
  automaton; regular expressions one by one. The automaton (\<^verbatim>\<open>ahocorasick-domain\<close>), the regular expression
  engine and lower-casing beyond ASCII are parameters.
\<close>

section \<open>Model\<close>

record domain_lib =
  dl_regexp_ok :: "string \<Rightarrow> bool"
  dl_regexp_match :: "string \<Rightarrow> string \<Rightarrow> bool"
  dl_ac_ok :: "string list \<Rightarrow> bool"
  dl_ac_char :: "char \<Rightarrow> bool"
  dl_ac_contains :: "string list \<Rightarrow> string \<Rightarrow> bool"
  dl_unicode_lower :: "string \<Rightarrow> string"

definition str_ToLower :: "domain_lib \<Rightarrow> string \<Rightarrow> string" where
  "str_ToLower lib s = (if list_all (\<lambda>c. (of_char c :: nat) < 128) s then map lower_char s else dl_unicode_lower lib s)"

definition ValidDomainChars :: valid_chars where
  "ValidDomainChars = NewValidChars (bytes_of_string ''0123456789abcdefghijklmnopqrstuvwxyz-.^_'')"

definition valid_pattern :: "string \<Rightarrow> bool" where
  "valid_pattern d = list_all (\<lambda>c. IsValidChar ValidDomainChars (byte_of_char c)) d"

record slim_build =
  sb_ac :: "string list list"
  sb_trie :: "string list list"
  sb_regexp :: "string list list"
  sb_err :: "string option"

definition NewAhocorasickSlimtrie :: "nat \<Rightarrow> slim_build" where
  "NewAhocorasickSlimtrie bitLength =
     \<lparr>sb_ac = replicate bitLength [], sb_trie = replicate bitLength [], sb_regexp = replicate bitLength [], sb_err = None\<rparr>"

definition push_at :: "nat \<Rightarrow> 'a list \<Rightarrow> 'a list list \<Rightarrow> 'a list list" where
  "push_at i xs xss = xss[i := xss ! i @ xs]"

text \<open>The trie entries of a suffix pattern; invalid full and suffix patterns are skipped.\<close>

definition suffix_entries :: "string \<Rightarrow> string list" where
  "suffix_entries d = (if prefix ''.'' d then [d @ ''$''] else [''.'' @ d @ ''$'', ''^'' @ d @ ''$''])"

fun add_patterns :: "domain_lib \<Rightarrow> nat \<Rightarrow> string \<Rightarrow> string list \<Rightarrow> slim_build \<Rightarrow> slim_build" where
  "add_patterns lib i typ [] n = n"
| "add_patterns lib i typ (d # ds) n =
     (if typ = ''full''
      then add_patterns lib i typ ds (if valid_pattern d then n\<lparr>sb_trie := push_at i [''^'' @ d @ ''$''] (sb_trie n)\<rparr> else n)
      else if typ = ''suffix''
      then add_patterns lib i typ ds (if valid_pattern d then n\<lparr>sb_trie := push_at i (suffix_entries d) (sb_trie n)\<rparr> else n)
      else if typ = ''keyword'' then add_patterns lib i typ ds (n\<lparr>sb_ac := push_at i [d] (sb_ac n)\<rparr>)
      else if typ = ''regex''
      then (if dl_regexp_ok lib d then add_patterns lib i typ ds (n\<lparr>sb_regexp := push_at i [d] (sb_regexp n)\<rparr>) else n\<lparr>sb_err := Some d\<rparr>)
      else n\<lparr>sb_err := Some typ\<rparr>)"

definition AddSet :: "domain_lib \<Rightarrow> nat \<Rightarrow> string list \<Rightarrow> string \<Rightarrow> slim_build \<Rightarrow> slim_build" where
  "AddSet lib bitIndex patterns typ n = (if sb_err n \<noteq> None then n else add_patterns lib bitIndex typ patterns n)"

definition ToSuffixTrieString :: "string \<Rightarrow> string" where
  "ToSuffixTrieString s = rev (str_trim_suffix s ''$'')"

definition ToSuffixTrieStrings :: "string list \<Rightarrow> string list" where
  "ToSuffixTrieStrings s = map ToSuffixTrieString s"

record slim_matcher =
  sm_acIndexes :: "nat list"
  sm_trieIndexes :: "nat list"
  sm_regexpIndexes :: "nat list"
  sm_ac :: "string list list"
  sm_trie :: "trie option list"
  sm_regexp :: "string list list"

definition nonempty_indexes :: "'a list list \<Rightarrow> nat list" where
  "nonempty_indexes xss = filter (\<lambda>i. xss ! i \<noteq> []) [0..<length xss]"

fun build_tries :: "string list list \<Rightarrow> trie_error + trie option list" where
  "build_tries [] = Inr []"
| "build_tries (ks # kss) =
     (case (if ks = [] then Inr None else NewTrie (map bytes_of_string (ToSuffixTrieStrings ks)) ValidDomainChars) of
        Inl e \<Rightarrow> Inl e
      | Inr t \<Rightarrow> (case build_tries kss of Inl e \<Rightarrow> Inl e | Inr ts \<Rightarrow> Inr (t # ts)))"

datatype slim_error = SlimBad string | SlimChar | SlimTrie trie_error

definition slim_Build :: "domain_lib \<Rightarrow> slim_build \<Rightarrow> slim_error + slim_matcher" where
  "slim_Build lib n =
     (case sb_err n of
        Some s \<Rightarrow> Inl (SlimBad s)
      | None \<Rightarrow>
          if list_ex (\<lambda>ps. ps \<noteq> [] \<and> \<not> dl_ac_ok lib ps) (sb_ac n) then Inl SlimChar
          else case build_tries (sb_trie n) of
                 Inl e \<Rightarrow> Inl (SlimTrie e)
               | Inr ts \<Rightarrow> Inr \<lparr>sm_acIndexes = nonempty_indexes (sb_ac n), sm_trieIndexes = nonempty_indexes (sb_trie n),
                                sm_regexpIndexes = nonempty_indexes (sb_regexp n), sm_ac = sb_ac n, sm_trie = ts, sm_regexp = sb_regexp n\<rparr>)"

definition bm_bit :: "u32 list \<Rightarrow> nat \<Rightarrow> bool" where
  "bm_bit bm i = (bm ! (i div 32) AND push_bit (i mod 32) 1 \<noteq> 0)"

definition bm_set :: "u32 list \<Rightarrow> nat \<Rightarrow> u32 list" where
  "bm_set bm i = bm[i div 32 := bm ! (i div 32) OR push_bit (i mod 32) 1]"

text \<open>One pass over the indexes of a kind: indexes that already match are skipped.\<close>

definition match_pass :: "(nat \<Rightarrow> bool) \<Rightarrow> nat list \<Rightarrow> u32 list \<Rightarrow> u32 list" where
  "match_pass hit ixs bm = foldl (\<lambda>bm i. if bm_bit bm i then bm else if hit i then bm_set bm i else bm) bm ixs"

text \<open>No result is a panic of a trie query. The indexes of a built matcher are those of the sets that were added, below
  the size of the bitmap.\<close>

definition MatchDomainBitmap :: "domain_lib \<Rightarrow> slim_matcher \<Rightarrow> string \<Rightarrow> u32 list option" where
  "MatchDomainBitmap lib n domain0 =
     (let len = length (sm_ac n);
          bm0 = replicate (if len mod 32 \<noteq> 0 then Suc (len div 32) else len div 32) 0;
          domain = str_ToLower lib (str_trim_suffix domain0 ''.'');
          key = bytes_of_string (ToSuffixTrieString (''^'' @ domain))
      in if list_ex (\<lambda>i. HasPrefix (sm_trie n ! i) key = None) (sm_trieIndexes n) then None
         else let bm1 = match_pass (\<lambda>i. HasPrefix (sm_trie n ! i) key = Some True) (sm_trieIndexes n) bm0;
                  bm2 = match_pass (\<lambda>i. dl_ac_contains lib (sm_ac n ! i) (''^'' @ domain @ ''$'')) (sm_acIndexes n) bm1
              in Some (match_pass (\<lambda>i. list_ex (\<lambda>r. dl_regexp_match lib r domain) (sm_regexp n ! i)) (sm_regexpIndexes n) bm2))"

definition ValidateSet :: "domain_lib \<Rightarrow> string list \<Rightarrow> string \<Rightarrow> bool" where
  "ValidateSet lib patterns typ =
     list_all (\<lambda>pattern. if typ = ''regex'' then dl_regexp_ok lib pattern
                         else if typ = ''keyword'' then list_all (dl_ac_char lib) pattern
                         else typ = ''full'' \<or> typ = ''suffix'') patterns"

text \<open>All sets of a builder, in the order in which \<^verbatim>\<open>buildUserspace\<close> adds them.\<close>

definition build_domain_matcher :: "domain_lib \<Rightarrow> domain_set list \<Rightarrow> slim_error + slim_matcher" where
  "build_domain_matcher lib sets =
     slim_Build lib (foldl (\<lambda>n s. AddSet lib (ds_RuleIndex s) (ds_Domains s) (ds_Key s) n) (NewAhocorasickSlimtrie MaxMatchSetLen) sets)"

section \<open>The entries of a set\<close>

definition trie_entries :: "string \<Rightarrow> string list \<Rightarrow> string list" where
  "trie_entries typ ds = (if typ = ''full'' then map (\<lambda>d. ''^'' @ d @ ''$'') (filter valid_pattern ds)
     else if typ = ''suffix'' then concat (map suffix_entries (filter valid_pattern ds)) else [])"

definition ac_entries :: "string \<Rightarrow> string list \<Rightarrow> string list" where
  "ac_entries typ ds = (if typ = ''keyword'' then ds else [])"

definition regexp_entries :: "string \<Rightarrow> string list \<Rightarrow> string list" where
  "regexp_entries typ ds = (if typ = ''regex'' then ds else [])"

definition domain_key_ok :: "domain_lib \<Rightarrow> string \<Rightarrow> string list \<Rightarrow> bool" where
  "domain_key_ok lib typ ds \<longleftrightarrow> typ \<in> {''full'', ''suffix'', ''keyword''} \<or> (typ = ''regex'' \<and> (\<forall>d \<in> set ds. dl_regexp_ok lib d))"

lemma push_at_push: "i < length xss \<Longrightarrow> push_at i ys (push_at i xs xss) = push_at i (xs @ ys) xss"
  by (simp add: push_at_def)

lemma push_at_nil: "push_at i [] xss = xss"
  by (simp add: push_at_def)

lemma length_push_at [simp]: "length (push_at i xs xss) = length xss"
  by (simp add: push_at_def)

definition pushed :: "nat \<Rightarrow> string \<Rightarrow> string list \<Rightarrow> slim_build \<Rightarrow> slim_build" where
  "pushed i typ ds n = n\<lparr>sb_ac := push_at i (ac_entries typ ds) (sb_ac n), sb_trie := push_at i (trie_entries typ ds) (sb_trie n),
     sb_regexp := push_at i (regexp_entries typ ds) (sb_regexp n)\<rparr>"

lemma add_patterns_pushed:
  assumes "domain_key_ok lib typ ds" "i < length (sb_ac n)" "i < length (sb_trie n)" "i < length (sb_regexp n)"
  shows "add_patterns lib i typ ds n = pushed i typ ds n"
  using assms
proof (induction ds arbitrary: n)
  case Nil
  then show ?case by (simp add: pushed_def trie_entries_def ac_entries_def regexp_entries_def push_at_nil)
next
  case (Cons d ds)
  have ok: "domain_key_ok lib typ ds" "typ = ''regex'' \<longrightarrow> dl_regexp_ok lib d" using Cons.prems(1) by (auto simp: domain_key_ok_def)
  consider "typ = ''full''" | "typ = ''suffix''" | "typ = ''keyword''" | "typ = ''regex''" using Cons.prems(1) by (auto simp: domain_key_ok_def)
  then show ?case
    by cases (use Cons.IH [OF ok(1)] Cons.prems ok(2) in
      \<open>auto simp: pushed_def trie_entries_def ac_entries_def regexp_entries_def push_at_nil push_at_push\<close>)
qed

text \<open>The sets as the builder numbers them: the set at position \<open>k\<close> has index \<open>k\<close>.\<close>

definition domain_sets_ok :: "domain_lib \<Rightarrow> domain_set list \<Rightarrow> bool" where
  "domain_sets_ok lib sets \<longleftrightarrow> length sets \<le> MaxMatchSetLen \<and>
     (\<forall>k < length sets. ds_RuleIndex (sets ! k) = k \<and> domain_key_ok lib (ds_Key (sets ! k)) (ds_Domains (sets ! k)))"

definition padded :: "(domain_set \<Rightarrow> 'a list) \<Rightarrow> domain_set list \<Rightarrow> 'a list list" where
  "padded f sets = map f sets @ replicate (MaxMatchSetLen - length sets) []"

lemma length_padded: "length sets \<le> MaxMatchSetLen \<Longrightarrow> length (padded f sets) = MaxMatchSetLen"
  by (simp add: padded_def)

lemma push_padded:
  assumes "length sets < MaxMatchSetLen"
  shows "push_at (length sets) (f s) (padded f sets) = padded f (sets @ [s])"
proof -
  obtain m where m: "MaxMatchSetLen - length sets = Suc m" using assms by (cases "MaxMatchSetLen - length sets") auto
  then have "MaxMatchSetLen - length (sets @ [s]) = m" by simp
  then show ?thesis by (simp add: padded_def push_at_def m nth_append list_update_append)
qed

lemma build_sets:
  assumes "domain_sets_ok lib sets"
  shows "foldl (\<lambda>n s. AddSet lib (ds_RuleIndex s) (ds_Domains s) (ds_Key s) n) (NewAhocorasickSlimtrie MaxMatchSetLen) sets =
    \<lparr>sb_ac = padded (\<lambda>s. ac_entries (ds_Key s) (ds_Domains s)) sets, sb_trie = padded (\<lambda>s. trie_entries (ds_Key s) (ds_Domains s)) sets,
     sb_regexp = padded (\<lambda>s. regexp_entries (ds_Key s) (ds_Domains s)) sets, sb_err = None\<rparr>"
  using assms
proof (induction sets rule: rev_induct)
  case Nil
  then show ?case by (simp add: NewAhocorasickSlimtrie_def padded_def)
next
  case (snoc s sets)
  have ok: "domain_sets_ok lib sets" unfolding domain_sets_ok_def
  proof (intro conjI allI impI)
    show "length sets \<le> MaxMatchSetLen" using snoc.prems by (simp add: domain_sets_ok_def)
    fix k assume k: "k < length sets"
    then have "k < length (sets @ [s])" "(sets @ [s]) ! k = sets ! k" by (simp_all add: nth_append)
    then show "ds_RuleIndex (sets ! k) = k" "domain_key_ok lib (ds_Key (sets ! k)) (ds_Domains (sets ! k))"
      using snoc.prems unfolding domain_sets_ok_def by metis+
  qed
  have s: "ds_RuleIndex s = length sets" "domain_key_ok lib (ds_Key s) (ds_Domains s)" "length sets < MaxMatchSetLen"
    using snoc.prems unfolding domain_sets_ok_def by (auto dest: spec [of _ "length sets"])
  show ?case
    unfolding foldl_append foldl.simps snoc.IH [OF ok]
    using s push_padded [OF s(3), of "\<lambda>s. ac_entries (ds_Key s) (ds_Domains s)" s]
      push_padded [OF s(3), of "\<lambda>s. trie_entries (ds_Key s) (ds_Domains s)" s]
      push_padded [OF s(3), of "\<lambda>s. regexp_entries (ds_Key s) (ds_Domains s)" s]
    by (simp add: AddSet_def add_patterns_pushed length_padded pushed_def)
qed

section \<open>Bitmaps\<close>

lemma bm_bit_bit: "bm_bit bm i = bit (bm ! (i div 32)) (i mod 32)"
  by (simp add: bm_bit_def bit_iff_and_push_bit_not_eq_0)

lemma bm_bit_set:
  assumes "i div 32 < length bm" "j div 32 < length bm"
  shows "bm_bit (bm_set bm i) j \<longleftrightarrow> bm_bit bm j \<or> i = j"
proof (cases "i div 32 = j div 32")
  case True
  then have "bm_bit (bm_set bm i) j \<longleftrightarrow> bit (bm ! (j div 32) OR push_bit (i mod 32) 1) (j mod 32)"
    using assms by (simp add: bm_bit_bit bm_set_def)
  moreover have "j mod 32 < 32" by simp
  ultimately show ?thesis using True div_mod_cancel_iff [of i 32 j] by (auto simp: bm_bit_bit bit_simps)
next
  case False
  then show ?thesis using assms by (auto simp: bm_bit_bit bm_set_def)
qed

lemma match_pass_spec:
  assumes "\<forall>i \<in> set ixs. i div 32 < length bm"
  shows "length (match_pass hit ixs bm) = length bm \<and>
    (\<forall>j. j div 32 < length bm \<longrightarrow> bm_bit (match_pass hit ixs bm) j = (bm_bit bm j \<or> (j \<in> set ixs \<and> hit j)))"
  using assms
proof (induction ixs arbitrary: bm)
  case Nil
  then show ?case by (simp add: match_pass_def)
next
  case (Cons i ixs)
  define bm' where "bm' = (if bm_bit bm i then bm else if hit i then bm_set bm i else bm)"
  have len: "length bm' = length bm" by (simp add: bm'_def bm_set_def)
  have eq: "match_pass hit (i # ixs) bm = match_pass hit ixs bm'" by (simp add: match_pass_def bm'_def)
  have i: "i div 32 < length bm" using Cons.prems by simp
  have "bm_bit bm' j = (bm_bit bm j \<or> (j = i \<and> hit i))" if "j div 32 < length bm" for j
    using bm_bit_set [OF i that] by (auto simp: bm'_def)
  then show ?case unfolding eq using Cons.IH [of bm'] Cons.prems len by auto
qed

lemma three_passes:
  fixes f g h :: "nat \<Rightarrow> bool"
  assumes "\<forall>i \<in> set a \<union> set b \<union> set c. i div 32 < 32"
  defines "bm \<equiv> match_pass h c (match_pass g b (match_pass f a (replicate 32 0)))"
  shows "length bm = 32" "j div 32 < 32 \<Longrightarrow> bm_bit bm j \<longleftrightarrow> (j \<in> set a \<and> f j) \<or> (j \<in> set b \<and> g j) \<or> (j \<in> set c \<and> h j)"
proof -
  define bm1 where "bm1 = match_pass f a (replicate 32 0)"
  define bm2 where "bm2 = match_pass g b bm1"
  have 1: "length bm1 = 32" "\<forall>j. j div 32 < 32 \<longrightarrow> bm_bit bm1 j = (j \<in> set a \<and> f j)"
    using match_pass_spec [of a "replicate 32 0" f] assms(1) by (auto simp: bm1_def bm_bit_bit)
  have 2: "length bm2 = 32" "\<forall>j. j div 32 < 32 \<longrightarrow> bm_bit bm2 j = (bm_bit bm1 j \<or> j \<in> set b \<and> g j)"
    using match_pass_spec [of b bm1 g] assms(1) 1(1) by (auto simp: bm2_def)
  have 3: "length bm = 32" "\<forall>j. j div 32 < 32 \<longrightarrow> bm_bit bm j = (bm_bit bm2 j \<or> j \<in> set c \<and> h j)"
    using match_pass_spec [of c bm2 h] assms(1) 2(1) by (auto simp: bm_def bm2_def bm1_def)
  show "length bm = 32" by (rule 3)
  show "bm_bit bm j \<longleftrightarrow> (j \<in> set a \<and> f j) \<or> (j \<in> set b \<and> g j) \<or> (j \<in> set c \<and> h j)" if "j div 32 < 32"
    using 1 2 3 that by blast
qed

section \<open>One trie per set\<close>

lemma inj_byte_of_char: "inj byte_of_char"
  by (rule injI) simp

lemma prefix_map_inj: "inj f \<Longrightarrow> prefix (map f xs) (map f ys) = prefix xs ys"
  by (induction xs arbitrary: ys) (case_tac ys; auto simp: inj_eq)+

lemma entry_chars:
  assumes "e \<in> set (trie_entries typ ds)"
  obtains e' where "e = e' @ ''$''" "valid_pattern e'"
proof -
  have dot: "IsValidChar ValidDomainChars (byte_of_char (CHR ''.''))" "IsValidChar ValidDomainChars (byte_of_char (CHR ''^''))"
    by code_simp+
  show thesis
    using assms that dot by (fastforce simp: trie_entries_def suffix_entries_def valid_pattern_def split: if_splits)
qed

definition domain_bytes :: bytes where
  "domain_bytes = bytes_of_string ''0123456789abcdefghijklmnopqrstuvwxyz-.^_''"

lemma domain_bytes_ok: "distinct domain_bytes" "domain_bytes \<noteq> []" "length domain_bytes \<le> 256"
proof -
  have "distinct ''0123456789abcdefghijklmnopqrstuvwxyz-.^_''" by simp
  then show "distinct domain_bytes"
    unfolding domain_bytes_def bytes_of_string_def distinct_map using inj_on_subset [OF inj_byte_of_char] by blast
qed (simp_all add: domain_bytes_def bytes_of_string_def)

lemma ValidDomainChars_bytes: "ValidDomainChars = NewValidChars domain_bytes"
  unfolding ValidDomainChars_def domain_bytes_def ..

lemma valid_pattern_chars: "valid_pattern d \<Longrightarrow> set (bytes_of_string d) \<subseteq> set domain_bytes"
  unfolding valid_pattern_def ValidDomainChars_bytes NewValidChars_spec(3) [OF domain_bytes_ok] bytes_of_string_def
  by (auto simp: list_all_iff)

lemma trim_dollar [simp]: "str_trim_suffix (e @ ''$'') ''$'' = e"
  by (simp add: str_trim_suffix_def suffix_def)

definition entry_hit :: "string list \<Rightarrow> string \<Rightarrow> bool" where
  "entry_hit es word \<longleftrightarrow> (\<exists>e. e @ ''$'' \<in> set es \<and> suffix e word)"

lemma set_trie:
  fixes ty :: string and ds :: "string list"
  defines "es \<equiv> trie_entries ty ds"
  assumes "sum_list (map length es) < 2 ^ 29"
  shows "\<exists>t. (if es = [] then Inr None else NewTrie (map bytes_of_string (ToSuffixTrieStrings es)) ValidDomainChars) = Inr t \<and>
    (\<forall>word. HasPrefix t (bytes_of_string (rev word)) = Some (entry_hit es word))"
proof (cases "es = []")
  case True
  then show ?thesis by (simp add: HasPrefix_def entry_hit_def)
next
  case False
  define ks where "ks = map bytes_of_string (ToSuffixTrieStrings es)"
  have shape: "\<exists>e'. e = e' @ ''$'' \<and> valid_pattern e'" if "e \<in> set es" for e
    using entry_chars that unfolding es_def by metis
  have sub: "\<forall>k \<in> set ks. set k \<subseteq> set domain_bytes"
  proof
    fix k assume "k \<in> set ks"
    then obtain e where e: "e \<in> set es" "k = bytes_of_string (ToSuffixTrieString e)" by (auto simp: ks_def ToSuffixTrieStrings_def)
    from shape [OF e(1)] obtain e' where "e = e' @ ''$''" "valid_pattern e'" by blast
    then have "set k = set (bytes_of_string e')" using e(2) by (simp add: ToSuffixTrieString_def bytes_of_string_def)
    then show "set k \<subseteq> set domain_bytes"
      using valid_pattern_chars [OF \<open>valid_pattern e'\<close>] by simp
  qed
  have "sum_list (map length ks) \<le> sum_list (map length es)"
    unfolding ks_def ToSuffixTrieStrings_def map_map by (rule sum_list_mono) (simp add: ToSuffixTrieString_def str_trim_suffix_def)
  then have "sum_list (map length ks) < 2 ^ 29" using assms(2) by simp
  from trie_of_keys [OF domain_bytes_ok sub this] obtain t where t: "NewTrie ks ValidDomainChars = Inr t"
    "\<forall>word. HasPrefix t word = Some (\<exists>k \<in> set ks. prefix k word)" unfolding ValidDomainChars_bytes by blast
  have "(\<exists>k \<in> set ks. prefix k (bytes_of_string (rev word))) = entry_hit es word" for word
  proof -
    have "prefix (bytes_of_string (ToSuffixTrieString (e @ ''$''))) (bytes_of_string (rev word)) = suffix e word" for e
      by (simp add: bytes_of_string_def ToSuffixTrieString_def prefix_map_inj inj_byte_of_char suffix_to_prefix)
    then show ?thesis using shape by (fastforce simp: ks_def ToSuffixTrieStrings_def entry_hit_def)
  qed
  then show ?thesis using t False by (auto simp: ks_def)
qed

lemma build_tries_ok:
  assumes "\<forall>es \<in> set ess. \<exists>t. (if es = [] then Inr None else NewTrie (map bytes_of_string (ToSuffixTrieStrings es)) ValidDomainChars) = Inr t \<and> P es t"
  shows "\<exists>ts. build_tries ess = Inr ts \<and> list_all2 P ess ts"
  using assms
proof (induction ess)
  case Nil
  then show ?case by simp
next
  case (Cons es ess)
  then obtain ts where ts: "build_tries ess = Inr ts" "list_all2 P ess ts" by auto
  from Cons.prems obtain t where "(if es = [] then Inr None else NewTrie (map bytes_of_string (ToSuffixTrieStrings es)) ValidDomainChars) = Inr t" "P es t"
    by auto
  then have "build_tries (es # ess) = Inr (t # ts)" using ts(1) unfolding build_tries.simps by simp
  then show ?case using ts(2) \<open>P es t\<close> by auto
qed

section \<open>What a domain set means\<close>

text \<open>The matches of a set on a name without trailing dot, in lower case.\<close>

definition set_matches :: "domain_lib \<Rightarrow> domain_set \<Rightarrow> string \<Rightarrow> bool" where
  "set_matches lib s d \<longleftrightarrow>
     (ds_Key s = ''full'' \<and> (\<exists>p \<in> set (ds_Domains s). valid_pattern p \<and> p = d)) \<or>
     (ds_Key s = ''suffix'' \<and> (\<exists>p \<in> set (ds_Domains s). valid_pattern p \<and>
        (if prefix ''.'' p then suffix p d else p = d \<or> suffix (''.'' @ p) d))) \<or>
     (ds_Key s = ''keyword'' \<and> ds_Domains s \<noteq> [] \<and> dl_ac_contains lib (ds_Domains s) (''^'' @ d @ ''$'')) \<or>
     (ds_Key s = ''regex'' \<and> (\<exists>r \<in> set (ds_Domains s). dl_regexp_match lib r d))"

lemma caret_suffix: "CHR ''^'' \<notin> set d \<Longrightarrow> suffix (CHR ''^'' # p) (CHR ''^'' # d) \<longleftrightarrow> p = d"
  by (auto simp: suffix_def Cons_eq_append_conv)

lemma dot_suffix: "suffix (CHR ''.'' # p) (CHR ''^'' # d) \<longleftrightarrow> suffix (CHR ''.'' # p) d"
  by (auto simp: suffix_def Cons_eq_append_conv)

lemma entry_hit_full: "CHR ''^'' \<notin> set d \<Longrightarrow>
  entry_hit (trie_entries ''full'' ds) (CHR ''^'' # d) \<longleftrightarrow> (\<exists>p \<in> set ds. valid_pattern p \<and> p = d)"
proof -
  assume d: "CHR ''^'' \<notin> set d"
  have "(\<exists>e. e @ ''$'' \<in> set (trie_entries ''full'' ds) \<and> suffix e w) \<longleftrightarrow> (\<exists>p \<in> set ds. valid_pattern p \<and> suffix (CHR ''^'' # p) w)" for w
    by (force simp: trie_entries_def)
  then show ?thesis unfolding entry_hit_def using caret_suffix [OF d] by simp
qed

lemma entry_hit_suffix: "CHR ''^'' \<notin> set d \<Longrightarrow>
  entry_hit (trie_entries ''suffix'' ds) (CHR ''^'' # d) \<longleftrightarrow>
  (\<exists>p \<in> set ds. valid_pattern p \<and> (if prefix ''.'' p then suffix p d else p = d \<or> suffix (''.'' @ p) d))"
proof -
  assume d: "CHR ''^'' \<notin> set d"
  have "(\<exists>e. e @ ''$'' \<in> set (suffix_entries p) \<and> suffix e (CHR ''^'' # d)) \<longleftrightarrow>
      (if prefix ''.'' p then suffix p d else p = d \<or> suffix (''.'' @ p) d)" for p
    using d dot_suffix [of "tl p" d] dot_suffix [of p d] caret_suffix [OF d, of p]
    by (cases p) (auto simp: suffix_entries_def)
  note one = this
  have "entry_hit (trie_entries ''suffix'' ds) (CHR ''^'' # d) \<longleftrightarrow>
      (\<exists>p \<in> set ds. valid_pattern p \<and> (\<exists>e. e @ ''$'' \<in> set (suffix_entries p) \<and> suffix e (CHR ''^'' # d)))"
    unfolding entry_hit_def trie_entries_def by auto
  then show ?thesis unfolding one .
qed

lemma set_matches_entries:
  assumes "CHR ''^'' \<notin> set d" "domain_key_ok lib (ds_Key s) (ds_Domains s)"
  shows "set_matches lib s d \<longleftrightarrow> entry_hit (trie_entries (ds_Key s) (ds_Domains s)) (''^'' @ d) \<or>
    (ac_entries (ds_Key s) (ds_Domains s) \<noteq> [] \<and> dl_ac_contains lib (ac_entries (ds_Key s) (ds_Domains s)) (''^'' @ d @ ''$'')) \<or>
    (\<exists>r \<in> set (regexp_entries (ds_Key s) (ds_Domains s)). dl_regexp_match lib r d)"
proof -
  have none: "entry_hit [] w = False" for w by (simp add: entry_hit_def)
  consider "ds_Key s = ''full''" | "ds_Key s = ''suffix''" | "ds_Key s = ''keyword''" | "ds_Key s = ''regex''"
    using assms(2) by (auto simp: domain_key_ok_def)
  then show ?thesis
  proof cases
    case 1
    then show ?thesis using entry_hit_full [OF assms(1)] by (simp add: set_matches_def ac_entries_def regexp_entries_def)
  next
    case 2
    then show ?thesis using entry_hit_suffix [OF assms(1)] by (simp add: set_matches_def ac_entries_def regexp_entries_def)
  qed (simp_all add: set_matches_def trie_entries_def ac_entries_def regexp_entries_def none)
qed

section \<open>The bitmap of a name\<close>

definition clean_name :: "string \<Rightarrow> bool" where
  "clean_name d \<longleftrightarrow> CHR ''^'' \<notin> set d \<and> CHR ''$'' \<notin> set d"

definition lookup_name :: "domain_lib \<Rightarrow> string \<Rightarrow> string" where
  "lookup_name lib domain = str_ToLower lib (str_trim_suffix domain ''.'')"

lemma padded_nth: "i < MaxMatchSetLen \<Longrightarrow> length sets \<le> MaxMatchSetLen \<Longrightarrow> padded f sets ! i = (if i < length sets then f (sets ! i) else [])"
  by (auto simp: padded_def nth_append)

lemma nonempty_padded:
  "length sets \<le> MaxMatchSetLen \<Longrightarrow> i \<in> set (nonempty_indexes (padded f sets)) \<longleftrightarrow> i < length sets \<and> f (sets ! i) \<noteq> []"
  by (auto simp: nonempty_indexes_def length_padded padded_nth split: if_splits)

lemma trim_clean: "CHR ''$'' \<notin> set d \<Longrightarrow> str_trim_suffix (CHR ''^'' # d) ''$'' = CHR ''^'' # d"
  using set_mono_suffix [of "''$''" "CHR ''^'' # d"] by (auto simp: str_trim_suffix_def)

definition sets_small :: "domain_set list \<Rightarrow> bool" where
  "sets_small sets \<longleftrightarrow> (\<forall>s \<in> set sets. sum_list (map length (trie_entries (ds_Key s) (ds_Domains s))) < 2 ^ 29)"

definition keywords_ok :: "domain_lib \<Rightarrow> domain_set list \<Rightarrow> bool" where
  "keywords_ok lib sets \<longleftrightarrow> (\<forall>s \<in> set sets. ds_Key s = ''keyword'' \<and> ds_Domains s \<noteq> [] \<longrightarrow> dl_ac_ok lib (ds_Domains s))"

lemma built_tries:
  assumes "sets_small sets" "length sets \<le> MaxMatchSetLen"
  shows "\<exists>ts. build_tries (padded (\<lambda>s. trie_entries (ds_Key s) (ds_Domains s)) sets) = Inr ts \<and>
    (\<forall>i word. i < MaxMatchSetLen \<longrightarrow> HasPrefix (ts ! i) (bytes_of_string (rev word)) =
       Some (i < length sets \<and> entry_hit (trie_entries (ds_Key (sets ! i)) (ds_Domains (sets ! i))) word))"
proof -
  define ess where "ess = padded (\<lambda>s. trie_entries (ds_Key s) (ds_Domains s)) sets"
  define Q where "Q = (\<lambda>es t. \<forall>word. HasPrefix t (bytes_of_string (rev word)) = Some (entry_hit es word))"
  have "\<exists>t. (if es = [] then Inr None else NewTrie (map bytes_of_string (ToSuffixTrieStrings es)) ValidDomainChars) = Inr t \<and> Q es t"
    if es: "es \<in> set ess" for es
  proof (cases "es = []")
    case True
    then show ?thesis by (simp add: Q_def HasPrefix_def entry_hit_def)
  next
    case False
    then obtain s where "s \<in> set sets" "es = trie_entries (ds_Key s) (ds_Domains s)" using es by (auto simp: ess_def padded_def)
    then show ?thesis using set_trie [of "ds_Key s" "ds_Domains s"] assms(1) unfolding Q_def sets_small_def by blast
  qed
  then obtain ts where ts: "build_tries ess = Inr ts" "list_all2 Q ess ts" using build_tries_ok [of ess Q] by blast
  have "HasPrefix (ts ! i) (bytes_of_string (rev word)) =
      Some (i < length sets \<and> entry_hit (trie_entries (ds_Key (sets ! i)) (ds_Domains (sets ! i))) word)" if "i < MaxMatchSetLen" for i word
  proof -
    have "Q (ess ! i) (ts ! i)" using ts(2) that assms(2) by (simp add: ess_def length_padded list_all2_nthD)
    then show ?thesis using that assms(2) by (simp add: Q_def ess_def padded_nth entry_hit_def)
  qed
  then show ?thesis using ts(1) unfolding ess_def by blast
qed

lemma bitmap_len: "length bm = 32 \<Longrightarrow> i div 32 < length bm \<longleftrightarrow> i < MaxMatchSetLen"
  by (auto simp: MaxMatchSetLen_def)

definition entries_match :: "domain_lib \<Rightarrow> domain_set \<Rightarrow> string \<Rightarrow> bool" where
  "entries_match lib s d \<longleftrightarrow> entry_hit (trie_entries (ds_Key s) (ds_Domains s)) (str_trim_suffix (''^'' @ d) ''$'') \<or>
     (ac_entries (ds_Key s) (ds_Domains s) \<noteq> [] \<and> dl_ac_contains lib (ac_entries (ds_Key s) (ds_Domains s)) (''^'' @ d @ ''$'')) \<or>
     (\<exists>r \<in> set (regexp_entries (ds_Key s) (ds_Domains s)). dl_regexp_match lib r d)"

lemma slim_matches:
  assumes len: "length sets \<le> MaxMatchSetLen"
    and ts: "\<And>i word. i < MaxMatchSetLen \<Longrightarrow> HasPrefix (ts ! i) (bytes_of_string (rev word)) =
       Some (i < length sets \<and> entry_hit (trie_entries (ds_Key (sets ! i)) (ds_Domains (sets ! i))) word)"
  defines "acs \<equiv> padded (\<lambda>s. ac_entries (ds_Key s) (ds_Domains s)) sets"
    and "ess \<equiv> padded (\<lambda>s. trie_entries (ds_Key s) (ds_Domains s)) sets"
    and "res \<equiv> padded (\<lambda>s. regexp_entries (ds_Key s) (ds_Domains s)) sets"
  shows "\<exists>bm. MatchDomainBitmap lib \<lparr>sm_acIndexes = nonempty_indexes acs, sm_trieIndexes = nonempty_indexes ess,
      sm_regexpIndexes = nonempty_indexes res, sm_ac = acs, sm_trie = ts, sm_regexp = res\<rparr> domain = Some bm \<and>
    (\<forall>i. bitmap_has (Some bm) i \<longleftrightarrow> i < length sets \<and> entries_match lib (sets ! i) (lookup_name lib domain))"
proof -
  define d where "d = lookup_name lib domain"
  define w where "w = str_trim_suffix (''^'' @ d) ''$''"
  define th where "th = (\<lambda>i. HasPrefix (ts ! i) (bytes_of_string (rev w)) = Some True)"
  define ah where "ah = (\<lambda>i. dl_ac_contains lib (acs ! i) (''^'' @ d @ ''$''))"
  define rh where "rh = (\<lambda>i. list_ex (\<lambda>r. dl_regexp_match lib r d) (res ! i))"
  define bm where "bm = match_pass rh (nonempty_indexes res) (match_pass ah (nonempty_indexes acs) (match_pass th (nonempty_indexes ess) (replicate 32 0)))"
  have ixs: "i div 32 < 32" if "i \<in> set (nonempty_indexes (padded f sets))" for i and f :: "domain_set \<Rightarrow> string list"
  proof -
    have "i < MaxMatchSetLen" using nonempty_padded [OF len, of i f] len that by simp
    then show ?thesis by (simp add: MaxMatchSetLen_def less_mult_imp_div_less)
  qed
  have bits: "length bm = 32" "\<And>j. j div 32 < 32 \<Longrightarrow> bm_bit bm j \<longleftrightarrow> (j \<in> set (nonempty_indexes ess) \<and> th j) \<or>
      (j \<in> set (nonempty_indexes acs) \<and> ah j) \<or> (j \<in> set (nonempty_indexes res) \<and> rh j)"
    using three_passes [where a = "nonempty_indexes ess" and b = "nonempty_indexes acs" and c = "nonempty_indexes res" and f = th and g = ah and h = rh] ixs
    by (auto simp: bm_def ess_def acs_def res_def)
  have "\<not> list_ex (\<lambda>i. HasPrefix (ts ! i) (bytes_of_string (rev w)) = None) (nonempty_indexes ess)"
    using ts [of _ w] len by (auto simp: list_ex_iff ess_def nonempty_padded [OF len])
  moreover have "length acs = 1024" using len by (simp add: acs_def length_padded MaxMatchSetLen_def)
  ultimately have r: "MatchDomainBitmap lib \<lparr>sm_acIndexes = nonempty_indexes acs, sm_trieIndexes = nonempty_indexes ess,
      sm_regexpIndexes = nonempty_indexes res, sm_ac = acs, sm_trie = ts, sm_regexp = res\<rparr> domain = Some bm"
    by (simp add: MatchDomainBitmap_def bm_def th_def ah_def rh_def d_def w_def lookup_name_def ToSuffixTrieString_def Let_def)
  have "bitmap_has (Some bm) i \<longleftrightarrow> i < length sets \<and> entries_match lib (sets ! i) d" for i
  proof (cases "i < MaxMatchSetLen")
    case False
    then have "\<not> i div 32 < length bm" using bitmap_len [OF bits(1)] by simp
    then show ?thesis using len False by (auto simp: bitmap_has_def)
  next
    case True
    then have i: "i div 32 < 32" using bitmap_len [OF bits(1), of i] bits(1) by simp
    then have "bitmap_has (Some bm) i \<longleftrightarrow> bm_bit bm i" using bits(1) by (simp add: bitmap_has_def bm_bit_bit)
    moreover have "entry_hit [] w = False" by (simp add: entry_hit_def)
    ultimately show ?thesis
      using bits(2) [OF i] ts [OF True, of w] True len
      unfolding th_def ah_def rh_def entries_match_def w_def [symmetric] ess_def acs_def res_def nonempty_padded [OF len]
      by (cases "i < length sets") (auto simp: padded_nth list_ex_iff)
  qed
  then show ?thesis using r unfolding d_def by blast
qed

text \<open>Every name, also one with the marks in it.\<close>

lemma domain_bitmap_entries:
  assumes ok: "domain_sets_ok lib sets" and kw: "keywords_ok lib sets" and small: "sets_small sets"
  shows "\<exists>m. build_domain_matcher lib sets = Inr m \<and>
    (\<forall>domain. \<exists>bm. MatchDomainBitmap lib m domain = Some bm \<and>
       (\<forall>i. bitmap_has (Some bm) i \<longleftrightarrow> i < length sets \<and> entries_match lib (sets ! i) (lookup_name lib domain)))"
proof -
  define acs where "acs = padded (\<lambda>s. ac_entries (ds_Key s) (ds_Domains s)) sets"
  have len: "length sets \<le> MaxMatchSetLen" using ok by (simp add: domain_sets_ok_def)
  obtain ts where ts: "build_tries (padded (\<lambda>s. trie_entries (ds_Key s) (ds_Domains s)) sets) = Inr ts"
    "\<And>i word. i < MaxMatchSetLen \<Longrightarrow> HasPrefix (ts ! i) (bytes_of_string (rev word)) =
       Some (i < length sets \<and> entry_hit (trie_entries (ds_Key (sets ! i)) (ds_Domains (sets ! i))) word)"
    using built_tries [OF small len] by blast
  have "\<not> list_ex (\<lambda>ps. ps \<noteq> [] \<and> \<not> dl_ac_ok lib ps) acs"
    using kw by (auto simp: acs_def padded_def list_ex_iff keywords_ok_def ac_entries_def split: if_splits)
  then have "build_domain_matcher lib sets = Inr
      \<lparr>sm_acIndexes = nonempty_indexes acs, sm_trieIndexes = nonempty_indexes (padded (\<lambda>s. trie_entries (ds_Key s) (ds_Domains s)) sets),
       sm_regexpIndexes = nonempty_indexes (padded (\<lambda>s. regexp_entries (ds_Key s) (ds_Domains s)) sets), sm_ac = acs, sm_trie = ts,
       sm_regexp = padded (\<lambda>s. regexp_entries (ds_Key s) (ds_Domains s)) sets\<rparr>"
    using ts(1) by (simp add: build_domain_matcher_def build_sets [OF ok] slim_Build_def acs_def)
  then show ?thesis using slim_matches [OF len ts(2)] unfolding acs_def by blast
qed

lemma entries_match_clean:
  assumes "clean_name d" "domain_key_ok lib (ds_Key s) (ds_Domains s)"
  shows "entries_match lib s d \<longleftrightarrow> set_matches lib s d"
  using assms set_matches_entries [of d lib s] by (simp add: entries_match_def clean_name_def trim_clean)

text \<open>Claim C3: whatever the domain sets of a program, with valid keys and within the index space, the matcher is
  built and sets the bit of a set exactly when the set matches the name: a full pattern is the name, a suffix pattern
  is the name or a suffix behind a dot, and keywords and regular expressions are the library's answers. The name is
  lower-cased without its trailing dot. The answer is this for names without the marks \<^verbatim>\<open>^\<close> and \<^verbatim>\<open>$\<close> of the matcher; a
  name with them has an answer as well, without a panic.\<close>

theorem domain_bitmap_correct:
  assumes "domain_sets_ok lib sets" "keywords_ok lib sets" "sets_small sets"
  shows "\<exists>m. build_domain_matcher lib sets = Inr m \<and>
    (\<forall>domain. \<exists>bm. MatchDomainBitmap lib m domain = Some bm \<and>
       (clean_name (lookup_name lib domain) \<longrightarrow>
          (\<forall>i. bitmap_has (Some bm) i \<longleftrightarrow> i < length sets \<and> set_matches lib (sets ! i) (lookup_name lib domain))))"
proof -
  obtain m where m: "build_domain_matcher lib sets = Inr m"
    "\<And>domain. \<exists>bm. MatchDomainBitmap lib m domain = Some bm \<and>
       (\<forall>i. bitmap_has (Some bm) i \<longleftrightarrow> i < length sets \<and> entries_match lib (sets ! i) (lookup_name lib domain))"
    using domain_bitmap_entries [OF assms] by blast
  have eq: "i < length sets \<and> entries_match lib (sets ! i) d \<longleftrightarrow> i < length sets \<and> set_matches lib (sets ! i) d" if "clean_name d" for i d
    using assms(1) entries_match_clean [OF that] unfolding domain_sets_ok_def by blast
  have "\<exists>bm. MatchDomainBitmap lib m domain = Some bm \<and> (clean_name (lookup_name lib domain) \<longrightarrow>
      (\<forall>i. bitmap_has (Some bm) i \<longleftrightarrow> i < length sets \<and> set_matches lib (sets ! i) (lookup_name lib domain)))" for domain
    using m(2) [of domain] eq [of "lookup_name lib domain"] by metis
  then show ?thesis using m(1) by blast
qed

definition plain_lib :: domain_lib where
  "plain_lib = \<lparr>dl_regexp_ok = \<lambda>_. True, dl_regexp_match = \<lambda>_ _. False, dl_ac_ok = \<lambda>_. True, dl_ac_char = \<lambda>_. True,
     dl_ac_contains = \<lambda>_ _. False, dl_unicode_lower = id\<rparr>"

definition sample_set :: domain_set where
  "sample_set = \<lparr>ds_Key = ''full'', ds_RuleIndex = 0, ds_Domains = [''a.b'']\<rparr>"

lemma sample_set_ok: "domain_sets_ok plain_lib [sample_set]" "keywords_ok plain_lib [sample_set]" "sets_small [sample_set]" "valid_pattern ''a.b''"
proof -
  show v: "valid_pattern ''a.b''" by code_simp
  show "domain_sets_ok plain_lib [sample_set]" "keywords_ok plain_lib [sample_set]"
    by (simp_all add: domain_sets_ok_def domain_key_ok_def keywords_ok_def sample_set_def MaxMatchSetLen_def)
  show "sets_small [sample_set]" by (simp add: sets_small_def sample_set_def trie_entries_def v)
qed

theorem domain_bitmap_correct_witness:
  "\<exists>m bm. build_domain_matcher plain_lib [sample_set] = Inr m \<and> MatchDomainBitmap plain_lib m ''A.b.'' = Some bm \<and>
     bitmap_has (Some bm) 0 \<and> \<not> bitmap_has (Some bm) 1"
proof -
  have n: "lookup_name plain_lib ''A.b.'' = ''a.b''" by code_simp
  have c: "clean_name ''a.b''" by (simp add: clean_name_def)
  have s: "set_matches plain_lib sample_set ''a.b''" using sample_set_ok(4) by (simp add: set_matches_def sample_set_def)
  obtain m bm where "build_domain_matcher plain_lib [sample_set] = Inr m" "MatchDomainBitmap plain_lib m ''A.b.'' = Some bm"
    "\<forall>i. bitmap_has (Some bm) i \<longleftrightarrow> i < length [sample_set] \<and> set_matches plain_lib ([sample_set] ! i) ''a.b''"
    using domain_bitmap_correct [OF sample_set_ok(1-3)] n c by metis
  then show ?thesis using s by auto
qed

text \<open>
  Claim C31: the marks are not escaped. For every list of sets, a set of full names that contains a valid name also
  matches every other name that ends in a caret and this name, although it is none of its names.
\<close>

theorem caret_name_matches:
  assumes "domain_sets_ok lib sets" "keywords_ok lib sets" "sets_small sets"
    and "i < length sets" "ds_Key (sets ! i) = ''full''" "d \<in> set (ds_Domains (sets ! i))" "valid_pattern d"
    and "lookup_name lib domain = x @ ''^'' @ d" "lookup_name lib domain \<notin> set (ds_Domains (sets ! i))"
  shows "\<exists>m bm. build_domain_matcher lib sets = Inr m \<and> MatchDomainBitmap lib m domain = Some bm \<and> bitmap_has (Some bm) i \<and>
    \<not> set_matches lib (sets ! i) (lookup_name lib domain)"
proof -
  let ?n = "lookup_name lib domain"
  have "\<not> IsValidChar ValidDomainChars (byte_of_char (CHR ''$''))" by code_simp
  then have "CHR ''$'' \<notin> set d" using assms(7) by (auto simp: valid_pattern_def list_all_iff)
  then have "\<not> suffix ''$'' (''^'' @ ?n)" unfolding assms(8) by (cases d rule: rev_cases) (auto simp: suffix_def)
  then have t: "str_trim_suffix (''^'' @ ?n) ''$'' = ''^'' @ ?n" by (simp add: str_trim_suffix_def)
  have "(''^'' @ d) @ ''$'' \<in> set (trie_entries ''full'' (ds_Domains (sets ! i)))" using assms(6,7) by (simp add: trie_entries_def)
  moreover have "suffix (''^'' @ d) (''^'' @ ?n)" unfolding assms(8) by (simp add: suffix_def)
  ultimately have "entry_hit (trie_entries ''full'' (ds_Domains (sets ! i))) (str_trim_suffix (''^'' @ ?n) ''$'')" unfolding entry_hit_def t by blast
  then have e: "entries_match lib (sets ! i) ?n" by (simp add: entries_match_def assms(5))
  have "\<not> set_matches lib (sets ! i) ?n" using assms(5,9) by (auto simp: set_matches_def)
  then show ?thesis using domain_bitmap_entries [OF assms(1-3)] e assms(4) by metis
qed

theorem caret_name_matches_witness:
  "\<exists>m bm. build_domain_matcher plain_lib [sample_set] = Inr m \<and> MatchDomainBitmap plain_lib m ''x^a.b'' = Some bm \<and> bitmap_has (Some bm) 0 \<and>
     \<not> set_matches plain_lib sample_set ''x^a.b''"
proof -
  have n: "lookup_name plain_lib ''x^a.b'' = ''x'' @ ''^'' @ ''a.b''" by code_simp
  have "ds_Key ([sample_set] ! 0) = ''full''" "''a.b'' \<in> set (ds_Domains ([sample_set] ! 0))" "lookup_name plain_lib ''x^a.b'' \<notin> set (ds_Domains ([sample_set] ! 0))"
    unfolding n by (simp_all add: sample_set_def)
  from caret_name_matches [OF sample_set_ok(1-3) _ this(1,2) sample_set_ok(4) n this(3)] show ?thesis unfolding n by simp
qed

end
