(* ===== verification/Rule_Optimizer.thy ===== *)
theory Rule_Optimizer
  imports Routing_Emit "HOL-Library.Product_Lexorder"
begin

text \<open>
  The optimizers of routing rules (\<^verbatim>\<open>component/routing/optimizer.go\<close>): aliases of functions and keys, the
  merging and sorting of rules, and the removal of duplicate parameters. Merging, sorting and removing
  duplicates do not change which action the first matching rule takes.
\<close>

section \<open>Model\<close>

definition set_param_key :: "string \<Rightarrow> param \<Rightarrow> param" where
  "set_param_key k p = Param k (p_Val p) (p_AndFunctions p) (p_Quoted p) (p_ValueList p) (p_Annotation p)"

definition set_func_params :: "param list \<Rightarrow> func \<Rightarrow> func" where
  "set_func_params ps f = Func (fn_Name f) (fn_Not f) ps (fn_Quoted f)"

definition alias_name :: "string \<Rightarrow> string" where
  "alias_name name = (if name = ''port'' then ''dport'' else if name = ''ip'' then ''dip'' else name)"

definition alias_param :: "string \<Rightarrow> param \<Rightarrow> param" where
  "alias_param name p =
     (if name = ''domain''
      then (if p_Key p = [] \<or> p_Key p = ''domain'' then set_param_key ''suffix'' p
            else if p_Key p = ''contains'' then set_param_key ''keyword'' p else p)
      else p)"

definition alias_function :: "func \<Rightarrow> func" where
  "alias_function f = Func (alias_name (fn_Name f)) (fn_Not f) (map (alias_param (alias_name (fn_Name f))) (fn_Params f)) (fn_Quoted f)"

definition map_functions :: "(func \<Rightarrow> func) \<Rightarrow> routing_rule \<Rightarrow> routing_rule" where
  "map_functions g r = r\<lparr>rr_AndFunctions := map g (rr_AndFunctions r)\<rparr>"

definition AliasOptimizer :: "routing_rule list \<Rightarrow> routing_rule list" where
  "AliasOptimizer rules = map (map_functions alias_function) rules"

definition sort_functions :: "routing_rule \<Rightarrow> routing_rule" where
  "sort_functions r = r\<lparr>rr_AndFunctions := sort_key fn_Name (rr_AndFunctions r)\<rparr>"

text \<open>Two neighbouring rules with one positive function of the same name and the same action.\<close>

definition mergeable :: "routing_rule \<Rightarrow> routing_rule \<Rightarrow> bool" where
  "mergeable m r =
     (case (rr_AndFunctions m, rr_AndFunctions r) of
        ([f], [g]) \<Rightarrow> \<not> fn_Not f \<and> fn_Name f \<noteq> ''client'' \<and> fn_Name f = fn_Name g \<and> fn_Not f = fn_Not g \<and>
          func_String (rr_Outbound r) True False True = func_String (rr_Outbound m) True False True
      | _ \<Rightarrow> False)"

definition merge_rule :: "routing_rule \<Rightarrow> routing_rule \<Rightarrow> routing_rule" where
  "merge_rule m r =
     (let f = hd (rr_AndFunctions m); g = hd (rr_AndFunctions r)
      in m\<lparr>rr_AndFunctions := [set_func_params (fn_Params f @ fn_Params g) f], rr_Sources := rr_Sources m @ rr_Sources r\<rparr>)"

fun merge_loop :: "routing_rule \<Rightarrow> routing_rule list \<Rightarrow> routing_rule list" where
  "merge_loop m [] = [m]"
| "merge_loop m (r # rs) = (if mergeable m r then merge_loop (merge_rule m r) rs else m # merge_loop r rs)"

definition sort_params :: "func \<Rightarrow> func" where
  "sort_params f =
     (if fn_Name f = ''dip'' \<or> fn_Name f = ''sip''
      then set_func_params (sort_key (\<lambda>p. (if CHR '':'' \<in> set (p_Val p) then 6 else 4 :: nat, p_Val p)) (fn_Params f)) f
      else set_func_params (sort_key (\<lambda>p. (p_Key p, p_Val p)) (fn_Params f)) f)"

definition MergeAndSortRulesOptimizer :: "routing_rule list \<Rightarrow> routing_rule list" where
  "MergeAndSortRulesOptimizer rules =
     (case map sort_functions rules of
        [] \<Rightarrow> []
      | r # rs \<Rightarrow> map (map_functions sort_params) (merge_loop r rs))"

fun dedup_loop :: "string set \<Rightarrow> param list \<Rightarrow> param list" where
  "dedup_loop m [] = []"
| "dedup_loop m (v # vs) =
     (let key = param_String v True False in if key \<in> m then dedup_loop m vs else v # dedup_loop (insert key m) vs)"

definition deduplicateParams :: "param list \<Rightarrow> param list" where
  "deduplicateParams ps = dedup_loop {} ps"

definition DeduplicateParamsOptimizer :: "routing_rule list \<Rightarrow> routing_rule list" where
  "DeduplicateParamsOptimizer rules = map (map_functions (\<lambda>f. set_func_params (deduplicateParams (fn_Params f)) f)) rules"

section \<open>The meaning of rules\<close>

text \<open>
  A domain set holds when one of its patterns does; \<open>E\<close> says so for a single pattern. The value of a function is
  then determined by its parameters as a set.
\<close>

definition any_pattern :: "(string \<Rightarrow> string \<Rightarrow> bool) \<Rightarrow> string \<Rightarrow> string list \<Rightarrow> predicate_result" where
  "any_pattern E key vals = hit_result (list_ex (E key) vals)"

definition param_hit :: "(string \<Rightarrow> string \<Rightarrow> bool) \<Rightarrow> routing_input \<Rightarrow> string \<Rightarrow> string \<times> string \<Rightarrow> bool" where
  "param_hit E p name kv = (if name = ''domain'' then E (fst kv) (snd kv) else value_hit p name (snd kv))"

definition rule_holds :: "(string \<Rightarrow> string list \<Rightarrow> predicate_result) \<Rightarrow> routing_input \<Rightarrow> routing_rule \<Rightarrow> bool" where
  "rule_holds D p r = list_all (\<lambda>f. func_value D p f = PMatch) (rr_AndFunctions r)"

text \<open>The action of the first rule that holds, as the optimizer compares actions.\<close>

fun first_action :: "(string \<Rightarrow> string list \<Rightarrow> predicate_result) \<Rightarrow> routing_input \<Rightarrow> routing_rule list \<Rightarrow> string option" where
  "first_action D p [] = None"
| "first_action D p (r # rs) = (if rule_holds D p r then Some (func_String (rr_Outbound r) True False True) else first_action D p rs)"

lemma group_value_any: "group_value (any_pattern E) p name key vals = hit_result (\<exists>v \<in> set vals. param_hit E p name (key, v))"
  by (auto simp: group_value_def any_pattern_def param_hit_def compact_strings_def list_ex_iff)

lemma foldr_max_hit_set: "foldr max (map (\<lambda>x. hit_result (P x)) xs) PMiss = hit_result (\<exists>x \<in> set xs. P x)"
  by (simp add: foldr_max_hits list_ex_iff)

lemma func_value_any:
  "func_value (any_pattern E) p f = hit_result ((\<exists>q \<in> set (fn_Params f). param_hit E p (fn_Name f) (key_val q)) \<noteq> fn_Not f)"
proof -
  define gs where "gs = groupParamValuesByKey (fn_Params f)"
  have pairs: "group_pairs gs = set (map key_val (fn_Params f))" using groupParamValuesByKey_spec by (simp add: gs_def)
  have "(\<lambda>(key, vals). group_value (any_pattern E) p (fn_Name f) key vals) =
      (\<lambda>g. hit_result (\<exists>v \<in> set (snd g). param_hit E p (fn_Name f) (fst g, v)))"
    by (auto simp: group_value_any)
  then have "foldr max (map (\<lambda>(key, vals). group_value (any_pattern E) p (fn_Name f) key vals) gs) PMiss =
      hit_result (\<exists>g \<in> set gs. \<exists>v \<in> set (snd g). param_hit E p (fn_Name f) (fst g, v))"
    by (simp add: foldr_max_hit_set)
  also have "(\<exists>g \<in> set gs. \<exists>v \<in> set (snd g). param_hit E p (fn_Name f) (fst g, v)) \<longleftrightarrow> (\<exists>kv \<in> group_pairs gs. param_hit E p (fn_Name f) kv)"
    unfolding group_pairs_def by force
  also have "\<dots> \<longleftrightarrow> (\<exists>q \<in> set (fn_Params f). param_hit E p (fn_Name f) (key_val q))" by (simp add: pairs)
  finally show ?thesis by (auto simp: func_value_def gs_def Let_def hit_result_def)
qed

text \<open>Only the set of key and value pairs of a function matters.\<close>

lemma func_value_cong:
  assumes "fn_Name f = fn_Name g" "fn_Not f = fn_Not g" "key_val ` set (fn_Params f) = key_val ` set (fn_Params g)"
  shows "func_value (any_pattern E) p f = func_value (any_pattern E) p g"
proof -
  have "(\<exists>q \<in> set (fn_Params f). param_hit E p (fn_Name f) (key_val q)) \<longleftrightarrow> (\<exists>q \<in> set (fn_Params g). param_hit E p (fn_Name f) (key_val q))"
    using assms(3) by (metis (no_types, lifting) bex_imageD image_eqI)
  then show ?thesis using assms by (simp add: func_value_any)
qed

lemma set_func_params_sel [simp]:
  "fn_Name (set_func_params ps f) = fn_Name f" "fn_Not (set_func_params ps f) = fn_Not f" "fn_Params (set_func_params ps f) = ps"
  by (simp_all add: set_func_params_def)

lemma rule_holds_map: "(\<And>f. f \<in> set (rr_AndFunctions r) \<Longrightarrow> func_value D p (g f) = func_value D p f) \<Longrightarrow> rule_holds D p (map_functions g r) = rule_holds D p r"
  by (auto simp: rule_holds_def map_functions_def list_all_iff)

lemma first_action_map:
  assumes "\<And>r. r \<in> set rs \<Longrightarrow> rule_holds D p (g r) = rule_holds D p r" "\<And>r. rr_Outbound (g r) = rr_Outbound r"
  shows "first_action D p (map g rs) = first_action D p rs"
  using assms by (induction rs) auto

section \<open>Merging and sorting\<close>

lemma sort_functions_holds: "rule_holds D p (sort_functions r) = rule_holds D p r"
  by (simp add: rule_holds_def sort_functions_def list_all_iff)

lemma sort_params_value: "func_value (any_pattern E) p (sort_params f) = func_value (any_pattern E) p f"
  by (rule func_value_cong) (simp_all add: sort_params_def)

lemma merge_rule_outbound [simp]: "rr_Outbound (merge_rule m r) = rr_Outbound m"
  by (simp add: merge_rule_def Let_def)

lemma merge_rule_holds:
  assumes "mergeable m r"
  shows "rule_holds (any_pattern E) p (merge_rule m r) \<longleftrightarrow> rule_holds (any_pattern E) p m \<or> rule_holds (any_pattern E) p r"
proof -
  obtain f g where fg: "rr_AndFunctions m = [f]" "rr_AndFunctions r = [g]" "\<not> fn_Not f" "fn_Name f = fn_Name g" "\<not> fn_Not g"
    using assms by (auto simp: mergeable_def split: list.splits)
  then show ?thesis by (auto simp: rule_holds_def merge_rule_def Let_def func_value_any hit_result_def)
qed

lemma mergeable_action: "mergeable m r \<Longrightarrow> func_String (rr_Outbound r) True False True = func_String (rr_Outbound m) True False True"
  by (auto simp: mergeable_def split: list.splits)

lemma merge_loop_action: "first_action (any_pattern E) p (merge_loop m rs) = first_action (any_pattern E) p (m # rs)"
proof (induction rs arbitrary: m)
  case Nil
  then show ?case by simp
next
  case (Cons r rs)
  show ?case
  proof (cases "mergeable m r")
    case True
    then show ?thesis using Cons.IH [of "merge_rule m r"] merge_rule_holds [OF True] mergeable_action [OF True] by auto
  next
    case False
    then show ?thesis using Cons.IH [of r] by simp
  qed
qed

lemma merge_and_sort_action: "first_action (any_pattern E) p (MergeAndSortRulesOptimizer rules) = first_action (any_pattern E) p rules"
proof -
  have sorted: "first_action (any_pattern E) p (map sort_functions rules) = first_action (any_pattern E) p rules"
    by (rule first_action_map) (simp_all add: sort_functions_holds, simp add: sort_functions_def)
  have params: "first_action (any_pattern E) p (map (map_functions sort_params) rs) = first_action (any_pattern E) p rs" for rs
    by (rule first_action_map) (simp_all add: rule_holds_map sort_params_value, simp add: map_functions_def)
  show ?thesis
  proof (cases "map sort_functions rules")
    case Nil
    then show ?thesis by (simp add: MergeAndSortRulesOptimizer_def)
  next
    case (Cons r rs)
    then show ?thesis using sorted by (simp add: MergeAndSortRulesOptimizer_def params merge_loop_action)
  qed
qed

text \<open>Claim C4: merging neighbouring rules and sorting functions and parameters never changes the action of the first
  rule that holds, whatever the rules, the packet and the patterns.\<close>

theorem MergeAndSort_preserves:
  "first_action (any_pattern E) p (MergeAndSortRulesOptimizer rules) = first_action (any_pattern E) p rules"
  by (rule merge_and_sort_action)

section \<open>Duplicate parameters\<close>

text \<open>Parameters are compared by their printed text, which determines key and value when keys have no colon and are
  given on all parameters or on none.\<close>

definition dedup_safe :: "param list \<Rightarrow> bool" where
  "dedup_safe ps \<longleftrightarrow> list_all (\<lambda>q. p_AndFunctions q = None \<and> p_Annotation q = [] \<and> CHR '':'' \<notin> set (p_Key q)) ps \<and>
     (list_all (\<lambda>q. p_Key q = []) ps \<or> list_all (\<lambda>q. p_Key q \<noteq> []) ps)"

lemma compact_text:
  "p_AndFunctions q = None \<Longrightarrow> p_Annotation q = [] \<Longrightarrow>
   param_String q True False = (if p_Key q = [] then p_Val q else p_Key q @ CHR '':'' # p_Val q)"
  by (cases q) simp

lemma dedup_safe_text:
  assumes "dedup_safe ps" "q \<in> set ps" "q' \<in> set ps" "param_String q True False = param_String q' True False"
  shows "key_val q = key_val q'"
proof -
  have plain: "p_AndFunctions x = None" "p_Annotation x = []" "CHR '':'' \<notin> set (p_Key x)" if "x \<in> set ps" for x
    using assms(1) that by (auto simp: dedup_safe_def list_all_iff)
  have "p_Key q = [] \<and> p_Key q' = [] \<or> p_Key q \<noteq> [] \<and> p_Key q' \<noteq> []"
    using assms(1-3) by (auto simp: dedup_safe_def list_all_iff)
  then show ?thesis
  proof
    assume "p_Key q = [] \<and> p_Key q' = []"
    then show ?thesis using assms(2-4) plain by (simp add: compact_text key_val_def)
  next
    assume k: "p_Key q \<noteq> [] \<and> p_Key q' \<noteq> []"
    then have "p_Key q @ CHR '':'' # p_Val q = p_Key q' @ CHR '':'' # p_Val q'" using assms(2-4) plain by (simp add: compact_text)
    then have "str_cut (CHR '':'') (p_Key q @ CHR '':'' # p_Val q) = str_cut (CHR '':'') (p_Key q' @ CHR '':'' # p_Val q')" by simp
    then show ?thesis using plain assms(2,3) by (simp add: str_cut_append key_val_def)
  qed
qed

lemma dedup_loop_spec:
  "set (dedup_loop m ps) \<subseteq> set ps \<and>
   (\<forall>q \<in> set ps. param_String q True False \<in> m \<or> (\<exists>q' \<in> set (dedup_loop m ps). param_String q' True False = param_String q True False))"
proof (induction m ps rule: dedup_loop.induct)
  case (1 m)
  then show ?case by simp
next
  case (2 m v vs)
  then show ?case by (cases "param_String v True False \<in> m") (auto simp: Let_def)
qed

lemma dedup_key_vals: "dedup_safe ps \<Longrightarrow> key_val ` set (deduplicateParams ps) = key_val ` set ps"
proof -
  assume safe: "dedup_safe ps"
  have sub: "set (deduplicateParams ps) \<subseteq> set ps" using dedup_loop_spec by (simp add: deduplicateParams_def)
  have "key_val q \<in> key_val ` set (deduplicateParams ps)" if q: "q \<in> set ps" for q
  proof -
    obtain q' where q': "q' \<in> set (deduplicateParams ps)" "param_String q' True False = param_String q True False"
      using dedup_loop_spec [of "{}" ps] q by (auto simp: deduplicateParams_def)
    then show ?thesis using dedup_safe_text [OF safe q, of q'] sub by auto
  qed
  then show ?thesis using sub by auto
qed

text \<open>Claim C29: removing duplicate parameters keeps the action of the first rule that holds.\<close>

theorem Deduplicate_preserves:
  assumes "\<forall>r \<in> set rules. \<forall>f \<in> set (rr_AndFunctions r). dedup_safe (fn_Params f)"
  shows "first_action (any_pattern E) p (DeduplicateParamsOptimizer rules) = first_action (any_pattern E) p rules"
  unfolding DeduplicateParamsOptimizer_def
proof (rule first_action_map)
  fix r assume "r \<in> set rules"
  then show "rule_holds (any_pattern E) p (map_functions (\<lambda>f. set_func_params (deduplicateParams (fn_Params f)) f) r) = rule_holds (any_pattern E) p r"
    using assms by (intro rule_holds_map func_value_cong) (simp_all add: dedup_key_vals)
qed (simp add: map_functions_def)

definition sample_rule :: "string \<Rightarrow> string \<Rightarrow> routing_rule" where
  "sample_rule v out = \<lparr>rr_AndFunctions = [plain_func ''dport'' [kv_param [] v, kv_param [] v]], rr_Outbound = plain_func out [], rr_Sources = []\<rparr>"

theorem Deduplicate_preserves_witness:
  "\<forall>p. first_action (any_pattern (\<lambda>_ _. False)) p (DeduplicateParamsOptimizer [sample_rule ''53'' ''dns'']) =
     first_action (any_pattern (\<lambda>_ _. False)) p [sample_rule ''53'' ''dns'']"
  by (intro allI Deduplicate_preserves) (simp add: sample_rule_def dedup_safe_def)

section \<open>Aliases\<close>

text \<open>
  The meaning of the functions as they are written, with their short names: \<^verbatim>\<open>port\<close> and \<^verbatim>\<open>ip\<close> speak of the
  destination, a domain pattern without a key or with the key \<^verbatim>\<open>domain\<close> is a suffix, and \<^verbatim>\<open>contains\<close> is a keyword.
\<close>

definition surface_hit :: "(string \<Rightarrow> string \<Rightarrow> bool) \<Rightarrow> routing_input \<Rightarrow> string \<Rightarrow> param \<Rightarrow> bool" where
  "surface_hit E p name q =
     (if name = ''domain''
      then (if p_Key q \<in> {[], ''domain'', ''suffix''} then E ''suffix'' (p_Val q)
            else if p_Key q \<in> {''contains'', ''keyword''} then E ''keyword'' (p_Val q) else E (p_Key q) (p_Val q))
      else if name \<in> {''port'', ''dport''} then port_in (p_Val q) (ap_port (ri_dst p))
      else if name \<in> {''ip'', ''dip''}
      then (case value_prefix (p_Val q) of Some c \<Rightarrow> covers c (addr_As16 (ap_addr (ri_dst p))) | None \<Rightarrow> False)
      else value_hit p name (p_Val q))"

definition surface_holds :: "(string \<Rightarrow> string \<Rightarrow> bool) \<Rightarrow> routing_input \<Rightarrow> routing_rule \<Rightarrow> bool" where
  "surface_holds E p r = list_all (\<lambda>f. list_ex (surface_hit E p (fn_Name f)) (fn_Params f) \<noteq> fn_Not f) (rr_AndFunctions r)"

definition surface_action :: "(string \<Rightarrow> string \<Rightarrow> bool) \<Rightarrow> routing_input \<Rightarrow> routing_rule list \<Rightarrow> string option" where
  "surface_action E p rules = map_option (\<lambda>r. func_String (rr_Outbound r) True False True) (List.find (surface_holds E p) rules)"

definition alias_free :: "func \<Rightarrow> bool" where
  "alias_free f \<longleftrightarrow> fn_Name f \<noteq> ''port'' \<and> fn_Name f \<noteq> ''ip'' \<and>
     (fn_Name f = ''domain'' \<longrightarrow> list_all (\<lambda>q. p_Key q \<notin> {[], ''domain'', ''contains''}) (fn_Params f))"

lemma alias_param_hit: "param_hit E p (alias_name name) (key_val (alias_param (alias_name name) q)) = surface_hit E p name q"
  by (auto simp: param_hit_def alias_name_def alias_param_def key_val_def set_param_key_def surface_hit_def value_hit_def)

lemma alias_function_value:
  "func_value (any_pattern E) p (alias_function f) = PMatch \<longleftrightarrow> list_ex (surface_hit E p (fn_Name f)) (fn_Params f) \<noteq> fn_Not f"
  by (simp add: func_value_any alias_function_def alias_param_hit list_ex_iff hit_result_def)

lemma alias_rule_holds: "rule_holds (any_pattern E) p (map_functions alias_function r) = surface_holds E p r"
  by (simp add: rule_holds_def surface_holds_def map_functions_def list_all_iff alias_function_value)

lemma map_functions_outbound: "rr_Outbound (map_functions g r) = rr_Outbound r"
  by (simp add: map_functions_def)

lemma alias_name_normal: "alias_name n \<noteq> ''port''" "alias_name n \<noteq> ''ip''"
  by (auto simp: alias_name_def)

lemma alias_param_normal: "p_Key (alias_param ''domain'' q) \<notin> {[], ''domain'', ''contains''}"
  by (auto simp: alias_param_def set_param_key_def)

text \<open>Claim C30: rewriting the aliases gives rules that take, for every packet, the action that the rules as written
  take under the meaning of the short names, and no alias of a function or of a domain key is left for the parsers.\<close>

theorem AliasOptimizer_meaning:
  "first_action (any_pattern E) p (AliasOptimizer rules) = surface_action E p rules \<and>
   list_all (\<lambda>r. list_all alias_free (rr_AndFunctions r)) (AliasOptimizer rules)"
proof
  show "first_action (any_pattern E) p (AliasOptimizer rules) = surface_action E p rules"
    by (induction rules) (simp_all add: AliasOptimizer_def surface_action_def alias_rule_holds map_functions_outbound)
  show "list_all (\<lambda>r. list_all alias_free (rr_AndFunctions r)) (AliasOptimizer rules)"
    using alias_name_normal alias_param_normal by (auto simp: AliasOptimizer_def map_functions_def alias_function_def alias_free_def list_all_iff)
qed

end
