(* ===== verification/Routing_Compile.thy ===== *)
theory Routing_Compile
  imports Routing_Refs Domain_Matcher
begin

text \<open>
  The compiler from a prepared routing configuration to a routing program (\<^verbatim>\<open>control/routing_profile_compiler.go\<close>,
  \<^verbatim>\<open>routing_rule_set_compiler.go\<close>, \<^verbatim>\<open>routing_flow_compiler.go\<close>, \<^verbatim>\<open>routing_capture.go\<close>, \<^verbatim>\<open>routing_conditional.go\<close>):
  rule sets are compiled once per use condition and shared by the policies that refer to them, every selected
  policy becomes a profile of spans, and definitions that no policy reaches are compiled by a validator only.
  Outcomes are \<open>None\<close> when a reference chain exceeds its bound, \<open>Some (Inl e)\<close> for an error and \<open>Some (Inr x)\<close> otherwise.
\<close>

section \<open>Outcomes\<close>

type_synonym 'a outcome = "'a build_result option"

definition cbind :: "'a outcome \<Rightarrow> ('a \<Rightarrow> 'b outcome) \<Rightarrow> 'b outcome" where
  "cbind m k = (case m of None \<Rightarrow> None | Some (Inl e) \<Rightarrow> Some (Inl e) | Some (Inr x) \<Rightarrow> k x)"

definition cret :: "'a \<Rightarrow> 'a outcome" where
  "cret x = Some (Inr x)"

definition cwrap :: "string \<Rightarrow> 'a outcome \<Rightarrow> 'a outcome" where
  "cwrap name m = (case m of Some (Inl e) \<Rightarrow> Some (Inl (InBlock name e)) | _ \<Rightarrow> m)"

lemma cbind_simps [simp]: "cbind None k = None" "cbind (Some (Inl e)) k = Some (Inl e)" "cbind (Some (Inr x)) k = k x" "cbind (cret x) k = k x"
  by (simp_all add: cbind_def cret_def)

lemma cbind_cong [fundef_cong]: "m = m' \<Longrightarrow> (\<And>x. m' = Some (Inr x) \<Longrightarrow> k x = k' x) \<Longrightarrow> cbind m k = cbind m' k'"
  by (auto simp: cbind_def split: option.splits sum.splits)

lemma cbind_None: "cbind m k = None \<longleftrightarrow> m = None \<or> (\<exists>x. m = Some (Inr x) \<and> k x = None)"
  by (auto simp: cbind_def split: option.splits sum.splits)

lemma cbind_Inr: "cbind m k = Some (Inr y) \<longleftrightarrow> (\<exists>x. m = Some (Inr x) \<and> k x = Some (Inr y))"
  by (auto simp: cbind_def split: option.splits sum.splits)

lemma cwrap_simps [simp]: "cwrap n m = None \<longleftrightarrow> m = None" "cwrap n m = Some (Inr x) \<longleftrightarrow> m = Some (Inr x)"
  by (auto simp: cwrap_def split: option.splits sum.splits)

section \<open>Printing addresses\<close>

fun hex_digits :: "nat \<Rightarrow> string" where
  "hex_digits n = (if n < 16 then [''0123456789abcdef'' ! n] else hex_digits (n div 16) @ [''0123456789abcdef'' ! (n mod 16)])"

declare hex_digits.simps [simp del]

definition v6_group :: "128 word \<Rightarrow> nat \<Rightarrow> nat" where
  "v6_group a i = unat (drop_bit (16 * (7 - i)) a AND 0xffff)"

text \<open>The first longest run of at least two zero groups.\<close>

definition zero_run :: "128 word \<Rightarrow> nat \<times> nat" where
  "zero_run a = foldl (\<lambda>best i.
     let l = length (takeWhile (\<lambda>j. v6_group a j = 0) [i..<8]) in if l \<ge> 2 \<and> l > snd best - fst best then (i, i + l) else best) (255, 255) [0..<8]"

definition v6_String :: "128 word \<Rightarrow> string" where
  "v6_String a =
     (let (zs, ze) = zero_run a;
          groups = (\<lambda>ix. str_join '':'' (map (\<lambda>i. hex_digits (v6_group a i)) ix))
      in if zs < 8 then groups [0..<zs] @ ''::'' @ groups [ze..<8] else groups [0..<8])"

definition v4_String :: "u32 \<Rightarrow> string" where
  "v4_String a = str_join ''.'' (map (\<lambda>i. dec_digits (unat (drop_bit (8 * (3 - i)) a AND 0xff))) [0..<4])"

fun addr_String :: "addr \<Rightarrow> string" where
  "addr_String AddrInvalid = ''invalid IP''"
| "addr_String (Addr4 a) = v4_String a"
| "addr_String (Addr6 a z) =
     (if addr_Is4In6 (Addr6 a z) then ''::ffff:'' @ v4_String (ucast a) else v6_String a) @ (if z = [] then [] else ''%'' @ z)"

definition addr_port_String :: "addr_port \<Rightarrow> string" where
  "addr_port_String p =
     (case ap_addr p of
        AddrInvalid \<Rightarrow> ''invalid AddrPort''
      | Addr4 a \<Rightarrow> v4_String a @ '':'' @ dec_digits (unat (ap_port p))
      | Addr6 a z \<Rightarrow> ''['' @ addr_String (Addr6 a z) @ '']:'' @ dec_digits (unat (ap_port p)))"

section \<open>Blocks\<close>

type_synonym resolved_block = "routing_span list"

definition zero_span :: routing_span where
  "zero_span = \<lparr>sp_start = 0, sp_end = 0, sp_phase = PhaseRoute, sp_global = False\<rparr>"

definition block_appendSpan :: "resolved_block \<Rightarrow> routing_span \<Rightarrow> resolved_block build_result" where
  "block_appendSpan b span =
     (if span_len span = 0 then Inr b
      else if int (spanExecutionLen b) > int MaxMatchSetLen - int (span_len span) then Inl ExecutesTooMany
      else Inr (appendSpan b span))"

definition appendBlock :: "resolved_block \<Rightarrow> resolved_block \<Rightarrow> resolved_block build_result" where
  "appendBlock b other =
     (if int (spanExecutionLen b) > int MaxMatchSetLen - int (spanExecutionLen other) then Inl ExecutesTooMany
      else Inr (foldl appendSpan b other))"

text \<open>A destination fragment is compared by identity: \<open>dfr_id\<close> stands for its address.\<close>

record destination_fragment =
  dfr_id :: nat
  dfr_rules :: "destination_rewrite list"
  dfr_owner :: string
  dfr_section :: string

record flow_block =
  fb_capture :: resolved_block
  fb_controls :: resolved_block
  fb_destinations :: "destination_fragment list"

definition empty_flow :: flow_block where
  "empty_flow = \<lparr>fb_capture = [], fb_controls = [], fb_destinations = []\<rparr>"

definition flow_append :: "flow_block \<Rightarrow> flow_block \<Rightarrow> flow_block build_result" where
  "flow_append b other =
     (case appendBlock (fb_capture b) (fb_capture other) of
        Inl e \<Rightarrow> Inl e
      | Inr cap \<Rightarrow>
          (case appendBlock (fb_controls b) (fb_controls other) of
             Inl e \<Rightarrow> Inl e
           | Inr ctl \<Rightarrow> Inr \<lparr>fb_capture = cap, fb_controls = ctl, fb_destinations = fb_destinations b @ fb_destinations other\<rparr>))"

record shared_programs =
  sh_bypass :: routing_span
  sh_request :: routing_span
  sh_http :: routing_span
  sh_early :: routing_span
  sh_late :: routing_span
  sh_destinations :: flow_block

type_synonym rule_set_key = "string \<times> string"

record compiler =
  cp_validationOutbounds :: "(string \<Rightarrow> u8 option) option"
  cp_builder :: builder
  cp_sets :: "string \<Rightarrow> routing_rule_set option"
  cp_setKinds :: "string \<Rightarrow> rule_set_kind option"
  cp_resolved :: "(rule_set_key \<times> resolved_block) list"
  cp_flows :: "(rule_set_key \<times> flow_block) list"
  cp_shared :: shared_programs
  cp_profileDestinations :: "nat \<Rightarrow> destination_fragment list"
  cp_flowEnd :: routing_span
  cp_nextFragment :: nat

text \<open>The libraries behind the builder: the digest and the domain matchers.\<close>

record compile_env =
  ce_sha :: "bytes \<Rightarrow> bytes"
  ce_lib :: domain_lib

section \<open>Conditional blocks\<close>

definition validatePredicates :: "domain_lib \<Rightarrow> builder \<Rightarrow> unit build_result" where
  "validatePredicates lib b =
     (if list_all (\<lambda>s. ValidateSet lib (ds_Domains s) (ds_Key s)) (b_domainSets b) then Inr () else Inl (BadDomainSet []))"

definition validateEmptyRoutingUse :: "compile_env \<Rightarrow> func list \<Rightarrow> unit outcome" where
  "validateEmptyRoutingUse env condition =
     (case ApplyPredicate (routing_parsers (ce_sha env)) condition direct_outbound (empty_builder [''direct'' \<mapsto> OutboundDirect]) of
        Inl e \<Rightarrow> Some (Inl e)
      | Inr b \<Rightarrow> cbind (builder_validate (b\<lparr>b_routingEnd := length (b_rules b)\<rparr>)) (\<lambda>b'. Some (validatePredicates (ce_lib env) b')))"

definition conditionalBlock :: "compile_env \<Rightarrow> resolved_block \<Rightarrow> func list \<Rightarrow> string \<Rightarrow> builder \<Rightarrow> (builder \<times> resolved_block) outcome" where
  "conditionalBlock env body condition name b =
     (if condition = [] then cret (b, body)
      else if body = [] then cbind (validateEmptyRoutingUse env condition) (\<lambda>_. cret (b, body))
      else let start = length (b_rules b) in
           case ApplyPredicate (routing_parsers (ce_sha env)) condition direct_outbound b of
             Inl e \<Rightarrow> Some (Inl e)
           | Inr b1 \<Rightarrow>
               let b2 = rememberRule start \<lparr>rr_AndFunctions = condition, rr_Outbound = plain_func ''use'' [kv_param [] name], rr_Sources = []\<rparr> name ''routing'' b1;
                   b3 = setConditionalJump (length (b_rules b2) - 1) (spanExecutionLen body) b2
               in (case block_appendSpan [] \<lparr>sp_start = start, sp_end = length (b_rules b3), sp_phase = sp_phase (hd body), sp_global = False\<rparr> of
                     Inl e \<Rightarrow> Some (Inl e)
                   | Inr entry \<Rightarrow> Some (case appendBlock entry body of Inl e \<Rightarrow> Inl e | Inr block \<Rightarrow> Inr (b3, block))))"

section \<open>Rule sets\<close>

text \<open>The cache key of a rule set under a condition.\<close>

definition routingSetKey :: "string \<Rightarrow> func list \<Rightarrow> rule_set_key" where
  "routingSetKey name condition = (name, concat (map (\<lambda>f. func_String f True True False @ ''&&'') condition))"

text \<open>What a program of rule sets provides: its cache, the compilation of a batch of rules, the condition of a use and the concatenation.\<close>

record 'b rule_set_program =
  pg_cache :: "compiler \<Rightarrow> (rule_set_key \<times> 'b) list"
  pg_store :: "rule_set_key \<Rightarrow> 'b \<Rightarrow> compiler \<Rightarrow> compiler"
  pg_compile :: "routing_rule list \<Rightarrow> string \<Rightarrow> compiler \<Rightarrow> (compiler \<times> 'b) outcome"
  pg_condition :: "'b \<Rightarrow> func list \<Rightarrow> string \<Rightarrow> compiler \<Rightarrow> (compiler \<times> 'b) outcome"
  pg_append :: "'b \<Rightarrow> 'b \<Rightarrow> 'b build_result"
  pg_empty :: 'b

definition store_block :: "'b rule_set_program \<Rightarrow> rule_set_key \<Rightarrow> 'b \<Rightarrow> compiler \<Rightarrow> (compiler \<times> 'b) outcome" where
  "store_block pg key block c =
     (if length (cp_resolved c) + length (cp_flows c) \<ge> MaxMatchSetLen then Some (Inl TooManyVariants)
      else cret (pg_store pg key block c, block))"

text \<open>\<^verbatim>\<open>resolveRuleSet\<close> without a condition and with one; \<open>rec\<close> compiles the statements of the set.\<close>

definition resolve_plain_set :: "(string \<Rightarrow> routing_statement list \<Rightarrow> compiler \<Rightarrow> (compiler \<times> 'b) outcome) \<Rightarrow> 'b rule_set_program \<Rightarrow>
    string \<Rightarrow> compiler \<Rightarrow> (compiler \<times> 'b) outcome" where
  "resolve_plain_set rec pg name c =
     (case map_of (pg_cache pg c) (routingSetKey name []) of
        Some block \<Rightarrow> cret (c, block)
      | None \<Rightarrow>
          (case cp_sets c name of
             None \<Rightarrow> Some (Inl (UndefinedRuleSet name))
           | Some s \<Rightarrow> cbind (rec (rset_Name s) (rset_Statements s) c) (\<lambda>(c', block). store_block pg (routingSetKey name []) block c')))"

definition resolveRuleSet :: "(string \<Rightarrow> routing_statement list \<Rightarrow> compiler \<Rightarrow> (compiler \<times> 'b) outcome) \<Rightarrow> 'b rule_set_program \<Rightarrow>
    string \<Rightarrow> func list \<Rightarrow> compiler \<Rightarrow> (compiler \<times> 'b) outcome" where
  "resolveRuleSet rec pg name condition c =
     (if condition = [] then resolve_plain_set rec pg name c
      else case map_of (pg_cache pg c) (routingSetKey name condition) of
             Some block \<Rightarrow> cret (c, block)
           | None \<Rightarrow>
               (case cp_sets c name of
                  None \<Rightarrow> Some (Inl (UndefinedRuleSet name))
                | Some s \<Rightarrow>
                    cbind (resolve_plain_set rec pg name c) (\<lambda>(c1, block).
                      cbind (pg_condition pg block condition name c1) (\<lambda>(c2, block').
                        store_block pg (routingSetKey name condition) block' c2))))"

definition append_batch :: "'b rule_set_program \<Rightarrow> string \<Rightarrow> 'b \<Rightarrow> compiler \<times> 'b \<Rightarrow> (compiler \<times> 'b) outcome" where
  "append_batch pg name block cb =
     (case pg_append pg block (snd cb) of Inl e \<Rightarrow> Some (Inl (InBlock name e)) | Inr block' \<Rightarrow> cret (fst cb, block'))"

definition flush_rules :: "'b rule_set_program \<Rightarrow> string \<Rightarrow> routing_rule list \<Rightarrow> 'b \<Rightarrow> compiler \<Rightarrow> (compiler \<times> 'b) outcome" where
  "flush_rules pg name local block c =
     (if local = [] then cret (c, block) else cbind (cwrap name (pg_compile pg local name c)) (append_batch pg name block))"

text \<open>\<^verbatim>\<open>resolveBlockStatements\<close>: \<open>n\<close> bounds the chain of references, \<open>local\<close> holds the rules since the last use.\<close>

fun resolveBlockStatements :: "nat \<Rightarrow> 'b rule_set_program \<Rightarrow> string \<Rightarrow> routing_statement list \<Rightarrow> routing_rule list \<Rightarrow> 'b \<Rightarrow> compiler \<Rightarrow>
    (compiler \<times> 'b) outcome" where
  "resolveBlockStatements n pg name [] local block c = flush_rules pg name local block c"
| "resolveBlockStatements n pg name (st # sts) local block c =
     (case st_Kind st of
        StRule \<Rightarrow> (case st_Rule st of None \<Rightarrow> Some (Inl BuildPanic) | Some r \<Rightarrow> resolveBlockStatements n pg name sts (local @ [r]) block c)
      | StUse \<Rightarrow>
          (case n of
             0 \<Rightarrow> None
           | Suc k \<Rightarrow>
               cbind (flush_rules pg name local block c) (\<lambda>(c1, block1).
                 cbind (cwrap name (resolveRuleSet (\<lambda>nm sts' c'. resolveBlockStatements k pg nm sts' [] (pg_empty pg) c') pg (st_Use st) (st_Condition st) c1))
                   (\<lambda>cb. cbind (append_batch pg name block1 cb) (\<lambda>(c3, block3). resolveBlockStatements n pg name sts [] block3 c3))))
      | StOther _ \<Rightarrow> Some (Inl (UnknownStatement name)))"

section \<open>Routing rules\<close>

definition compileRuleBatch :: "compile_env \<Rightarrow> routing_rule list \<Rightarrow> string \<Rightarrow> compiler \<Rightarrow> (compiler \<times> routing_span) build_result" where
  "compileRuleBatch env rules owner c =
     (let start = length (b_rules (cp_builder c)) in
      case applyRules (ce_sha env) rules owner (cp_builder c) of
        Inl e \<Rightarrow> Inl e
      | Inr b \<Rightarrow>
          if length (b_rules b) > MaxMatchSetLen then Inl (TooManyPhysical (length (b_rules b)))
          else Inr (c\<lparr>cp_builder := b\<rparr>, \<lparr>sp_start = start, sp_end = length (b_rules b), sp_phase = PhaseRoute, sp_global = False\<rparr>))"

definition routingProgram :: "compile_env \<Rightarrow> resolved_block rule_set_program" where
  "routingProgram env =
     \<lparr>pg_cache = cp_resolved, pg_store = (\<lambda>key block c. c\<lparr>cp_resolved := (key, block) # cp_resolved c\<rparr>),
      pg_compile = (\<lambda>rules name c. Some (case compileRuleBatch env rules name c of
         Inl e \<Rightarrow> Inl e | Inr (c', span) \<Rightarrow> (case block_appendSpan [] span of Inl e \<Rightarrow> Inl e | Inr block \<Rightarrow> Inr (c', block)))),
      pg_condition = (\<lambda>body condition name c.
         cbind (conditionalBlock env body condition name (cp_builder c)) (\<lambda>(b, block). cret (c\<lparr>cp_builder := b\<rparr>, block))),
      pg_append = appendBlock, pg_empty = []\<rparr>"

definition resolve_in :: "'b rule_set_program \<Rightarrow> string \<Rightarrow> routing_statement list \<Rightarrow> compiler \<Rightarrow> (compiler \<times> 'b) outcome" where
  "resolve_in pg name sts c = resolveBlockStatements maxRoutingReferenceDepth pg name sts [] (pg_empty pg) c"

definition resolveSet :: "compile_env \<Rightarrow> string \<Rightarrow> func list \<Rightarrow> compiler \<Rightarrow> (compiler \<times> resolved_block) outcome" where
  "resolveSet env name condition c = resolveRuleSet (resolve_in (routingProgram env)) (routingProgram env) name condition c"

definition resolveStatements :: "compile_env \<Rightarrow> string \<Rightarrow> routing_statement list \<Rightarrow> compiler \<Rightarrow> (compiler \<times> resolved_block) outcome" where
  "resolveStatements env name sts c = resolve_in (routingProgram env) name sts c"

section \<open>Flow rules\<close>

definition applyFlowEffect :: "compile_env \<Rightarrow> routing_rule \<Rightarrow> match_action \<Rightarrow> u8 \<Rightarrow> string \<Rightarrow> string \<Rightarrow> builder \<Rightarrow> builder build_result" where
  "applyFlowEffect env rule action flags owner sect b =
     (let start = length (b_rules b) in
      case ApplyPredicate (routing_parsers (ce_sha env)) (rr_AndFunctions rule) direct_outbound b of
        Inl e \<Rightarrow> Inl e
      | Inr b1 \<Rightarrow>
          let k = length (b_rules b1) - 1; tail = b_rules b1 ! k;
              tail' = tail\<lparr>ms_action := action, ms_flags := ms_flags tail OR push_bit matchCaptureShift flags\<rparr>
          in Inr (rememberRule start rule owner sect (b1\<lparr>b_rules := (b_rules b1)[k := tail']\<rparr>)))"

definition destinationDiagnosticRule :: "destination_rewrite \<Rightarrow> routing_rule" where
  "destinationDiagnosticRule rule =
     \<lparr>rr_AndFunctions = dr_Filter rule,
      rr_Outbound = plain_func ''dnat'' (map (\<lambda>ip. kv_param [] (if dr_Port rule \<noteq> 0 then addr_port_String \<lparr>ap_addr = ip, ap_port = dr_Port rule\<rparr> else addr_String ip)) (dr_To rule)),
      rr_Sources = dr_Sources rule\<rparr>"

fun apply_effects :: "compile_env \<Rightarrow> (routing_rule \<times> match_action \<times> u8) list \<Rightarrow> string \<Rightarrow> string \<Rightarrow> builder \<Rightarrow> builder build_result" where
  "apply_effects env [] owner sect b = Inr b"
| "apply_effects env ((rule, action, flags) # es) owner sect b =
     (case applyFlowEffect env rule action flags owner sect b of Inl e \<Rightarrow> Inl e | Inr b1 \<Rightarrow> apply_effects env es owner sect b1)"

definition compileDestinations :: "compile_env \<Rightarrow> destination_rewrite list \<Rightarrow> string \<Rightarrow> string \<Rightarrow> bool \<Rightarrow> compiler \<Rightarrow> (compiler \<times> flow_block) build_result" where
  "compileDestinations env rules owner sect global c =
     (if rules = [] then Inr (c, empty_flow)
      else let start = length (b_rules (cp_builder c)) in
           case apply_effects env (map (\<lambda>r. (destinationDiagnosticRule r, MA_Capture, captureDestination)) rules) owner sect (cp_builder c) of
             Inl e \<Rightarrow> Inl e
           | Inr b \<Rightarrow>
               (case block_appendSpan [] \<lparr>sp_start = start, sp_end = length (b_rules b), sp_phase = PhaseIngress, sp_global = global\<rparr> of
                  Inl e \<Rightarrow> Inl e
                | Inr cap \<Rightarrow>
                    Inr (c\<lparr>cp_builder := b, cp_nextFragment := Suc (cp_nextFragment c)\<rparr>,
                         \<lparr>fb_capture = cap, fb_controls = [],
                          fb_destinations = [\<lparr>dfr_id = cp_nextFragment c, dfr_rules = rules, dfr_owner = owner, dfr_section = sect\<rparr>]\<rparr>)))"

definition flow_action_code :: "flow_action \<Rightarrow> match_action" where
  "flow_action_code a = (case a of FlowMust \<Rightarrow> MA_Must | FlowBump \<Rightarrow> MA_Bump)"

fun diagnosticAction :: "match_action \<Rightarrow> string" where
  "diagnosticAction MA_Route = ''route''"
| "diagnosticAction MA_Must = ''must''"
| "diagnosticAction MA_Bump = ''bump''"
| "diagnosticAction MA_Capture = ''capture''"
| "diagnosticAction MA_FlowEnd = ''flow_end''"
| "diagnosticAction MA_ConditionalJump = ''use''"
| "diagnosticAction MA_Match = ''destination''"
| "diagnosticAction MA_Miss = ''destination_miss''"
| "diagnosticAction _ = ''logical''"

definition control_effect :: "flow_rule \<Rightarrow> routing_rule \<times> match_action \<times> u8" where
  "control_effect r =
     (let a = flow_action_code (fr_Action r) in
      (\<lparr>rr_AndFunctions = fr_Filter r, rr_Outbound = plain_func (diagnosticAction a) [], rr_Sources = fr_Sources r\<rparr>, a, 0))"

definition compileFlowBatch :: "compile_env \<Rightarrow> routing_rule list \<Rightarrow> string \<Rightarrow> compiler \<Rightarrow> (compiler \<times> flow_block) build_result" where
  "compileFlowBatch env rules owner c =
     (case rules_Plan rules of
        Inl e \<Rightarrow> Inl e
      | Inr plan \<Rightarrow>
          (case compileDestinations env (rp_Destinations plan) owner ''rules'' False c of
             Inl e \<Rightarrow> Inl e
           | Inr (c1, block) \<Rightarrow>
               let start = length (b_rules (cp_builder c1)) in
               case apply_effects env (map control_effect (rp_Controls plan)) owner ''rules'' (cp_builder c1) of
                 Inl e \<Rightarrow> Inl e
               | Inr b \<Rightarrow>
                   if length (b_rules b) > MaxMatchSetLen then Inl (TooManyPhysical (length (b_rules b)))
                   else (case block_appendSpan (fb_controls block) \<lparr>sp_start = start, sp_end = length (b_rules b), sp_phase = PhaseFlow, sp_global = False\<rparr> of
                           Inl e \<Rightarrow> Inl e
                         | Inr ctl \<Rightarrow> Inr (c1\<lparr>cp_builder := b\<rparr>, block\<lparr>fb_controls := ctl\<rparr>))))"

text \<open>The destinations of a conditional use keep their own filter behind the condition, as new fragments.\<close>

fun condition_fragments :: "func list \<Rightarrow> nat \<Rightarrow> destination_fragment list \<Rightarrow> destination_fragment list" where
  "condition_fragments condition k [] = []"
| "condition_fragments condition k (d # ds) =
     d\<lparr>dfr_id := k, dfr_rules := map (\<lambda>r. r\<lparr>dr_Filter := condition @ dr_Filter r\<rparr>) (dfr_rules d)\<rparr> # condition_fragments condition (Suc k) ds"

definition conditionalFlowBlock :: "compile_env \<Rightarrow> flow_block \<Rightarrow> func list \<Rightarrow> string \<Rightarrow> compiler \<Rightarrow> (compiler \<times> flow_block) outcome" where
  "conditionalFlowBlock env body condition name c =
     cbind (conditionalBlock env (fb_capture body) condition name (cp_builder c)) (\<lambda>(b1, cap).
       cbind (conditionalBlock env (fb_controls body) condition name b1) (\<lambda>(b2, ctl).
         cret (c\<lparr>cp_builder := b2, cp_nextFragment := cp_nextFragment c + length (fb_destinations body)\<rparr>,
               \<lparr>fb_capture = cap, fb_controls = ctl,
                fb_destinations = condition_fragments condition (cp_nextFragment c) (fb_destinations body)\<rparr>)))"

definition flowProgram :: "compile_env \<Rightarrow> flow_block rule_set_program" where
  "flowProgram env =
     \<lparr>pg_cache = cp_flows, pg_store = (\<lambda>key block c. c\<lparr>cp_flows := (key, block) # cp_flows c\<rparr>),
      pg_compile = (\<lambda>rules name c. Some (compileFlowBatch env rules name c)),
      pg_condition = conditionalFlowBlock env, pg_append = flow_append, pg_empty = empty_flow\<rparr>"

definition resolveFlowSet :: "compile_env \<Rightarrow> string \<Rightarrow> func list \<Rightarrow> compiler \<Rightarrow> (compiler \<times> flow_block) outcome" where
  "resolveFlowSet env name condition c = resolveRuleSet (resolve_in (flowProgram env)) (flowProgram env) name condition c"

definition resolveFlowStatements :: "compile_env \<Rightarrow> string \<Rightarrow> routing_statement list \<Rightarrow> compiler \<Rightarrow> (compiler \<times> flow_block) outcome" where
  "resolveFlowStatements env name sts c = resolve_in (flowProgram env) name sts c"

section \<open>HTTP capture\<close>

record host_rule =
  hr_Host :: string
  hr_Ports :: "u16 list"
  hr_Exclude :: bool

type_synonym scope = "host_rule list"

record routing_capture =
  rcap_http :: "scope list"
  rcap_requestRouting :: "scope list"

record host_group =
  hg_ports :: "u16 list"
  hg_domains :: "param list"
  hg_ips :: "param list"
  hg_seen :: "string set"

definition meta_char :: "char \<Rightarrow> bool" where
  "meta_char c \<longleftrightarrow> c \<in> set ([backslash] @ ''.+*?()|[]{}^$'')"

definition QuoteMeta :: "string \<Rightarrow> string" where
  "QuoteMeta s = concat (map (\<lambda>c. if meta_char c then [backslash, c] else [c]) s)"

text \<open>\<^verbatim>\<open>strings.ReplaceAll\<close> of a two-byte pattern.\<close>

fun replace_pair :: "char \<Rightarrow> char \<Rightarrow> string \<Rightarrow> string \<Rightarrow> string" where
  "replace_pair a b new (c # d # s) = (if c = a \<and> d = b then new @ replace_pair a b new s else c # replace_pair a b new (d # s))"
| "replace_pair a b new s = s"

definition host_param :: "string \<Rightarrow> param" where
  "host_param host =
     (if list_ex (\<lambda>c. c = CHR ''*'' \<or> c = CHR ''?'') host
      then kv_param ''regex'' (''^'' @ replace_pair backslash (CHR ''?'') ''.'' (replace_pair backslash (CHR ''*'') ''.*'' (QuoteMeta host)) @ ''$'')
      else kv_param ''full'' host)"

definition add_host :: "string \<Rightarrow> host_group \<Rightarrow> host_group" where
  "add_host host g =
     (case ParseAddr host of
        Some ip \<Rightarrow>
          (let h = addr_String (addr_Unmap ip) in
           (if h \<in> hg_seen g then g else g\<lparr>hg_ips := hg_ips g @ [kv_param [] h]\<rparr>)\<lparr>hg_seen := insert h (hg_seen g)\<rparr>)
      | None \<Rightarrow>
          (if host \<in> hg_seen g then g else g\<lparr>hg_domains := hg_domains g @ [host_param host]\<rparr>)\<lparr>hg_seen := insert host (hg_seen g)\<rparr>)"

text \<open>Groups are found by their port set and kept in the order of first appearance.\<close>

fun update_group :: "u16 list \<Rightarrow> (host_group \<Rightarrow> host_group) \<Rightarrow> host_group list \<Rightarrow> host_group list" where
  "update_group ports f [] = [f \<lparr>hg_ports = ports, hg_domains = [], hg_ips = [], hg_seen = {}\<rparr>]"
| "update_group ports f (g # gs) = (if hg_ports g = ports then f g # gs else g # update_group ports f gs)"

definition add_host_rule :: "domain_lib \<Rightarrow> host_rule \<Rightarrow> host_group list \<Rightarrow> host_group list" where
  "add_host_rule lib rule gs =
     (let host = str_trim_suffix (str_ToLower lib (hr_Host rule)) ''.'';
          ports = remdups_adj (sort (filter (\<lambda>p. p \<noteq> 0) (hr_Ports rule)))
      in if hr_Exclude rule \<or> host = [] \<or> (hr_Ports rule \<noteq> [] \<and> ports = []) then gs
         else update_group ports (add_host host) gs)"

definition group_predicates :: "host_group \<Rightarrow> func list list" where
  "group_predicates g =
     map (\<lambda>hosts. [plain_func ''l4proto'' [kv_param [] ''tcp'', kv_param [] ''udp''], hosts] @
            (if hg_ports g = [] then [] else [plain_func ''dport'' (map (\<lambda>p. kv_param [] (dec_digits (unat p))) (hg_ports g))]))
       (filter (\<lambda>f. fn_Params f \<noteq> []) [plain_func ''domain'' (hg_domains g), plain_func ''dip'' (hg_ips g)])"

definition mitmCapturePredicates :: "domain_lib \<Rightarrow> scope list \<Rightarrow> func list list" where
  "mitmCapturePredicates lib scopes = concat (map group_predicates (foldl (\<lambda>gs r. add_host_rule lib r gs) [] (concat scopes)))"

definition compileHTTPCapture :: "compile_env \<Rightarrow> scope list \<Rightarrow> u8 \<Rightarrow> routing_phase \<Rightarrow> compiler \<Rightarrow> (compiler \<times> routing_span) build_result" where
  "compileHTTPCapture env scopes flags phase c =
     (let start = length (b_rules (cp_builder c)); predicates = mitmCapturePredicates (ce_lib env) scopes in
      if predicates = [] then Inr (c, zero_span)
      else let b0 = (cp_builder c)\<lparr>b_rules := b_rules (cp_builder c) @ [match_set0 MT_HTTPClient]\<rparr>;
               name = (if flags AND captureHTTPRequest \<noteq> 0 then ''http_request'' else ''http'');
               rule = (\<lambda>p. \<lparr>rr_AndFunctions = p, rr_Outbound = plain_func ''capture'' [kv_param [] name], rr_Sources = []\<rparr>)
           in case apply_effects env (map (\<lambda>p. (rule p, MA_Capture, flags)) predicates) ''flow_control'' [] b0 of
                Inl e \<Rightarrow> Inl e
              | Inr b \<Rightarrow>
                  let end' = length (b_rules b) in
                  Inr (c\<lparr>cp_builder := setConditionalJump start (end' - start - 1) b\<rparr>,
                       \<lparr>sp_start = start, sp_end = end', sp_phase = phase, sp_global = True\<rparr>))"

section \<open>Shared programs and profiles\<close>

record prepared_rules =
  pre_validationOutbounds :: "(string \<Rightarrow> u8 option) option"
  pre_destinations :: "destination_rewrite list"
  pre_routing :: routing_config
  pre_bypass :: "routing_rule list"
  pre_earlyRoutes :: "routing_rule list"
  pre_lateRoutes :: "routing_rule list"
  pre_capture :: "routing_capture option"

definition mark_bypass :: "nat \<Rightarrow> match_set list \<Rightarrow> match_set list" where
  "mark_bypass start rules = take start rules @
     map (\<lambda>ms. if ms_action ms = MA_Route then ms\<lparr>ms_flags := ms_flags ms OR matchFlagBypass\<rparr> else ms) (drop start rules)"

definition shared_captures :: "compile_env \<Rightarrow> routing_capture option \<Rightarrow> compiler \<Rightarrow> compiler build_result" where
  "shared_captures env capture c =
     (case capture of
        None \<Rightarrow> Inr c
      | Some cap \<Rightarrow>
          (case compileHTTPCapture env (rcap_requestRouting cap) (captureHTTP OR captureHTTPRequest) PhaseIngress c of
             Inl e \<Rightarrow> Inl e
           | Inr (c1, request) \<Rightarrow>
               (case compileHTTPCapture env (rcap_http cap) captureHTTP PhaseFlow c1 of
                  Inl e \<Rightarrow> Inl e
                | Inr (c2, http) \<Rightarrow> Inr (c2\<lparr>cp_shared := (cp_shared c2)\<lparr>sh_request := request, sh_http := http\<rparr>\<rparr>))))"

definition compileShared :: "compile_env \<Rightarrow> prepared_rules \<Rightarrow> compiler \<Rightarrow> compiler build_result" where
  "compileShared env p c =
     (let start = length (b_rules (cp_builder c)) in
      case applyRules (ce_sha env) (pre_bypass p) ''api_bypass'' (cp_builder c) of
        Inl e \<Rightarrow> Inl e
      | Inr b \<Rightarrow>
          let bypass = \<lparr>sp_start = start, sp_end = length (b_rules b), sp_phase = PhaseIngress, sp_global = True\<rparr>;
              c1 = c\<lparr>cp_builder := b\<lparr>b_rules := mark_bypass start (b_rules b)\<rparr>, cp_shared := (cp_shared c)\<lparr>sh_bypass := bypass\<rparr>\<rparr>
          in case compileDestinations env (pre_destinations p) ''destination'' [] True c1 of
               Inl e \<Rightarrow> Inl e
             | Inr (c2, dests) \<Rightarrow>
                 (case shared_captures env (pre_capture p) (c2\<lparr>cp_shared := (cp_shared c2)\<lparr>sh_destinations := dests\<rparr>\<rparr>) of
                    Inl e \<Rightarrow> Inl e
                  | Inr c3 \<Rightarrow>
                      (case compileRuleBatch env (pre_earlyRoutes p) ''plugin_early'' c3 of
                         Inl e \<Rightarrow> Inl e
                       | Inr (c4, early) \<Rightarrow>
                           (case compileRuleBatch env (pre_lateRoutes p) ''plugin_late'' c4 of
                              Inl e \<Rightarrow> Inl e
                            | Inr (c5, late) \<Rightarrow>
                                Inr (c5\<lparr>cp_shared := (cp_shared c5)\<lparr>sh_early := early\<lparr>sp_global := True\<rparr>, sh_late := late\<lparr>sp_global := True\<rparr>\<rparr>\<rparr>)))))"

fun append_blocks :: "resolved_block \<Rightarrow> resolved_block list \<Rightarrow> resolved_block build_result" where
  "append_blocks b [] = Inr b"
| "append_blocks b (x # xs) = (case appendBlock b x of Inl e \<Rightarrow> Inl e | Inr b' \<Rightarrow> append_blocks b' xs)"

text \<open>The instruction that ends the flow phase is created once.\<close>

definition flow_end :: "flow_block \<Rightarrow> resolved_block \<Rightarrow> compiler \<Rightarrow> (compiler \<times> resolved_block) build_result" where
  "flow_end flow block c =
     (if fb_controls flow \<noteq> [] \<or> span_len (sh_http (cp_shared c)) \<noteq> 0
      then let start = length (b_rules (cp_builder c));
               c1 = (if span_len (cp_flowEnd c) = 0
                     then c\<lparr>cp_builder := (cp_builder c)\<lparr>b_rules := b_rules (cp_builder c) @ [(match_set0 MT_Fallback)\<lparr>ms_action := MA_FlowEnd\<rparr>]\<rparr>,
                            cp_flowEnd := \<lparr>sp_start = start, sp_end = Suc start, sp_phase = PhaseFlow, sp_global = False\<rparr>\<rparr>
                     else c)
           in (case block_appendSpan block (cp_flowEnd c1) of Inl e \<Rightarrow> Inl e | Inr block' \<Rightarrow> Inr (c1, block'))
      else Inr (c, block))"

definition profile_fallback :: "routing_policy \<Rightarrow> resolved_block \<Rightarrow> builder \<Rightarrow> (builder \<times> resolved_block) build_result" where
  "profile_fallback policy block b =
     (case pol_Fallback policy of
        None \<Rightarrow> Inl BuildPanic
      | Some f \<Rightarrow>
          (case parseFallback f b of
             Inl e \<Rightarrow> Inl e
           | Inr fallback \<Rightarrow>
               (case addFallback fallback b of
                  Inl e \<Rightarrow> Inl e
                | Inr (span, b1) \<Rightarrow> (case block_appendSpan block span of Inl e \<Rightarrow> Inl e | Inr block' \<Rightarrow> Inr (b1, block')))))"

definition finish_profile :: "nat \<Rightarrow> string list \<Rightarrow> routing_policy \<Rightarrow> flow_block \<Rightarrow> resolved_block \<Rightarrow> compiler \<Rightarrow> compiler build_result" where
  "finish_profile i interfaceNames policy flow body c =
     (let sh = cp_shared c in
      case append_blocks [] [[sh_bypass sh], fb_capture flow, fb_capture (sh_destinations sh), [sh_request sh], fb_controls flow, [sh_http sh]] of
        Inl e \<Rightarrow> Inl e
      | Inr block1 \<Rightarrow>
          (case flow_end flow block1 c of
             Inl e \<Rightarrow> Inl e
           | Inr (c1, block2) \<Rightarrow>
               (case append_blocks block2 [[sh_early sh], body, [sh_late sh]] of
                  Inl e \<Rightarrow> Inl e
                | Inr block3 \<Rightarrow>
                    (case profile_fallback policy block3 (cp_builder c1) of
                       Inl e \<Rightarrow> Inl e
                     | Inr (b, block) \<Rightarrow>
                         Inr (c1\<lparr>cp_builder := b\<lparr>b_profiles := b_profiles b @ [\<lparr>pf_ID = i, pf_Name = pol_Name policy, pf_InterfaceNames = interfaceNames,
                                                                       pf_Spans = block, pf_Destination = []\<rparr>]\<rparr>,
                                 cp_profileDestinations := (cp_profileDestinations c1)(i := fb_destinations flow @ fb_destinations (sh_destinations sh))\<rparr>)))))"

definition addProfile :: "compile_env \<Rightarrow> nat \<Rightarrow> string list \<Rightarrow> routing_policy \<Rightarrow> compiler \<Rightarrow> compiler outcome" where
  "addProfile env i interfaceNames policy c =
     cbind (cwrap (pol_Name policy) (resolveFlowStatements env (pol_Name policy) (pol_Rules policy) c)) (\<lambda>(c1, flow).
       cbind (resolveStatements env (pol_Name policy) (pol_Statements policy) c1) (\<lambda>(c2, body).
         cwrap (pol_Name policy) (Some (finish_profile i interfaceNames policy flow body c2))))"

section \<open>Destination predicates\<close>

fun addDestinationPredicates :: "compile_env \<Rightarrow> destination_rewrite list \<Rightarrow> string \<Rightarrow> string \<Rightarrow> builder \<Rightarrow> (builder \<times> destination_predicate list) build_result" where
  "addDestinationPredicates env [] owner sect b = Inr (b, [])"
| "addDestinationPredicates env (rule # rules) owner sect b =
     (let start = length (b_rules b) in
      case ApplyPredicate (routing_parsers (ce_sha env)) (dr_Filter rule) direct_outbound b of
        Inl e \<Rightarrow> Inl e
      | Inr b1 \<Rightarrow>
          let b2 = rememberRule start (destinationDiagnosticRule rule) owner sect b1; k = length (b_rules b2) - 1;
              b3 = b2\<lparr>b_rules := (b_rules b2)[k := (b_rules b2 ! k)\<lparr>ms_action := MA_Match\<rparr>] @ [(match_set0 MT_Fallback)\<lparr>ms_action := MA_Miss\<rparr>]\<rparr>;
              entry = \<lparr>dp_span = \<lparr>sp_start = start, sp_end = length (b_rules b3), sp_phase = PhaseRoute, sp_global = False\<rparr>,
                       dp_domain = list_ex (\<lambda>f. fn_Name f = ''domain'') (dr_Filter rule), dp_targets = dr_To rule, dp_port = dr_Port rule\<rparr>
          in (case addDestinationPredicates env rules owner sect b3 of Inl e \<Rightarrow> Inl e | Inr (b4, es) \<Rightarrow> Inr (b4, entry # es)))"

text \<open>Every fragment is compiled at its first use; \<open>compiled\<close> is the map from fragments to predicates.\<close>

fun profile_predicates :: "compile_env \<Rightarrow> destination_fragment list \<Rightarrow> (nat \<times> destination_predicate list) list \<Rightarrow> builder \<Rightarrow>
    (builder \<times> (nat \<times> destination_predicate list) list \<times> destination_predicate list) build_result" where
  "profile_predicates env [] compiled b = Inr (b, compiled, [])"
| "profile_predicates env (d # ds) compiled b =
     (case (case map_of compiled (dfr_id d) of
              Some ps \<Rightarrow> Inr (b, compiled, ps)
            | None \<Rightarrow>
                (case addDestinationPredicates env (dfr_rules d) (dfr_owner d) (dfr_section d) b of
                   Inl e \<Rightarrow> Inl e | Inr (b1, ps) \<Rightarrow> Inr (b1, (dfr_id d, ps) # compiled, ps))) of
        Inl e \<Rightarrow> Inl e
      | Inr (b1, compiled1, ps) \<Rightarrow>
          (case profile_predicates env ds compiled1 b1 of Inl e \<Rightarrow> Inl e | Inr (b2, compiled2, qs) \<Rightarrow> Inr (b2, compiled2, ps @ qs)))"

fun finish_profiles :: "compile_env \<Rightarrow> (nat \<Rightarrow> destination_fragment list) \<Rightarrow> routing_profile list \<Rightarrow> (nat \<times> destination_predicate list) list \<Rightarrow> builder \<Rightarrow>
    (builder \<times> routing_profile list) build_result" where
  "finish_profiles env dests [] compiled b = Inr (b, [])"
| "finish_profiles env dests (p # ps) compiled b =
     (case profile_predicates env (dests (pf_ID p)) compiled b of
        Inl e \<Rightarrow> Inl e
      | Inr (b1, compiled1, preds) \<Rightarrow>
          (case finish_profiles env dests ps compiled1 b1 of
             Inl e \<Rightarrow> Inl e
           | Inr (b2, ps') \<Rightarrow> Inr (b2, p\<lparr>pf_Destination := pf_Destination p @ preds\<rparr> # ps')))"

definition compiler_finish :: "compile_env \<Rightarrow> compiler \<Rightarrow> compiler outcome" where
  "compiler_finish env c =
     (let b = (cp_builder c)\<lparr>b_routingEnd := length (b_rules (cp_builder c)), b_kernelLpmLen := length (b_lpmTries (cp_builder c))\<rparr> in
      case finish_profiles env (cp_profileDestinations c) (b_profiles b) [] b of
        Inl e \<Rightarrow> Some (Inl e)
      | Inr (b1, profiles) \<Rightarrow> cbind (builder_validate (b1\<lparr>b_profiles := profiles\<rparr>)) (\<lambda>b2. cret (c\<lparr>cp_builder := b2\<rparr>)))"

section \<open>The whole configuration\<close>

definition empty_shared :: shared_programs where
  "empty_shared = \<lparr>sh_bypass = zero_span, sh_request = zero_span, sh_http = zero_span, sh_early = zero_span, sh_late = zero_span, sh_destinations = empty_flow\<rparr>"

definition new_compiler :: "(string \<Rightarrow> u8 option) option \<Rightarrow> (string \<Rightarrow> u8 option) \<Rightarrow> (string \<Rightarrow> routing_rule_set option) \<Rightarrow> (string \<Rightarrow> rule_set_kind option) \<Rightarrow> compiler" where
  "new_compiler validation outbounds sets kinds =
     \<lparr>cp_validationOutbounds = validation, cp_builder = empty_builder outbounds, cp_sets = sets, cp_setKinds = kinds, cp_resolved = [],
      cp_flows = [], cp_shared = empty_shared, cp_profileDestinations = (\<lambda>_. []), cp_flowEnd = zero_span, cp_nextFragment = 0\<rparr>"

definition newValidator :: "compiler \<Rightarrow> compiler" where
  "newValidator c =
     new_compiler None (case cp_validationOutbounds c of Some outs \<Rightarrow> outs | None \<Rightarrow> b_outboundName2Id (cp_builder c)) (cp_sets c) (cp_setKinds c)"

definition remember_validated :: "compile_env \<Rightarrow> string \<Rightarrow> compiler \<Rightarrow> compiler \<Rightarrow> compiler outcome" where
  "remember_validated env owner c validator =
     cbind (compiler_finish env validator) (\<lambda>v.
       cbind (Some (validatePredicates (ce_lib env) (cp_builder v))) (\<lambda>_.
         cret (c\<lparr>cp_builder := rememberInactive (cp_builder v) owner (cp_builder c)\<rparr>)))"

fun validateUnusedRuleSets :: "compile_env \<Rightarrow> string set \<Rightarrow> routing_rule_set list \<Rightarrow> compiler \<Rightarrow> compiler outcome" where
  "validateUnusedRuleSets env reachable [] c = cret c"
| "validateUnusedRuleSets env reachable (s # ss) c =
     (if rset_Name s \<in> reachable then validateUnusedRuleSets env reachable ss c
      else cbind (if cp_setKinds c (rset_Name s) = Some KindFlow
                  then cbind (resolveFlowSet env (rset_Name s) [] (newValidator c)) (\<lambda>(v, _). cret v)
                  else cbind (resolveSet env (rset_Name s) [] (newValidator c)) (\<lambda>(v, _). cret v))
             (\<lambda>v. cbind (remember_validated env (''rule_set/'' @ rset_Name s) c v) (validateUnusedRuleSets env reachable ss)))"

text \<open>The selected policies in the order of selection, each with the interfaces bound to it.\<close>

fun bind_interface :: "routing_interface \<Rightarrow> (string \<times> string list) list \<Rightarrow> (string \<times> string list) list" where
  "bind_interface r [] = [(rif_Policy r, [rif_Name r])]"
| "bind_interface r ((policy, names) # bs) = (if policy = rif_Policy r then (policy, names @ [rif_Name r]) # bs else (policy, names) # bind_interface r bs)"

definition profile_bindings :: "routing_config \<Rightarrow> (string \<times> string list) list" where
  "profile_bindings r = foldl (\<lambda>bs i. bind_interface i bs) [(rcf_Default r, [])] (rcf_Interfaces r)"

definition policy_map :: "routing_policy list \<Rightarrow> string \<Rightarrow> routing_policy" where
  "policy_map ps name =
     (case find (\<lambda>p. pol_Name p = name) (rev ps) of
        Some p \<Rightarrow> p
      | None \<Rightarrow> \<lparr>pol_Name = [], pol_Rules = [], pol_Statements = [], pol_Fallback = None\<rparr>)"

fun add_profiles :: "compile_env \<Rightarrow> routing_policy list \<Rightarrow> nat \<Rightarrow> (string \<times> string list) list \<Rightarrow> compiler \<Rightarrow> compiler outcome" where
  "add_profiles env ps i [] c = cret c"
| "add_profiles env ps i ((name, ifs) # bs) c = cbind (addProfile env (Suc i) ifs (policy_map ps name) c) (add_profiles env ps (Suc i) bs)"

fun validate_unselected :: "compile_env \<Rightarrow> string list \<Rightarrow> routing_policy list \<Rightarrow> compiler \<Rightarrow> compiler outcome" where
  "validate_unselected env selected [] c = cret c"
| "validate_unselected env selected (p # ps) c =
     (if pol_Name p \<in> set selected then validate_unselected env selected ps c
      else cbind (addProfile env 0 [] p (newValidator c)) (\<lambda>v.
             cbind (remember_validated env (''policy/'' @ pol_Name p) c v) (validate_unselected env selected ps)))"

definition compiler_compile :: "compile_env \<Rightarrow> routing_config \<Rightarrow> compiler \<Rightarrow> compiler outcome" where
  "compiler_compile env r c =
     cbind (add_profiles env (rcf_Policies r) 0 (profile_bindings r) (c\<lparr>cp_builder := (cp_builder c)\<lparr>b_defaultProfileID := 1\<rparr>\<rparr>)) (\<lambda>c1.
       cbind (validate_unselected env (map fst (profile_bindings r)) (rcf_Policies r) c1) (\<lambda>c2.
         validateUnusedRuleSets env (fst ` fst ` set (cp_resolved c2) \<union> fst ` fst ` set (cp_flows c2)) (rcf_RuleSets r) c2))"

definition compileRouting :: "compile_env \<Rightarrow> prepared_rules \<Rightarrow> (string \<Rightarrow> u8 option) \<Rightarrow> builder outcome" where
  "compileRouting env p outbounds =
     cbind (RuleSetKinds (pre_routing p)) (\<lambda>kinds.
       cbind (Some (compileShared env p (new_compiler (pre_validationOutbounds p) outbounds (set_map (rcf_RuleSets (pre_routing p))) kinds))) (\<lambda>c1.
         cbind (compiler_compile env (pre_routing p) c1) (\<lambda>c2.
           cbind (compiler_finish env c2) (\<lambda>c3. cret (cp_builder c3)))))"

end
