(* ===== verification/Routing_Prepare.thy ===== *)
theory Routing_Prepare
  imports Rule_Optimizer Routing_Compile
begin

text \<open>
  The preparation of rules before they are compiled (\<^verbatim>\<open>control/routing_prepare.go\<close>, \<^verbatim>\<open>prepareRoutingConfig\<close> and
  the geodata expansion of \<^verbatim>\<open>component/routing/optimizer.go\<close>). Locating, reading and decoding geodata files is a
  parameter; the expansion of decoded entries to parameters is modelled.
\<close>

section \<open>Geodata\<close>

datatype geo_type = DomainPlain | DomainRegex | DomainRoot | DomainFull | DomainOther

record geo_domain =
  gd_Type :: geo_type
  gd_Value :: string
  gd_Attribute :: "string list"

record geo_cidr =
  gc_Ip :: bytes
  gc_Prefix :: nat

record geo_ip =
  gi_InverseMatch :: bool
  gi_Cidr :: "geo_cidr list"

text \<open>What the files hold, by file name and code; the networks of a database by file, field and value.\<close>

record geo_files =
  gf_cancelled :: bool
  gf_GeoSite :: "string \<Rightarrow> string \<Rightarrow> geo_domain list build_result"
  gf_GeoIP :: "string \<Rightarrow> string \<Rightarrow> geo_ip build_result"
  gf_MMDB :: "string \<Rightarrow> string \<Rightarrow> string \<Rightarrow> ip_prefix list build_result"
  gf_EqualFold :: "string \<Rightarrow> string \<Rightarrow> bool"
  gf_ToLower :: "string \<Rightarrow> string"

definition contextErr :: "geo_files \<Rightarrow> unit build_result" where
  "contextErr o1 = (if gf_cancelled o1 then Inl (InvalidConfig ''context canceled'') else Inr ())"

definition with_suffix :: "string \<Rightarrow> string \<Rightarrow> string" where
  "with_suffix ext filename = (if suffix ext filename then filename else filename @ ext)"

definition pfx_String :: "ip_prefix \<Rightarrow> string" where
  "pfx_String p = (if pfx_bits p < 0 \<or> \<not> addr_IsValid (pfx_addr p) then ''invalid Prefix'' else addr_String (pfx_addr p) @ ''/'' @ itoa (pfx_bits p))"

definition paramsFromSubnets :: "string list \<Rightarrow> param list" where
  "paramsFromSubnets subnets = map (kv_param []) subnets"

fun geo_key :: "geo_type \<Rightarrow> string option" where
  "geo_key DomainFull = Some ''full''"
| "geo_key DomainRoot = Some ''suffix''"
| "geo_key DomainPlain = Some ''keyword''"
| "geo_key DomainRegex = Some ''regex''"
| "geo_key DomainOther = None"

definition geosite_params :: "geo_files \<Rightarrow> string \<Rightarrow> geo_domain list \<Rightarrow> param list" where
  "geosite_params o1 attr items =
     concat (map (\<lambda>item. if attr \<noteq> [] \<and> \<not> list_ex (\<lambda>a. gf_EqualFold o1 a attr) (gd_Attribute item) then []
                         else (case geo_key (gd_Type item) of None \<Rightarrow> [] | Some k \<Rightarrow> [kv_param k (gd_Value item)])) items)"

definition loadGeoSite :: "geo_files \<Rightarrow> string \<Rightarrow> string \<Rightarrow> param list build_result" where
  "loadGeoSite o1 filename code0 =
     (let (code, attr, _) = str_cut (CHR ''@'') code0 in
      case gf_GeoSite o1 (with_suffix ''.dat'' filename) code of
        Inl e \<Rightarrow> Inl e
      | Inr items \<Rightarrow> (case contextErr o1 of Inl e \<Rightarrow> Inl e | Inr _ \<Rightarrow> Inr (geosite_params o1 attr items)))"

definition addr_FromSlice :: "bytes \<Rightarrow> addr option" where
  "addr_FromSlice bs = (if length bs = 4 then Some (Addr4 (ucast (word_of_bytes bs))) else if length bs = 16 then Some (addr_From16 bs) else None)"

fun geoip_params :: "geo_cidr list \<Rightarrow> param list build_result" where
  "geoip_params [] = Inr []"
| "geoip_params (c # cs) =
     (case addr_FromSlice (gc_Ip c) of
        None \<Rightarrow> Inl (InvalidConfig ''bad geoip file'')
      | Some ip \<Rightarrow>
          (case geoip_params cs of Inl e \<Rightarrow> Inl e | Inr ps \<Rightarrow> Inr (kv_param [] (pfx_String (PrefixFrom ip (int (gc_Prefix c)))) # ps)))"

definition loadGeoIp :: "geo_files \<Rightarrow> string \<Rightarrow> string \<Rightarrow> param list build_result" where
  "loadGeoIp o1 filename code =
     (case gf_GeoIP o1 (with_suffix ''.dat'' filename) code of
        Inl e \<Rightarrow> Inl e
      | Inr g \<Rightarrow>
          (case contextErr o1 of
             Inl e \<Rightarrow> Inl e
           | Inr _ \<Rightarrow> if gi_InverseMatch g then Inl (InvalidConfig ''inverse match'') else geoip_params (gi_Cidr g)))"

definition loadMMDB :: "geo_files \<Rightarrow> string \<Rightarrow> string \<Rightarrow> string \<Rightarrow> param list build_result" where
  "loadMMDB o1 filename field val =
     (case contextErr o1 of
        Inl e \<Rightarrow> Inl e
      | Inr _ \<Rightarrow>
          (case gf_MMDB o1 (with_suffix ''.mmdb'' filename) field val of
             Inl e \<Rightarrow> Inl e
           | Inr nets \<Rightarrow> Inr (paramsFromSubnets (map pfx_String nets))))"

text \<open>The parameters that replace one parameter of a function.\<close>

definition expand_param :: "geo_files \<Rightarrow> string \<Rightarrow> param \<Rightarrow> param list build_result" where
  "expand_param o1 name p =
     (if p_Key p = ''geosite'' then loadGeoSite o1 ''geosite'' (p_Val p)
      else if p_Key p = ''geoip'' then loadGeoIp o1 ''geoip'' (p_Val p)
      else if p_Key p = ''mmdb''
      then (let (field, val, ok) = str_cut (CHR ''='') (p_Val p) in
            if \<not> ok \<or> field = [] \<or> val = [] then Inl (InvalidConfig ''mmdb'')
            else loadMMDB o1 ''geoip'' (gf_ToLower o1 field) (gf_ToLower o1 val))
      else if p_Key p = ''ext''
      then (let (filename, code, ok) = str_cut (CHR '':'') (p_Val p) in
            if \<not> ok \<or> filename = [] \<or> code = [] then Inl (InvalidConfig ''ext'')
            else if name = ''domain'' \<or> name = ''qname'' then loadGeoSite o1 filename code
            else if name = ''dip'' \<or> name = ''sip'' then loadGeoIp o1 filename code
            else Inl (InvalidConfig ''unsupported extension''))
      else Inr [p])"

fun expand_params :: "geo_files \<Rightarrow> string \<Rightarrow> param list \<Rightarrow> param list build_result" where
  "expand_params o1 name [] = Inr []"
| "expand_params o1 name (p # ps) =
     (case contextErr o1 of
        Inl e \<Rightarrow> Inl e
      | Inr _ \<Rightarrow>
          (case expand_param o1 name p of
             Inl e \<Rightarrow> Inl e
           | Inr qs \<Rightarrow> (case expand_params o1 name ps of Inl e \<Rightarrow> Inl e | Inr rs \<Rightarrow> Inr (qs @ rs))))"

fun expand_functions :: "geo_files \<Rightarrow> func list \<Rightarrow> func list build_result" where
  "expand_functions o1 [] = Inr []"
| "expand_functions o1 (f # fs) =
     (case expand_params o1 (fn_Name f) (fn_Params f) of
        Inl e \<Rightarrow> Inl e
      | Inr ps \<Rightarrow> (case expand_functions o1 fs of Inl e \<Rightarrow> Inl e | Inr gs \<Rightarrow> Inr (set_func_params ps f # gs)))"

fun DatReaderOptimizer :: "geo_files \<Rightarrow> routing_rule list \<Rightarrow> routing_rule list build_result" where
  "DatReaderOptimizer o1 [] = Inr []"
| "DatReaderOptimizer o1 (r # rs) =
     (case expand_functions o1 (rr_AndFunctions r) of
        Inl e \<Rightarrow> Inl e
      | Inr fs \<Rightarrow> (case DatReaderOptimizer o1 rs of Inl e \<Rightarrow> Inl e | Inr rs' \<Rightarrow> Inr (r\<lparr>rr_AndFunctions := fs\<rparr> # rs')))"

section \<open>Batches of statements\<close>

fun ApplyRulesOptimizers :: "routing_rule list \<Rightarrow> (routing_rule list \<Rightarrow> routing_rule list build_result) list \<Rightarrow> routing_rule list build_result" where
  "ApplyRulesOptimizers rules [] = Inr rules"
| "ApplyRulesOptimizers rules (opt # opts) = (case opt rules of Inl e \<Rightarrow> Inl e | Inr rules' \<Rightarrow> ApplyRulesOptimizers rules' opts)"

definition routing_optimizers :: "geo_files \<Rightarrow> bool \<Rightarrow> (routing_rule list \<Rightarrow> routing_rule list build_result) list" where
  "routing_optimizers o1 flow =
     [Inr \<circ> AliasOptimizer, DatReaderOptimizer o1] @ (if flow then [] else [Inr \<circ> MergeAndSortRulesOptimizer]) @ [Inr \<circ> DeduplicateParamsOptimizer]"

definition prepare_condition :: "geo_files \<Rightarrow> routing_statement \<Rightarrow> routing_statement build_result" where
  "prepare_condition o1 st =
     (if st_Condition st = [] then Inr st
      else case ApplyRulesOptimizers [\<lparr>rr_AndFunctions = st_Condition st, rr_Outbound = plain_func [] [], rr_Sources = []\<rparr>] (routing_optimizers o1 False) of
             Inl e \<Rightarrow> Inl e
           | Inr rules \<Rightarrow> Inr (st\<lparr>st_Condition := rr_AndFunctions (hd rules)\<rparr>))"

text \<open>Consecutive rules form a batch; a use is a boundary that no rule crosses.\<close>

function prepare_statements :: "geo_files \<Rightarrow> bool \<Rightarrow> routing_statement list \<Rightarrow> routing_statement list build_result" where
  "prepare_statements o1 flow [] = Inr []"
| "prepare_statements o1 flow (st # sts) =
     (if st_Kind st \<noteq> StRule
      then (case prepare_condition o1 st of
              Inl e \<Rightarrow> Inl e
            | Inr st' \<Rightarrow> (case prepare_statements o1 flow sts of Inl e \<Rightarrow> Inl e | Inr rest \<Rightarrow> Inr (st' # rest)))
      else let batch = takeWhile (\<lambda>s. st_Kind s = StRule) (st # sts) in
           if list_ex (\<lambda>s. st_Rule s = None) batch then Inl BuildPanic
           else case ApplyRulesOptimizers (map (the \<circ> st_Rule) batch) (routing_optimizers o1 flow) of
                  Inl e \<Rightarrow> Inl e
                | Inr rules \<Rightarrow>
                    (case prepare_statements o1 flow (dropWhile (\<lambda>s. st_Kind s = StRule) sts) of
                       Inl e \<Rightarrow> Inl e
                     | Inr rest \<Rightarrow> Inr (map rule_statement rules @ rest)))"
  by pat_completeness auto
termination
  by (relation "measure (\<lambda>(_, _, sts). length sts)") (auto simp: le_imp_less_Suc length_dropWhile_le)

fun prepare_sets :: "geo_files \<Rightarrow> (string \<Rightarrow> rule_set_kind option) \<Rightarrow> routing_rule_set list \<Rightarrow> routing_rule_set list build_result" where
  "prepare_sets o1 kinds [] = Inr []"
| "prepare_sets o1 kinds (s # ss) =
     (case prepare_statements o1 (kinds (rset_Name s) = Some KindFlow) (rset_Statements s) of
        Inl e \<Rightarrow> Inl (InBlock (rset_Name s) e)
      | Inr sts \<Rightarrow> (case prepare_sets o1 kinds ss of Inl e \<Rightarrow> Inl e | Inr ss' \<Rightarrow> Inr (s\<lparr>rset_Statements := sts\<rparr> # ss')))"

fun prepare_policies :: "geo_files \<Rightarrow> routing_policy list \<Rightarrow> routing_policy list build_result" where
  "prepare_policies o1 [] = Inr []"
| "prepare_policies o1 (p # ps) =
     (case prepare_statements o1 True (pol_Rules p) of
        Inl e \<Rightarrow> Inl (InBlock (pol_Name p) e)
      | Inr rules \<Rightarrow>
          (case prepare_statements o1 False (pol_Statements p) of
             Inl e \<Rightarrow> Inl (InBlock (pol_Name p) e)
           | Inr sts \<Rightarrow> (case prepare_policies o1 ps of Inl e \<Rightarrow> Inl e | Inr ps' \<Rightarrow> Inr (p\<lparr>pol_Rules := rules, pol_Statements := sts\<rparr> # ps'))))"

definition prepareRoutingConfig :: "geo_files \<Rightarrow> routing_config \<Rightarrow> routing_config outcome" where
  "prepareRoutingConfig o1 source =
     cbind (routing_Validate source) (\<lambda>_.
       cbind (RuleSetKinds source) (\<lambda>kinds.
         Some (case prepare_sets o1 kinds (rcf_RuleSets source) of
                 Inl e \<Rightarrow> Inl e
               | Inr sets \<Rightarrow>
                   (case prepare_policies o1 (rcf_Policies source) of
                      Inl e \<Rightarrow> Inl e
                    | Inr policies \<Rightarrow> Inr (source\<lparr>rcf_RuleSets := sets, rcf_Policies := policies\<rparr>)))))"

section \<open>Destination rules and plugin plans\<close>

fun prepareDestinationRules :: "geo_files \<Rightarrow> destination_rewrite list \<Rightarrow> destination_rewrite list build_result" where
  "prepareDestinationRules o1 [] = Inr []"
| "prepareDestinationRules o1 (r # rs) =
     (if dr_To r = [] then Inl (InvalidConfig ''missing target'')
      else if list_ex (\<lambda>ip. \<not> addr_IsValid ip \<or> addr_Zone ip \<noteq> []) (dr_To r) then Inl (InvalidConfig ''invalid target IP'')
      else if dr_Filter r = [] then Inl (InvalidConfig ''missing predicate'')
      else case ApplyRulesOptimizers [\<lparr>rr_AndFunctions = dr_Filter r, rr_Outbound = plain_func ''direct'' [], rr_Sources = []\<rparr>]
                  [Inr \<circ> AliasOptimizer, DatReaderOptimizer o1, Inr \<circ> DeduplicateParamsOptimizer] of
             Inl e \<Rightarrow> Inl e
           | Inr rules \<Rightarrow>
               (case prepareDestinationRules o1 rs of
                  Inl e \<Rightarrow> Inl e
                | Inr rs' \<Rightarrow> Inr (r\<lparr>dr_Filter := rr_AndFunctions (hd rules)\<rparr> # rs')))"

record plugin_scope =
  ps_Scope :: scope
  ps_PreserveRoute :: bool

record plugin_plan =
  pl_EarlyRoutes :: "routing_rule list"
  pl_Routes :: "routing_rule list"
  pl_Scopes :: "plugin_scope list"

definition enableMITMPlan :: "plugin_plan \<Rightarrow> prepared_rules \<Rightarrow> prepared_rules" where
  "enableMITMPlan plan p =
     (let p1 = p\<lparr>pre_earlyRoutes := pl_EarlyRoutes plan, pre_lateRoutes := pl_Routes plan\<rparr>;
          cap = (case pre_capture p1 of Some c \<Rightarrow> c | None \<Rightarrow> \<lparr>rcap_http = [], rcap_requestRouting = []\<rparr>)
      in if pl_Scopes plan = [] then p1
         else p1\<lparr>pre_capture := Some \<lparr>rcap_http = rcap_http cap @ map ps_Scope (filter ps_PreserveRoute (pl_Scopes plan)),
                                      rcap_requestRouting = rcap_requestRouting cap @ map ps_Scope (filter (\<lambda>s. \<not> ps_PreserveRoute s) (pl_Scopes plan))\<rparr>\<rparr>)"

end
