(* ===== verification/Builder_Frame.thy ===== *)
theory Builder_Frame
  imports Routing_Emit
begin

text \<open>
  What the emitters of a builder leave alone: predicates are only appended to the pool, and the profiles and the
  fallbacks recorded so far stay as they are. What they emit is sound: the interpreter knows its type and its
  action, and an instruction on prefixes names a prefix set of the builder.
\<close>

section \<open>Sound instructions\<close>

definition kind_ok :: "nat \<Rightarrow> match_type \<Rightarrow> bytes \<Rightarrow> bool" where
  "kind_ok n kind val \<longleftrightarrow> (\<forall>u. kind \<noteq> MT_Other u) \<and> (kind \<in> {MT_IpSet, MT_SourceIpSet, MT_Mac} \<longrightarrow> value_index val < n)"

definition instr_ok :: "nat \<Rightarrow> match_set \<Rightarrow> bool" where
  "instr_ok n ms \<longleftrightarrow> kind_ok n (ms_type ms) (ms_value ms) \<and> (\<forall>u. ms_action ms \<noteq> MA_Other u)"

definition sound :: "builder \<Rightarrow> bool" where
  "sound b \<longleftrightarrow> list_all (instr_ok (length (b_lpmTries b))) (b_rules b) \<and> (\<forall>name slot. b_clientSetSlots b name = Some slot \<longrightarrow> slot < length (b_lpmTries b))"

lemma kind_ok_mono: "kind_ok n kind val \<Longrightarrow> n \<le> m \<Longrightarrow> kind_ok m kind val"
  by (auto simp: kind_ok_def)

lemma instr_ok_mono: "instr_ok n ms \<Longrightarrow> n \<le> m \<Longrightarrow> instr_ok m ms"
  using kind_ok_mono by (auto simp: instr_ok_def)

lemma rules_ok_mono: "list_all (instr_ok n) rules \<Longrightarrow> n \<le> m \<Longrightarrow> list_all (instr_ok m) rules"
  using instr_ok_mono by (auto simp: list_all_iff)

lemma value_index_le: "value_index (index_value i) \<le> i"
  by (simp add: value_index_def index_value_def read_le32_le32 unat_of_nat)

lemma empty_builder_sound: "sound (empty_builder outs)"
  by (simp add: sound_def empty_builder_def)

lemma rules_ok_update:
  assumes "list_all (instr_ok n) rules" "ms_type t = ms_type (rules ! k)" "ms_value t = ms_value (rules ! k)" "\<forall>u. ms_action t \<noteq> MA_Other u"
  shows "list_all (instr_ok n) (rules[k := t])"
  using assms by (cases "k < length rules") (auto simp: instr_ok_def list_all_length nth_list_update)

lemma sound_update:
  "sound b \<Longrightarrow> ms_type t = ms_type (b_rules b ! k) \<Longrightarrow> ms_value t = ms_value (b_rules b ! k) \<Longrightarrow> \<forall>u. ms_action t \<noteq> MA_Other u \<Longrightarrow>
   sound (b\<lparr>b_rules := (b_rules b)[k := t]\<rparr>)"
  by (simp add: sound_def rules_ok_update)

lemma sound_append: "sound b \<Longrightarrow> instr_ok (length (b_lpmTries b)) ms \<Longrightarrow> sound (b\<lparr>b_rules := b_rules b @ [ms]\<rparr>)"
  by (simp add: sound_def)

lemma matchSet_kind: "matchSet b kind nt ob = Inr ms \<Longrightarrow> ms_type ms = kind \<and> (\<forall>u. ms_action ms \<noteq> MA_Other u)"
  by (auto simp: matchSet_def Let_def match_set0_def split: if_splits option.splits)

section \<open>The frame of the emitters\<close>

definition frame :: "builder \<Rightarrow> builder \<Rightarrow> bool" where
  "frame b b' \<longleftrightarrow> b_profiles b' = b_profiles b \<and> b_fallbackSpans b' = b_fallbackSpans b \<and> b_routingEnd b' = b_routingEnd b \<and>
     prefix (b_rules b) (b_rules b') \<and> (sound b \<longrightarrow> sound b')"

lemma frame_refl [simp]: "frame b b"
  by (simp add: frame_def)

lemma frame_trans: "frame a b \<Longrightarrow> frame b c \<Longrightarrow> frame a c"
  by (auto simp: frame_def)

lemma frame_length: "frame b b' \<Longrightarrow> length (b_rules b) \<le> length (b_rules b')"
  by (simp add: frame_def prefix_length_le)

lemma sound_rememberRule [simp]: "sound (rememberRule start r owner sect b) = sound b"
  by (simp add: sound_def rememberRule_def Let_def)

lemma frame_rememberRule [simp]: "frame b (rememberRule start r owner sect b') = frame b b'"
  unfolding frame_def sound_rememberRule by (simp add: rememberRule_def Let_def)

lemma push_rule_frame:
  assumes "sound b \<Longrightarrow> instr_ok (length (b_lpmTries b)) ms"
  shows "frame b (push_rule f ms b)"
  using assms by (auto simp: frame_def push_rule_def rememberMatch_def Let_def sound_def)

lemma addMatch_frame:
  assumes "addMatch f kind val ob b = Inr b'" "sound b \<Longrightarrow> kind_ok (length (b_lpmTries b)) kind val"
  shows "frame b b'"
  using assms matchSet_kind
  by (fastforce simp: addMatch_def instr_ok_def intro!: push_rule_frame split: sum.splits)

lemma add_matches_loop_frame:
  assumes "\<And>val. kind_ok 0 kind val" "ms_type tail = kind" "\<forall>u. ms_action tail \<noteq> MA_Other u"
  shows "frame b (add_matches_loop f kind tail encode vals b)"
proof (induction vals arbitrary: b)
  case (Cons v vs)
  have "instr_ok n ((if vs = [] then tail else (match_set0 kind)\<lparr>ms_action := MA_Or, ms_flags := routingMatchFlags (fn_Not f) False False\<rparr>)\<lparr>ms_value := encode v\<rparr>)" for n
    using assms kind_ok_mono [of 0 kind _ n] by (simp add: instr_ok_def match_set0_def)
  then show ?case unfolding add_matches_loop.simps Let_def by (intro frame_trans [OF push_rule_frame Cons.IH])
qed simp

lemma addMatches_frame: "addMatches f kind vals ob encode b = Inr b' \<Longrightarrow> (\<And>val. kind_ok 0 kind val) \<Longrightarrow> frame b b'"
  using matchSet_kind by (fastforce simp: addMatches_def intro!: add_matches_loop_frame split: sum.splits)

lemma plain_kind_ok:
  "kind_ok n MT_Port val" "kind_ok n MT_SourcePort val" "kind_ok n MT_L4Proto val" "kind_ok n MT_IpVersion val" "kind_ok n MT_ProcessName val"
  "kind_ok n MT_IfIndex val" "kind_ok n MT_Dscp val" "kind_ok n MT_DomainSet val" "kind_ok n MT_Fallback val" "kind_ok n MT_HTTPClient val"
  by (simp_all add: kind_ok_def)

lemma lpm_kind_ok: "kind \<in> {MT_IpSet, MT_SourceIpSet, MT_Mac} \<Longrightarrow> i < n \<Longrightarrow> kind_ok n kind (index_value i)"
  using value_index_le [of i] by (auto simp: kind_ok_def)

lemma find_lpm_less: "find_lpm tries vals idxs = Inr (Some i) \<Longrightarrow> i < length tries"
  by (induction tries vals idxs rule: find_lpm.induct) (auto split: if_splits)

lemma sound_tries: "sound b \<Longrightarrow> sound (b\<lparr>b_staticLpmIDs := ids, b_lpmTries := b_lpmTries b @ [ps]\<rparr>)"
  using rules_ok_mono [of "length (b_lpmTries b)" "b_rules b" "Suc (length (b_lpmTries b))"] by (auto simp: sound_def intro: less_SucI)

lemma internLPM_frame: "internLPM sha vals b = Inr (i, b1) \<Longrightarrow> frame b b1 \<and> i < length (b_lpmTries b1)"
  by (auto simp: internLPM_def frame_def Let_def sound_tries find_lpm_less split: sum.splits option.splits)

lemma lpm_frame:
  assumes "(case internLPM sha vals b of Inl e \<Rightarrow> Inl e | Inr (i, b1) \<Rightarrow> addMatch f kind (index_value i) ob b1) = Inr b'"
    "kind \<in> {MT_IpSet, MT_SourceIpSet, MT_Mac}"
  shows "frame b b'"
proof -
  obtain i b1 where i: "internLPM sha vals b = Inr (i, b1)" "addMatch f kind (index_value i) ob b1 = Inr b'"
    using assms(1) by (auto split: sum.splits)
  show ?thesis using frame_trans internLPM_frame [OF i(1)] addMatch_frame [OF i(2) lpm_kind_ok [OF assms(2)]] by blast
qed

lemma addSourceMac_frame: "addSourceMac sha f macs ob b = Inr b' \<Longrightarrow> frame b b'"
  unfolding addSourceMac_def addMacMatch_def by (erule lpm_frame) simp

lemma addIp_frame: "addIp sha f vals ob b = Inr b' \<Longrightarrow> frame b b'" "addSourceIp sha f vals ob b = Inr b' \<Longrightarrow> frame b b'"
  by (auto simp: addIp_def addSourceIp_def dest: lpm_frame)

lemma addDomain_frame: "addDomain sha f key vals ob b = Inr b' \<Longrightarrow> frame b b'"
proof -
  have "frame (b\<lparr>b_domainSetIDs := x, b_domainSets := y\<rparr>) b' \<Longrightarrow> frame b b'" for x y by (simp add: frame_def sound_def)
  then show "addDomain sha f key vals ob b = Inr b' \<Longrightarrow> ?thesis"
    by (auto simp: addDomain_def Let_def plain_kind_ok dest!: addMatch_frame split: if_splits sum.splits option.splits)
qed

lemma addClient_frame: "addClient f vals ob b = Inr b' \<Longrightarrow> frame b b'"
proof -
  assume a: "addClient f vals ob b = Inr b'"
  define b1 where "b1 name = b\<lparr>b_clientSetSlots := (b_clientSetSlots b)(name \<mapsto> length (b_lpmTries b)), b_lpmTries := b_lpmTries b @ [[]]\<rparr>" for name
  have b1: "frame b (b1 name)" for name
    using rules_ok_mono [of "length (b_lpmTries b)" "b_rules b" "Suc (length (b_lpmTries b))"]
    by (auto simp: frame_def b1_def sound_def intro: less_SucI split: if_splits)
  consider name slot where "b_clientSetSlots b name = Some slot" "addMatch f MT_Mac (index_value slot) ob b = Inr b'"
    | name where "addMatch f MT_Mac (index_value (length (b_lpmTries b))) ob (b1 name) = Inr b'"
    using a by (auto simp: addClient_def addMacMatch_def b1_def Let_def split: if_splits option.splits list.splits)
  then show ?thesis
  proof cases
    case 1
    then show ?thesis by (intro addMatch_frame [OF 1(2)] lpm_kind_ok) (auto simp: sound_def)
  next
    case 2
    have "frame (b1 name) b'" by (rule addMatch_frame [OF 2], rule lpm_kind_ok) (simp_all add: b1_def)
    then show ?thesis using frame_trans [OF b1] by blast
  qed
qed

lemma addInterface_frame: "addInterface f vals ob b = Inr b' \<Longrightarrow> frame b b'"
proof -
  have "frame b b1 \<Longrightarrow> frame b (b1\<lparr>b_interfaceRulePatches := x\<rparr>)" for b1 x by (simp add: frame_def sound_def)
  then show "addInterface f vals ob b = Inr b' \<Longrightarrow> ?thesis"
    by (auto simp: addInterface_def Let_def plain_kind_ok dest: addMatches_frame split: option.splits sum.splits)
qed

lemma plain_frames:
  "addPort f ranges ob b = Inr b' \<Longrightarrow> frame b b'" "addSourcePort f ranges ob b = Inr b' \<Longrightarrow> frame b b'" "addL4Proto f bits ob b = Inr b' \<Longrightarrow> frame b b'"
  "addProcessName f names ob b = Inr b' \<Longrightarrow> frame b b'" "addDscp f values ob b = Inr b' \<Longrightarrow> frame b b'" "addIpVersion f bits ob b = Inr b' \<Longrightarrow> frame b b'"
  by (auto simp: addPort_def addSourcePort_def addL4Proto_def addProcessName_def addDscp_def addIpVersion_def plain_kind_ok dest: addMatches_frame addMatch_frame)

lemmas parser_frames = addDomain_frame addSourceMac_frame addClient_frame addInterface_frame addIp_frame plain_frames

lemma parser_frame:
  assumes "routing_parsers sha name = Some parser" "parser f key vals ob b = Inr b'"
  shows "frame b b'"
  using assms
  by (auto simp: routing_parsers_def PlainParserFactory_def EmptyKeyPlainParserFactory_def IpParserFactory_def PortRangeParserFactory_def
      L4ProtoParserFactory_def MacParserFactory_def ProcessNameParserFactory_def UintParserFactory_def IpVersionParserFactory_def
      parsed_factory_Inr split: if_splits dest: parser_frames)

lemma apply_groups_frame:
  assumes "routing_parsers sha name = Some parser"
  shows "apply_groups parser f lastFunc ob gs b = Inr b' \<Longrightarrow> frame b b'"
proof (induction gs arbitrary: b)
  case (Cons g gs)
  obtain key vals where g: "g = (key, vals)" by fastforce
  obtain name' b1 where "parser f key vals (ob\<lparr>ob_Name := name'\<rparr>) b = Inr b1" "apply_groups parser f lastFunc ob gs b1 = Inr b'"
    using Cons.prems by (auto simp: g Let_def split: sum.splits)
  then show ?case using parser_frame [OF assms] Cons.IH frame_trans by blast
qed simp

lemma apply_functions_frame: "apply_functions (routing_parsers sha) ob fs b = Inr b' \<Longrightarrow> frame b b'"
proof (induction fs arbitrary: b)
  case (Cons f fs)
  obtain b1 where b1: "apply_function (routing_parsers sha) f (fs = []) ob b = Inr b1" "apply_functions (routing_parsers sha) ob fs b1 = Inr b'"
    using Cons.prems by (auto split: sum.splits)
  have "frame b b1" using b1(1) by (auto simp: apply_function_def dest: apply_groups_frame split: if_splits option.splits)
  then show ?case using Cons.IH [OF b1(2)] frame_trans by blast
qed simp

lemma ApplyPredicate_frame: "ApplyPredicate (routing_parsers sha) fs ob b = Inr b' \<Longrightarrow> frame b b'"
  by (auto simp: ApplyPredicate_def dest: apply_functions_frame split: if_splits)

lemma rules_Apply_frame: "rules_Apply (routing_parsers sha) rs b = Inr b' \<Longrightarrow> frame b b'"
proof (induction rs arbitrary: b)
  case (Cons r rs)
  obtain ob b1 where "ApplyPredicate (routing_parsers sha) (rr_AndFunctions r) ob b = Inr b1" "rules_Apply (routing_parsers sha) rs b1 = Inr b'"
    using Cons.prems by (auto split: sum.splits)
  then show ?case using ApplyPredicate_frame Cons.IH frame_trans by blast
qed simp

lemma applyRules_frame: "applyRules sha rs owner b = Inr b' \<Longrightarrow> frame b b'"
proof (induction rs arbitrary: b)
  case (Cons r rs)
  obtain b1 where b1: "rules_Apply (routing_parsers sha) [r] b = Inr b1"
    "applyRules sha rs owner (rememberRule (length (b_rules b)) r owner ''routing'' b1) = Inr b'"
    using Cons.prems by (auto simp: Let_def split: sum.splits)
  have "frame b (rememberRule (length (b_rules b)) r owner ''routing'' b1)" using rules_Apply_frame [OF b1(1)] by simp
  then show ?case using Cons.IH [OF b1(2)] frame_trans by blast
qed simp

end
