(* ===== verification/Routing_Profiles.thy ===== *)
theory Routing_Profiles
  imports Routing_Prepare Builder_Frame Routing_Cursor
begin

text \<open>
  Invariants of the routing compiler: every span of a block, a cache, a profile or a fallback lies in the pool of
  instructions, no profile executes more instructions than the limit, and the compilation of a validated
  configuration always returns.
\<close>

section \<open>Spans in the pool\<close>

definition span_in :: "nat \<Rightarrow> routing_span \<Rightarrow> bool" where
  "span_in n s \<longleftrightarrow> sp_start s \<le> sp_end s \<and> sp_end s \<le> n"

definition block_in :: "nat \<Rightarrow> resolved_block \<Rightarrow> bool" where
  "block_in n b \<longleftrightarrow> list_all (span_in n) b \<and> (n < u32_mod \<longrightarrow> spanExecutionLen b \<le> MaxMatchSetLen)"

lemma spanExecutionLen_sum: "spanExecutionLen b = sum_list (map span_len b)"
proof -
  have "foldl (\<lambda>l s. l + span_len s) a ss = a + sum_list (map span_len ss)" for a ss by (induction ss arbitrary: a) simp_all
  then show ?thesis by (simp add: spanExecutionLen_def)
qed

lemma span_len_in: "span_in n s \<Longrightarrow> n < u32_mod \<Longrightarrow> span_len s = sp_end s - sp_start s"
  by (simp add: span_in_def span_len_def u32_simps)

lemma span_in_mono: "span_in n s \<Longrightarrow> n \<le> m \<Longrightarrow> span_in m s"
  by (simp add: span_in_def)

lemma block_in_mono: "block_in n b \<Longrightarrow> n \<le> m \<Longrightarrow> block_in m b"
  unfolding block_in_def by (auto simp: list_all_iff intro: span_in_mono)

lemma block_in_Nil [simp]: "block_in n []"
  by (simp add: block_in_def spanExecutionLen_def)

lemma span_in_zero [simp]: "span_in n zero_span"
  by (simp add: span_in_def zero_span_def)

lemma appendSpan_in:
  assumes "list_all (span_in n) b" "span_in n s"
  shows "list_all (span_in n) (appendSpan b s)" "n < u32_mod \<Longrightarrow> spanExecutionLen (appendSpan b s) = spanExecutionLen b + span_len s"
proof -
  have "list_all (span_in n) (appendSpan b s) \<and> (n < u32_mod \<longrightarrow> spanExecutionLen (appendSpan b s) = spanExecutionLen b + span_len s)"
  proof (cases "sp_start s = sp_end s")
    case True
    then show ?thesis using assms span_len_in [OF assms(2)] by (simp add: appendSpan_def)
  next
    case False
    show ?thesis
    proof (cases "b \<noteq> [] \<and> sp_end (last b) = sp_start s \<and> sp_phase (last b) = sp_phase s \<and> sp_global (last b) = sp_global s")
      case True
      define l where "l = last b"
      define l' where "l' = l\<lparr>sp_end := sp_end s\<rparr>"
      have b: "b = butlast b @ [l]" using True by (simp add: l_def)
      have l: "span_in n l" using assms(1) True by (simp add: list_all_iff l_def)
      have l'': "span_in n l'" using l assms(2) True by (simp add: span_in_def l'_def l_def)
      have a: "appendSpan b s = butlast b @ [l']" using True False by (simp add: appendSpan_def l_def l'_def)
      have "list_all (span_in n) (butlast b)" using assms(1) by (auto simp: list_all_iff dest: in_set_butlastD)
      moreover have "span_len l' = span_len l + span_len s" if "n < u32_mod"
        using span_len_in [OF l that] span_len_in [OF l'' that] span_len_in [OF assms(2) that] l assms(2) True
        by (auto simp: l'_def l_def span_in_def)
      moreover have "spanExecutionLen b = sum_list (map span_len (butlast b)) + span_len l"
        by (subst b) (simp add: spanExecutionLen_sum)
      ultimately show ?thesis unfolding a using l'' by (simp add: spanExecutionLen_sum)
    next
      case no: False
      then have "appendSpan b s = b @ [s]" using False by (auto simp: appendSpan_def)
      then show ?thesis using assms by (simp add: spanExecutionLen_sum)
    qed
  qed
  then show "list_all (span_in n) (appendSpan b s)" "n < u32_mod \<Longrightarrow> spanExecutionLen (appendSpan b s) = spanExecutionLen b + span_len s"
    by blast+
qed

lemma block_appendSpan_in: "block_appendSpan b s = Inr b' \<Longrightarrow> block_in n b \<Longrightarrow> span_in n s \<Longrightarrow> block_in n b'"
  using appendSpan_in [of n b s] by (auto simp: block_appendSpan_def block_in_def split: if_splits)

lemma foldl_appendSpan_in:
  assumes "list_all (span_in n) b" "list_all (span_in n) other"
  shows "list_all (span_in n) (foldl appendSpan b other) \<and>
    (n < u32_mod \<longrightarrow> spanExecutionLen (foldl appendSpan b other) = spanExecutionLen b + spanExecutionLen other)"
  using assms
proof (induction other arbitrary: b)
  case Nil
  then show ?case by (simp add: spanExecutionLen_def)
next
  case (Cons s other)
  then show ?case using appendSpan_in [of n b s] Cons.IH [of "appendSpan b s"] by (simp add: spanExecutionLen_sum)
qed

lemma appendBlock_in: "appendBlock b other = Inr b' \<Longrightarrow> block_in n b \<Longrightarrow> list_all (span_in n) other \<Longrightarrow> block_in n b'"
  using foldl_appendSpan_in [of n b other] by (auto simp: appendBlock_def block_in_def split: if_splits)

lemma append_blocks_in: "append_blocks b bs = Inr b' \<Longrightarrow> block_in n b \<Longrightarrow> list_all (list_all (span_in n)) bs \<Longrightarrow> block_in n b'"
proof (induction bs arbitrary: b)
  case (Cons x bs)
  obtain b1 where b1: "appendBlock b x = Inr b1" "append_blocks b1 bs = Inr b'" using Cons.prems(1) by (auto split: sum.splits)
  have "block_in n b1" using appendBlock_in [OF b1(1)] Cons.prems by simp
  then show ?case using Cons.IH [OF b1(2)] Cons.prems(3) by simp
qed simp

lemma block_in_spans: "block_in n b \<Longrightarrow> list_all (span_in n) b"
  by (simp add: block_in_def)

text \<open>Blocks in a pool of representable size satisfy the requirements of the span cursor.\<close>

lemma block_in_wf: "block_in n b \<Longrightarrow> n < u32_mod \<Longrightarrow> wf_spans b"
proof -
  assume b: "block_in n b" and n: "n < u32_mod"
  have all: "\<forall>s \<in> set b. span_in n s" using b by (simp add: block_in_def list_all_iff)
  have "sum_list (map (\<lambda>s. sp_end s - sp_start s) b) = sum_list (map span_len b)"
    using all span_len_in n by (intro arg_cong [of _ _ sum_list] map_cong) auto
  also have "\<dots> \<le> MaxMatchSetLen" using b n by (simp add: block_in_def spanExecutionLen_sum)
  finally have "sum_list (map (\<lambda>s. sp_end s - sp_start s) b) < u32_mod" by (simp add: MaxMatchSetLen_def)
  then show "wf_spans b" using all n by (auto simp: wf_spans_def span_in_def)
qed

section \<open>The validation of a profile ends\<close>

lemma validate_loop_total:
  assumes wf: "wf_spans spans"
  shows "cursor_at spans n c \<Longrightarrow> length (flat spans) - n < fuel \<Longrightarrow> validate_loop fuel rules c scopes previous \<noteq> None"
proof (induction fuel arbitrary: n c scopes previous)
  case 0
  then show ?case by simp
next
  case (Suc fuel)
  have sp: "rc_spans c = spans" using Suc.prems(1) by (simp add: cursor_at_def)
  show ?case
  proof (cases "rc_span c < length spans")
    case False
    then show ?thesis by (simp add: sp)
  next
    case True
    then have "n < length (flat spans)"
      using Suc.prems(1) by (auto simp: cursor_at_def rest_at_def dest: arg_cong [of _ _ length])
    then obtain c' where c': "rc_advance c 1 = (c', True)" "cursor_at spans (n + 1) c'" "length (flat spans) - (n + 1) < fuel"
      using cursor_advance [OF wf Suc.prems(1), of 1] Suc.prems(2) by auto
    have next': "validate_loop fuel rules (fst (rc_advance c 1)) sc pv \<noteq> None" for sc pv
      using Suc.IH [OF c'(2,3)] c'(1) by simp
    show ?thesis unfolding validate_loop.simps Let_def using next' by (auto split: sum.splits)
  qed
qed

lemma validateRoutingBlocks_total: "wf_spans spans \<Longrightarrow> validateRoutingBlocks rules spans \<noteq> None"
  unfolding validateRoutingBlocks_def by (rule validate_loop_total [OF _ cursor_start]) (simp_all add: spanExecutionLen_flat)

lemma validate_profiles_total: "\<forall>p \<in> set ps. wf_spans (pf_Spans p) \<Longrightarrow> validate_profiles rules ps \<noteq> None"
proof (induction ps)
  case (Cons p ps)
  have "validateRoutingBlocks rules (pf_Spans p) \<noteq> None" using Cons.prems validateRoutingBlocks_total by simp
  then show ?case using Cons by (auto split: option.splits sum.splits)
qed simp

lemma encode_jumps_length: "encode_jumps_loop i re ct rules = Inr rules' \<Longrightarrow> length rules' = length rules"
  by (induction i re ct rules rule: encode_jumps_loop.induct) (auto simp: Let_def split: if_splits)

lemma builder_validate_total:
  assumes "\<forall>p \<in> set (b_profiles b). block_in (length (b_rules b)) (pf_Spans p)"
  shows "builder_validate b \<noteq> None"
proof (cases "b_routingEnd b \<le> MaxMatchSetLen \<and> length (b_rules b) - b_routingEnd b \<le> MaxMatchSetLen * 2")
  case True
  then have "length (b_rules b) < u32_mod" by (auto simp: MaxMatchSetLen_def)
  then have "\<forall>p \<in> set (b_profiles b). wf_spans (pf_Spans p)" using assms block_in_wf by blast
  then have nn: "validate_profiles rules (b_profiles b) \<noteq> None" for rules by (rule validate_profiles_total)
  show ?thesis by (auto simp: builder_validate_def Let_def nn split: sum.splits option.splits)
next
  case False
  then show ?thesis by (auto simp: builder_validate_def)
qed

lemma builder_validate_Inr:
  assumes "builder_validate b = Some (Inr b')"
  shows "b_profiles b' = b_profiles b" "length (b_rules b') = length (b_rules b)" "length (b_rules b') \<le> 3 * MaxMatchSetLen"
    "b_routingEnd b' = b_routingEnd b" "b_routingEnd b' \<le> MaxMatchSetLen" "encodeRoutingJumps (b_rules b) = Inr (b_rules b')"
    "b_defaultProfileID b' = b_defaultProfileID b"
  using assms encode_jumps_length
  by (auto simp: builder_validate_def Let_def encodeRoutingJumps_def split: if_splits sum.splits option.splits)

end
