(* ===== verification/Compile_Invariant.thy ===== *)
theory Compile_Invariant
  imports Routing_Profiles
begin

text \<open>
  Rule sets of both kinds, routes and flow rules, are resolved by the same code over a program that they provide.
  The contract of such a program is a locale; its laws give that resolution always returns on bounded references
  and keeps the invariant of the compiler. Both programs of the compiler are interpretations.
\<close>

section \<open>The contract of a rule set program\<close>

definition pool :: "compiler \<Rightarrow> nat" where
  "pool c = length (b_rules (cp_builder c))"

definition later :: "compiler \<Rightarrow> compiler \<Rightarrow> bool" where
  "later c c' \<longleftrightarrow> cp_sets c' = cp_sets c \<and> pool c \<le> pool c'"

lemma later_refl [simp]: "later c c"
  by (simp add: later_def)

lemma later_trans: "later a b \<Longrightarrow> later b c \<Longrightarrow> later a c"
  by (simp add: later_def)

definition good :: "(compiler \<Rightarrow> bool) \<Rightarrow> (compiler \<Rightarrow> 'b \<Rightarrow> bool) \<Rightarrow> (compiler \<times> 'b) outcome \<Rightarrow> compiler \<Rightarrow> bool" where
  "good I B m c \<longleftrightarrow> m \<noteq> None \<and> (\<forall>c' b. m = Some (Inr (c', b)) \<longrightarrow> I c' \<and> B c' b \<and> later c c')"

lemma good_cret [simp]: "good I B (cret (c', b)) c \<longleftrightarrow> I c' \<and> B c' b \<and> later c c'"
  by (simp add: good_def cret_def)

lemma good_error [simp]: "good I B (Some (Inl e)) c"
  by (simp add: good_def)

lemma good_cwrap [simp]: "good I B (cwrap name m) c = good I B m c"
  by (simp add: good_def)

lemma good_bind:
  assumes m: "good I B m c" and k: "\<And>c' b. I c' \<Longrightarrow> B c' b \<Longrightarrow> later c c' \<Longrightarrow> good I C (k (c', b)) c'"
  shows "good I C (cbind m k) c"
proof (cases "\<exists>c' b. m = Some (Inr (c', b))")
  case True
  then obtain c' b where e: "m = Some (Inr (c', b))" by blast
  then have c': "I c'" "B c' b" "later c c'" using m by (auto simp: good_def)
  show ?thesis using k [OF c'] later_trans [OF c'(3)] unfolding good_def e cbind_simps by blast
next
  case False
  then obtain e where "m = Some (Inl e)" using m unfolding good_def by (cases m; cases "the m") auto
  then show ?thesis by simp
qed

locale rule_set_provider =
  fixes pg :: "'b rule_set_program" and I :: "compiler \<Rightarrow> bool" and B :: "compiler \<Rightarrow> 'b \<Rightarrow> bool"
  assumes block_mono: "B c b \<Longrightarrow> pool c \<le> pool c' \<Longrightarrow> B c' b"
    and cache_block: "I c \<Longrightarrow> map_of (pg_cache pg c) key = Some b \<Longrightarrow> B c b"
    and store_inv: "I c \<Longrightarrow> B c b \<Longrightarrow> I (pg_store pg key b c) \<and> later c (pg_store pg key b c)"
    and compile_good: "I c \<Longrightarrow> good I B (pg_compile pg rules name c) c"
    and condition_good: "I c \<Longrightarrow> B c b \<Longrightarrow> good I B (pg_condition pg b condition name c) c"
    and append_block: "B c b \<Longrightarrow> B c b' \<Longrightarrow> pg_append pg b b' = Inr b'' \<Longrightarrow> B c b''"
    and empty_block: "B c (pg_empty pg)"
begin

lemma later_block: "B c b \<Longrightarrow> later c c' \<Longrightarrow> B c' b"
  using block_mono by (simp add: later_def)

lemma store_good:
  assumes "I c" "B c b"
  shows "good I B (store_block pg key b c) c"
proof -
  have st: "I (pg_store pg key b c)" "later c (pg_store pg key b c)" using store_inv [OF assms] by blast+
  have "B (pg_store pg key b c) b" by (rule later_block [OF assms(2) st(2)])
  then have "good I B (cret (pg_store pg key b c, b)) c" unfolding good_cret using st by blast
  then show ?thesis unfolding store_block_def by (simp only: good_error split: if_split) blast
qed

lemma append_good:
  assumes "I c" "B c block" "B c b"
  shows "good I B (append_batch pg name block (c, b)) c"
proof (cases "pg_append pg block b")
  case (Inl e)
  then show ?thesis unfolding append_batch_def by (simp only: snd_conv sum.case good_error)
next
  case (Inr b')
  have "B c b'" by (rule append_block [OF assms(2,3) Inr])
  then have "good I B (cret (c, b')) c" unfolding good_cret using assms(1) later_refl by blast
  then show ?thesis using Inr unfolding append_batch_def by (simp only: fst_conv snd_conv sum.case)
qed

lemma flush_good:
  assumes "I c" "B c block"
  shows "good I B (flush_rules pg name local block c) c"
proof (cases "local = []")
  case True
  have "good I B (cret (c, block)) c" unfolding good_cret using assms later_refl by blast
  then show ?thesis using True unfolding flush_rules_def by (simp only: if_True simp_thms)
next
  case False
  have "good I B (cbind (cwrap name (pg_compile pg local name c)) (append_batch pg name block)) c"
  proof (rule good_bind [where B = B])
    show "good I B (cwrap name (pg_compile pg local name c)) c" unfolding good_cwrap by (rule compile_good [OF assms(1)])
    show "good I B (append_batch pg name block (c', b)) c'" if "I c'" "B c' b" "later c c'" for c' b
      by (rule append_good [OF that(1) later_block [OF assms(2) that(3)] that(2)])
  qed
  then show ?thesis using False unfolding flush_rules_def by (simp only: if_False simp_thms)
qed

lemma plain_set_good:
  assumes "I c" "\<And>s. cp_sets c name = Some s \<Longrightarrow> good I B (rec (rset_Name s) (rset_Statements s) c) c"
  shows "good I B (resolve_plain_set rec pg name c) c"
proof (cases "map_of (pg_cache pg c) (routingSetKey name [])")
  case (Some b)
  then show ?thesis using cache_block [OF assms(1) Some] assms(1) by (simp add: resolve_plain_set_def)
next
  case None
  show ?thesis
  proof (cases "cp_sets c name")
    case (Some s)
    have "good I B (cbind (rec (rset_Name s) (rset_Statements s) c) (\<lambda>(c', block). store_block pg (routingSetKey name []) block c')) c"
      by (rule good_bind [where B = B]) (use assms(2) [OF Some] store_good in auto)
    then show ?thesis using None Some by (simp add: resolve_plain_set_def)
  qed (simp add: resolve_plain_set_def None)
qed

lemma set_good:
  assumes "I c" "\<And>s. cp_sets c name = Some s \<Longrightarrow> good I B (rec (rset_Name s) (rset_Statements s) c) c"
  shows "good I B (resolveRuleSet rec pg name condition c) c"
proof (cases "condition = []")
  case True
  then show ?thesis using plain_set_good [of c name rec, OF assms] by (simp add: resolveRuleSet_def)
next
  case False
  show ?thesis
  proof (cases "map_of (pg_cache pg c) (routingSetKey name condition)")
    case (Some b)
    then show ?thesis using cache_block [OF assms(1) Some] assms(1) False by (simp add: resolveRuleSet_def)
  next
    case None
    have "good I B (cbind (resolve_plain_set rec pg name c) (\<lambda>(c1, block). cbind (pg_condition pg block condition name c1) (\<lambda>(c2, block').
        store_block pg (routingSetKey name condition) block' c2))) c"
    proof (rule good_bind [where B = B, OF plain_set_good [of c name rec, OF assms]])
      fix c1 b assume "I c1" "B c1 b"
      then show "good I B (case (c1, b) of (c1, block) \<Rightarrow> cbind (pg_condition pg block condition name c1) (\<lambda>(c2, block').
          store_block pg (routingSetKey name condition) block' c2)) c1"
        unfolding prod.case by (intro good_bind [where B = B]) (use condition_good store_good in auto)
    qed
    then show ?thesis using None False by (simp add: resolveRuleSet_def split: option.splits)
  qed
qed

text \<open>With fuel for the rank of every reference, resolution returns and keeps the invariant.\<close>

lemma statements_good:
  "I c \<Longrightarrow> B c block \<Longrightarrow> ranked (cp_sets c) depths \<Longrightarrow> uses_below depths m sts \<Longrightarrow> m \<le> Suc n \<Longrightarrow>
   good I B (resolveBlockStatements n pg name sts local block c) c"
proof (induction n arbitrary: m name sts local block c rule: less_induct)
  case (less n)
  show ?case
    using less.prems
  proof (induction sts arbitrary: local block c)
    case Nil
    then show ?case using flush_good by simp
  next
    case (Cons st sts)
    have tail: "uses_below depths m sts" using Cons.prems(4) by (simp add: uses_below_def)
    note rest = Cons.IH [OF _ _ _ tail Cons.prems(5)]
    show ?case
    proof (cases "st_Kind st")
      case StRule
      then show ?thesis using rest [OF Cons.prems(1-3)] by (auto split: option.splits)
    next
      case StUse
      obtain d where d: "depths (st_Use st) = Some d" "0 < d" "d < m" using Cons.prems(4) StUse by (auto simp: uses_below_def)
      then obtain k where k: "n = Suc k" "d \<le> Suc k" using Cons.prems(5) by (cases n) auto
      have called: "good I B (resolveRuleSet (\<lambda>nm sts' c'. resolveBlockStatements k pg nm sts' [] (pg_empty pg) c') pg (st_Use st) (st_Condition st) c1) c1"
        if c1: "I c1" "later c c1" for c1
      proof (rule set_good [OF c1(1)])
        fix s assume s: "cp_sets c1 (st_Use st) = Some s"
        have r: "ranked (cp_sets c1) depths" using Cons.prems(3) c1(2) by (simp add: later_def)
        then have "uses_below depths d (rset_Statements s)" using d(1,2) s unfolding ranked_def by fastforce
        then show "good I B (resolveBlockStatements k pg (rset_Name s) (rset_Statements s) [] (pg_empty pg) c1) c1"
          using less.IH [of k, OF _ c1(1) empty_block r _ k(2)] k(1) by blast
      qed
      have continue: "good I B (resolveBlockStatements n pg name sts [] block3 c3) c3" if "I c3" "B c3 block3" "later c c3" for block3 c3
        by (rule rest [OF that(1,2)]) (use that(3) Cons.prems(3) in \<open>simp add: later_def\<close>)
      have wrapped: "good I B (cwrap name (resolveRuleSet (\<lambda>nm sts' c'. resolveBlockStatements k pg nm sts' [] (pg_empty pg) c') pg (st_Use st) (st_Condition st) c1)) c1"
        if c1: "I c1" "later c c1" for c1
        unfolding good_cwrap by (rule called [OF that])
      have "good I B (cbind (flush_rules pg name local block c) (\<lambda>(c1, block1).
          cbind (cwrap name (resolveRuleSet (\<lambda>nm sts' c'. resolveBlockStatements k pg nm sts' [] (pg_empty pg) c') pg (st_Use st) (st_Condition st) c1))
            (\<lambda>cb. cbind (append_batch pg name block1 cb) (\<lambda>(c3, block3). resolveBlockStatements n pg name sts [] block3 c3)))) c"
      proof (rule good_bind [where B = B, OF flush_good [OF Cons.prems(1,2)]], unfold prod.case)
        fix c1 block1 assume c1: "I c1" "B c1 block1" "later c c1"
        show "good I B (cbind (cwrap name (resolveRuleSet (\<lambda>nm sts' c'. resolveBlockStatements k pg nm sts' [] (pg_empty pg) c') pg (st_Use st) (st_Condition st) c1))
            (\<lambda>cb. cbind (append_batch pg name block1 cb) (\<lambda>(c3, block3). resolveBlockStatements n pg name sts [] block3 c3))) c1"
        proof (rule good_bind [where B = B, OF wrapped [OF c1(1,3)]])
          fix c2 b assume c2: "I c2" "B c2 b" "later c1 c2"
          have l: "later c c2" using later_trans [OF c1(3) c2(3)] .
          show "good I B (cbind (append_batch pg name block1 (c2, b)) (\<lambda>(c3, block3). resolveBlockStatements n pg name sts [] block3 c3)) c2"
            unfolding split_def
            by (rule good_bind [where B = B, OF append_good [OF c2(1) later_block [OF c1(2) c2(3)] c2(2)]], unfold fst_conv snd_conv)
              (rule continue, assumption+, rule later_trans [OF l], assumption)
        qed
      qed
      then show ?thesis using StUse k(1) by simp
    qed simp
  qed
qed

lemma resolve_in_good:
  "I c \<Longrightarrow> ranked (cp_sets c) depths \<Longrightarrow> uses_below depths maxRoutingReferenceDepth sts \<Longrightarrow> good I B (resolve_in pg name sts c) c"
  unfolding resolve_in_def by (rule statements_good [OF _ empty_block _ _ le_SucI [OF order_refl]])

lemma resolve_set_good:
  assumes "I c" "ranked (cp_sets c) depths" "\<forall>s. cp_sets c name = Some s \<longrightarrow> uses_below depths maxRoutingReferenceDepth (rset_Statements s)"
  shows "good I B (resolveRuleSet (resolve_in pg) pg name condition c) c"
  by (rule set_good [OF assms(1)]) (use assms resolve_in_good in blast)

end

section \<open>The invariant of the compiler\<close>

definition flow_in :: "nat \<Rightarrow> flow_block \<Rightarrow> bool" where
  "flow_in n f \<longleftrightarrow> block_in n (fb_capture f) \<and> block_in n (fb_controls f)"

definition shared_in :: "nat \<Rightarrow> shared_programs \<Rightarrow> bool" where
  "shared_in n sh \<longleftrightarrow> list_all (span_in n) [sh_bypass sh, sh_request sh, sh_http sh, sh_early sh, sh_late sh] \<and> flow_in n (sh_destinations sh)"

definition comp_inv :: "compiler \<Rightarrow> bool" where
  "comp_inv c \<longleftrightarrow> (\<forall>(k, b) \<in> set (cp_resolved c). block_in (pool c) b) \<and> (\<forall>(k, f) \<in> set (cp_flows c). flow_in (pool c) f) \<and>
     shared_in (pool c) (cp_shared c) \<and> span_in (pool c) (cp_flowEnd c) \<and> (\<forall>p \<in> set (b_profiles (cp_builder c)). block_in (pool c) (pf_Spans p)) \<and>
     (\<forall>f s. b_fallbackSpans (cp_builder c) f = Some s \<longrightarrow> span_in (pool c) s) \<and> sound (cp_builder c)"

definition grows :: "builder \<Rightarrow> builder \<Rightarrow> bool" where
  "grows b b' \<longleftrightarrow> b_profiles b' = b_profiles b \<and> b_fallbackSpans b' = b_fallbackSpans b \<and> b_routingEnd b' = b_routingEnd b \<and>
     length (b_rules b) \<le> length (b_rules b') \<and> (sound b \<longrightarrow> sound b')"

lemma frame_grows: "frame b b' \<Longrightarrow> grows b b'"
  by (simp add: frame_def grows_def prefix_length_le)

lemma grows_trans: "grows a b \<Longrightarrow> grows b c \<Longrightarrow> grows a c"
  by (simp add: grows_def)

lemma grows_refl [simp]: "grows b b"
  by (simp add: grows_def)

lemma flow_in_mono: "flow_in n f \<Longrightarrow> n \<le> m \<Longrightarrow> flow_in m f"
  using block_in_mono by (auto simp: flow_in_def)

lemma shared_in_mono: "shared_in n sh \<Longrightarrow> n \<le> m \<Longrightarrow> shared_in m sh"
  using span_in_mono flow_in_mono by (auto simp: shared_in_def)

lemma comp_inv_builder:
  assumes "comp_inv c" "grows (cp_builder c) b"
  shows "comp_inv (c\<lparr>cp_builder := b\<rparr>) \<and> later c (c\<lparr>cp_builder := b\<rparr>)"
proof -
  have le: "pool c \<le> pool (c\<lparr>cp_builder := b\<rparr>)" using assms(2) by (simp add: grows_def pool_def)
  have "comp_inv (c\<lparr>cp_builder := b\<rparr>)"
    using assms block_in_mono [OF _ le] flow_in_mono [OF _ le] span_in_mono [OF _ le] shared_in_mono [OF _ le]
    unfolding comp_inv_def grows_def by (auto 4 3 simp: split_beta)
  then show ?thesis using le by (simp add: later_def)
qed

lemma comp_inv_fragment [simp]: "comp_inv (c\<lparr>cp_nextFragment := k\<rparr>) = comp_inv c" "later c (c'\<lparr>cp_nextFragment := k\<rparr>) = later c c'"
  by (simp_all add: comp_inv_def pool_def later_def)

lemma setConditionalJump_grows: "grows b b' \<Longrightarrow> grows b (setConditionalJump k n b')"
  by (simp add: grows_def setConditionalJump_def sound_update)

lemma rememberRule_grows: "grows b (rememberRule start r owner sect b') = grows b b'"
  unfolding grows_def sound_rememberRule by (simp add: rememberRule_def Let_def)

lemma validateEmpty_total: "validateEmptyRoutingUse env condition \<noteq> None"
proof -
  have "builder_validate (b\<lparr>b_routingEnd := length (b_rules b)\<rparr>) \<noteq> None"
    if "ApplyPredicate (routing_parsers (ce_sha env)) condition direct_outbound (empty_builder outs) = Inr b" for b outs
    by (rule builder_validate_total) (use ApplyPredicate_frame [OF that] in \<open>simp add: frame_def empty_builder_def\<close>)
  then show ?thesis by (auto simp: validateEmptyRoutingUse_def cbind_None simp del: not_None_eq split: sum.splits)
qed

lemma span_block: "block_appendSpan [] s = Inr b \<Longrightarrow> span_in n s \<Longrightarrow> block_in n b"
  using block_appendSpan_in [of "[]" s b n] by simp

lemma conditionalBlock_good:
  assumes "block_in (length (b_rules b)) body"
  shows "conditionalBlock env body condition name b \<noteq> None"
    and "conditionalBlock env body condition name b = Some (Inr (b', block)) \<Longrightarrow> grows b b' \<and> block_in (length (b_rules b')) block"
proof -
  show "conditionalBlock env body condition name b \<noteq> None"
    using validateEmpty_total by (auto simp: conditionalBlock_def cbind_None cret_def Let_def simp del: not_None_eq split: sum.splits)
next
  assume r: "conditionalBlock env body condition name b = Some (Inr (b', block))"
  show "grows b b' \<and> block_in (length (b_rules b')) block"
  proof (cases "condition = [] \<or> body = []")
    case True
    then have "b' = b" "block = body" using r by (auto simp: conditionalBlock_def cbind_Inr cret_def split: if_splits)
    then show ?thesis using assms by simp
  next
    case False
    define start where "start = length (b_rules b)"
    obtain b1 where b1: "ApplyPredicate (routing_parsers (ce_sha env)) condition direct_outbound b = Inr b1"
      using r False by (auto simp: conditionalBlock_def Let_def split: sum.splits)
    define b2 where "b2 = rememberRule start \<lparr>rr_AndFunctions = condition, rr_Outbound = plain_func ''use'' [kv_param [] name], rr_Sources = []\<rparr> name ''routing'' b1"
    define b3 where "b3 = setConditionalJump (length (b_rules b2) - 1) (spanExecutionLen body) b2"
    define sp where "sp = \<lparr>sp_start = start, sp_end = length (b_rules b3), sp_phase = sp_phase (hd body), sp_global = False\<rparr>"
    obtain entry where e: "block_appendSpan [] sp = Inr entry" "appendBlock entry body = Inr block" "b' = b3"
      using r False b1 by (auto simp: conditionalBlock_def Let_def start_def b2_def b3_def sp_def split: sum.splits)
    have g: "grows b b3"
      unfolding b3_def b2_def by (intro setConditionalJump_grows) (simp add: rememberRule_grows frame_grows ApplyPredicate_frame [OF b1])
    then have "span_in (length (b_rules b3)) sp" by (simp add: sp_def span_in_def grows_def start_def)
    then have "block_in (length (b_rules b3)) entry" using span_block e(1) by blast
    moreover have "block_in (length (b_rules b3)) body" using block_in_mono [OF assms] g by (simp add: grows_def)
    ultimately show ?thesis using appendBlock_in [OF e(2)] block_in_spans g e(3) by blast
  qed
qed

lemma compileRuleBatch_good:
  assumes "comp_inv c" "compileRuleBatch env rules owner c = Inr (c', span)"
  shows "comp_inv c'" "span_in (pool c') span" "later c c'" "cp_shared c' = cp_shared c" "b_profiles (cp_builder c') = b_profiles (cp_builder c)"
proof -
  obtain b where b: "applyRules (ce_sha env) rules owner (cp_builder c) = Inr b" "c' = c\<lparr>cp_builder := b\<rparr>"
    "span = \<lparr>sp_start = pool c, sp_end = length (b_rules b), sp_phase = PhaseRoute, sp_global = False\<rparr>"
    using assms(2) by (auto simp: compileRuleBatch_def pool_def Let_def split: sum.splits if_splits)
  have g: "grows (cp_builder c) b" by (rule frame_grows [OF applyRules_frame [OF b(1)]])
  show "comp_inv c'" "later c c'" using comp_inv_builder [OF assms(1) g] b(2) by simp_all
  show "span_in (pool c') span" "cp_shared c' = cp_shared c" "b_profiles (cp_builder c') = b_profiles (cp_builder c)"
    using g b(2,3) by (simp_all add: span_in_def pool_def grows_def)
qed

lemma applyFlowEffect_grows:
  assumes "applyFlowEffect env rule action flags owner sect b = Inr b'" "\<forall>u. action \<noteq> MA_Other u"
  shows "grows b b'"
proof -
  have "grows b (rememberRule st r ow se (b1\<lparr>b_rules := (b_rules b1)[k := (b_rules b1 ! k)\<lparr>ms_action := action, ms_flags := x\<rparr>]\<rparr>))"
    if "grows b b1" for st r ow se b1 k x
    using that assms(2) unfolding rememberRule_grows by (simp add: grows_def sound_update)
  then show ?thesis using assms(1)
    by (auto simp: applyFlowEffect_def Let_def dest!: ApplyPredicate_frame [THEN frame_grows] split: sum.splits)
qed

lemma apply_effects_grows: "apply_effects env es owner sect b = Inr b' \<Longrightarrow> \<forall>(r, action, x) \<in> set es. \<forall>u. action \<noteq> MA_Other u \<Longrightarrow> grows b b'"
  by (induction env es owner sect b rule: apply_effects.induct)
    (auto split: sum.splits dest!: applyFlowEffect_grows intro: grows_trans)

lemma control_effect_action: "\<forall>(r, action, x) \<in> set (map control_effect rs). \<forall>u. action \<noteq> MA_Other u"
  by (auto simp: control_effect_def Let_def flow_action_code_def split: flow_action.splits)

lemma compileDestinations_good:
  assumes "comp_inv c" "compileDestinations env rules owner sect global c = Inr (c', flow)"
  shows "comp_inv c' \<and> flow_in (pool c') flow \<and> later c c' \<and> cp_shared c' = cp_shared c"
proof (cases "rules = []")
  case True
  then show ?thesis using assms by (auto simp: compileDestinations_def flow_in_def empty_flow_def)
next
  case False
  obtain b cap where b: "apply_effects env (map (\<lambda>r. (destinationDiagnosticRule r, MA_Capture, captureDestination)) rules) owner sect (cp_builder c) = Inr b"
    "block_appendSpan [] \<lparr>sp_start = pool c, sp_end = length (b_rules b), sp_phase = PhaseIngress, sp_global = global\<rparr> = Inr cap"
    "c' = c\<lparr>cp_builder := b, cp_nextFragment := Suc (cp_nextFragment c)\<rparr>" "fb_capture flow = cap" "fb_controls flow = []"
    using assms(2) False by (auto simp: compileDestinations_def pool_def Let_def split: sum.splits)
  have g: "grows (cp_builder c) b" by (rule apply_effects_grows [OF b(1)]) auto
  then have "span_in (length (b_rules b)) \<lparr>sp_start = pool c, sp_end = length (b_rules b), sp_phase = PhaseIngress, sp_global = global\<rparr>"
    by (simp add: span_in_def grows_def pool_def)
  then have "block_in (pool c') cap" using span_block b(2,3) by (simp add: pool_def)
  then show ?thesis using comp_inv_builder [OF assms(1) g] b(3-5) by (simp add: flow_in_def)
qed

lemma compileFlowBatch_good:
  assumes "comp_inv c" "compileFlowBatch env rules owner c = Inr (c', flow)"
  shows "comp_inv c' \<and> flow_in (pool c') flow \<and> later c c'"
proof -
  obtain plan where plan: "rules_Plan rules = Inr plan" using assms(2) by (auto simp: compileFlowBatch_def split: sum.splits)
  then obtain c1 block where c1: "compileDestinations env (rp_Destinations plan) owner ''rules'' False c = Inr (c1, block)"
    using assms(2) by (auto simp: compileFlowBatch_def split: sum.splits)
  then obtain b ctl where e: "compileDestinations env (rp_Destinations plan) owner ''rules'' False c = Inr (c1, block)"
    "apply_effects env (map control_effect (rp_Controls plan)) owner ''rules'' (cp_builder c1) = Inr b"
    "block_appendSpan (fb_controls block) \<lparr>sp_start = pool c1, sp_end = length (b_rules b), sp_phase = PhaseFlow, sp_global = False\<rparr> = Inr ctl"
    "c' = c1\<lparr>cp_builder := b\<rparr>" "flow = block\<lparr>fb_controls := ctl\<rparr>"
    using assms(2) plan by (auto simp: compileFlowBatch_def pool_def Let_def split: sum.splits if_splits)
  have c1: "comp_inv c1" "flow_in (pool c1) block" "later c c1" using compileDestinations_good [OF assms(1) e(1)] by blast+
  have g: "grows (cp_builder c1) b" by (rule apply_effects_grows [OF e(2) control_effect_action])
  have c': "comp_inv c'" "later c1 c'" using comp_inv_builder [OF c1(1) g] e(4) by simp_all
  have le: "pool c1 \<le> pool c'" using c'(2) by (simp add: later_def)
  have "span_in (pool c') \<lparr>sp_start = pool c1, sp_end = length (b_rules b), sp_phase = PhaseFlow, sp_global = False\<rparr>"
    using g e(4) by (simp add: span_in_def grows_def pool_def)
  then have "block_in (pool c') ctl" using block_appendSpan_in [OF e(3)] block_in_mono [OF _ le] c1(2) by (simp add: flow_in_def)
  then show ?thesis using c' c1 later_trans flow_in_mono [OF c1(2) le] e(5) by (auto simp: flow_in_def)
qed

lemma conditionalFlowBlock_good:
  assumes "comp_inv c" "flow_in (pool c) body"
  shows "good comp_inv (\<lambda>c f. flow_in (pool c) f) (conditionalFlowBlock env body condition name c) c"
  unfolding good_def
proof (intro conjI allI impI)
  have body: "block_in (length (b_rules (cp_builder c))) (fb_capture body)" "block_in (length (b_rules (cp_builder c))) (fb_controls body)"
    using assms(2) by (simp_all add: flow_in_def pool_def)
  have second: "block_in (length (b_rules b1)) (fb_controls body)" if "conditionalBlock env (fb_capture body) condition name (cp_builder c) = Some (Inr (b1, cap))" for b1 cap
    using conditionalBlock_good(2) [OF body(1) that] block_in_mono [OF body(2)] by (simp add: grows_def)
  show "conditionalFlowBlock env body condition name c \<noteq> None"
    using conditionalBlock_good(1) [OF body(1)] conditionalBlock_good(1) [OF second]
    by (auto simp: conditionalFlowBlock_def cbind_None cret_def)
  fix c' flow assume "conditionalFlowBlock env body condition name c = Some (Inr (c', flow))"
  then obtain b1 cap b2 ctl where e: "conditionalBlock env (fb_capture body) condition name (cp_builder c) = Some (Inr (b1, cap))"
    "conditionalBlock env (fb_controls body) condition name b1 = Some (Inr (b2, ctl))"
    "c' = c\<lparr>cp_builder := b2, cp_nextFragment := cp_nextFragment c + length (fb_destinations body)\<rparr>" "fb_capture flow = cap" "fb_controls flow = ctl"
    by (auto simp: conditionalFlowBlock_def cbind_Inr cret_def)
  have g: "grows (cp_builder c) b1" "block_in (length (b_rules b1)) cap" "grows b1 b2" "block_in (length (b_rules b2)) ctl"
    using conditionalBlock_good(2) [OF body(1) e(1)] conditionalBlock_good(2) [OF second [OF e(1)] e(2)] by blast+
  have "block_in (length (b_rules b2)) cap" using block_in_mono [OF g(2)] g(3) by (simp add: grows_def)
  then have "flow_in (pool c') flow" using g(4) e(3-5) by (simp add: flow_in_def pool_def)
  moreover have "comp_inv c'" "later c c'" using comp_inv_builder [OF assms(1) grows_trans [OF g(1,3)]] e(3) by simp_all
  ultimately show "comp_inv c'" "flow_in (pool c') flow" "later c c'" by blast+
qed

interpretation routes: rule_set_provider "routingProgram env" comp_inv "\<lambda>c b. block_in (pool c) b" for env
proof
  show "block_in (pool c') b" if "block_in (pool c) b" "pool c \<le> pool c'" for c c' b using block_in_mono that by blast
  show "block_in (pool c) b" if "comp_inv c" "map_of (pg_cache (routingProgram env) c) key = Some b" for c key b
    using that map_of_SomeD [of "cp_resolved c" key b] by (auto simp: comp_inv_def routingProgram_def)
  show "comp_inv (pg_store (routingProgram env) key b c) \<and> later c (pg_store (routingProgram env) key b c)"
    if "comp_inv c" "block_in (pool c) b" for c b key
    using that by (auto simp: routingProgram_def comp_inv_def later_def pool_def)
  show "good comp_inv (\<lambda>c. block_in (pool c)) (pg_compile (routingProgram env) rules name c) c" if "comp_inv c" for c rules name
    using compileRuleBatch_good [OF that, of env rules name] span_block
    by (auto simp: routingProgram_def good_def split: sum.splits prod.splits)
  show "good comp_inv (\<lambda>c. block_in (pool c)) (pg_condition (routingProgram env) b condition name c) c"
    if "comp_inv c" "block_in (pool c) b" for c b condition name
    using conditionalBlock_good [of "cp_builder c" b env condition name] comp_inv_builder [OF that(1)] that(2)
    by (fastforce simp: routingProgram_def good_def cbind_None cbind_Inr cret_def pool_def)
  show "block_in (pool c) b''" if "block_in (pool c) b" "block_in (pool c) b'" "pg_append (routingProgram env) b b' = Inr b''" for c b b' b''
    using appendBlock_in that block_in_spans by (auto simp: routingProgram_def)
  show "block_in (pool c) (pg_empty (routingProgram env))" for c by (simp add: routingProgram_def)
qed

interpretation flows: rule_set_provider "flowProgram env" comp_inv "\<lambda>c f. flow_in (pool c) f" for env
proof
  show "flow_in (pool c') f" if "flow_in (pool c) f" "pool c \<le> pool c'" for c c' f using flow_in_mono that by blast
  show "flow_in (pool c) f" if "comp_inv c" "map_of (pg_cache (flowProgram env) c) key = Some f" for c key f
    using that map_of_SomeD [of "cp_flows c" key f] by (auto simp: comp_inv_def flowProgram_def)
  show "comp_inv (pg_store (flowProgram env) key f c) \<and> later c (pg_store (flowProgram env) key f c)"
    if "comp_inv c" "flow_in (pool c) f" for c f key
    using that by (auto simp: flowProgram_def comp_inv_def later_def pool_def)
  show "good comp_inv (\<lambda>c. flow_in (pool c)) (pg_compile (flowProgram env) rules name c) c" if "comp_inv c" for c rules name
    using compileFlowBatch_good [OF that] by (auto simp: flowProgram_def good_def)
  show "good comp_inv (\<lambda>c. flow_in (pool c)) (pg_condition (flowProgram env) f condition name c) c"
    if "comp_inv c" "flow_in (pool c) f" for c f condition name
    using conditionalFlowBlock_good [OF that] by (simp add: flowProgram_def)
  show "flow_in (pool c) f''" if "flow_in (pool c) f" "flow_in (pool c) f'" "pg_append (flowProgram env) f f' = Inr f''" for c f f' f''
    using appendBlock_in block_in_spans that by (auto simp: flowProgram_def flow_append_def flow_in_def split: sum.splits)
  show "flow_in (pool c) (pg_empty (flowProgram env))" for c by (simp add: flowProgram_def flow_in_def empty_flow_def)
qed

end
