(* ===== verification/Compile_Profiles.thy ===== *)
theory Compile_Profiles
  imports Compile_Invariant
begin

text \<open>
  The invariant of the compiler over the shared programs and the profiles: compiling a profile whose references
  are bounded returns, with an error or with a compiler that keeps the invariant.
\<close>

section \<open>Shared programs\<close>

lemma compileHTTPCapture_good:
  assumes "comp_inv c" "compileHTTPCapture env scopes flags phase c = Inr (c', span)"
  shows "comp_inv c' \<and> span_in (pool c') span \<and> later c c' \<and> cp_shared c' = cp_shared c"
proof (cases "mitmCapturePredicates (ce_lib env) scopes = []")
  case True
  then show ?thesis using assms by (auto simp: compileHTTPCapture_def Let_def)
next
  case False
  define b0 where "b0 = (cp_builder c)\<lparr>b_rules := b_rules (cp_builder c) @ [match_set0 MT_HTTPClient]\<rparr>"
  obtain rule b where e: "apply_effects env (map (\<lambda>p. (rule p, MA_Capture, flags)) (mitmCapturePredicates (ce_lib env) scopes)) ''flow_control'' [] b0 = Inr b"
    "c' = c\<lparr>cp_builder := setConditionalJump (pool c) (length (b_rules b) - pool c - 1) b\<rparr>"
    "span = \<lparr>sp_start = pool c, sp_end = length (b_rules b), sp_phase = phase, sp_global = True\<rparr>"
    using assms(2) False by (auto simp: compileHTTPCapture_def pool_def b0_def Let_def split: sum.splits)
  have "grows (cp_builder c) b0" by (simp add: grows_def b0_def sound_append instr_ok_def plain_kind_ok match_set0_def)
  moreover have "grows b0 b" by (rule apply_effects_grows [OF e(1)]) auto
  ultimately have g: "grows (cp_builder c) b" by (rule grows_trans)
  show ?thesis
    using comp_inv_builder [OF assms(1) setConditionalJump_grows [OF g]] g e(2,3)
    by (simp add: span_in_def pool_def grows_def setConditionalJump_def)
qed

lemma comp_inv_shared: "comp_inv c \<Longrightarrow> shared_in (pool c) sh \<Longrightarrow> comp_inv (c\<lparr>cp_shared := sh\<rparr>)"
  by (simp add: comp_inv_def pool_def)

lemma pool_shared [simp]: "pool (c\<lparr>cp_shared := sh\<rparr>) = pool c" "later (c\<lparr>cp_shared := sh\<rparr>) c' = later c c'" "later c (c'\<lparr>cp_shared := sh\<rparr>) = later c c'"
  by (simp_all add: pool_def later_def)

lemma comp_inv_shared_in: "comp_inv c \<Longrightarrow> shared_in (pool c) (cp_shared c)"
  by (simp add: comp_inv_def)

lemma shared_captures_good:
  assumes "comp_inv c" "shared_captures env capture c = Inr c'"
  shows "comp_inv c' \<and> later c c'"
proof (cases capture)
  case None
  then show ?thesis using assms by (simp add: shared_captures_def)
next
  case (Some cap)
  then obtain c1 request c2 http where e: "compileHTTPCapture env (rcap_requestRouting cap) (captureHTTP OR captureHTTPRequest) PhaseIngress c = Inr (c1, request)"
    "compileHTTPCapture env (rcap_http cap) captureHTTP PhaseFlow c1 = Inr (c2, http)"
    "c' = c2\<lparr>cp_shared := (cp_shared c2)\<lparr>sh_request := request, sh_http := http\<rparr>\<rparr>"
    using assms(2) by (auto simp: shared_captures_def split: sum.splits)
  have 1: "comp_inv c1" "span_in (pool c1) request" "later c c1" using compileHTTPCapture_good [OF assms(1) e(1)] by blast+
  have 2: "comp_inv c2" "span_in (pool c2) http" "later c1 c2" using compileHTTPCapture_good [OF 1(1) e(2)] by blast+
  have "span_in (pool c2) request" using span_in_mono [OF 1(2)] 2(3) by (simp add: later_def)
  then have "shared_in (pool c2) ((cp_shared c2)\<lparr>sh_request := request, sh_http := http\<rparr>)"
    using comp_inv_shared_in [OF 2(1)] 2(2) by (simp add: shared_in_def)
  then show ?thesis using comp_inv_shared [OF 2(1)] later_trans [OF 1(3) 2(3)] e(3) by simp
qed

lemma mark_bypass_length: "length (mark_bypass start rules) = length rules"
  by (simp add: mark_bypass_def)

lemma mark_bypass_sound: "sound b \<Longrightarrow> sound (b\<lparr>b_rules := mark_bypass start (b_rules b)\<rparr>)"
proof -
  assume b: "sound b"
  have "instr_ok n (if ms_action ms = MA_Route then ms\<lparr>ms_flags := ms_flags ms OR matchFlagBypass\<rparr> else ms) = instr_ok n ms" for n ms
    by (simp add: instr_ok_def)
  moreover have "list_all (instr_ok (length (b_lpmTries b))) (take start (b_rules b) @ drop start (b_rules b))" using b by (simp add: sound_def)
  ultimately show ?thesis using b unfolding list_all_append by (simp add: sound_def mark_bypass_def list.pred_map comp_def)
qed

lemma compileShared_good:
  assumes "comp_inv c" "compileShared env p c = Inr c'"
  shows "comp_inv c' \<and> later c c'"
proof -
  define start where "start = pool c"
  obtain b where b: "applyRules (ce_sha env) (pre_bypass p) ''api_bypass'' (cp_builder c) = Inr b"
    using assms(2) by (auto simp: compileShared_def Let_def split: sum.splits)
  define bypass where "bypass = \<lparr>sp_start = start, sp_end = length (b_rules b), sp_phase = PhaseIngress, sp_global = True\<rparr>"
  define b' where "b' = b\<lparr>b_rules := mark_bypass start (b_rules b)\<rparr>"
  define c1 where "c1 = c\<lparr>cp_builder := b', cp_shared := (cp_shared c)\<lparr>sh_bypass := bypass\<rparr>\<rparr>"
  obtain c2 dests c3 c4 early c5 late where e: "compileDestinations env (pre_destinations p) ''destination'' [] True c1 = Inr (c2, dests)"
    "shared_captures env (pre_capture p) (c2\<lparr>cp_shared := (cp_shared c2)\<lparr>sh_destinations := dests\<rparr>\<rparr>) = Inr c3"
    "compileRuleBatch env (pre_earlyRoutes p) ''plugin_early'' c3 = Inr (c4, early)"
    "compileRuleBatch env (pre_lateRoutes p) ''plugin_late'' c4 = Inr (c5, late)"
    "c' = c5\<lparr>cp_shared := (cp_shared c5)\<lparr>sh_early := early\<lparr>sp_global := True\<rparr>, sh_late := late\<lparr>sp_global := True\<rparr>\<rparr>\<rparr>"
    using assms(2) b by (auto simp: compileShared_def Let_def c1_def b'_def bypass_def start_def pool_def split: sum.splits)
  have l: "length (b_rules b') = length (b_rules b)" by (simp add: b'_def mark_bypass_length)
  have g: "grows (cp_builder c) b'" using frame_grows [OF applyRules_frame [OF b]] l mark_bypass_sound by (simp add: grows_def b'_def)
  have 0: "comp_inv (c\<lparr>cp_builder := b'\<rparr>)" "later c (c\<lparr>cp_builder := b'\<rparr>)" using comp_inv_builder [OF assms(1) g] by blast+
  have "shared_in (pool (c\<lparr>cp_builder := b'\<rparr>)) ((cp_shared c)\<lparr>sh_bypass := bypass\<rparr>)"
    using comp_inv_shared_in [OF 0(1)] g l by (simp add: shared_in_def span_in_def bypass_def start_def pool_def grows_def)
  then have 1: "comp_inv c1" "later c c1" using comp_inv_shared [OF 0(1)] 0(2) by (simp_all add: c1_def)
  have 2: "comp_inv c2" "flow_in (pool c2) dests" "later c1 c2" using compileDestinations_good [OF 1(1) e(1)] by blast+
  have "comp_inv (c2\<lparr>cp_shared := (cp_shared c2)\<lparr>sh_destinations := dests\<rparr>\<rparr>)"
    using comp_inv_shared [OF 2(1)] comp_inv_shared_in [OF 2(1)] 2(2) by (simp add: shared_in_def)
  then have 3: "comp_inv c3" "later c2 c3" using shared_captures_good [OF _ e(2)] by auto
  note 4 = compileRuleBatch_good [OF 3(1) e(3)]
  note 5 = compileRuleBatch_good [OF 4(1) e(4)]
  have "span_in (pool c5) early" using span_in_mono [OF 4(2)] 5(3) by (simp add: later_def)
  then have "shared_in (pool c5) ((cp_shared c5)\<lparr>sh_early := early\<lparr>sp_global := True\<rparr>, sh_late := late\<lparr>sp_global := True\<rparr>\<rparr>)"
    using comp_inv_shared_in [OF 5(1)] 5(2) by (simp add: shared_in_def span_in_def)
  then have "comp_inv c'" using comp_inv_shared [OF 5(1)] e(5) by simp
  moreover have "later c c5" using 1(2) 2(3) 3(2) 4(3) 5(3) later_trans by blast
  ultimately show ?thesis using e(5) by simp
qed

section \<open>Profiles\<close>

lemma flow_end_good:
  assumes "comp_inv c" "block_in (pool c) block" "flow_end flow block c = Inr (c', block')"
  shows "comp_inv c' \<and> later c c' \<and> block_in (pool c') block' \<and> cp_shared c' = cp_shared c"
proof (cases "fb_controls flow \<noteq> [] \<or> span_len (sh_http (cp_shared c)) \<noteq> 0")
  case False
  then show ?thesis using assms by (auto simp: flow_end_def)
next
  case True
  define b where "b = (cp_builder c)\<lparr>b_rules := b_rules (cp_builder c) @ [(match_set0 MT_Fallback)\<lparr>ms_action := MA_FlowEnd\<rparr>]\<rparr>"
  define c1 where "c1 = (if span_len (cp_flowEnd c) = 0
     then c\<lparr>cp_builder := b, cp_flowEnd := \<lparr>sp_start = pool c, sp_end = Suc (pool c), sp_phase = PhaseFlow, sp_global = False\<rparr>\<rparr> else c)"
  have e: "block_appendSpan block (cp_flowEnd c1) = Inr block'" "c' = c1"
    using assms(3) True by (auto simp: flow_end_def Let_def c1_def b_def pool_def split: sum.splits if_splits)
  have g: "grows (cp_builder c) b" by (simp add: grows_def b_def sound_append instr_ok_def plain_kind_ok match_set0_def)
  have "comp_inv (c\<lparr>cp_builder := b, cp_flowEnd := \<lparr>sp_start = pool c, sp_end = Suc (pool c), sp_phase = PhaseFlow, sp_global = False\<rparr>\<rparr>) \<and>
      later c (c\<lparr>cp_builder := b, cp_flowEnd := \<lparr>sp_start = pool c, sp_end = Suc (pool c), sp_phase = PhaseFlow, sp_global = False\<rparr>\<rparr>)"
    using comp_inv_builder [OF assms(1) g] by (simp add: comp_inv_def later_def pool_def span_in_def) (simp add: b_def)
  then have c1: "comp_inv c1" "later c c1" "cp_shared c1 = cp_shared c" using assms(1) by (simp_all add: c1_def)
  have "block_in (pool c1) block'"
    using block_appendSpan_in [OF e(1)] block_in_mono [OF assms(2)] c1 by (simp add: later_def comp_inv_def)
  then show ?thesis using c1 e(2) by simp
qed

lemma profile_fallback_good:
  assumes "comp_inv c" "block_in (pool c) block" "profile_fallback policy block (cp_builder c) = Inr (b, block')"
  shows "comp_inv (c\<lparr>cp_builder := b\<rparr>) \<and> later c (c\<lparr>cp_builder := b\<rparr>) \<and> block_in (length (b_rules b)) block'"
proof -
  obtain f fallback span where e: "addFallback fallback (cp_builder c) = Inr (span, b)" "block_appendSpan block span = Inr block'"
    and f: "parseFallback f (cp_builder c) = Inr fallback"
    using assms(3) by (auto simp: profile_fallback_def split: option.splits sum.splits)
  have ok: "instr_ok n fallback" for n
    using f by (auto simp: parseFallback_def instr_ok_def plain_kind_ok dest!: matchSet_kind split: sum.splits)
  show ?thesis
  proof (cases "b_fallbackSpans (cp_builder c) fallback")
    case (Some s)
    then have "span = s" "b = cp_builder c" using e(1) by (simp_all add: addFallback_def)
    then show ?thesis using assms(1,2) Some block_appendSpan_in [OF e(2), of "pool c"] by (simp add: comp_inv_def pool_def later_def)
  next
    case None
    define b1 where "b1 = rememberRule (pool c) \<lparr>rr_AndFunctions = [], rr_Outbound = plain_func ''fallback'' [], rr_Sources = []\<rparr> ''fallback'' ''routing''
      ((cp_builder c)\<lparr>b_rules := b_rules (cp_builder c) @ [fallback]\<rparr>)"
    have b: "b = b1\<lparr>b_fallbackSpans := (b_fallbackSpans b1)(fallback \<mapsto> span)\<rparr>"
      "span = \<lparr>sp_start = pool c, sp_end = Suc (pool c), sp_phase = PhaseRoute, sp_global = False\<rparr>"
      using e(1) None by (auto simp: addFallback_def Let_def b1_def pool_def split: if_splits)
    have r: "b_rules b1 = b_rules (cp_builder c) @ [fallback]" "grows (cp_builder c) b1"
      by (simp_all add: b1_def rememberRule_grows) (simp_all add: rememberRule_def grows_def Let_def sound_append ok)
    have i: "comp_inv (c\<lparr>cp_builder := b1\<rparr>)" using comp_inv_builder [OF assms(1) r(2)] by blast
    have s: "span_in (length (b_rules b)) span" using b r(1) by (simp add: span_in_def pool_def)
    have "comp_inv (c\<lparr>cp_builder := b\<rparr>)"
      using i s b by (auto simp: comp_inv_def pool_def sound_def split: if_splits)
    moreover have "block_in (length (b_rules b)) block'"
      using block_appendSpan_in [OF e(2) _ s] block_in_mono [OF assms(2)] b(1) r(1) by (simp add: pool_def)
    ultimately show ?thesis using b(1) r(1) by (simp add: later_def pool_def)
  qed
qed

lemma finish_profile_good:
  assumes "comp_inv c" "flow_in (pool c) flow" "block_in (pool c) body" "finish_profile i names policy flow body c = Inr c'"
  shows "comp_inv c' \<and> later c c'"
proof -
  define sh where "sh = cp_shared c"
  have sh: "shared_in (pool c) sh" using comp_inv_shared_in [OF assms(1)] by (simp add: sh_def)
  obtain block1 c1 block2 block3 b block where e:
    "append_blocks [] [[sh_bypass sh], fb_capture flow, fb_capture (sh_destinations sh), [sh_request sh], fb_controls flow, [sh_http sh]] = Inr block1"
    "flow_end flow block1 c = Inr (c1, block2)" "append_blocks block2 [[sh_early sh], body, [sh_late sh]] = Inr block3"
    "profile_fallback policy block3 (cp_builder c1) = Inr (b, block)"
    "c' = c1\<lparr>cp_builder := b\<lparr>b_profiles := b_profiles b @ [\<lparr>pf_ID = i, pf_Name = pol_Name policy, pf_InterfaceNames = names, pf_Spans = block, pf_Destination = []\<rparr>]\<rparr>,
        cp_profileDestinations := (cp_profileDestinations c1)(i := fb_destinations flow @ fb_destinations (sh_destinations sh))\<rparr>"
    using assms(4) by (auto simp: finish_profile_def Let_def sh_def split: sum.splits)
  have 1: "block_in (pool c) block1"
    by (rule append_blocks_in [OF e(1)]) (use sh assms(2) block_in_spans in \<open>auto simp: shared_in_def flow_in_def\<close>)
  have 2: "comp_inv c1" "later c c1" "block_in (pool c1) block2" "cp_shared c1 = sh"
    using flow_end_good [OF assms(1) 1 e(2)] by (simp_all add: sh_def)
  have "block_in (pool c1) body" using block_in_mono [OF assms(3)] 2(2) by (simp add: later_def)
  then have 3: "block_in (pool c1) block3"
    using append_blocks_in [OF e(3) 2(3)] comp_inv_shared_in [OF 2(1)] 2(4) block_in_spans by (simp add: shared_in_def)
  have 4: "comp_inv (c1\<lparr>cp_builder := b\<rparr>)" "later c1 (c1\<lparr>cp_builder := b\<rparr>)" "block_in (length (b_rules b)) block"
    using profile_fallback_good [OF 2(1) 3 e(4)] by blast+
  have "comp_inv c'" using 4(1,3) unfolding e(5) by (auto simp: comp_inv_def pool_def sound_def)
  moreover have "later c1 c'" using 4(2) unfolding e(5) by (simp add: later_def pool_def)
  ultimately show ?thesis using later_trans [OF 2(2)] by blast
qed

definition bounded_sets :: "(string \<Rightarrow> routing_rule_set option) \<Rightarrow> (string \<Rightarrow> nat option) \<Rightarrow> bool" where
  "bounded_sets sets depths \<longleftrightarrow> ranked sets depths \<and>
     (\<forall>n s. sets n = Some s \<longrightarrow> uses_below depths maxRoutingReferenceDepth (rset_Statements s))"

definition bounded_policy :: "(string \<Rightarrow> nat option) \<Rightarrow> routing_policy \<Rightarrow> bool" where
  "bounded_policy depths p \<longleftrightarrow> uses_below depths maxRoutingReferenceDepth (pol_Statements p) \<and> uses_below depths maxRoutingReferenceDepth (pol_Rules p)"

definition well :: "compiler outcome \<Rightarrow> compiler \<Rightarrow> bool" where
  "well m c \<longleftrightarrow> m \<noteq> None \<and> (\<forall>c'. m = Some (Inr c') \<longrightarrow> comp_inv c' \<and> later c c')"

lemma well_bind:
  assumes "well m c" "\<And>c'. comp_inv c' \<Longrightarrow> later c c' \<Longrightarrow> well (k c') c'"
  shows "well (cbind m k) c"
proof (cases "\<exists>c'. m = Some (Inr c')")
  case True
  then obtain c' where e: "m = Some (Inr c')" by blast
  then have c': "comp_inv c'" "later c c'" using assms(1) by (auto simp: well_def)
  show ?thesis using assms(2) [OF c'] later_trans [OF c'(2)] unfolding e well_def cbind_simps by blast
next
  case False
  then obtain e where "m = Some (Inl e)" using assms(1) unfolding well_def by (cases m; cases "the m") auto
  then show ?thesis by (simp add: well_def)
qed

lemma addProfile_well:
  assumes "comp_inv c" "bounded_sets (cp_sets c) depths" "bounded_policy depths policy"
  shows "well (addProfile env i names policy c) c"
proof -
  have r: "ranked (cp_sets c) depths" using assms(2) by (simp add: bounded_sets_def)
  have flow: "good comp_inv (\<lambda>c f. flow_in (pool c) f) (resolveFlowStatements env (pol_Name policy) (pol_Rules policy) c) c"
    unfolding resolveFlowStatements_def by (rule flows.resolve_in_good [OF assms(1) r]) (use assms(3) in \<open>simp add: bounded_policy_def\<close>)
  have body: "good comp_inv (\<lambda>c b. block_in (pool c) b) (resolveStatements env (pol_Name policy) (pol_Statements policy) c1) c1"
    if "comp_inv c1" "later c c1" for c1
    unfolding resolveStatements_def
  proof (rule routes.resolve_in_good [OF that(1)])
    show "ranked (cp_sets c1) depths" using r that(2) by (simp add: later_def)
    show "uses_below depths maxRoutingReferenceDepth (pol_Statements policy)" using assms(3) by (simp add: bounded_policy_def)
  qed
  show ?thesis
    unfolding well_def addProfile_def
  proof (intro conjI allI impI)
    show "cbind (cwrap (pol_Name policy) (resolveFlowStatements env (pol_Name policy) (pol_Rules policy) c)) (\<lambda>(c1, flow).
       cbind (resolveStatements env (pol_Name policy) (pol_Statements policy) c1) (\<lambda>(c2, body).
         cwrap (pol_Name policy) (Some (finish_profile i names policy flow body c2)))) \<noteq> None"
      using flow body unfolding good_def by (auto simp: cbind_None)
    fix c' assume "cbind (cwrap (pol_Name policy) (resolveFlowStatements env (pol_Name policy) (pol_Rules policy) c)) (\<lambda>(c1, flow).
       cbind (resolveStatements env (pol_Name policy) (pol_Statements policy) c1) (\<lambda>(c2, body).
         cwrap (pol_Name policy) (Some (finish_profile i names policy flow body c2)))) = Some (Inr c')"
    then obtain c1 flow c2 body where e: "resolveFlowStatements env (pol_Name policy) (pol_Rules policy) c = Some (Inr (c1, flow))"
      "resolveStatements env (pol_Name policy) (pol_Statements policy) c1 = Some (Inr (c2, body))" "finish_profile i names policy flow body c2 = Inr c'"
      by (auto simp: cbind_Inr)
    have 1: "comp_inv c1" "flow_in (pool c1) flow" "later c c1" using flow e(1) unfolding good_def by blast+
    have 2: "comp_inv c2" "block_in (pool c2) body" "later c1 c2" using body [OF 1(1,3)] e(2) unfolding good_def by blast+
    have "flow_in (pool c2) flow" using flow_in_mono [OF 1(2)] 2(3) by (simp add: later_def)
    then show "comp_inv c'" "later c c'" using finish_profile_good [OF 2(1) _ 2(2) e(3)] later_trans 1(3) 2(3) by blast+
  qed
qed

end
