(* ===== verification/Compile_Total.thy ===== *)
theory Compile_Total
  imports Compile_Profiles Routing_Semantics
begin

text \<open>
  The invariant over the whole compilation, its consequences for the compiled program, and the interplay with
  validation and preparation: a prepared configuration is always compiled or rejected, and a compiled program
  is within the limits, sound and validated.
\<close>

section \<open>Finishing\<close>

lemma destination_predicates_grows:
  "addDestinationPredicates env rules owner sect b = Inr (b', ps) \<Longrightarrow> grows b b'"
proof (induction env rules owner sect b arbitrary: b' ps rule: addDestinationPredicates.induct)
  case (2 env rule rules owner sect b)
  define start where "start = length (b_rules b)"
  obtain b1 where b1: "ApplyPredicate (routing_parsers (ce_sha env)) (dr_Filter rule) direct_outbound b = Inr b1"
    using "2.prems" by (auto simp: Let_def split: sum.splits)
  define b2 where "b2 = rememberRule start (destinationDiagnosticRule rule) owner sect b1"
  define k where "k = length (b_rules b2) - 1"
  define b3 where "b3 = b2\<lparr>b_rules := (b_rules b2)[k := (b_rules b2 ! k)\<lparr>ms_action := MA_Match\<rparr>] @ [(match_set0 MT_Fallback)\<lparr>ms_action := MA_Miss\<rparr>]\<rparr>"
  obtain es where rest: "addDestinationPredicates env rules owner sect b3 = Inr (b', es)"
    using "2.prems" b1 by (auto simp: Let_def start_def b2_def k_def b3_def split: sum.splits)
  have "grows b b2" unfolding b2_def rememberRule_grows by (rule frame_grows [OF ApplyPredicate_frame [OF b1]])
  moreover have "sound b3" if "sound b2"
  proof -
    have "sound (b2\<lparr>b_rules := (b_rules b2)[k := (b_rules b2 ! k)\<lparr>ms_action := MA_Match\<rparr>]\<rparr>)" by (rule sound_update [OF that]) simp_all
    from sound_append [OF this, of "(match_set0 MT_Fallback)\<lparr>ms_action := MA_Miss\<rparr>"] show ?thesis
      by (simp add: b3_def instr_ok_def plain_kind_ok match_set0_def)
  qed
  ultimately have g: "grows b b3" by (simp add: grows_def b3_def)
  have "grows b3 b'"
    by (rule "2.IH" [OF refl b1 b2_def [unfolded start_def] k_def b3_def refl]) (use rest in simp)
  then show ?case by (rule grows_trans [OF g])
qed simp

lemma profile_predicates_grows:
  "profile_predicates env ds compiled b = Inr (b', compiled', ps) \<Longrightarrow> grows b b'"
proof (induction ds arbitrary: compiled b b' compiled' ps)
  case (Cons d ds)
  show ?case
  proof (cases "map_of compiled (dfr_id d)")
    case None
    obtain b1 qs where b1: "addDestinationPredicates env (dfr_rules d) (dfr_owner d) (dfr_section d) b = Inr (b1, qs)"
      using Cons.prems None by (auto split: sum.splits)
    then obtain qs' where "profile_predicates env ds ((dfr_id d, qs) # compiled) b1 = Inr (b', compiled', qs')"
      using Cons.prems None by (auto split: sum.splits)
    then show ?thesis using grows_trans [OF destination_predicates_grows [OF b1]] Cons.IH by blast
  next
    case (Some qs)
    then obtain qs' where "profile_predicates env ds compiled b = Inr (b', compiled', qs')"
      using Cons.prems by (auto split: sum.splits)
    then show ?thesis by (rule Cons.IH)
  qed
qed simp

lemma finish_profiles_grows:
  "finish_profiles env dests ps compiled b = Inr (b', ps') \<Longrightarrow> grows b b' \<and> map pf_Spans ps' = map pf_Spans ps"
proof (induction ps arbitrary: compiled b b' ps')
  case (Cons p ps)
  obtain b1 compiled1 preds qs where e: "profile_predicates env (dests (pf_ID p)) compiled b = Inr (b1, compiled1, preds)"
    "finish_profiles env dests ps compiled1 b1 = Inr (b', qs)" "ps' = p\<lparr>pf_Destination := pf_Destination p @ preds\<rparr> # qs"
    using Cons.prems by (auto split: sum.splits)
  show ?case using grows_trans [OF profile_predicates_grows [OF e(1)]] Cons.IH [OF e(2)] e(3) by simp
qed simp

definition profiles_in :: "builder \<Rightarrow> bool" where
  "profiles_in b \<longleftrightarrow> b_routingEnd b \<le> length (b_rules b) \<and> (\<forall>p \<in> set (b_profiles b). block_in (b_routingEnd b) (pf_Spans p))"

lemma profiles_in_pool: "profiles_in b \<Longrightarrow> \<forall>p \<in> set (b_profiles b). block_in (length (b_rules b)) (pf_Spans p)"
  using block_in_mono unfolding profiles_in_def by blast

lemma finished_profiles:
  assumes "comp_inv c" and b: "b = (cp_builder c)\<lparr>b_routingEnd := length (b_rules (cp_builder c)), b_kernelLpmLen := l\<rparr>"
    and f: "finish_profiles env (cp_profileDestinations c) (b_profiles b) [] b = Inr (b1, profiles)"
  shows "profiles_in (b1\<lparr>b_profiles := profiles\<rparr>)" "length profiles = length (b_profiles (cp_builder c))"
proof -
  have g: "grows b b1" "map pf_Spans profiles = map pf_Spans (b_profiles b)" using finish_profiles_grows [OF f] by blast+
  have r: "b_routingEnd b1 = pool c" "b_routingEnd b1 \<le> length (b_rules b1)" using g(1) b by (simp_all add: grows_def pool_def)
  have "block_in (b_routingEnd b1) (pf_Spans p)" if "p \<in> set profiles" for p
  proof -
    have "pf_Spans p \<in> set (map pf_Spans (b_profiles b))" using that unfolding g(2) [symmetric] by simp
    then have "block_in (pool c) (pf_Spans p)" using assms(1) b by (auto simp: comp_inv_def)
    then show ?thesis unfolding r(1) .
  qed
  then show "profiles_in (b1\<lparr>b_profiles := profiles\<rparr>)" using r(2) by (simp add: profiles_in_def)
  show "length profiles = length (b_profiles (cp_builder c))" using arg_cong [OF g(2), of length] b by simp
qed

text \<open>What a finished program promises to the interpreter: sound instructions and profiles that pass the validation.\<close>

definition runnable :: "builder \<Rightarrow> bool" where
  "runnable b \<longleftrightarrow> sound b \<and> validate_profiles (b_rules b) (b_profiles b) = Some (Inr ())"

lemma encode_jumps_ok: "encode_jumps_loop i re ct rules = Inr rules' \<Longrightarrow> list_all (instr_ok n) rules \<Longrightarrow> list_all (instr_ok n) rules'"
  by (induction i re ct rules rule: encode_jumps_loop.induct) (auto simp: Let_def rules_ok_update split: if_splits)

lemma builder_validate_runnable:
  assumes "builder_validate b = Some (Inr b')" "sound b"
  shows "runnable b'"
proof -
  obtain rules where r: "encodeRoutingJumps (b_rules b) = Inr rules" "validate_profiles rules (b_profiles b) = Some (Inr ())" "b' = b\<lparr>b_rules := rules\<rparr>"
    using assms(1) by (auto simp: builder_validate_def Let_def split: if_splits sum.splits option.splits)
  have "list_all (instr_ok (length (b_lpmTries b))) rules"
    using encode_jumps_ok [OF r(1) [unfolded encodeRoutingJumps_def]] assms(2) by (simp add: sound_def)
  then show ?thesis using assms(2) r(2,3) by (simp add: runnable_def sound_def)
qed

lemma compiler_finish_total: "comp_inv c \<Longrightarrow> compiler_finish env c \<noteq> None"
  using profiles_in_pool [OF finished_profiles(1)] builder_validate_total
  by (auto simp: compiler_finish_def Let_def cbind_None cret_def simp del: not_None_eq split: sum.splits)

lemma compiler_finish_in:
  assumes "comp_inv c" "compiler_finish env c = Some (Inr c')"
  shows "profiles_in (cp_builder c')" "length (b_rules (cp_builder c')) \<le> 3 * MaxMatchSetLen"
    "length (b_profiles (cp_builder c')) = length (b_profiles (cp_builder c))" "b_routingEnd (cp_builder c') \<le> MaxMatchSetLen"
    "runnable (cp_builder c')"
proof -
  define b where "b = (cp_builder c)\<lparr>b_routingEnd := length (b_rules (cp_builder c)), b_kernelLpmLen := length (b_lpmTries (cp_builder c))\<rparr>"
  obtain b1 profiles b2 where e: "finish_profiles env (cp_profileDestinations c) (b_profiles b) [] b = Inr (b1, profiles)"
    "builder_validate (b1\<lparr>b_profiles := profiles\<rparr>) = Some (Inr b2)" "c' = c\<lparr>cp_builder := b2\<rparr>"
    using assms(2) by (auto simp: compiler_finish_def Let_def cbind_Inr cret_def b_def split: sum.splits)
  note f = finished_profiles [OF assms(1) b_def e(1)]
  note v = builder_validate_Inr [OF e(2)]
  show "profiles_in (cp_builder c')" using f(1) v(1,2,4) e(3) by (simp add: profiles_in_def)
  show "b_routingEnd (cp_builder c') \<le> MaxMatchSetLen" using v(5) e(3) by simp
  show "length (b_rules (cp_builder c')) \<le> 3 * MaxMatchSetLen" using v(3) e(3) by simp
  show "length (b_profiles (cp_builder c')) = length (b_profiles (cp_builder c))" using f(2) v(1) e(3) by simp
  have "sound b" using assms(1) by (simp add: comp_inv_def sound_def b_def)
  then have "sound (b1\<lparr>b_profiles := profiles\<rparr>)" using finish_profiles_grows [OF e(1)] by (simp add: grows_def sound_def)
  then show "runnable (cp_builder c')" using builder_validate_runnable [OF e(2)] e(3) by simp
qed

section \<open>Validators\<close>

definition ends :: "compiler outcome \<Rightarrow> bool" where
  "ends m \<longleftrightarrow> m \<noteq> None \<and> (\<forall>v. m = Some (Inr v) \<longrightarrow> comp_inv v)"

lemma well_after:
  assumes "ends m" "\<And>v. comp_inv v \<Longrightarrow> well (k v) c"
  shows "well (cbind m k) c"
proof (cases "\<exists>v. m = Some (Inr v)")
  case True
  then obtain v where e: "m = Some (Inr v)" by blast
  then have v: "comp_inv v" using assms(1) by (auto simp: ends_def)
  show ?thesis using assms(2) [OF v] unfolding e cbind_simps .
next
  case False
  then obtain e where "m = Some (Inl e)" using assms(1) unfolding ends_def by (cases m; cases "the m") auto
  then show ?thesis by (simp add: well_def)
qed

lemma good_ends: "good comp_inv B m c \<Longrightarrow> ends (cbind m (\<lambda>(v, _). cret v))"
  by (auto simp: good_def ends_def cbind_None cbind_Inr cret_def simp del: not_None_eq)

lemma well_ends: "well m c \<Longrightarrow> ends m"
  by (simp add: well_def ends_def)

lemma new_compiler_inv: "comp_inv (new_compiler validation outbounds sets kinds)"
  by (simp add: comp_inv_def new_compiler_def shared_in_def empty_shared_def flow_in_def empty_flow_def empty_builder_sound) (simp add: empty_builder_def)

lemma newValidator_inv: "comp_inv (newValidator c)" "cp_sets (newValidator c) = cp_sets c"
  unfolding newValidator_def by (rule new_compiler_inv) (simp add: new_compiler_def)

lemma remember_validated_well:
  assumes "comp_inv c" "comp_inv v"
  shows "well (remember_validated env owner c v) c"
proof -
  have "grows (cp_builder c) (rememberInactive other owner (cp_builder c))" for other
    by (simp add: grows_def rememberInactive_def sound_def)
  from comp_inv_builder [OF assms(1) this] show ?thesis
    using compiler_finish_total [OF assms(2), of env]
    by (auto simp: remember_validated_def well_def cbind_None cbind_Inr cret_def simp del: not_None_eq)
qed

lemma well_cret: "comp_inv c \<Longrightarrow> well (cret c) c"
  by (simp add: well_def cret_def)

lemma later_sets: "later c c' \<Longrightarrow> cp_sets c' = cp_sets c"
  by (simp add: later_def)

lemma unused_sets_well:
  assumes "bounded_sets sets depths"
  shows "comp_inv c \<Longrightarrow> cp_sets c = sets \<Longrightarrow> well (validateUnusedRuleSets env reachable ss c) c"
proof (induction ss arbitrary: c)
  case Nil
  then show ?case by (simp add: well_cret)
next
  case (Cons s ss)
  define v where "v = newValidator c"
  have v: "comp_inv v" "ranked (cp_sets v) depths" "\<forall>s'. cp_sets v (rset_Name s) = Some s' \<longrightarrow> uses_below depths maxRoutingReferenceDepth (rset_Statements s')"
    using newValidator_inv assms Cons.prems(2) by (auto simp: v_def bounded_sets_def)
  have 1: "ends (cbind (resolveFlowSet env (rset_Name s) [] v) (\<lambda>(v, _). cret v))"
    unfolding resolveFlowSet_def by (rule good_ends [OF flows.resolve_set_good [OF v]])
  have 2: "ends (cbind (resolveSet env (rset_Name s) [] v) (\<lambda>(v, _). cret v))"
    unfolding resolveSet_def by (rule good_ends [OF routes.resolve_set_good [OF v]])
  have 3: "ends (if cp_setKinds c (rset_Name s) = Some KindFlow
                  then cbind (resolveFlowSet env (rset_Name s) [] v) (\<lambda>(v, _). cret v)
                  else cbind (resolveSet env (rset_Name s) [] v) (\<lambda>(v, _). cret v))"
    using 1 2 by simp
  have "well (cbind (remember_validated env (''rule_set/'' @ rset_Name s) c w) (validateUnusedRuleSets env reachable ss)) c" if "comp_inv w" for w
    by (rule well_bind [OF remember_validated_well [OF Cons.prems(1) that]], rule Cons.IH) (use Cons.prems(2) later_sets in auto)
  then have w: "well (cbind (if cp_setKinds c (rset_Name s) = Some KindFlow
                  then cbind (resolveFlowSet env (rset_Name s) [] v) (\<lambda>(v, _). cret v)
                  else cbind (resolveSet env (rset_Name s) [] v) (\<lambda>(v, _). cret v))
      (\<lambda>v. cbind (remember_validated env (''rule_set/'' @ rset_Name s) c v) (validateUnusedRuleSets env reachable ss))) c"
    by (rule well_after [OF 3])
  show ?case
  proof (cases "rset_Name s \<in> reachable")
    case True
    then show ?thesis using Cons.IH [OF Cons.prems] by simp
  next
    case False
    then show ?thesis using w unfolding v_def validateUnusedRuleSets.simps by (simp only: if_False)
  qed
qed

section \<open>The whole configuration\<close>

lemma find_in: "find P (rev xs) = Some x \<Longrightarrow> x \<in> set xs"
  unfolding find_Some_iff using nth_mem [of _ "rev xs"] by auto

lemma add_profiles_well:
  assumes "bounded_sets sets depths" "\<forall>p \<in> set ps. bounded_policy depths p"
  shows "comp_inv c \<Longrightarrow> cp_sets c = sets \<Longrightarrow> well (add_profiles env ps i bs c) c"
proof (induction bs arbitrary: i c)
  case Nil
  then show ?case by (simp add: well_cret)
next
  case (Cons x bs)
  obtain name ifs where x: "x = (name, ifs)" by (cases x)
  have "bounded_policy depths (policy_map ps name)"
    using assms(2) find_in by (fastforce simp: policy_map_def bounded_policy_def [of _ "\<lparr>pol_Name = [], pol_Rules = [], pol_Statements = [], pol_Fallback = None\<rparr>"]
        uses_below_def [of _ _ "[]"] split: option.splits)
  then have "well (addProfile env (Suc i) ifs (policy_map ps name) c) c" using addProfile_well Cons.prems assms(1) by blast
  then show ?case unfolding x add_profiles.simps
    by (rule well_bind) (use Cons.IH Cons.prems(2) later_sets in auto)
qed

lemma unselected_well:
  assumes "bounded_sets sets depths"
  shows "\<forall>p \<in> set ps. bounded_policy depths p \<Longrightarrow> comp_inv c \<Longrightarrow> cp_sets c = sets \<Longrightarrow> well (validate_unselected env selected ps c) c"
proof (induction ps arbitrary: c)
  case Nil
  then show ?case by (simp add: well_cret)
next
  case (Cons p ps)
  have 1: "ends (addProfile env 0 [] p (newValidator c))"
    by (rule well_ends [OF addProfile_well [OF newValidator_inv(1), of _ depths]]) (use newValidator_inv(2) assms Cons.prems in auto)
  have "well (cbind (remember_validated env (''policy/'' @ pol_Name p) c w) (validate_unselected env selected ps)) c" if "comp_inv w" for w
    by (rule well_bind [OF remember_validated_well [OF Cons.prems(2) that]], rule Cons.IH) (use Cons.prems later_sets in auto)
  then have "well (cbind (addProfile env 0 [] p (newValidator c)) (\<lambda>v. cbind (remember_validated env (''policy/'' @ pol_Name p) c v) (validate_unselected env selected ps))) c"
    by (rule well_after [OF 1])
  then show ?case using Cons.IH Cons.prems by simp
qed

lemma bounded_config:
  assumes "refs_bounded r depths"
  shows "bounded_sets (set_map (rcf_RuleSets r)) depths" "\<forall>p \<in> set (rcf_Policies r). bounded_policy depths p"
proof -
  have "s \<in> set (rcf_RuleSets r)" if "set_map (rcf_RuleSets r) n = Some s" for n s
  proof -
    have "foldl (\<lambda>m s. m(rset_Name s \<mapsto> s)) m ss n = Some s \<Longrightarrow> s \<in> set ss \<or> m n = Some s" for m ss
      by (induction ss arbitrary: m) (fastforce split: if_splits)+
    then show ?thesis using that by (auto simp: set_map_def)
  qed
  then show "bounded_sets (set_map (rcf_RuleSets r)) depths" "\<forall>p \<in> set (rcf_Policies r). bounded_policy depths p"
    using assms by (auto simp: refs_bounded_def bounded_sets_def bounded_policy_def)
qed

lemma compiler_compile_well:
  assumes "refs_bounded r depths" "comp_inv c" "cp_sets c = set_map (rcf_RuleSets r)"
  shows "well (compiler_compile env r c) c"
proof -
  note b = bounded_config [OF assms(1)]
  define c0 where "c0 = c\<lparr>cp_builder := (cp_builder c)\<lparr>b_defaultProfileID := 1\<rparr>\<rparr>"
  have c0: "comp_inv c0" "later c c0" using comp_inv_builder [OF assms(2)] by (simp_all add: c0_def grows_def sound_def)
  have "well (compiler_compile env r c) c0"
    unfolding compiler_compile_def c0_def [symmetric]
  proof (rule well_bind [OF add_profiles_well [OF b c0(1)]])
    show "cp_sets c0 = set_map (rcf_RuleSets r)" using assms(3) by (simp add: c0_def)
    fix c1 assume c1: "comp_inv c1" "later c0 c1"
    then have s1: "cp_sets c1 = set_map (rcf_RuleSets r)" using assms(3) later_sets by (simp add: c0_def)
    show "well (cbind (validate_unselected env (map fst (profile_bindings r)) (rcf_Policies r) c1) (\<lambda>c2.
         validateUnusedRuleSets env (fst ` fst ` set (cp_resolved c2) \<union> fst ` fst ` set (cp_flows c2)) (rcf_RuleSets r) c2)) c1"
      by (rule well_bind [OF unselected_well [OF b c1(1) s1]], rule unused_sets_well [OF b(1)]) (use s1 later_sets in auto)
  qed
  then show ?thesis using later_trans [OF c0(2)] unfolding well_def by blast
qed

lemma compileRouting_well:
  assumes "refs_bounded (pre_routing p) depths"
  shows "compileRouting env p outs \<noteq> None"
    and "compileRouting env p outs = Some (Inr b) \<Longrightarrow> profiles_in b \<and> length (b_rules b) \<le> 3 * MaxMatchSetLen \<and> b_routingEnd b \<le> MaxMatchSetLen \<and> runnable b"
proof -
  define start where "start = new_compiler (pre_validationOutbounds p) outs (set_map (rcf_RuleSets (pre_routing p)))"
  have w: "well (compiler_compile env (pre_routing p) c1) c1" if "compileShared env p (start kinds) = Inr c1" for kinds c1
  proof (rule compiler_compile_well [OF assms])
    have "comp_inv c1 \<and> later (start kinds) c1" by (rule compileShared_good [OF _ that]) (simp add: start_def new_compiler_inv)
    then show "comp_inv c1" "cp_sets c1 = set_map (rcf_RuleSets (pre_routing p))" by (simp_all add: later_def start_def new_compiler_def)
  qed
  have fin: "compiler_finish env c2 \<noteq> None" if "compileShared env p (start kinds) = Inr c1" "compiler_compile env (pre_routing p) c1 = Some (Inr c2)" for kinds c1 c2
    using w [OF that(1)] that(2) compiler_finish_total unfolding well_def by blast
  show "compileRouting env p outs \<noteq> None"
    unfolding compileRouting_def start_def [symmetric] cbind_None
    using RuleSetKinds_total [OF assms] w fin by (auto simp: well_def cret_def simp del: not_None_eq)
  assume "compileRouting env p outs = Some (Inr b)"
  then obtain kinds c1 c2 c3 where e: "compileShared env p (start kinds) = Inr c1" "compiler_compile env (pre_routing p) c1 = Some (Inr c2)"
    "compiler_finish env c2 = Some (Inr c3)" "b = cp_builder c3"
    by (auto simp: compileRouting_def start_def cbind_Inr cret_def)
  have "comp_inv c2" using w [OF e(1)] e(2) by (simp add: well_def)
  then show "profiles_in b \<and> length (b_rules b) \<le> 3 * MaxMatchSetLen \<and> b_routingEnd b \<le> MaxMatchSetLen \<and> runnable b" using compiler_finish_in [OF _ e(3)] e(4) by blast
qed

section \<open>Preparation keeps references\<close>

definition keeps_uses :: "routing_statement list \<Rightarrow> routing_statement list \<Rightarrow> bool" where
  "keeps_uses sts sts' \<longleftrightarrow> (\<forall>depths k. uses_below depths k sts \<longrightarrow> uses_below depths k sts')"

lemma prepare_condition_kind: "prepare_condition g st = Inr st' \<Longrightarrow> st_Kind st' = st_Kind st \<and> st_Use st' = st_Use st"
  by (auto simp: prepare_condition_def split: if_splits sum.splits)

lemma prepare_statements_uses:
  "prepare_statements g flow sts = Inr sts' \<Longrightarrow> keeps_uses sts sts'"
proof (induction g flow sts arbitrary: sts' rule: prepare_statements.induct)
  case (2 g flow st sts)
  show ?case
  proof (cases "st_Kind st = StRule")
    case False
    then obtain st' rest where e: "prepare_condition g st = Inr st'" "prepare_statements g flow sts = Inr rest" "sts' = st' # rest"
      using "2.prems" by (auto split: sum.splits)
    then show ?thesis using "2.IH"(1) [OF _ e(1,2)] False prepare_condition_kind [OF e(1)]
      by (auto simp: keeps_uses_def uses_below_def)
  next
    case True
    define batch where "batch = takeWhile (\<lambda>s. st_Kind s = StRule) (st # sts)"
    obtain rules rest where e: "\<not> list_ex (\<lambda>s. st_Rule s = None) batch"
      "ApplyRulesOptimizers (map (the \<circ> st_Rule) batch) (routing_optimizers g flow) = Inr rules"
      "prepare_statements g flow (dropWhile (\<lambda>s. st_Kind s = StRule) sts) = Inr rest" "sts' = map rule_statement rules @ rest"
      using "2.prems" True by (auto simp: batch_def Let_def split: sum.splits if_splits)
    have k: "keeps_uses (dropWhile (\<lambda>s. st_Kind s = StRule) sts) rest"
      using "2.IH"(2) [OF _ batch_def e(1,2,3)] True by simp
    show ?thesis
      unfolding keeps_uses_def
    proof (intro allI impI)
      fix depths k assume "uses_below depths k (st # sts)"
      then have "uses_below depths k (dropWhile (\<lambda>s. st_Kind s = StRule) sts)"
        by (auto simp: uses_below_def dest: set_dropWhileD)
      then show "uses_below depths k sts'"
        using k e(4) by (auto simp: keeps_uses_def uses_below_def rule_statement_def)
    qed
  qed
qed (simp add: keeps_uses_def)

lemma prepare_sets_uses:
  "prepare_sets g kinds ss = Inr ss' \<Longrightarrow> list_all2 (\<lambda>s s'. rset_Name s' = rset_Name s \<and> keeps_uses (rset_Statements s) (rset_Statements s')) ss ss'"
  by (induction ss arbitrary: ss') (auto split: sum.splits simp: prepare_statements_uses)

lemma prepare_policies_uses:
  "prepare_policies g ps = Inr ps' \<Longrightarrow> list_all2 (\<lambda>p p'. keeps_uses (pol_Statements p) (pol_Statements p') \<and> keeps_uses (pol_Rules p) (pol_Rules p')) ps ps'"
  by (induction ps arbitrary: ps') (auto split: sum.splits simp: prepare_statements_uses)

lemma set_map_uses:
  assumes "list_all2 (\<lambda>s s'. rset_Name s' = rset_Name s \<and> keeps_uses (rset_Statements s) (rset_Statements s')) ss ss'"
  shows "rel_option (\<lambda>s s'. keeps_uses (rset_Statements s) (rset_Statements s')) (set_map ss n) (set_map ss' n)"
proof -
  have "rel_option (\<lambda>s s'. keeps_uses (rset_Statements s) (rset_Statements s')) (m n) (m' n) \<Longrightarrow>
    rel_option (\<lambda>s s'. keeps_uses (rset_Statements s) (rset_Statements s'))
      (foldl (\<lambda>m s. m(rset_Name s \<mapsto> s)) m ss n) (foldl (\<lambda>m s. m(rset_Name s \<mapsto> s)) m' ss' n)" for m m'
    using assms by (induction arbitrary: m m' rule: list_all2_induct) auto
  then show ?thesis by (simp add: set_map_def)
qed

lemma keeps_usesD: "keeps_uses sts sts' \<Longrightarrow> uses_below depths k sts \<Longrightarrow> uses_below depths k sts'"
  by (simp add: keeps_uses_def)

lemma list_all2_left: "list_all2 P xs ys \<Longrightarrow> y \<in> set ys \<Longrightarrow> \<exists>x \<in> set xs. P x y"
  by (induction rule: list_all2_induct) auto

lemma prepared_bounded:
  assumes "refs_bounded source depths"
    and sets: "list_all2 (\<lambda>s s'. rset_Name s' = rset_Name s \<and> keeps_uses (rset_Statements s) (rset_Statements s')) (rcf_RuleSets source) ss"
    and policies: "list_all2 (\<lambda>p p'. keeps_uses (pol_Statements p) (pol_Statements p') \<and> keeps_uses (pol_Rules p) (pol_Rules p')) (rcf_Policies source) ps"
  shows "refs_bounded (source\<lparr>rcf_RuleSets := ss, rcf_Policies := ps\<rparr>) depths"
proof -
  have "\<exists>s'. set_map ss n = Some s' \<and> uses_below depths d (rset_Statements s')"
    if "set_map (rcf_RuleSets source) n = Some s" "uses_below depths d (rset_Statements s)" for n d s
    using set_map_uses [OF sets, of n] that keeps_usesD by (auto simp: option_rel_Some1)
  then have "ranked (set_map ss) depths" using assms(1) unfolding refs_bounded_def ranked_def by meson
  moreover have "uses_below depths maxRoutingReferenceDepth (rset_Statements s')" if "s' \<in> set ss" for s'
    using list_all2_left [OF sets that] assms(1) keeps_usesD unfolding refs_bounded_def by blast
  moreover have "uses_below depths maxRoutingReferenceDepth (pol_Statements p') \<and> uses_below depths maxRoutingReferenceDepth (pol_Rules p')" if "p' \<in> set ps" for p'
    using list_all2_left [OF policies that] assms(1) keeps_usesD unfolding refs_bounded_def by blast
  ultimately show ?thesis by (simp add: refs_bounded_def)
qed


lemma prepareRoutingConfig_bounded:
  assumes "prepareRoutingConfig g source = Some (Inr r)"
  shows "\<exists>depths. refs_bounded r depths"
proof -
  obtain kinds where e: "routing_Validate source = Some (Inr ())"
    and k: "(case prepare_sets g kinds (rcf_RuleSets source) of Inl e \<Rightarrow> Inl e
      | Inr sets \<Rightarrow> (case prepare_policies g (rcf_Policies source) of Inl e \<Rightarrow> Inl e
          | Inr policies \<Rightarrow> Inr (source\<lparr>rcf_RuleSets := sets, rcf_Policies := policies\<rparr>))) = Inr r"
    using assms unfolding prepareRoutingConfig_def cbind_Inr by auto
  obtain ss where ss: "prepare_sets g kinds (rcf_RuleSets source) = Inr ss" using k by (cases "prepare_sets g kinds (rcf_RuleSets source)") auto
  obtain ps where ps: "prepare_policies g (rcf_Policies source) = Inr ps" using k ss by (cases "prepare_policies g (rcf_Policies source)") auto
  show ?thesis
    using validated_bounded [OF e] prepared_bounded [OF _ prepare_sets_uses [OF ss] prepare_policies_uses [OF ps]] k ss ps by auto
qed

lemma prepared_compiled:
  assumes "cbind (prepareRoutingConfig g source) (\<lambda>r. compileRouting env (p\<lparr>pre_routing := r\<rparr>) outs) = Some (Inr b)"
  shows "profiles_in b \<and> length (b_rules b) \<le> 3 * MaxMatchSetLen \<and> b_routingEnd b \<le> MaxMatchSetLen \<and> runnable b"
proof -
  obtain r where r: "prepareRoutingConfig g source = Some (Inr r)" "compileRouting env (p\<lparr>pre_routing := r\<rparr>) outs = Some (Inr b)"
    using assms by (auto simp: cbind_Inr)
  obtain depths where "refs_bounded (pre_routing (p\<lparr>pre_routing := r\<rparr>)) depths" using prepareRoutingConfig_bounded [OF r(1)] by auto
  then show ?thesis using compileRouting_well(2) r(2) by blast
qed

lemma compiled_profile:
  assumes "profiles_in b" "length (b_rules b) \<le> 3 * MaxMatchSetLen" "prof \<in> set (b_profiles b)"
  shows "wf_spans (pf_Spans prof)" "\<forall>s \<in> set (pf_Spans prof). sp_end s \<le> length (b_rules b)" "spanExecutionLen (pf_Spans prof) \<le> MaxMatchSetLen"
proof -
  have n: "length (b_rules b) < u32_mod" using assms(2) by (simp add: MaxMatchSetLen_def)
  have "block_in (length (b_rules b)) (pf_Spans prof)" using profiles_in_pool [OF assms(1)] assms(3) by blast
  then show "wf_spans (pf_Spans prof)" "\<forall>s \<in> set (pf_Spans prof). sp_end s \<le> length (b_rules b)" "spanExecutionLen (pf_Spans prof) \<le> MaxMatchSetLen"
    using n block_in_wf by (auto simp: block_in_def list_all_iff span_in_def)
qed

section \<open>Properties\<close>

text \<open>
  Claim C8: preparing and compiling a configuration always ends, with an error or with a program, whatever the
  configuration, the geodata and the plugin rules are. Compilation follows the references between rule sets without
  a guard of its own; the check that preparation starts with bounds them, and the optimizers keep that bound.
\<close>

theorem prepare_compile_total:
  "cbind (prepareRoutingConfig g source) (\<lambda>r. compileRouting env (p\<lparr>pre_routing := r\<rparr>) outs) \<noteq> None"
proof -
  have "RuleSetKinds source \<noteq> None" if "routing_Validate source = Some (Inr ())"
    using validated_bounded [OF that] RuleSetKinds_total by blast
  then have "prepareRoutingConfig g source \<noteq> None"
    using validate_returns [of source] by (auto simp: prepareRoutingConfig_def cbind_None simp del: not_None_eq)
  moreover have "compileRouting env (p\<lparr>pre_routing := r\<rparr>) outs \<noteq> None" if "prepareRoutingConfig g source = Some (Inr r)" for r
    using prepareRoutingConfig_bounded [OF that] compileRouting_well(1) [of "p\<lparr>pre_routing := r\<rparr>"] by auto
  ultimately show ?thesis by (auto simp: cbind_None simp del: not_None_eq)
qed

text \<open>A configuration whose only policy sends everything to its fallback, and what compilation depends on.\<close>

definition sample_lib :: domain_lib where
  "sample_lib = \<lparr>dl_regexp_ok = (\<lambda>_. True), dl_regexp_match = (\<lambda>_ _. False), dl_ac_ok = (\<lambda>_. True), dl_ac_char = (\<lambda>_. True),
     dl_ac_contains = (\<lambda>ps d. list_ex (\<lambda>p. sublist p d) ps), dl_unicode_lower = (\<lambda>s. s)\<rparr>"

definition sample_env :: compile_env where
  "sample_env = \<lparr>ce_sha = (\<lambda>b. b), ce_lib = sample_lib\<rparr>"

definition sample_geo :: geo_files where
  "sample_geo = \<lparr>gf_cancelled = False, gf_GeoSite = (\<lambda>_ _. Inr []), gf_GeoIP = (\<lambda>_ _. Inl (InvalidConfig ''none'')), gf_MMDB = (\<lambda>_ _ _. Inr []),
     gf_EqualFold = (=), gf_ToLower = (\<lambda>s. s)\<rparr>"

definition sample_rules :: prepared_rules where
  "sample_rules = \<lparr>pre_validationOutbounds = None, pre_destinations = [], pre_routing = nested_config, pre_bypass = [], pre_earlyRoutes = [], pre_lateRoutes = [], pre_capture = None\<rparr>"

definition simple_config :: routing_config where
  "simple_config = \<lparr>rcf_Default = [], rcf_RuleSets = [],
     rcf_Policies = [\<lparr>pol_Name = [], pol_Rules = [], pol_Statements = [], pol_Fallback = Some (plain_func ''direct'' [])\<rparr>],
     rcf_Interfaces = []\<rparr>"

lemma simple_validates: "routing_Validate simple_config = Some (Inr ())"
    by (simp add: routing_Validate_def simple_config_def maxRoutingBlocks_def maxRoutingStatements_def maxRoutingReferenceDepth_def
        maxRoutingInterfaceBindings_def validate_block_def statement_ok_def section_name_ok_def isBareRoutingValue_def IsBareLiteral_def
        bare_head_def use_statement_def rule_statement_def plain_func_def routing_function_ok_def RuleSetKinds_def set_map_def
        validateRoutingAction_def kv_param_def)

lemma simple_kinds: "RuleSetKinds simple_config = Some (Inr (\<lambda>_. None))"
    by (simp add: routing_Validate_def simple_config_def maxRoutingBlocks_def maxRoutingStatements_def maxRoutingReferenceDepth_def
        rule_statement_def plain_func_def routing_function_ok_def RuleSetKinds_def set_map_def
        validateRoutingAction_def kv_param_def)

lemma simple_prepares: "prepareRoutingConfig sample_geo simple_config = Some (Inr simple_config)"
  unfolding prepareRoutingConfig_def simple_validates simple_kinds cbind_simps
  by (simp add: simple_config_def prepare_statements.simps rule_statement_def routing_optimizers_def)

lemmas block_defs = append_blocks.simps appendBlock_def block_appendSpan_def appendSpan_def spanExecutionLen_def span_len_def zero_span_def u32_sub_def MaxMatchSetLen_def

lemma rememberRule_sel: "b_rules (rememberRule st r ow se b) = b_rules b" "b_profiles (rememberRule st r ow se b) = b_profiles b"
  "b_fallbackSpans (rememberRule st r ow se b) = b_fallbackSpans b" "b_lpmTries (rememberRule st r ow se b) = b_lpmTries b"
  by (simp_all add: rememberRule_def Let_def)

definition one_span :: routing_span where "one_span = \<lparr>sp_start = 0, sp_end = 1, sp_phase = PhaseRoute, sp_global = False\<rparr>"

lemma simple_compiles: "\<exists>c1 c2 p ms. compileShared sample_env (sample_rules\<lparr>pre_routing := simple_config\<rparr>) (new_compiler None [''direct'' \<mapsto> OutboundDirect] (set_map []) (\<lambda>_. None)) = Inr c1 \<and>
  compiler_compile sample_env simple_config c1 = Some (Inr c2) \<and> b_rules (cp_builder c2) = [ms] \<and> ms_action ms = MA_Route \<and> b_profiles (cp_builder c2) = [p] \<and>
  pf_Spans p = [one_span] \<and> pf_InterfaceNames p = [] \<and> cp_profileDestinations c2 (pf_ID p) = []"
  by (simp add: compileShared_def sample_rules_def compileDestinations_def shared_captures_def compileRuleBatch_def mark_bypass_def
    compiler_compile_def profile_bindings_def simple_config_def addProfile_def resolveFlowStatements_def resolveStatements_def resolve_in_def maxRoutingReferenceDepth_def
    flush_rules_def finish_profile_def block_defs policy_map_def new_compiler_def empty_builder_def empty_flow_def empty_shared_def flow_end_def profile_fallback_def
    parseFallback_def ParseOutbound_def plain_func_def matchSet_def logicalOrName_def logicalAndName_def addFallback_def Let_def cret_def
    flowProgram_def routingProgram_def cwrap_def rememberRule_sel one_span_def match_set0_def)

lemma route_validates:
  assumes "b_rules b = [ms]" "ms_action ms = MA_Route" "b_profiles b = [p]" "pf_Spans p = [one_span]" "pf_InterfaceNames p = []" "b_routingEnd b = 1"
  shows "builder_validate b = Some (Inr b)"
proof -
  have e: "encodeRoutingJumps (b_rules b) = Inr (b_rules b)" using assms(1,2) by (simp add: encodeRoutingJumps_def)
  have c: "newRoutingCursor [one_span] = \<lparr>rc_spans = [one_span], rc_span = 0, rc_instruction = 0, rc_position = 0, rc_length = 1\<rparr>"
    by (simp add: newRoutingCursor_def rc_advance_def advance_loop.simps spanExecutionLen_def span_len_def one_span_def u32_sub_def u32_add_def)
  have n: "fst (rc_advance \<lparr>rc_spans = [one_span], rc_span = 0, rc_instruction = 0, rc_position = 0, rc_length = 1\<rparr> 1) =
    \<lparr>rc_spans = [one_span], rc_span = 1, rc_instruction = 0, rc_position = 1, rc_length = 1\<rparr>"
    by (simp add: rc_advance_def advance_loop.simps one_span_def u32_sub_def u32_add_def)
  have l: "Suc (spanExecutionLen [one_span]) = Suc (Suc 0)" by (simp add: spanExecutionLen_def span_len_def one_span_def u32_sub_def)
  have "validateRoutingBlocks (b_rules b) [one_span] = Some (Inr ())"
    unfolding validateRoutingBlocks_def c l using assms(1,2) n by simp
  then show ?thesis using assms e by (simp add: builder_validate_def maxRoutingInterfaces_def MaxMatchSetLen_def)
qed

lemma simple_program: "\<exists>b. compileRouting sample_env (sample_rules\<lparr>pre_routing := simple_config\<rparr>) [''direct'' \<mapsto> OutboundDirect] = Some (Inr b) \<and> b_profiles b \<noteq> []"
proof -
  obtain c1 c2 p ms where c: "compileShared sample_env (sample_rules\<lparr>pre_routing := simple_config\<rparr>) (new_compiler None [''direct'' \<mapsto> OutboundDirect] (set_map []) (\<lambda>_. None)) = Inr c1"
    "compiler_compile sample_env simple_config c1 = Some (Inr c2)" "b_rules (cp_builder c2) = [ms]" "ms_action ms = MA_Route" "b_profiles (cp_builder c2) = [p]"
    "pf_Spans p = [one_span]" "pf_InterfaceNames p = []" "cp_profileDestinations c2 (pf_ID p) = []"
    using simple_compiles by blast
  define b where "b = (cp_builder c2)\<lparr>b_routingEnd := 1, b_kernelLpmLen := length (b_lpmTries (cp_builder c2)), b_profiles := [p]\<rparr>"
  have v: "builder_validate b = Some (Inr b)" by (rule route_validates [of b ms p]) (use c in \<open>simp_all add: b_def\<close>)
  have "compiler_finish sample_env c2 = Some (Inr (c2\<lparr>cp_builder := b\<rparr>))"
    using c(3,5,8) v by (simp add: compiler_finish_def Let_def b_def cret_def)
  moreover have "rcf_RuleSets simple_config = []" by (simp add: simple_config_def)
  moreover have "pre_validationOutbounds sample_rules = None" by (simp add: sample_rules_def)
  ultimately show ?thesis using c(1,2) by (simp add: compileRouting_def simple_kinds cret_def) (simp add: b_def)
qed

text \<open>
  Claim C9: the program of a compiled configuration stays within the limits of the kernel: at most three times the
  match set limit in the shared pool, and every profile is a sequence of spans inside the pool whose length does not
  wrap around and that executes at most the match set limit.
\<close>

theorem compiled_bounds:
  assumes "cbind (prepareRoutingConfig g source) (\<lambda>r. compileRouting env (p\<lparr>pre_routing := r\<rparr>) outs) = Some (Inr b)"
  shows "length (b_rules b) \<le> 3 * MaxMatchSetLen \<and>
    (\<forall>prof \<in> set (b_profiles b). wf_spans (pf_Spans prof) \<and> (\<forall>s \<in> set (pf_Spans prof). sp_end s \<le> length (b_rules b)) \<and>
       spanExecutionLen (pf_Spans prof) \<le> MaxMatchSetLen)"
  using prepared_compiled [OF assms] compiled_profile by blast

theorem compiled_bounds_witness:
  "\<exists>b. cbind (prepareRoutingConfig sample_geo simple_config) (\<lambda>r. compileRouting sample_env (sample_rules\<lparr>pre_routing := r\<rparr>) [''direct'' \<mapsto> OutboundDirect]) = Some (Inr b) \<and>
     length (b_rules b) \<le> 3 * MaxMatchSetLen"
proof -
  obtain b where "cbind (prepareRoutingConfig sample_geo simple_config) (\<lambda>r. compileRouting sample_env (sample_rules\<lparr>pre_routing := r\<rparr>) [''direct'' \<mapsto> OutboundDirect]) = Some (Inr b)"
    using simple_program unfolding simple_prepares cbind_simps by blast
  with compiled_bounds [OF this] show ?thesis by blast
qed

end
