(* ===== verification/Compile_Eval.thy ===== *)
theory Compile_Eval
  imports Compile_Total
begin

text \<open>
  Evaluation of a compiled program: what the validation of a profile and the soundness of its instructions give
  the interpreter. No jump leaves the profile, no type or action is unknown and no prefix set is missing, so that
  evaluation always ends with a decision or, when no rule applies, with the error for this case.
\<close>

section \<open>What validation checks\<close>

definition jump_ok :: "match_set \<Rightarrow> nat \<Rightarrow> bool" where
  "jump_ok ms left \<longleftrightarrow> ms_action ms \<in> {MA_Or, MA_And, MA_ConditionalJump} \<longrightarrow> 0 < ms_mark ms \<and> ms_mark ms \<le> left"

lemma validate_loop_step:
  assumes "validate_loop (Suc fuel) rules c scopes previous = Some (Inr ())" "rc_span c < length (rc_spans c)"
  shows "jump_ok (rules ! rc_instruction c) (u32_sub (rc_length c) (rc_position c)) \<and>
    (\<exists>scopes' action. validate_loop fuel rules (fst (rc_advance c 1)) scopes' action = Some (Inr ()))"
  using assms by (auto simp: Let_def jump_ok_def not_less split: sum.splits if_splits)

lemma validate_loop_jumps:
  assumes wf: "wf_spans spans"
  shows "cursor_at spans n c \<Longrightarrow> validate_loop fuel rules c scopes previous = Some (Inr ()) \<Longrightarrow> n \<le> j \<Longrightarrow> j < length (flat spans) \<Longrightarrow>
    jump_ok (rules ! snd (flat spans ! j)) (length (flat spans) - j)"
proof (induction fuel arbitrary: n c scopes previous)
  case 0
  then show ?case by simp
next
  case (Suc fuel)
  have n: "n < length (flat spans)" using Suc.prems(3,4) by simp
  have f: "rc_spans c = spans" "rc_length c = length (flat spans)" "rc_position c = n" using Suc.prems(1) by (simp_all add: cursor_at_def)
  note rd = cursor_reads [OF Suc.prems(1) n]
  obtain scopes' action where s: "jump_ok (rules ! rc_instruction c) (u32_sub (rc_length c) (rc_position c))"
    "validate_loop fuel rules (fst (rc_advance c 1)) scopes' action = Some (Inr ())"
    using validate_loop_step [OF Suc.prems(2)] rd(1) f(1) by blast
  show ?case
  proof (cases "j = n")
    case True
    have "length (flat spans) < u32_mod" using wf by (simp add: wf_spans_def length_flat)
    then have "u32_sub (length (flat spans)) n = length (flat spans) - n" using n by (simp add: u32_simps)
    then show ?thesis using s(1) rd(2) f True by simp
  next
    case False
    obtain c' where c': "rc_advance c 1 = (c', True)" "cursor_at spans (n + 1) c'"
      using cursor_advance [OF wf Suc.prems(1), of 1] n by auto
    show ?thesis by (rule Suc.IH [OF c'(2)]) (use s(2) c'(1) Suc.prems(3,4) False in auto)
  qed
qed

lemma validated_jumps:
  assumes "validate_profiles rules ps = Some (Inr ())" "prof \<in> set ps" "wf_spans (pf_Spans prof)" "j < length (flat (pf_Spans prof))"
  shows "jump_ok (rules ! snd (flat (pf_Spans prof) ! j)) (length (flat (pf_Spans prof)) - j)"
proof -
  have "validateRoutingBlocks rules (pf_Spans prof) = Some (Inr ())"
    using assms(1,2) by (induction ps) (auto split: option.splits sum.splits)
  then show ?thesis using validate_loop_jumps [OF assms(3) cursor_start [OF assms(3)]] assms(4) unfolding validateRoutingBlocks_def by blast
qed

lemma flat_below:
  assumes "\<forall>s \<in> set spans. sp_end s \<le> n" "j < length (flat spans)"
  shows "snd (flat spans ! j) < n"
proof -
  have "flat spans ! j \<in> set (flat spans)" using assms(2) by simp
  then obtain k where "k < length spans" "snd (flat spans ! j) < sp_end (spans ! k)" by (auto simp: flat_def seq_from_def span_seq_def)
  then show ?thesis using assms(1) nth_mem less_le_trans by blast
qed

section \<open>The interpreter on sound instructions\<close>

text \<open>Every trie of a matcher is built from valid prefixes: those of the builder, or those of a set of clients.\<close>

definition tries_built :: "routing_matcher \<Rightarrow> bool" where
  "tries_built m \<longleftrightarrow> (\<forall>t \<in> set (rm_lpmMatcher m). \<exists>ps. list_all pfx_ok ps \<and> length ps < 2 ^ 22 \<and> NewTrieFromPrefixes ps = Inr t)"

lemma tries_answer:
  assumes "tries_built m" "i < length (rm_lpmMatcher m)"
  shows "\<exists>hit. HasPrefixIP (rm_lpmMatcher m ! i) (lpmKey p kind) = Some hit"
proof -
  obtain ps where ps: "\<forall>q \<in> set ps. pfx_ok q" "length ps < 2 ^ 22" "NewTrieFromPrefixes ps = Inr (rm_lpmMatcher m ! i)"
    using assms nth_mem unfolding tries_built_def list_all_iff by blast
  have "length (lpmKey p kind) = 16" by (simp add: lpmKey_def)
  then show ?thesis using trie_of_prefixes [OF ps(1,2)] ps(3) by auto
qed

lemma pred_match_answers:
  assumes "tries_built m" "instr_ok (length (rm_lpmMatcher m)) ms"
  shows "\<exists>p' v. pred_match m p ms = (p', Inr v)"
proof (cases "ms_type ms \<in> {MT_IpSet, MT_SourceIpSet, MT_Mac}")
  case True
  then have i: "value_index (ms_value ms) < length (rm_lpmMatcher m)" using assms(2) by (simp add: instr_ok_def kind_ok_def)
  obtain hit where "HasPrefixIP (rm_lpmMatcher m ! value_index (ms_value ms)) (lpmKey (rp_input p) (ms_type ms)) = Some hit"
    using tries_answer [OF assms(1) i] by blast
  then show ?thesis using True i by (auto simp: pred_match_def Let_def)
next
  case False
  then show ?thesis using assms(2) by (cases "ms_type ms") (auto simp: pred_match_def Let_def instr_ok_def kind_ok_def)
qed

definition step_ok :: "nat \<Rightarrow> step_outcome \<Rightarrow> bool" where
  "step_ok left out = (case out of Return r st \<Rightarrow> \<not> isl r | Advance d st \<Rightarrow> 0 < d \<and> d \<le> left)"

lemma exec_action_ok:
  assumes "ms_action ms \<notin> {MA_Or, MA_And, MA_ConditionalJump}" "\<forall>u. ms_action ms \<noteq> MA_Other u" "0 < left"
  shows "step_ok left (exec_action m p sk pos ms st)"
  using assms by (cases "ms_action ms") (auto simp: exec_action_def step_ok_def next_rule_def Let_def)

lemma exec_clause_ok:
  assumes "jump_ok ms (len - n)" "\<forall>u. ms_action ms \<noteq> MA_Other u" "ms_action ms \<noteq> MA_Or" "n < len" "len < u32_mod"
  shows "step_ok (len - n) (exec_clause m p sk pos n len ms st)"
proof -
  have "u32_sub len n = len - n" using assms(4,5) by (simp add: u32_simps)
  then show ?thesis
    using assms exec_action_ok [of ms "len - n"] by (auto simp: exec_clause_def Let_def jump_ok_def step_ok_def next_rule_def)
qed

lemma exec_instr_ok:
  assumes "tries_built m" "instr_ok (length (rm_lpmMatcher m)) ms" "jump_ok ms (len - n)" "n < len" "len < u32_mod"
  shows "step_ok (len - n) (exec_instr m p sk pos n len ms st)"
proof -
  have a: "\<forall>u. ms_action ms \<noteq> MA_Other u" using assms(2) by (simp add: instr_ok_def)
  have clause: "step_ok (len - n) (exec_clause m p sk pos n len ms st1)" if "ms_action ms \<noteq> MA_Or" for st1
    by (rule exec_clause_ok [OF assms(3) a that assms(4,5)])
  have jump: "step_ok (len - n) (Advance (ms_mark ms) st1)" "step_ok (len - n) (Advance 1 st1)" if "ms_action ms = MA_Or" for st1
    using that assms(3,4) by (simp_all add: step_ok_def jump_ok_def)
  obtain p' v where "pred_match m (ev_preds st) ms = (p', Inr v)" using pred_match_answers [OF assms(1,2)] by blast
  then show ?thesis using clause jump by (cases "ev_subrule st = PMatch") (auto simp: exec_instr_def Let_def)
qed

lemma vm_run_decides:
  assumes "tries_built m" "length prog < u32_mod"
    and ok: "\<And>j. j < length prog \<Longrightarrow> instr_ok (length (rm_lpmMatcher m)) (fst (snd (prog ! j))) \<and> jump_ok (fst (snd (prog ! j))) (length prog - j)"
  shows "fst (vm_run m p sk prog n st) = Inl NoMatchSetHit \<or> \<not> isl (fst (vm_run m p sk prog n st))"
proof (induction "length prog - n" arbitrary: n st rule: less_induct)
  case less
  show ?case
  proof (cases "n < length prog")
    case True
    obtain pos ms skip where e: "prog ! n = (pos, ms, skip)" by (cases "prog ! n") auto
    have s: "step_ok (length prog - n) (exec_instr m p sk pos n (length prog) ms st)"
      using exec_instr_ok [OF assms(1) _ _ True assms(2)] ok [OF True] e by simp
    have next_ok: "fst (vm_run m p sk prog (n + d) st') = Inl NoMatchSetHit \<or> \<not> isl (fst (vm_run m p sk prog (n + d) st'))" if "0 < d" for d st'
      by (rule less) (use that True in linarith)
    show ?thesis
      using s next_ok [of 1 st] next_ok True e
      by (auto simp: vm_run.simps [of m p sk prog n] step_ok_def split: step_outcome.splits)
  qed (simp add: vm_run.simps [of m p sk prog n])
qed

section \<open>Properties\<close>

text \<open>
  Claim C10: every profile of a compiled configuration is evaluated to a decision: on every packet with valid
  addresses, whatever the domain matcher, the clients and the state of the outbounds, the interpreter ends with a
  decision or with the error that no rule applies. It never panics on a missing prefix set or instruction, and it
  never meets an unknown type, an unknown action or a jump out of the profile. The matcher holds the instructions
  of the builder and one trie for each of its prefix sets.
\<close>

theorem compiled_evaluates:
  assumes "cbind (prepareRoutingConfig g source) (\<lambda>r. compileRouting env (p\<lparr>pre_routing := r\<rparr>) outs) = Some (Inr b)"
    and "prof \<in> set (b_profiles b)" "rm_matches m = b_rules b" "length (rm_lpmMatcher m) = length (b_lpmTries b)" "tries_built m"
    and "addr_port_IsValid (ri_src i)" "addr_port_IsValid (ri_dst i)"
  shows "\<exists>r trace. evaluateSpans m (pf_Spans prof) i = Some (r, trace) \<and> (r = Inl NoMatchSetHit \<or> (\<exists>decision. r = Inr decision))"
proof -
  have b: "profiles_in b" "length (b_rules b) \<le> 3 * MaxMatchSetLen" "sound b" "validate_profiles (b_rules b) (b_profiles b) = Some (Inr ())"
    using prepared_compiled [OF assms(1)] by (auto simp: runnable_def)
  note prof = compiled_profile [OF b(1,2) assms(2)]
  let ?prog = "profile_program m (pf_Spans prof) i"
  have spans: "spans_in m (pf_Spans prof)" using prof(2) assms(3) by (simp add: spans_in_def)
  have small: "length ?prog < u32_mod" using prof(1) by (simp add: wf_spans_def length_flat)
  have entry: "fst (snd (?prog ! j)) = b_rules b ! snd (flat (pf_Spans prof) ! j)" "snd (flat (pf_Spans prof) ! j) < length (b_rules b)"
    if "j < length ?prog" for j
    using that flat_below [OF prof(2), of j] assms(3) by (auto simp: profile_program_def split_beta)
  have "instr_ok (length (rm_lpmMatcher m)) (fst (snd (?prog ! j))) \<and> jump_ok (fst (snd (?prog ! j))) (length ?prog - j)" if "j < length ?prog" for j
    using entry [OF that] b(3) assms(4) validated_jumps [OF b(4) assms(2) prof(1), of j] that by (auto simp: sound_def list_all_length)
  from vm_run_decides [OF assms(5) small this] show ?thesis
    unfolding evaluateSpans_vm [OF prof(1) spans assms(6,7)] by (metis isl_def sum.collapse(2) prod.collapse)
qed

theorem compiled_evaluates_witness:
  "\<exists>b prof r trace. cbind (prepareRoutingConfig sample_geo simple_config) (\<lambda>r. compileRouting sample_env (sample_rules\<lparr>pre_routing := r\<rparr>) [''direct'' \<mapsto> OutboundDirect]) = Some (Inr b) \<and>
     prof \<in> set (b_profiles b) \<and>
     evaluateSpans (sample_matcher\<lparr>rm_matches := b_rules b, rm_lpmMatcher := replicate (length (b_lpmTries b)) None\<rparr>) (pf_Spans prof) sample_input = Some (r, trace) \<and>
     (r = Inl NoMatchSetHit \<or> (\<exists>decision. r = Inr decision))"
proof -
  obtain b where b: "cbind (prepareRoutingConfig sample_geo simple_config) (\<lambda>r. compileRouting sample_env (sample_rules\<lparr>pre_routing := r\<rparr>) [''direct'' \<mapsto> OutboundDirect]) = Some (Inr b)"
    "b_profiles b \<noteq> []"
    using simple_program unfolding simple_prepares cbind_simps by blast
  let ?m = "sample_matcher\<lparr>rm_matches := b_rules b, rm_lpmMatcher := replicate (length (b_lpmTries b)) None\<rparr>"
  have "NewTrieFromPrefixes [] = Inr None" by (simp add: NewTrieFromPrefixes_def NewTrie_def)
  then have "tries_built ?m" by (auto simp: tries_built_def intro!: exI [of _ "[]"])
  from compiled_evaluates [OF b(1) hd_in_set [OF b(2)] _ _ this sample_facts(3,4)] show ?thesis using b hd_in_set by fastforce
qed

end
