(* ===== verification/Kernel_Route.thy ===== *)
theory Kernel_Route
  imports Routing_Build
begin

text \<open>
  The kernel interpreter of \<^verbatim>\<open>control/kern/routing.h\<close> and \<^verbatim>\<open>http_clients.h\<close>: policy selection, predicates, actions and
  the bounded walk over the steps of a profile. Lookups in BPF maps are the functions of a record; numbers of the
  match result enumeration are the truth values of the userspace interpreter; a negative return value is kept as
  the integer it is.
\<close>

section \<open>Maps and packet fields\<close>

record kernel_profile =
  kp_length :: nat
  kp_steps :: "nat list"

record domain_bits =
  db_bump :: "u32 list"
  db_routing :: "u32 list"

record http_client_decision =
  hd_order :: nat
  hd_allow :: nat

datatype http_client_kind = HTTP_CLIENT_ALL | HTTP_CLIENT_MAC_OVERRIDE | HTTP_CLIENT_MAC | HTTP_CLIENT_IPV4 | HTTP_CLIENT_IPV6

record kernel_maps =
  km_lpm :: "nat \<Rightarrow> (bytes \<Rightarrow> bool) option"
  km_http :: "(http_client_kind \<Rightarrow> bytes \<Rightarrow> http_client_decision option) option"
  km_domain :: "bytes \<Rightarrow> domain_bits option"
  km_connectivity :: "u8 \<Rightarrow> nat \<Rightarrow> nat \<Rightarrow> nat option"
  km_routing :: "nat \<Rightarrow> match_set option"
  km_interface :: "nat \<Rightarrow> nat option"
  km_profile :: "nat \<Rightarrow> kernel_profile option"
  km_default :: nat

record route_params =
  kr_saddr :: bytes
  kr_daddr :: bytes
  kr_pname :: bytes
  kr_ifindex :: nat
  kr_profile_id :: nat
  kr_physinif :: nat
  kr_sport :: u16
  kr_dport :: u16
  kr_mac :: bytes
  kr_l4proto_type :: u8
  kr_ipversion_type :: u8
  kr_dscp :: u8
  kr_isdns :: bool
  kr_has_pname :: bool

datatype route_step_result = ROUTE_CONTINUE | ROUTE_STOP
datatype http_client_admission = HTTP_CLIENT_UNCHECKED | HTTP_CLIENT_DENIED | HTTP_CLIENT_ALLOWED

record route_state =
  rs_result :: int
  rs_position :: nat
  rs_uncertain_until :: nat
  rs_clause_result :: predicate_result
  rs_must :: predicate_result
  rs_capture_flags :: u8
  rs_rule_uncertain :: bool
  rs_flow_bump :: bool
  rs_skipped_noalive :: bool

record route_ctx =
  rx_domain :: "domain_bits option"
  rx_domain_loaded :: bool
  rx_http_client_admission :: http_client_admission

definition EPERM :: int where "EPERM = 1"
definition EFAULT :: int where "EFAULT = 14"
definition EINVAL :: int where "EINVAL = 22"

definition bpf_ntohs :: "u16 \<Rightarrow> u16" where
  "bpf_ntohs w = push_bit 8 w OR drop_bit 8 w"

section \<open>Predicates\<close>

definition better :: "http_client_decision option \<Rightarrow> http_client_decision \<Rightarrow> http_client_decision" where
  "better found best = (case found of None \<Rightarrow> best | Some d \<Rightarrow> if hd_order d < hd_order best then d else best)"

definition http_client_allowed :: "kernel_maps \<Rightarrow> route_params \<Rightarrow> bool" where
  "http_client_allowed km params =
     (case km_http km of
        None \<Rightarrow> False
      | Some clients \<Rightarrow>
          let mac_key = take 6 (kr_mac params) @ replicate 10 0;
              best0 = \<lparr>hd_order = 4294967295, hd_allow = 0\<rparr>;
              rest = (\<lambda>best. let best1 = better (clients (if kr_ipversion_type params AND 1 \<noteq> 0 then HTTP_CLIENT_IPV4 else HTTP_CLIENT_IPV6) (kr_saddr params)) best
                              in hd_allow (better (clients HTTP_CLIENT_ALL (replicate 16 0)) best1) \<noteq> 0)
          in if \<not> list_all (\<lambda>b. b = 0) (take 6 (kr_mac params))
             then (case clients HTTP_CLIENT_MAC_OVERRIDE mac_key of
                     Some d \<Rightarrow> hd_allow d \<noteq> 0
                   | None \<Rightarrow> rest (case clients HTTP_CLIENT_MAC mac_key of Some d \<Rightarrow> d | None \<Rightarrow> best0))
             else rest best0)"

definition route_match_lpm :: "kernel_maps \<Rightarrow> route_params \<Rightarrow> match_set \<Rightarrow> int + predicate_result" where
  "route_match_lpm km params ms =
     (let lookup = (\<lambda>key. case km_lpm km (value_index (ms_value ms)) of None \<Rightarrow> Inl (- EFAULT) | Some lpm \<Rightarrow> Inr (hit_result (lpm key))) in
      case ms_type ms of
        MT_Mac \<Rightarrow> lookup (replicate 10 0 @ kr_mac params)
      | MT_IpSet \<Rightarrow> lookup (kr_daddr params)
      | MT_SourceIpSet \<Rightarrow> lookup (kr_saddr params)
      | _ \<Rightarrow> Inl (- EINVAL))"

definition value_word :: "bytes \<Rightarrow> u32" where
  "value_word b = (case read_le32 b of None \<Rightarrow> 0 | Some w \<Rightarrow> w)"

definition bitmap_bit :: "u32 list \<Rightarrow> nat \<Rightarrow> bool" where
  "bitmap_bit ws i \<longleftrightarrow> drop_bit (i mod 32) (ws ! (i div 32)) AND 1 \<noteq> 0"

definition route_predicate :: "kernel_maps \<Rightarrow> route_params \<Rightarrow> match_set \<Rightarrow> route_ctx \<Rightarrow> route_ctx \<times> (int + predicate_result)" where
  "route_predicate km params ms ctx =
     (case ms_type ms of
        MT_HTTPClient \<Rightarrow>
          (let ctx1 = (if rx_http_client_admission ctx = HTTP_CLIENT_UNCHECKED
                       then ctx\<lparr>rx_http_client_admission := (if http_client_allowed km params then HTTP_CLIENT_ALLOWED else HTTP_CLIENT_DENIED)\<rparr>
                       else ctx)
           in (ctx1, Inr (hit_result (rx_http_client_admission ctx1 = HTTP_CLIENT_ALLOWED))))
      | MT_Mac \<Rightarrow> (ctx, route_match_lpm km params ms)
      | MT_IpSet \<Rightarrow> (ctx, route_match_lpm km params ms)
      | MT_SourceIpSet \<Rightarrow> (ctx, route_match_lpm km params ms)
      | MT_Port \<Rightarrow> (ctx, Inr (hit_result (in_port_range ms (bpf_ntohs (kr_dport params)))))
      | MT_SourcePort \<Rightarrow> (ctx, Inr (hit_result (in_port_range ms (bpf_ntohs (kr_sport params)))))
      | MT_L4Proto \<Rightarrow> (ctx, Inr (hit_result ((ucast (kr_l4proto_type params) :: u32) AND value_word (ms_value ms) \<noteq> 0)))
      | MT_IpVersion \<Rightarrow> (ctx, Inr (hit_result ((ucast (kr_ipversion_type params) :: u32) AND value_word (ms_value ms) \<noteq> 0)))
      | MT_DomainSet \<Rightarrow>
          (let ctx1 = (if rx_domain_loaded ctx then ctx else ctx\<lparr>rx_domain := km_domain km (kr_daddr params), rx_domain_loaded := True\<rparr>);
               domain_id = value_index (ms_value ms)
           in if domain_id \<ge> MaxMatchSetLen then (ctx1, Inl (- EINVAL))
              else (ctx1, Inr (case rx_domain ctx1 of
                                 None \<Rightarrow> PMiss
                               | Some d \<Rightarrow> if bitmap_bit (db_routing d) domain_id then PMatch
                                            else if bitmap_bit (db_bump d) domain_id then PUnknown else PMiss)))
      | MT_ProcessName \<Rightarrow> (ctx, Inr (hit_result (kr_has_pname params \<and> ms_value ms = kr_pname params)))
      | MT_IfIndex \<Rightarrow>
          (let i = value_index (ms_value ms) in (ctx, Inr (hit_result (i \<noteq> 0 \<and> (kr_ifindex params = i \<or> kr_physinif params = i)))))
      | MT_Dscp \<Rightarrow> (ctx, Inr (hit_result (kr_dscp params = ms_value ms ! 0)))
      | MT_Fallback \<Rightarrow> (ctx, Inr PMatch)
      | MT_Other k \<Rightarrow> (ctx, Inl (- EINVAL)))"

section \<open>Actions\<close>

definition route_outbound_alive :: "kernel_maps \<Rightarrow> route_params \<Rightarrow> u8 \<Rightarrow> bool" where
  "route_outbound_alive km params outbound =
     (km_connectivity km outbound (if kr_ipversion_type params AND 1 \<noteq> 0 then 4 else 6) (if kr_l4proto_type params AND 1 \<noteq> 0 then 6 else 17) = Some 0)"

definition route_result_encode :: "u8 \<Rightarrow> nat \<Rightarrow> bool \<Rightarrow> int" where
  "route_result_encode outbound mark must = int (unat outbound) OR push_bit 8 (int mark) OR push_bit 40 (of_bool must)"

definition to_userspace :: "route_state \<Rightarrow> route_step_result \<times> route_state" where
  "to_userspace st = (ROUTE_STOP, st\<lparr>rs_result := route_result_encode OutboundControlPlaneRouting 0 (rs_must st = PMatch)\<rparr>)"

definition route_apply :: "kernel_maps \<Rightarrow> route_params \<Rightarrow> match_set \<Rightarrow> route_state \<Rightarrow> route_step_result \<times> route_state" where
  "route_apply km params ms st =
     (case ms_action ms of
        MA_Must \<Rightarrow> (ROUTE_CONTINUE, if \<not> rs_rule_uncertain st then st\<lparr>rs_must := PMatch\<rparr>
                                     else if rs_must st = PMiss then st\<lparr>rs_must := PUnknown\<rparr> else st)
      | MA_Bump \<Rightarrow> (ROUTE_CONTINUE, st\<lparr>rs_flow_bump := True\<rparr>)
      | MA_Capture \<Rightarrow>
          (let st1 = st\<lparr>rs_capture_flags := rs_capture_flags st OR (drop_bit matchCaptureShift (ms_flags ms) AND 7)\<rparr>
           in if rs_capture_flags st1 AND (captureDestination OR captureHTTPRequest) \<noteq> 0 then to_userspace st1 else (ROUTE_CONTINUE, st1))
      | MA_FlowEnd \<Rightarrow> if rs_flow_bump st \<or> rs_must st = PUnknown then to_userspace st else (ROUTE_CONTINUE, st)
      | MA_Route \<Rightarrow>
          if has_flag ms matchFlagSkipNoalive \<and> \<not> route_outbound_alive km params (ms_outbound ms)
          then (ROUTE_CONTINUE, st\<lparr>rs_skipped_noalive := True\<rparr>)
          else if rs_rule_uncertain st then to_userspace st
          else let must = (rs_must st = PMatch \<or> has_flag ms matchFlagMust);
                   st1 = (if \<not> must \<and> kr_isdns params \<and> \<not> has_flag ms matchFlagBypass
                          then st\<lparr>rs_capture_flags := rs_capture_flags st OR captureDNS\<rparr> else st)
               in (ROUTE_STOP, st1\<lparr>rs_result := route_result_encode (ms_outbound ms) (ms_mark ms) must\<rparr>)
      | _ \<Rightarrow> (ROUTE_STOP, st))"

section \<open>The walk\<close>

text \<open>The common end of a step: the jump is checked against the end of the profile.\<close>

definition route_advance :: "nat \<Rightarrow> nat \<Rightarrow> route_ctx \<Rightarrow> route_state \<Rightarrow> route_step_result \<times> route_ctx \<times> route_state" where
  "route_advance len distance ctx st =
     (if distance = 0 \<or> distance > u32_sub len (rs_position st) then (ROUTE_STOP, ctx, st)
      else (ROUTE_CONTINUE, ctx, st\<lparr>rs_position := u32_add (rs_position st) distance\<rparr>))"

definition route_finish_rule :: "nat \<Rightarrow> nat \<Rightarrow> route_ctx \<Rightarrow> route_state \<Rightarrow> route_step_result \<times> route_ctx \<times> route_state" where
  "route_finish_rule len distance ctx st = route_advance len distance ctx (st\<lparr>rs_rule_uncertain := False\<rparr>)"

definition route_clause :: "kernel_maps \<Rightarrow> route_params \<Rightarrow> nat \<Rightarrow> match_set \<Rightarrow> predicate_result \<Rightarrow> route_ctx \<Rightarrow> route_state \<Rightarrow>
    route_step_result \<times> route_ctx \<times> route_state" where
  "route_clause km params len ms clause0 ctx st0 =
     (let position = rs_position st0; st = st0\<lparr>rs_clause_result := PMiss\<rparr>;
          clause = (if has_flag ms matchFlagNot then pr_neg clause0 else clause0)
      in if clause = PMiss
         then route_finish_rule len (if ms_action ms = MA_And \<or> ms_action ms = MA_ConditionalJump then ms_mark ms else 1) ctx st
         else let st1 = st\<lparr>rs_rule_uncertain := rs_rule_uncertain st \<or> clause = PUnknown\<rparr>
              in if ms_action ms = MA_And then route_advance len 1 ctx st1
                 else if ms_action ms = MA_ConditionalJump
                 then (if ms_mark ms = 0 \<or> ms_mark ms > u32_sub len position then (ROUTE_STOP, ctx, st1)
                       else route_finish_rule len 1 ctx
                              (if rs_rule_uncertain st1 \<and> u32_add position (ms_mark ms) > rs_uncertain_until st1
                               then st1\<lparr>rs_uncertain_until := u32_add position (ms_mark ms)\<rparr> else st1))
                 else (case route_apply km params ms (st1\<lparr>rs_rule_uncertain := rs_rule_uncertain st1 \<or> position < rs_uncertain_until st1\<rparr>) of
                         (ROUTE_STOP, st2) \<Rightarrow> (ROUTE_STOP, ctx, st2)
                       | (ROUTE_CONTINUE, st2) \<Rightarrow> route_finish_rule len 1 ctx st2))"

definition route_step :: "kernel_maps \<Rightarrow> route_params \<Rightarrow> kernel_profile \<Rightarrow> route_ctx \<Rightarrow> route_state \<Rightarrow> route_step_result \<times> route_ctx \<times> route_state" where
  "route_step km params profile ctx st =
     (let position = rs_position st; len = kp_length profile in
      if position \<ge> MaxMatchSetLen \<or> position \<ge> len then (ROUTE_STOP, ctx, st)
      else let k = kp_steps profile ! position in
           if k \<ge> MaxMatchSetLen then (ROUTE_STOP, ctx, st)
           else case km_routing km k of
                  None \<Rightarrow> (ROUTE_STOP, ctx, st)
                | Some ms \<Rightarrow>
                    (case (if rs_clause_result st \<noteq> PMatch then route_predicate km params ms ctx else (ctx, Inr PMatch)) of
                       (ctx1, Inl e) \<Rightarrow> (ROUTE_STOP, ctx1, st)
                     | (ctx1, Inr r) \<Rightarrow>
                         let clause = max (rs_clause_result st) r in
                         if ms_action ms = MA_Or
                         then route_advance len (if clause = PMatch then ms_mark ms else 1) ctx1 (st\<lparr>rs_clause_result := clause\<rparr>)
                         else route_clause km params len ms clause ctx1 st))"

fun route_repeat :: "nat \<Rightarrow> kernel_maps \<Rightarrow> route_params \<Rightarrow> kernel_profile \<Rightarrow> route_ctx \<Rightarrow> route_state \<Rightarrow> route_state" where
  "route_repeat 0 km params profile ctx st = st"
| "route_repeat (Suc n) km params profile ctx st =
     (case route_step km params profile ctx st of
        (ROUTE_STOP, _, st') \<Rightarrow> st'
      | (ROUTE_CONTINUE, ctx', st') \<Rightarrow> route_repeat n km params profile ctx' st')"

definition route_start :: route_state where
  "route_start = \<lparr>rs_result = - EFAULT, rs_position = 0, rs_uncertain_until = 0, rs_clause_result = PMiss, rs_must = PMiss, rs_capture_flags = 0,
     rs_rule_uncertain = False, rs_flow_bump = False, rs_skipped_noalive = False\<rparr>"

definition route_ctx0 :: route_ctx where
  "route_ctx0 = \<lparr>rx_domain = None, rx_domain_loaded = False, rx_http_client_admission = HTTP_CLIENT_UNCHECKED\<rparr>"

definition route_result :: "route_state \<Rightarrow> int" where
  "route_result st =
     (if rs_result st \<ge> 0
      then let r = rs_result st OR push_bit 42 (int (unat (rs_capture_flags st)))
           in if rs_skipped_noalive st then r OR push_bit 41 1 else r
      else - EPERM)"

definition route :: "kernel_maps \<Rightarrow> route_params \<Rightarrow> int" where
  "route km params0 =
     (let params = params0\<lparr>kr_profile_id := (case km_interface km (kr_ifindex params0) of Some i \<Rightarrow> i | None \<Rightarrow> km_default km)\<rparr> in
      case km_profile km (kr_profile_id params) of
        None \<Rightarrow> - EFAULT
      | Some profile \<Rightarrow>
          if kp_length profile = 0 \<or> kp_length profile > MaxMatchSetLen then - EFAULT
          else route_result (route_repeat MaxMatchSetLen km params profile route_ctx0 route_start))"

section \<open>The repeat bound is enough\<close>

lemma route_advance_forward:
  assumes "route_advance len distance ctx st = (ROUTE_CONTINUE, ctx', st')" "rs_position st < len" "len \<le> MaxMatchSetLen"
  shows "rs_position st < rs_position st' \<and> rs_position st' \<le> len"
  using assms by (auto simp: route_advance_def MaxMatchSetLen_def u32_simps split: if_splits)

lemma route_finish_forward:
  assumes "route_finish_rule len distance ctx st = (ROUTE_CONTINUE, ctx', st')" "rs_position st < len" "len \<le> MaxMatchSetLen"
  shows "rs_position st < rs_position st' \<and> rs_position st' \<le> len"
  using route_advance_forward [OF assms(1) [unfolded route_finish_rule_def]] assms(2,3) by simp

lemma route_apply_position: "rs_position (snd (route_apply km params ms st)) = rs_position st"
  by (simp add: route_apply_def to_userspace_def Let_def split: match_action.splits)

lemma route_apply_keeps: "route_apply km params ms st = (r, st') \<Longrightarrow> rs_position st' = rs_position st"
  using route_apply_position [of km params ms st] by simp

lemma route_clause_forward:
  assumes e: "route_clause km params len ms clause0 ctx st = (ROUTE_CONTINUE, ctx', st')" and lt: "rs_position st < len" "len \<le> MaxMatchSetLen"
  shows "rs_position st < rs_position st' \<and> rs_position st' \<le> len"
proof -
  define clause where "clause = (if has_flag ms matchFlagNot then pr_neg clause0 else clause0)"
  define st1 where "st1 = st\<lparr>rs_clause_result := PMiss, rs_rule_uncertain := rs_rule_uncertain st \<or> clause = PUnknown\<rparr>"
  define st2 where "st2 = st1\<lparr>rs_rule_uncertain := rs_rule_uncertain st1 \<or> rs_position st < rs_uncertain_until st1\<rparr>"
  have fin: ?thesis if "route_finish_rule len d ctx st0 = (ROUTE_CONTINUE, ctx', st')" "rs_position st0 = rs_position st" for d st0
    using route_finish_forward [OF that(1)] that(2) lt by simp
  have adv: ?thesis if "route_advance len d ctx st0 = (ROUTE_CONTINUE, ctx', st')" "rs_position st0 = rs_position st" for d st0
    using route_advance_forward [OF that(1)] that(2) lt by simp
  note e' = e [unfolded route_clause_def Let_def, folded clause_def]
  consider "clause = PMiss" | "clause \<noteq> PMiss" "ms_action ms = MA_And" | "clause \<noteq> PMiss" "ms_action ms = MA_ConditionalJump"
    | "clause \<noteq> PMiss" "ms_action ms \<noteq> MA_And" "ms_action ms \<noteq> MA_ConditionalJump" by blast
  then show ?thesis
  proof cases
    case 1
    have "route_finish_rule len (if ms_action ms = MA_And \<or> ms_action ms = MA_ConditionalJump then ms_mark ms else 1) ctx (st\<lparr>rs_clause_result := PMiss\<rparr>) =
        (ROUTE_CONTINUE, ctx', st')" using e' 1 by simp
    then show ?thesis by (rule fin) simp
  next
    case 2
    have "route_advance len 1 ctx st1 = (ROUTE_CONTINUE, ctx', st')" using e' 2 by (simp add: st1_def)
    then show ?thesis by (rule adv) (simp add: st1_def)
  next
    case 3
    define st4 where "st4 = (if rs_rule_uncertain st1 \<and> u32_add (rs_position st) (ms_mark ms) > rs_uncertain_until st1
        then st1\<lparr>rs_uncertain_until := u32_add (rs_position st) (ms_mark ms)\<rparr> else st1)"
    have "route_finish_rule len 1 ctx st4 = (ROUTE_CONTINUE, ctx', st')" using e' 3 by (auto simp: st1_def st4_def split: if_splits)
    then show ?thesis by (rule fin) (simp add: st1_def st4_def)
  next
    case 4
    obtain r st3 where a: "route_apply km params ms st2 = (r, st3)" by fastforce
    then have p: "rs_position st3 = rs_position st" using route_apply_keeps by (fastforce simp: st2_def st1_def)
    show ?thesis by (rule fin [OF _ p]) (use e' 4 a in \<open>cases r; simp add: st2_def st1_def\<close>)
  qed
qed

lemma route_step_forward:
  assumes "route_step km params profile ctx st = (ROUTE_CONTINUE, ctx', st')" "kp_length profile \<le> MaxMatchSetLen"
  shows "rs_position st < rs_position st' \<and> rs_position st' \<le> kp_length profile"
proof -
  have lt: "rs_position st < kp_length profile" using assms(1) by (auto simp: route_step_def Let_def split: if_splits)
  have adv: ?thesis if "route_advance (kp_length profile) d ctx1 (st\<lparr>rs_clause_result := c\<rparr>) = (ROUTE_CONTINUE, ctx', st')" for d ctx1 c
    using route_advance_forward [OF that] lt assms(2) by simp
  have cla: ?thesis if "route_clause km params (kp_length profile) ms c ctx1 st = (ROUTE_CONTINUE, ctx', st')" for ms c ctx1
    using route_clause_forward [OF that lt assms(2)] .
  obtain ms where ms: "km_routing km (kp_steps profile ! rs_position st) = Some ms"
    using assms(1) by (auto simp: route_step_def Let_def split: if_splits option.splits)
  obtain ctx1 r where p: "(if rs_clause_result st \<noteq> PMatch then route_predicate km params ms ctx else (ctx, Inr PMatch)) = (ctx1, Inr r)"
    using assms(1) ms by (auto simp: route_step_def Let_def split: if_splits prod.splits sum.splits)
  have k: "rs_position st < MaxMatchSetLen" "kp_steps profile ! rs_position st < MaxMatchSetLen"
    using assms(1) by (auto simp: route_step_def Let_def split: if_splits)
  have s: "(if ms_action ms = MA_Or
        then route_advance (kp_length profile) (if max (rs_clause_result st) r = PMatch then ms_mark ms else 1) ctx1 (st\<lparr>rs_clause_result := max (rs_clause_result st) r\<rparr>)
        else route_clause km params (kp_length profile) ms (max (rs_clause_result st) r) ctx1 st) = (ROUTE_CONTINUE, ctx', st')"
    using assms(1) unfolding route_step_def Let_def using lt k by (simp only: ms option.case p prod.case sum.case not_le [symmetric] simp_thms if_False)
  show ?thesis
  proof (cases "ms_action ms = MA_Or")
    case True
    show ?thesis by (rule adv [OF s [unfolded if_P [OF True]]])
  next
    case False
    show ?thesis by (rule cla [OF s [unfolded if_not_P [OF False]]])
  qed
qed

lemma route_step_end: "rs_position st \<ge> kp_length profile \<Longrightarrow> route_step km params profile ctx st = (ROUTE_STOP, ctx, st)"
  by (simp add: route_step_def Let_def)

lemma route_repeat_enough:
  assumes "kp_length profile \<le> MaxMatchSetLen"
  shows "kp_length profile - rs_position st \<le> n \<Longrightarrow> route_repeat (n + k) km params profile ctx st = route_repeat n km params profile ctx st"
proof (induction n arbitrary: ctx st)
  case 0
  then show ?case by (cases k) (simp_all add: route_step_end)
next
  case (Suc n)
  obtain r ctx' st' where e: "route_step km params profile ctx st = (r, ctx', st')" by (cases "route_step km params profile ctx st")
  show ?case
  proof (cases r)
    case ROUTE_CONTINUE
    then have "kp_length profile - rs_position st' \<le> n" using route_step_forward [of km params profile ctx st ctx' st'] e assms Suc.prems by auto
    then show ?thesis using Suc.IH e ROUTE_CONTINUE by simp
  qed (simp add: e)
qed

section \<open>The packed decision\<close>

lemma encode_fields:
  assumes "mark < 2 ^ 32"
  shows "0 \<le> route_result_encode outbound mark must" "take_bit 8 (route_result_encode outbound mark must) = int (unat outbound)"
    "take_bit 32 (drop_bit 8 (route_result_encode outbound mark must)) = int mark" "bit (route_result_encode outbound mark must) 40 = must"
proof -
  have o: "\<not> bit (int (unat outbound)) n" if "8 \<le> n" for n
    using that unfolding uint_nat [symmetric] by (simp add: bit_uint_iff)
  have t: "take_bit 32 (int mark) = int mark" using assms by (simp add: take_bit_int_eq_self)
  have m: "\<not> bit (int mark) n" if "32 \<le> n" for n
    using bit_take_bit_iff [of 32 "int mark" n] that unfolding t by simp
  have o': "bit (uint outbound) n \<Longrightarrow> n < 8" for n using bit_uint_iff [of outbound n] by simp
  have m': "bit (int mark) n \<Longrightarrow> n < 32" for n using m [of n] by (cases "n < 32") simp_all
  show "0 \<le> route_result_encode outbound mark must" by (simp add: route_result_encode_def)
  show "take_bit 8 (route_result_encode outbound mark must) = int (unat outbound)"
    by (rule bit_eqI) (use o in \<open>auto simp: route_result_encode_def bit_take_bit_iff bit_or_iff bit_push_bit_iff\<close>)
  show "take_bit 32 (drop_bit 8 (route_result_encode outbound mark must)) = int mark"
    by (rule bit_eqI) (use o in \<open>auto simp: route_result_encode_def bit_take_bit_iff bit_drop_bit_eq bit_or_iff bit_push_bit_iff dest: o' m'\<close>)
  show "bit (route_result_encode outbound mark must) 40 = must"
    using o [of 40] m [of 32] by (auto simp: route_result_encode_def bit_or_iff bit_push_bit_iff)
qed

text \<open>
  Claim C32: the fixed number of iterations of the kernel walk is enough for every profile it accepts: every step moves
  strictly forward inside the profile, so more iterations never change the decision.
\<close>

theorem kernel_walk_complete:
  assumes "kp_length profile \<le> MaxMatchSetLen"
  shows "route_repeat (MaxMatchSetLen + k) km params profile route_ctx0 route_start = route_repeat MaxMatchSetLen km params profile route_ctx0 route_start"
  by (rule route_repeat_enough [OF assms]) (use assms in \<open>simp add: route_start_def\<close>)

theorem kernel_walk_complete_witness:
  "kp_length \<lparr>kp_length = 2, kp_steps = [0, 1]\<rparr> \<le> MaxMatchSetLen \<and>
   (\<forall>km params. route_repeat (MaxMatchSetLen + 1) km params \<lparr>kp_length = 2, kp_steps = [0, 1]\<rparr> route_ctx0 route_start =
      route_repeat MaxMatchSetLen km params \<lparr>kp_length = 2, kp_steps = [0, 1]\<rparr> route_ctx0 route_start)"
proof -
  have "kp_length \<lparr>kp_length = 2, kp_steps = [0, 1]\<rparr> \<le> MaxMatchSetLen" by (simp add: MaxMatchSetLen_def)
  then show ?thesis using kernel_walk_complete by blast
qed

text \<open>
  Claim C33: the decision that the kernel packs into one number can be read back: the outbound, a 32-bit mark and the
  must bit come out of disjoint bits, and the number is never negative, so it is not taken for an error.
\<close>

theorem route_result_roundtrip:
  assumes "mark < 2 ^ 32"
  shows "0 \<le> route_result_encode outbound mark must \<and> take_bit 8 (route_result_encode outbound mark must) = int (unat outbound) \<and>
    take_bit 32 (drop_bit 8 (route_result_encode outbound mark must)) = int mark \<and> bit (route_result_encode outbound mark must) 40 = must"
  using encode_fields [OF assms] by blast

theorem route_result_roundtrip_witness:
  "take_bit 32 (drop_bit 8 (route_result_encode 7 4294967295 True)) = int 4294967295"
  using route_result_roundtrip [of 4294967295 7 True] by simp

end
