(* ===== verification/Kernel_Agree.thy ===== *)
theory Kernel_Agree
  imports Kernel_Route Compile_Total
begin

text \<open>
  The kernel and the userspace interpreter run the same instructions. This theory models how profiles and
  instructions are uploaded (\<^verbatim>\<open>control/routing_matcher_kernspace.go\<close>), says when kernel maps and packet fields describe
  the input of the userspace interpreter, and proves that both then take the same decision.
\<close>

section \<open>Upload\<close>

definition put_step :: "nat \<Rightarrow> kernel_profile option \<Rightarrow> kernel_profile option" where
  "put_step i v =
     (case v of
        None \<Rightarrow> None
      | Some p \<Rightarrow>
          if kp_length p \<ge> length (kp_steps p) then None
          else Some (p\<lparr>kp_steps := (kp_steps p)[kp_length p := i mod 65536], kp_length := Suc (kp_length p)\<rparr>))"

definition encode_span :: "routing_span \<Rightarrow> kernel_profile option \<Rightarrow> kernel_profile option" where
  "encode_span s v = fold put_step [sp_start s..<sp_end s] v"

text \<open>One value of \<^verbatim>\<open>encodeRoutingProfiles\<close>; writing past the array of steps is the panic \<^const>\<open>None\<close>.\<close>

definition encodeRoutingProfile :: "routing_span list \<Rightarrow> kernel_profile option" where
  "encodeRoutingProfile spans = fold encode_span spans (Some \<lparr>kp_length = 0, kp_steps = replicate MaxMatchSetLen 0\<rparr>)"

definition encodeRoutingProfiles :: "routing_profile list \<Rightarrow> (nat \<times> kernel_profile option) list" where
  "encodeRoutingProfiles ps = map (\<lambda>p. (pf_ID p, encodeRoutingProfile (pf_Spans p))) ps"

text \<open>The pool after \<^verbatim>\<open>uploadRoutingPool\<close>: an array map whose other slots are zero.\<close>

definition uploadRoutingPool :: "match_set list \<Rightarrow> nat \<Rightarrow> nat \<Rightarrow> match_set option" where
  "uploadRoutingPool matches end' k =
     (if k \<ge> MaxMatchSetLen then None
      else if k < end' then Some (matches ! k)
      else Some (match_set0 MT_DomainSet))"

text \<open>
  A key of an LPM map. Its words are kept as the sixteen bytes they hold in memory, which is what the kernel compares
  bit by bit.
\<close>

record bpfLpmKey =
  lk_PrefixLen :: nat
  lk_Data :: bytes

definition cidrToBpfLpmKey :: "ip_prefix \<Rightarrow> bpfLpmKey" where
  "cidrToBpfLpmKey p =
     \<lparr>lk_PrefixLen = nat ((if addr_Is4 (pfx_addr p) then pfx_bits p + 96 else pfx_bits p) mod 4294967296),
      lk_Data = addr_As16 (pfx_addr p)\<rparr>"

definition newLpmMap :: "ip_prefix list \<Rightarrow> bpfLpmKey list" where
  "newLpmMap cidrs = map cidrToBpfLpmKey cidrs"

text \<open>
  The documented behaviour of a BPF LPM trie: a lookup finds an entry exactly when some stored key agrees with the
  address on the bits of its prefix.
\<close>

definition lpm_finds :: "bpfLpmKey list \<Rightarrow> bytes \<Rightarrow> bool" where
  "lpm_finds ks a = list_ex (\<lambda>k. list_all (\<lambda>i. net_bit (lk_Data k) i = net_bit a i) [0..<lk_PrefixLen k]) ks"

lemma lpm_finds_covers:
  assumes "\<forall>p \<in> set cidrs. pfx_ok p"
  shows "lpm_finds (newLpmMap cidrs) a \<longleftrightarrow> (\<exists>p \<in> set cidrs. covers p a)"
proof -
  have "lk_PrefixLen (cidrToBpfLpmKey p) = pfx_len p" if "p \<in> set cidrs" for p
  proof -
    define n where "n = (if addr_Is4 (pfx_addr p) then pfx_bits p + 96 else pfx_bits p)"
    have "pfx_ok p" using assms that by blast
    then have "0 \<le> n" "nat n \<le> 128" "pfx_len p = nat n" using pfx_len_le [of p] by (auto simp: pfx_ok_def pfx_len_def n_def)
    then have "nat (n mod 4294967296) = pfx_len p" by simp
    then show ?thesis by (simp add: cidrToBpfLpmKey_def n_def)
  qed
  then have "list_all (\<lambda>i. net_bit (lk_Data (cidrToBpfLpmKey p)) i = net_bit a i) [0..<lk_PrefixLen (cidrToBpfLpmKey p)] = covers p a"
    if "p \<in> set cidrs" for p
    using that by (auto simp: list_all_iff covers_def cidrToBpfLpmKey_def)
  then show ?thesis by (simp add: lpm_finds_def newLpmMap_def list_ex_iff)
qed

lemma put_steps:
  assumes "kp_length v + length is \<le> length (kp_steps v)" "\<forall>i \<in> set is. i < 65536"
  shows "\<exists>v'. fold put_step is (Some v) = Some v' \<and> kp_length v' = kp_length v + length is \<and> length (kp_steps v') = length (kp_steps v) \<and>
    take (kp_length v') (kp_steps v') = take (kp_length v) (kp_steps v) @ is"
  using assms
proof (induction "is" arbitrary: v)
  case (Cons i "is")
  define v1 where "v1 = v\<lparr>kp_steps := (kp_steps v)[kp_length v := i], kp_length := Suc (kp_length v)\<rparr>"
  have "put_step i (Some v) = Some v1" using Cons.prems by (simp add: put_step_def v1_def)
  moreover have "take (kp_length v1) (kp_steps v1) = take (kp_length v) (kp_steps v) @ [i]"
    using Cons.prems by (simp add: v1_def take_Suc_conv_app_nth)
  moreover have "kp_length v1 + length is \<le> length (kp_steps v1)" using Cons.prems by (simp add: v1_def)
  ultimately show ?case using Cons.IH [of v1] Cons.prems by (auto simp: v1_def)
qed simp

definition step_list :: "routing_span list \<Rightarrow> nat list" where
  "step_list spans = concat (map (\<lambda>s. [sp_start s..<sp_end s]) spans)"

lemma encode_spans:
  assumes "kp_length v + length (step_list spans) \<le> length (kp_steps v)" "\<forall>i \<in> set (step_list spans). i < 65536"
  shows "\<exists>v'. fold encode_span spans (Some v) = Some v' \<and> kp_length v' = kp_length v + length (step_list spans) \<and> length (kp_steps v') = length (kp_steps v) \<and>
    take (kp_length v') (kp_steps v') = take (kp_length v) (kp_steps v) @ step_list spans"
  using assms
proof (induction spans arbitrary: v)
  case (Cons s spans)
  have c: "step_list (s # spans) = [sp_start s..<sp_end s] @ step_list spans" by (simp add: step_list_def)
  obtain v1 where v1: "fold put_step [sp_start s..<sp_end s] (Some v) = Some v1" "kp_length v1 = kp_length v + (sp_end s - sp_start s)"
    "length (kp_steps v1) = length (kp_steps v)" "take (kp_length v1) (kp_steps v1) = take (kp_length v) (kp_steps v) @ [sp_start s..<sp_end s]"
    using put_steps [of v "[sp_start s..<sp_end s]"] Cons.prems unfolding c by auto
  then show ?case using Cons.IH [of v1] Cons.prems unfolding c by (auto simp: encode_span_def)
qed (simp add: step_list_def)

lemma step_list_flat: "step_list spans = map snd (flat spans)"
proof -
  have "map (\<lambda>s. [sp_start s..<sp_end s]) spans = map (\<lambda>k. [sp_start (spans ! k)..<sp_end (spans ! k)]) [0..<length spans]"
    by (rule nth_equalityI) simp_all
  then show ?thesis by (simp add: step_list_def flat_def seq_from_def span_seq_def map_concat comp_def)
qed

lemma encode_profile:
  assumes "length (flat spans) \<le> MaxMatchSetLen" "\<forall>(k, i) \<in> set (flat spans). i < MaxMatchSetLen"
  shows "\<exists>v. encodeRoutingProfile spans = Some v \<and> kp_length v = length (flat spans) \<and>
    (\<forall>n < length (flat spans). kp_steps v ! n = snd (flat spans ! n))"
proof -
  have "\<forall>i \<in> set (step_list spans). i < 65536" using assms(2) by (fastforce simp: step_list_flat MaxMatchSetLen_def)
  then obtain v where v: "encodeRoutingProfile spans = Some v" "kp_length v = length (flat spans)" "take (kp_length v) (kp_steps v) = map snd (flat spans)"
    using encode_spans [of "\<lparr>kp_length = 0, kp_steps = replicate MaxMatchSetLen 0\<rparr>" spans] assms(1)
    by (auto simp: encodeRoutingProfile_def step_list_flat)
  have "kp_steps v ! n = snd (flat spans ! n)" if "n < length (flat spans)" for n
    using arg_cong [OF v(3), of "\<lambda>xs. xs ! n"] that v(2) by simp
  then show ?thesis using v by blast
qed

section \<open>Agreement of maps and packet\<close>

definition kernel_key :: "route_params \<Rightarrow> match_type \<Rightarrow> bytes" where
  "kernel_key params kind = (case kind of MT_Mac \<Rightarrow> replicate 10 0 @ kr_mac params | MT_IpSet \<Rightarrow> kr_daddr params | _ \<Rightarrow> kr_saddr params)"

definition lpm_agrees :: "kernel_maps \<Rightarrow> route_params \<Rightarrow> routing_matcher \<Rightarrow> routing_input \<Rightarrow> bool" where
  "lpm_agrees km params m p \<longleftrightarrow> (\<forall>i lpm kind. kind \<in> {MT_Mac, MT_IpSet, MT_SourceIpSet} \<longrightarrow> km_lpm km i = Some lpm \<longrightarrow>
     i < length (rm_lpmMatcher m) \<and> HasPrefixIP (rm_lpmMatcher m ! i) (lpmKey p kind) = Some (lpm (kernel_key params kind)))"

definition domain_agrees :: "kernel_maps \<Rightarrow> route_params \<Rightarrow> routing_input \<Rightarrow> bool" where
  "domain_agrees km params p \<longleftrightarrow>
     (case km_domain km (kr_daddr params) of
        None \<Rightarrow> ri_domainBitmap p = None \<and> ri_domainBumpBitmap p = None \<and> ri_domain p = []
      | Some d \<Rightarrow> ri_domainBitmap p = Some (db_routing d) \<and> ri_domainBumpBitmap p = Some (db_bump d) \<and>
          length (db_routing d) = 32 \<and> length (db_bump d) = 32)"

definition fields_agree :: "route_params \<Rightarrow> routing_input \<Rightarrow> bool" where
  "fields_agree params p \<longleftrightarrow> kr_saddr params = addr_As16 (ap_addr (ri_src p)) \<and> kr_daddr params = addr_As16 (ap_addr (ri_dst p)) \<and>
     kr_mac params = ri_mac p \<and> length (ri_mac p) = 6 \<and> bpf_ntohs (kr_dport params) = ap_port (ri_dst p) \<and> bpf_ntohs (kr_sport params) = ap_port (ri_src p) \<and>
     kr_l4proto_type params = ri_l4proto p \<and> kr_ipversion_type params = IpVersionFromAddr (ap_addr (ri_dst p)) \<and> kr_dscp params = ri_dscp p \<and>
     kr_ifindex params = ri_ifindex p \<and> kr_physinif params = ri_physinif p \<and> kr_pname params = ri_processName p \<and>
     kr_has_pname params = (ri_processName p ! 0 \<noteq> 0) \<and> kr_isdns params = (ap_port (ri_dst p) = 53)"

definition packet_agrees :: "kernel_maps \<Rightarrow> route_params \<Rightarrow> routing_matcher \<Rightarrow> routing_input \<Rightarrow> bool" where
  "packet_agrees km params m p \<longleftrightarrow> fields_agree params p \<and> domain_agrees km params p \<and>
     http_client_allowed km params = (case rm_httpClientAllowed m of None \<Rightarrow> True | Some f \<Rightarrow> f (ap_addr (ri_src p)) (ri_mac p)) \<and>
     (\<forall>ob. route_outbound_alive km params ob = (case rm_outboundUsable m of None \<Rightarrow> True | Some f \<Rightarrow> f ob (ri_l4proto p) (IpVersionFromAddr (ap_addr (ri_dst p)))))"

definition kernel_agrees :: "kernel_maps \<Rightarrow> route_params \<Rightarrow> routing_matcher \<Rightarrow> routing_input \<Rightarrow> bool" where
  "kernel_agrees km params m p \<longleftrightarrow> packet_agrees km params m p \<and> lpm_agrees km params m p"

text \<open>Every LPM map of the kernel holds the keys of a list of prefixes whose trie the userspace matcher has at the same index.\<close>

definition lpm_uploaded :: "kernel_maps \<Rightarrow> routing_matcher \<Rightarrow> ip_prefix list list \<Rightarrow> bool" where
  "lpm_uploaded km m cidrs \<longleftrightarrow> (\<forall>i lpm. km_lpm km i = Some lpm \<longrightarrow>
     i < length cidrs \<and> i < length (rm_lpmMatcher m) \<and> list_all pfx_ok (cidrs ! i) \<and> length (cidrs ! i) < 2 ^ 22 \<and>
     NewTrieFromPrefixes (cidrs ! i) = Inr (rm_lpmMatcher m ! i) \<and> (\<forall>key. length key = 16 \<longrightarrow> lpm key = lpm_finds (newLpmMap (cidrs ! i)) key))"

lemma lpm_key_same: "fields_agree params p \<Longrightarrow> kind \<in> {MT_Mac, MT_IpSet, MT_SourceIpSet} \<Longrightarrow> lpmKey p kind = kernel_key params kind"
  by (auto simp: fields_agree_def lpmKey_def kernel_key_def addr_From16_def be128_word_of_bytes)

lemma uploaded_lpm_agrees:
  assumes f: "fields_agree params p" and u: "lpm_uploaded km m cidrs"
  shows "lpm_agrees km params m p"
  unfolding lpm_agrees_def
proof (intro allI impI)
  fix i lpm kind assume kind: "kind \<in> {MT_Mac, MT_IpSet, MT_SourceIpSet}" and i: "km_lpm km i = Some lpm"
  have c: "\<forall>p \<in> set (cidrs ! i). pfx_ok p" "length (cidrs ! i) < 2 ^ 22" "NewTrieFromPrefixes (cidrs ! i) = Inr (rm_lpmMatcher m ! i)"
    "i < length (rm_lpmMatcher m)" "\<forall>key. length key = 16 \<longrightarrow> lpm key = lpm_finds (newLpmMap (cidrs ! i)) key"
    using u i by (auto simp: lpm_uploaded_def list_all_iff)
  have key: "length (kernel_key params kind) = 16" unfolding lpm_key_same [OF f kind, symmetric] by (simp add: lpmKey_def)
  then have "HasPrefixIP (rm_lpmMatcher m ! i) (kernel_key params kind) = Some (\<exists>p \<in> set (cidrs ! i). covers p (kernel_key params kind))"
    using trie_of_prefixes [OF c(1,2)] c(3) by auto
  then show "i < length (rm_lpmMatcher m) \<and> HasPrefixIP (rm_lpmMatcher m ! i) (lpmKey p kind) = Some (lpm (kernel_key params kind))"
    using c(4,5) key by (simp add: lpm_key_same [OF f kind] lpm_finds_covers [OF c(1)])
qed

text \<open>What the kernel relies on in an uploaded instruction: a value of 16 bytes, a mark of 32 bits, no action of the
  destination predicates, a domain set in range and an uploaded prefix set. It is a hypothesis on the pool here.\<close>

definition kernel_instr :: "kernel_maps \<Rightarrow> match_set \<Rightarrow> bool" where
  "kernel_instr km ms \<longleftrightarrow> length (ms_value ms) = 16 \<and> ms_mark ms < u32_mod \<and> ms_action ms \<noteq> MA_Match \<and> ms_action ms \<noteq> MA_Miss \<and>
     (ms_type ms = MT_DomainSet \<longrightarrow> value_index (ms_value ms) < MaxMatchSetLen) \<and>
     (ms_type ms \<in> {MT_Mac, MT_IpSet, MT_SourceIpSet} \<longrightarrow> km_lpm km (value_index (ms_value ms)) \<noteq> None)"

section \<open>Predicates\<close>

definition ctx_rel :: "kernel_maps \<Rightarrow> route_params \<Rightarrow> routing_matcher \<Rightarrow> routing_input \<Rightarrow> route_ctx \<Rightarrow> routing_predicates \<Rightarrow> bool" where
  "ctx_rel km params m p ctx rp \<longleftrightarrow> rp_input rp = p \<and> rp_ipVersion rp = IpVersionFromAddr (ap_addr (ri_dst p)) \<and>
     (rx_domain_loaded ctx \<longrightarrow> rx_domain ctx = km_domain km (kr_daddr params)) \<and>
     (rx_http_client_admission ctx = HTTP_CLIENT_UNCHECKED \<longleftrightarrow> \<not> rp_httpClientChecked rp) \<and>
     (rp_httpClientChecked rp \<longrightarrow> (rx_http_client_admission ctx = HTTP_CLIENT_ALLOWED \<longleftrightarrow> rp_httpClientAllowed rp))"

lemma value_word_low:
  assumes "length b = 16"
  shows "(ucast (w :: u8) :: u32) AND value_word b \<noteq> 0 \<longleftrightarrow> w AND b ! 0 \<noteq> 0"
proof -
  obtain x b1 b2 b3 rest where b: "b = x # b1 # b2 # b3 # rest" using assms by (auto simp: numeral_eq_Suc length_Suc_conv)
  have "(ucast w :: u32) AND value_word b = ucast (w AND x)"
    unfolding b value_word_def by (rule bit_word_eqI) (auto simp: bit_simps dest: bit_imp_le_length [of w])
  moreover have "(ucast (w AND x) :: u32) = 0 \<longleftrightarrow> w AND x = 0"
    unfolding bit_eq_iff using bit_imp_le_length [of w] by (fastforce simp: bit_simps)
  ultimately show ?thesis by (simp add: b)
qed

lemma bitmap_bit_has: "length ws = 32 \<Longrightarrow> i < MaxMatchSetLen \<Longrightarrow> bitmap_bit ws i = bitmap_has (Some ws) i"
proof -
  have "drop_bit n w AND 1 \<noteq> 0 \<longleftrightarrow> bit w n" for n and w :: u32
    by (simp add: bit_iff_and_drop_bit_eq_1 and_one_eq odd_iff_mod_2_eq_one)
  moreover have "i < MaxMatchSetLen \<Longrightarrow> i div 32 < 32" by (simp add: MaxMatchSetLen_def div_less_iff_less_mult)
  ultimately show "length ws = 32 \<Longrightarrow> i < MaxMatchSetLen \<Longrightarrow> ?thesis" by (simp add: bitmap_bit_def bitmap_has_def)
qed

lemma lpm_predicate_agrees:
  assumes a: "lpm_agrees km params m p" and k: "kernel_instr km ms" and t: "ms_type ms \<in> {MT_Mac, MT_IpSet, MT_SourceIpSet}" and rp: "rp_input rp = p"
  shows "case snd (pred_match m rp ms) of Inl _ \<Rightarrow> \<exists>x. route_match_lpm km params ms = Inl x | Inr v \<Rightarrow> route_match_lpm km params ms = Inr v"
    and "fst (pred_match m rp ms) = rp"
proof -
  define i where "i = value_index (ms_value ms)"
  have r: "route_match_lpm km params ms = (case km_lpm km i of None \<Rightarrow> Inl (- EFAULT) | Some lpm \<Rightarrow> Inr (hit_result (lpm (kernel_key params (ms_type ms)))))"
    using t by (auto simp: route_match_lpm_def kernel_key_def i_def split: option.splits)
  have u: "pred_match m rp ms = (if i < length (rm_lpmMatcher m)
      then (case HasPrefixIP (rm_lpmMatcher m ! i) (lpmKey p (ms_type ms)) of None \<Rightarrow> (rp, Inl RoutingPanic) | Some hit \<Rightarrow> (rp, Inr (hit_result hit)))
      else (rp, Inl RoutingPanic))"
    using t rp by (auto simp: pred_match_def i_def Let_def)
  obtain lpm where "km_lpm km i = Some lpm" using k t by (auto simp: kernel_instr_def i_def)
  moreover from this have "i < length (rm_lpmMatcher m)" "HasPrefixIP (rm_lpmMatcher m ! i) (lpmKey p (ms_type ms)) = Some (lpm (kernel_key params (ms_type ms)))"
    using a t unfolding lpm_agrees_def by blast+
  ultimately show "case snd (pred_match m rp ms) of Inl _ \<Rightarrow> \<exists>x. route_match_lpm km params ms = Inl x | Inr v \<Rightarrow> route_match_lpm km params ms = Inr v"
    "fst (pred_match m rp ms) = rp"
    unfolding r u by (auto split: if_splits)
qed

lemma predicate_agrees:
  assumes a: "kernel_agrees km params m p" and k: "kernel_instr km ms" and r: "ctx_rel km params m p ctx rp"
  shows "ctx_rel km params m p (fst (route_predicate km params ms ctx)) (fst (pred_match m rp ms)) \<and>
    (case snd (pred_match m rp ms) of Inl _ \<Rightarrow> \<exists>x. snd (route_predicate km params ms ctx) = Inl x | Inr v \<Rightarrow> snd (route_predicate km params ms ctx) = Inr v)"
proof -
  have f: "fields_agree params p" "lpm_agrees km params m p" "domain_agrees km params p" using a by (simp_all add: kernel_agrees_def packet_agrees_def)
  have rp: "rp_input rp = p" using r by (simp add: ctx_rel_def)
  note defs = route_predicate_def pred_match_def Let_def
  consider (lpm) "ms_type ms \<in> {MT_Mac, MT_IpSet, MT_SourceIpSet}" | (http) "ms_type ms = MT_HTTPClient" | (domain) "ms_type ms = MT_DomainSet"
    | (other) "ms_type ms \<notin> {MT_Mac, MT_IpSet, MT_SourceIpSet, MT_HTTPClient, MT_DomainSet}" by blast
  then show ?thesis
  proof cases
    case lpm
    then have "route_predicate km params ms ctx = (ctx, route_match_lpm km params ms)" by (auto simp: route_predicate_def)
    then show ?thesis using lpm_predicate_agrees [OF f(2) k lpm rp] r by (simp split: sum.splits)
  next
    case http
    then show ?thesis using r a by (auto simp: defs ctx_rel_def kernel_agrees_def packet_agrees_def split: option.splits)
  next
    case domain
    define i where "i = value_index (ms_value ms)"
    have i: "i < MaxMatchSetLen" using domain k by (simp add: kernel_instr_def i_def)
    define ctx1 where "ctx1 = (if rx_domain_loaded ctx then ctx else ctx\<lparr>rx_domain := km_domain km (kr_daddr params), rx_domain_loaded := True\<rparr>)"
    define rp1 where "rp1 = (if rp_domainLoaded rp then rp
        else rp\<lparr>rp_input := (if ri_domainBitmap p = None \<and> ri_domain p \<noteq> [] then p\<lparr>ri_domainBitmap := Some (rm_domainMatcher m (ri_domain p))\<rparr> else p), rp_domainLoaded := True\<rparr>)"
    have id: "(if ri_domainBitmap p = None \<and> ri_domain p \<noteq> [] then p\<lparr>ri_domainBitmap := Some (rm_domainMatcher m (ri_domain p))\<rparr> else p) = p"
      using f(3) by (auto simp: domain_agrees_def split: option.splits)
    have c: "rx_domain ctx1 = km_domain km (kr_daddr params)" "rp_input rp1 = p" "ctx_rel km params m p ctx1 rp1"
      using r unfolding ctx1_def rp1_def id by (simp_all add: ctx_rel_def)
    have "route_predicate km params ms ctx = (ctx1, Inr (case rx_domain ctx1 of None \<Rightarrow> PMiss
        | Some d \<Rightarrow> if bitmap_bit (db_routing d) i then PMatch else if bitmap_bit (db_bump d) i then PUnknown else PMiss))"
      using domain i by (simp add: route_predicate_def Let_def ctx1_def [symmetric] i_def [symmetric])
    moreover have "pred_match m rp ms = (rp1, Inr (if bitmap_has (ri_domainBitmap p) i then PMatch else if bitmap_has (ri_domainBumpBitmap p) i then PUnknown else PMiss))"
      using domain c(2) by (simp add: pred_match_def Let_def rp rp1_def [symmetric] i_def [symmetric])
    moreover have "(case rx_domain ctx1 of None \<Rightarrow> PMiss
        | Some d \<Rightarrow> if bitmap_bit (db_routing d) i then PMatch else if bitmap_bit (db_bump d) i then PUnknown else PMiss) =
        (if bitmap_has (ri_domainBitmap p) i then PMatch else if bitmap_has (ri_domainBumpBitmap p) i then PUnknown else PMiss)"
    proof (cases "km_domain km (kr_daddr params)")
      case None
      then show ?thesis using f(3) c(1) by (simp add: domain_agrees_def bitmap_has_def)
    next
      case (Some d)
      then show ?thesis using f(3) c(1) bitmap_bit_has [OF _ i] by (simp add: domain_agrees_def)
    qed
    ultimately show ?thesis using c(3) by simp
  next
    case other
    have kv: "length (ms_value ms) = 16" using k by (simp add: kernel_instr_def)
    have fs: "bpf_ntohs (kr_dport params) = ap_port (ri_dst p)" "bpf_ntohs (kr_sport params) = ap_port (ri_src p)" "kr_l4proto_type params = ri_l4proto p"
      "kr_ipversion_type params = IpVersionFromAddr (ap_addr (ri_dst p))" "kr_dscp params = ri_dscp p" "kr_ifindex params = ri_ifindex p"
      "kr_physinif params = ri_physinif p" "kr_pname params = ri_processName p" "kr_has_pname params = (ri_processName p ! 0 \<noteq> 0)"
      using f(1) unfolding fields_agree_def by blast+
    have w: "(ucast w :: u32) AND value_word (ms_value ms) \<noteq> 0 \<longleftrightarrow> w AND ms_value ms ! 0 \<noteq> 0" for w :: u8 using kv by (rule value_word_low)
    have v: "rp_ipVersion rp = IpVersionFromAddr (ap_addr (ri_dst p))" using r by (simp add: ctx_rel_def)
    show ?thesis
    proof (cases "ms_type ms")
      case MT_L4Proto
      then show ?thesis using r rp by (simp add: defs fs w)
    next
      case MT_IpVersion
      then show ?thesis using r rp by (simp add: defs fs w v)
    qed (use other r rp in \<open>simp_all add: defs fs\<close>)
  qed
qed

section \<open>Steps\<close>

definition state_rel :: "route_state \<Rightarrow> eval_state \<Rightarrow> bool" where
  "state_rel ks us \<longleftrightarrow> rs_result ks < 0 \<and> rs_clause_result ks = ev_subrule us \<and> rs_must ks = ev_must us \<and> rs_rule_uncertain ks = ev_ruleUnknown us \<and>
     rs_flow_bump ks = ev_flowBump us \<and> rs_uncertain_until ks = ev_uncertainUntil us \<and> rs_capture_flags ks = ev_captureFlags us"

text \<open>
  The decision in the state of the kernel is that of userspace. The simulation of the kernel does not report the
  must bit of a packet that is captured for its destination or its request.
\<close>

definition decision_rel :: "route_state \<Rightarrow> routing_error + routing_evaluation \<Rightarrow> bool" where
  "decision_rel ks r =
     (case r of
        Inl _ \<Rightarrow> rs_result ks < 0
      | Inr d \<Rightarrow> \<exists>must. rs_result ks = route_result_encode (re_outbound d) (re_mark d) must \<and> rs_capture_flags ks = re_captureFlags d \<and>
          re_mark d < u32_mod \<and> (must = re_must d \<or> re_captureFlags d AND (captureDestination OR captureHTTPRequest) \<noteq> 0 \<and> re_outbound d = OutboundControlPlaneRouting))"

text \<open>A step of one interpreter against a step of the other, at the same position.\<close>

definition step_rel :: "kernel_maps \<Rightarrow> route_params \<Rightarrow> routing_matcher \<Rightarrow> routing_input \<Rightarrow> nat \<Rightarrow> nat \<Rightarrow>
    route_step_result \<times> route_ctx \<times> route_state \<Rightarrow> step_outcome \<Rightarrow> bool" where
  "step_rel km params m p len n ks us =
     (case us of
        Return r us' \<Rightarrow> fst ks = ROUTE_STOP \<and> decision_rel (snd (snd ks)) r
      | Advance d us' \<Rightarrow>
          if d = 0 \<or> len - n < d then fst ks = ROUTE_STOP \<and> rs_result (snd (snd ks)) < 0
          else fst ks = ROUTE_CONTINUE \<and> ctx_rel km params m p (fst (snd ks)) (ev_preds us') \<and> state_rel (snd (snd ks)) us' \<and>
            rs_position (snd (snd ks)) = n + d)"

lemma advance_rel:
  assumes "state_rel ks us" "ctx_rel km params m p ctx (ev_preds us)" "rs_position ks = n" "n < len" "len \<le> MaxMatchSetLen"
  shows "step_rel km params m p len n (route_advance len d ctx ks) (Advance d us)"
  using assms by (auto simp: step_rel_def route_advance_def state_rel_def MaxMatchSetLen_def u32_simps)

lemma finish_rel:
  assumes "state_rel (ks\<lparr>rs_rule_uncertain := False\<rparr>) (us\<lparr>ev_ruleUnknown := False\<rparr>)" "ctx_rel km params m p ctx (ev_preds us)"
    "rs_position ks = n" "n < len" "len \<le> MaxMatchSetLen"
  shows "step_rel km params m p len n (route_finish_rule len d ctx ks) (next_rule d us)"
  unfolding route_finish_rule_def next_rule_def by (rule advance_rel) (use assms in simp_all)

text \<open>An action: continue with the next rule, or stop with a decision.\<close>

definition action_rel :: "route_step_result \<times> route_state \<Rightarrow> step_outcome \<Rightarrow> nat \<Rightarrow> routing_predicates \<Rightarrow> bool" where
  "action_rel ks us n rp =
     (case us of
        Return r us' \<Rightarrow> fst ks = ROUTE_STOP \<and> decision_rel (snd ks) r
      | Advance d us' \<Rightarrow> fst ks = ROUTE_CONTINUE \<and> d = 1 \<and> rs_position (snd ks) = n \<and> state_rel (snd ks\<lparr>rs_rule_uncertain := False\<rparr>) us' \<and>
          ev_preds us' = rp)"

lemma action_agrees:
  assumes a: "kernel_agrees km params m p" and k: "kernel_instr km ms" and r: "state_rel ks us" "rs_position ks = n"
    and v: "rp_ipVersion (ev_preds us) = IpVersionFromAddr (ap_addr (ri_dst p))"
  shows "action_rel (route_apply km params ms ks) (exec_action m p True pos ms us) n (ev_preds us)"
proof -
  have alive: "route_outbound_alive km params ob \<longleftrightarrow> (case rm_outboundUsable m of None \<Rightarrow> True | Some f \<Rightarrow> f ob (ri_l4proto p) (rp_ipVersion (ev_preds us)))" for ob
    using a unfolding v kernel_agrees_def packet_agrees_def by blast
  have dns: "kr_isdns params = (ap_port (ri_dst p) = 53)" using a by (simp add: kernel_agrees_def packet_agrees_def fields_agree_def)
  have mark: "ms_mark ms < u32_mod" using k by (simp add: kernel_instr_def)
  note defs = action_rel_def route_apply_def exec_action_def next_rule_def state_rel_def decision_rel_def to_userspace_def bump_result_def re_zero_def Let_def
  show ?thesis
  proof (cases "ms_action ms")
    case MA_Route
    then show ?thesis using r mark alive [of "ms_outbound ms"] dns by (auto simp: defs split: option.splits)
  next
    case MA_Must
    then show ?thesis using r by (cases "ev_must us") (auto simp: defs max_def less_eq_predicate_result_def)
  next
    case MA_Match
    then show ?thesis using k by (simp add: kernel_instr_def)
  next
    case MA_Miss
    then show ?thesis using k by (simp add: kernel_instr_def)
  qed (use r in \<open>auto simp: defs\<close>)
qed

lemma clause_agrees:
  assumes a: "kernel_agrees km params m p" and k: "kernel_instr km ms" and r: "state_rel (ks\<lparr>rs_clause_result := c\<rparr>) us"
    and x: "ctx_rel km params m p ctx (ev_preds us)" and n: "rs_position ks = n" "n < len" "len \<le> MaxMatchSetLen"
  shows "step_rel km params m p len n (route_clause km params len ms c ctx ks) (exec_clause m p True pos n len ms us)"
proof -
  define clause where "clause = (if has_flag ms matchFlagNot then pr_neg c else c)"
  have c: "c = ev_subrule us" using r by (simp add: state_rel_def)
  define ks1 us1 where "ks1 = ks\<lparr>rs_clause_result := PMiss, rs_rule_uncertain := rs_rule_uncertain ks \<or> clause = PUnknown\<rparr>"
    and "us1 = us\<lparr>ev_subrule := PMiss, ev_ruleUnknown := ev_ruleUnknown us \<or> clause = PUnknown\<rparr>"
  have r1: "state_rel ks1 us1" "rs_position ks1 = n" "ev_preds us1 = ev_preds us" using r n(1) by (simp_all add: state_rel_def ks1_def us1_def)
  note kc = route_clause_def [of km params len ms c ctx ks, unfolded Let_def, folded clause_def]
  note uc = exec_clause_def [of m p True pos n len ms us, unfolded Let_def c [symmetric], folded clause_def]
  consider "clause = PMiss" | "clause \<noteq> PMiss" "ms_action ms = MA_And" | "clause \<noteq> PMiss" "ms_action ms = MA_ConditionalJump"
    | "clause \<noteq> PMiss" "ms_action ms \<noteq> MA_And" "ms_action ms \<noteq> MA_ConditionalJump" by blast
  then show ?thesis
  proof cases
    case 1
    have "step_rel km params m p len n (route_finish_rule len d ctx (ks\<lparr>rs_clause_result := PMiss\<rparr>)) (next_rule d (us\<lparr>ev_subrule := PMiss\<rparr>))" for d
      by (rule finish_rel) (use r x n in \<open>simp_all add: state_rel_def\<close>)
    then show ?thesis using 1 unfolding kc uc by simp
  next
    case 2
    have "step_rel km params m p len n (route_advance len 1 ctx ks1) (Advance 1 us1)" by (rule advance_rel) (use r1 x n in simp_all)
    then show ?thesis using 2 unfolding kc uc by (simp add: ks1_def us1_def)
  next
    case 3
    define ks2 us2 where "ks2 = (if rs_rule_uncertain ks1 \<and> u32_add n (ms_mark ms) > rs_uncertain_until ks1 then ks1\<lparr>rs_uncertain_until := u32_add n (ms_mark ms)\<rparr> else ks1)"
      and "us2 = (if ev_ruleUnknown us1 then us1\<lparr>ev_uncertainUntil := max (ev_uncertainUntil us1) (u32_add n (ms_mark ms))\<rparr> else us1)"
    have go: "step_rel km params m p len n (route_finish_rule len 1 ctx ks2) (next_rule 1 us2)"
      by (rule finish_rel) (use r1 x n in \<open>auto simp: ks2_def us2_def state_rel_def max_def\<close>)
    have stop: "step_rel km params m p len n (ROUTE_STOP, ctx, ks1) (Return (Inl (InvalidConditionalJump (snd pos) (ms_mark ms))) us1)"
      using r1(1) by (simp add: step_rel_def decision_rel_def state_rel_def)
    have k1: "route_clause km params len ms c ctx ks =
        (if ms_mark ms = 0 \<or> ms_mark ms > u32_sub len n then (ROUTE_STOP, ctx, ks1) else route_finish_rule len 1 ctx ks2)"
      using 3 n(1) unfolding kc by (simp add: ks1_def ks2_def)
    have u1: "exec_clause m p True pos n len ms us =
        (if ms_mark ms = 0 \<or> ms_mark ms > u32_sub len n then Return (Inl (InvalidConditionalJump (snd pos) (ms_mark ms))) us1 else next_rule 1 us2)"
      using 3 unfolding uc by (simp add: us1_def us2_def)
    show ?thesis
    proof (cases "ms_mark ms = 0 \<or> ms_mark ms > u32_sub len n")
      case True
      show ?thesis unfolding k1 u1 if_P [OF True] by (rule stop)
    next
      case False
      show ?thesis unfolding k1 u1 if_not_P [OF False] by (rule go)
    qed
  next
    case 4
    define ks2 us2 where "ks2 = ks1\<lparr>rs_rule_uncertain := rs_rule_uncertain ks1 \<or> n < rs_uncertain_until ks1\<rparr>"
      and "us2 = us1\<lparr>ev_ruleUnknown := ev_ruleUnknown us1 \<or> n < ev_uncertainUntil us1\<rparr>"
    have r2: "state_rel ks2 us2" "rs_position ks2 = n" "ev_preds us2 = ev_preds us" using r1 by (simp_all add: state_rel_def ks2_def us2_def)
    have act: "action_rel (route_apply km params ms ks2) (exec_action m p True pos ms us2) n (ev_preds us2)"
      by (rule action_agrees [OF a k r2(1,2)]) (use x r2(3) in \<open>simp add: ctx_rel_def\<close>)
    have ku: "route_clause km params len ms c ctx ks = (case route_apply km params ms ks2 of (ROUTE_STOP, st) \<Rightarrow> (ROUTE_STOP, ctx, st)
        | (ROUTE_CONTINUE, st) \<Rightarrow> route_finish_rule len 1 ctx st)" "exec_clause m p True pos n len ms us = exec_action m p True pos ms us2"
      using 4 n(1) unfolding kc uc by (simp_all add: ks1_def ks2_def us1_def us2_def)
    obtain q ks3 where q: "route_apply km params ms ks2 = (q, ks3)" by fastforce
    show ?thesis
    proof (cases "exec_action m p True pos ms us2")
      case (Return r us')
      then show ?thesis using act ku q by (simp add: action_rel_def step_rel_def)
    next
      case (Advance d us')
      then have "q = ROUTE_CONTINUE" "d = 1" "rs_position ks3 = n" "state_rel (ks3\<lparr>rs_rule_uncertain := False\<rparr>) us'" "ev_preds us' = ev_preds us"
        using act q r2(3) by (auto simp: action_rel_def)
      then show ?thesis using advance_rel [of "ks3\<lparr>rs_rule_uncertain := False\<rparr>" us' km params m p ctx n len 1] x n ku q Advance
        by (simp add: route_finish_rule_def)
    qed
  qed
qed

lemma step_agrees:
  assumes a: "kernel_agrees km params m p" and k: "kernel_instr km ms" and r: "state_rel ks us"
    and x: "ctx_rel km params m p ctx (ev_preds us)" and n: "rs_position ks = n" "n < kp_length profile" "kp_length profile \<le> MaxMatchSetLen"
    and f: "kp_steps profile ! n < MaxMatchSetLen" "km_routing km (kp_steps profile ! n) = Some ms"
  shows "step_rel km params m p (kp_length profile) n (route_step km params profile ctx ks) (exec_instr m p True pos n (kp_length profile) ms us)"
proof -
  define us0 where "us0 = us\<lparr>ev_trace := map_option (\<lambda>t. t\<lparr>tr_visited := insert pos (tr_visited t), tr_last := pos\<rparr>) (ev_trace us)\<rparr>"
  define kpred where "kpred = (if rs_clause_result ks \<noteq> PMatch then route_predicate km params ms ctx else (ctx, Inr PMatch))"
  have step: "route_step km params profile ctx ks = (case kpred of (ctx1, Inl e) \<Rightarrow> (ROUTE_STOP, ctx1, ks)
      | (ctx1, Inr v) \<Rightarrow> (if ms_action ms = MA_Or
          then route_advance (kp_length profile) (if max (rs_clause_result ks) v = PMatch then ms_mark ms else 1) ctx1 (ks\<lparr>rs_clause_result := max (rs_clause_result ks) v\<rparr>)
          else route_clause km params (kp_length profile) ms (max (rs_clause_result ks) v) ctx1 ks))"
    using n f unfolding route_step_def Let_def kpred_def by simp
  have c: "rs_clause_result ks = ev_subrule us" using r by (simp add: state_rel_def)
  have go: "step_rel km params m p (kp_length profile) n
      (if ms_action ms = MA_Or
       then route_advance (kp_length profile) (if v = PMatch then ms_mark ms else 1) ctx1 (ks\<lparr>rs_clause_result := v\<rparr>)
       else route_clause km params (kp_length profile) ms v ctx1 ks)
      (if ms_action ms = MA_Or then Advance (if ev_subrule us1 = PMatch then ms_mark ms else 1) us1
       else exec_clause m p True pos n (kp_length profile) ms us1)"
    if "state_rel (ks\<lparr>rs_clause_result := v\<rparr>) us1" "ctx_rel km params m p ctx1 (ev_preds us1)" for v ctx1 us1
  proof -
    have "v = ev_subrule us1" using that(1) by (simp add: state_rel_def)
    then show ?thesis using advance_rel [OF that(1,2) _ n(2,3)] clause_agrees [OF a k that n] n(1) by simp
  qed
  show ?thesis
  proof (cases "ev_subrule us = PMatch")
    case True
    have ex: "exec_instr m p True pos n (kp_length profile) ms us = (if ms_action ms = MA_Or then Advance (if ev_subrule us0 = PMatch then ms_mark ms else 1) us0
       else exec_clause m p True pos n (kp_length profile) ms us0)"
      using True by (simp add: exec_instr_def Let_def us0_def)
    have kp: "kpred = (ctx, Inr PMatch)" "max (rs_clause_result ks) PMatch = PMatch" using True c by (simp_all add: kpred_def)
    show ?thesis unfolding step ex kp prod.case sum.case by (rule go) (use r x True c in \<open>simp_all add: state_rel_def us0_def\<close>)
  next
    case False
    obtain ctx1 kr rp1 ur where e: "route_predicate km params ms ctx = (ctx1, kr)" "pred_match m (ev_preds us) ms = (rp1, ur)" by fastforce
    have pa: "ctx_rel km params m p ctx1 rp1" "case ur of Inl _ \<Rightarrow> \<exists>x. kr = Inl x | Inr v \<Rightarrow> kr = Inr v"
      using predicate_agrees [OF a k x, unfolded e fst_conv snd_conv] by blast+
    define us1 where "us1 = us0\<lparr>ev_preds := rp1, ev_trace := map_option (\<lambda>t. t\<lparr>tr_evaluated := insert pos (tr_evaluated t)\<rparr>) (ev_trace us0)\<rparr>"
    have ex: "exec_instr m p True pos n (kp_length profile) ms us = (case ur of Inl e \<Rightarrow> Return (Inl e) us1
        | Inr v \<Rightarrow> (let us2 = us1\<lparr>ev_subrule := max (ev_subrule us1) v\<rparr> in
            if ms_action ms = MA_Or then Advance (if ev_subrule us2 = PMatch then ms_mark ms else 1) us2
            else exec_clause m p True pos n (kp_length profile) ms us2))"
      using False e(2) by (simp add: exec_instr_def Let_def us1_def us0_def split: sum.split)
    have kp: "kpred = (ctx1, kr)" using False c e(1) by (simp add: kpred_def)
    show ?thesis
    proof (cases ur)
      case (Inl err)
      then obtain y where "kr = Inl y" using pa(2) by auto
      then show ?thesis using Inl r unfolding step ex kp by (simp add: step_rel_def decision_rel_def state_rel_def)
    next
      case (Inr v)
      then have kr: "kr = Inr v" using pa(2) by simp
      show ?thesis unfolding step ex kp kr Inr prod.case sum.case Let_def
        by (rule go) (use r c pa(1) in \<open>simp_all add: us1_def us0_def state_rel_def\<close>)
    qed
  qed
qed

section \<open>Runs\<close>

definition program_in :: "kernel_maps \<Rightarrow> kernel_profile \<Rightarrow> program \<Rightarrow> bool" where
  "program_in km profile prog \<longleftrightarrow> kp_length profile = length prog \<and> length prog \<le> MaxMatchSetLen \<and>
     (\<forall>n < length prog. \<not> snd (snd (prog ! n)) \<and> kernel_instr km (fst (snd (prog ! n))) \<and> kp_steps profile ! n < MaxMatchSetLen \<and>
        km_routing km (kp_steps profile ! n) = Some (fst (snd (prog ! n))))"

lemma run_agrees:
  assumes a: "kernel_agrees km params m p" and prog: "program_in km profile prog"
  shows "state_rel ks us \<Longrightarrow> ctx_rel km params m p ctx (ev_preds us) \<Longrightarrow> rs_position ks = n \<Longrightarrow> length prog - n \<le> fuel \<Longrightarrow>
    decision_rel (route_repeat fuel km params profile ctx ks) (fst (vm_run m p True prog n us))"
proof (induction fuel arbitrary: ks us ctx n)
  case 0
  then have "\<not> n < length prog" by simp
  then show ?case using 0 by (simp add: vm_run.simps [of m p True prog n] decision_rel_def state_rel_def)
next
  case (Suc fuel)
  have len: "kp_length profile = length prog" "length prog \<le> MaxMatchSetLen" using prog by (simp_all add: program_in_def)
  show ?case
  proof (cases "n < length prog")
    case False
    then have "route_step km params profile ctx ks = (ROUTE_STOP, ctx, ks)" using Suc.prems(3) len by (intro route_step_end) simp
    then show ?thesis using False Suc.prems(1) by (simp add: vm_run.simps [of m p True prog n] decision_rel_def state_rel_def)
  next
    case True
    obtain pos ms skip where e: "prog ! n = (pos, ms, skip)" by (cases "prog ! n")
    have i: "\<not> skip" "kernel_instr km ms" "kp_steps profile ! n < MaxMatchSetLen" "km_routing km (kp_steps profile ! n) = Some ms"
      using prog True e unfolding program_in_def by fastforce+
    have st: "step_rel km params m p (length prog) n (route_step km params profile ctx ks) (exec_instr m p True pos n (length prog) ms us)"
      using step_agrees [OF a i(2) Suc.prems(1,2,3) _ _ i(3,4), of pos] True len by simp
    obtain q ctx' ks' where q: "route_step km params profile ctx ks = (q, ctx', ks')" by (cases "route_step km params profile ctx ks")
    note vm = vm_run.simps [of m p True prog n us]
    show ?thesis
    proof (cases "exec_instr m p True pos n (length prog) ms us")
      case (Return r us')
      then show ?thesis using st q True e i(1) vm by (simp add: step_rel_def)
    next
      case (Advance d us')
      show ?thesis
      proof (cases "d = 0 \<or> length prog - n < d")
        case bad: True
        then have "q = ROUTE_STOP" "rs_result ks' < 0" using st q Advance by (simp_all add: step_rel_def)
        then show ?thesis using q True e i(1) vm Advance bad by (simp add: decision_rel_def)
      next
        case ok: False
        then have r: "q = ROUTE_CONTINUE" "ctx_rel km params m p ctx' (ev_preds us')" "state_rel ks' us'" "rs_position ks' = n + d"
          using st q Advance by (simp_all add: step_rel_def)
        have "vm_run m p True prog n us = vm_run m p True prog (n + d) us'" using True e i(1) vm Advance ok by simp
        moreover have "length prog - (n + d) \<le> fuel" using Suc.prems(4) ok by linarith
        ultimately show ?thesis using Suc.IH [OF r(3,2,4)] q r(1) by simp
      qed
    qed
  qed
qed

lemma start_rel: "state_rel route_start (initial_state p)" "ctx_rel km params m p route_ctx0 (ev_preds (initial_state p))"
  by (simp_all add: state_rel_def route_start_def initial_state_def ctx_rel_def route_ctx0_def EFAULT_def)

definition uploaded :: "kernel_maps \<Rightarrow> routing_matcher \<Rightarrow> routing_span list \<Rightarrow> bool" where
  "uploaded km m spans \<longleftrightarrow> wf_spans spans \<and> spans_in m spans \<and> spanExecutionLen spans \<le> MaxMatchSetLen \<and>
     (\<forall>s \<in> set spans. \<forall>i \<in> {sp_start s..<sp_end s}. i < MaxMatchSetLen \<and> km_routing km i = Some (rm_matches m ! i) \<and> kernel_instr km (rm_matches m ! i))"

lemma uploaded_program:
  assumes u: "uploaded km m spans" and st: "ri_stage p = RouteFromIngress"
  shows "\<exists>profile. encodeRoutingProfile spans = Some profile \<and> program_in km profile (profile_program m spans p)"
proof -
  have wf: "wf_spans spans" and len: "length (flat spans) \<le> MaxMatchSetLen" using u spanExecutionLen_flat [of spans] by (simp_all add: uploaded_def)
  have step: "i < MaxMatchSetLen \<and> km_routing km i = Some (rm_matches m ! i) \<and> kernel_instr km (rm_matches m ! i)" if "(k, i) \<in> set (flat spans)" for k i
  proof -
    have "k < length spans" "i \<in> {sp_start (spans ! k)..<sp_end (spans ! k)}" using that by (auto simp: flat_def seq_from_def span_seq_def)
    then show ?thesis using u nth_mem [of k spans] unfolding uploaded_def by blast
  qed
  obtain v where v: "encodeRoutingProfile spans = Some v" "kp_length v = length (flat spans)" "\<forall>n < length (flat spans). kp_steps v ! n = snd (flat spans ! n)"
    using encode_profile [OF len] step by blast
  have "program_in km v (profile_program m spans p)"
    unfolding program_in_def
  proof (intro conjI allI impI)
    fix n assume "n < length (profile_program m spans p)"
    then have n: "n < length (flat spans)" by simp
    obtain k i where f: "flat spans ! n = (k, i)" by (cases "flat spans ! n")
    have "(k, i) \<in> set (flat spans)" using nth_mem [OF n] f by simp
    moreover have "profile_program m spans p ! n = ((k, i), rm_matches m ! i, False)" using n f st by (simp add: profile_program_def)
    ultimately show "\<not> snd (snd (profile_program m spans p ! n))" "kernel_instr km (fst (snd (profile_program m spans p ! n)))"
      "kp_steps v ! n < MaxMatchSetLen" "km_routing km (kp_steps v ! n) = Some (fst (snd (profile_program m spans p ! n)))"
      using step v(3) n f by simp_all
  qed (use v(2) len in simp_all)
  then show ?thesis using v(1) by blast
qed

section \<open>The packed decision of a packet\<close>

lemma low_bits: "bit (int (unat (w :: u8))) n \<Longrightarrow> n < 8" "mark < u32_mod \<Longrightarrow> bit (int mark) n \<Longrightarrow> n < 32"
proof -
  show "bit (int (unat w)) n \<Longrightarrow> n < 8" unfolding uint_nat [symmetric] by (simp add: bit_uint_iff)
  assume "mark < u32_mod"
  then have "take_bit 32 (int mark) = int mark" by (simp add: take_bit_int_eq_self)
  then show "bit (int mark) n \<Longrightarrow> n < 32" using bit_take_bit_iff [of 32 "int mark" n] by simp
qed

lemma result_bits:
  assumes "rs_result st = route_result_encode outbound mark must"
  shows "0 \<le> route_result st" "bit (route_result st) n \<longleftrightarrow> bit (int (unat outbound)) n \<or> 8 \<le> n \<and> bit (int mark) (n - 8) \<or> n = 40 \<and> must \<or>
    42 \<le> n \<and> bit (int (unat (rs_capture_flags st))) (n - 42) \<or> n = 41 \<and> rs_skipped_noalive st"
proof -
  have "0 \<le> rs_result st" using assms by (simp add: route_result_encode_def)
  then have "route_result st = rs_result st OR push_bit 42 (int (unat (rs_capture_flags st))) OR push_bit 41 (of_bool (rs_skipped_noalive st))"
    by (simp add: route_result_def Let_def or.assoc)
  then show "0 \<le> route_result st" "bit (route_result st) n \<longleftrightarrow> bit (int (unat outbound)) n \<or> 8 \<le> n \<and> bit (int mark) (n - 8) \<or> n = 40 \<and> must \<or>
    42 \<le> n \<and> bit (int (unat (rs_capture_flags st))) (n - 42) \<or> n = 41 \<and> rs_skipped_noalive st"
    using \<open>0 \<le> rs_result st\<close> by (auto simp: assms route_result_encode_def bit_or_iff bit_push_bit_iff bit_of_bool_iff simp del: push_bit_of_1)
qed

lemma result_fields:
  assumes "rs_result st = route_result_encode outbound mark must" "mark < u32_mod"
  shows "take_bit 8 (route_result st) = int (unat outbound)" "take_bit 32 (drop_bit 8 (route_result st)) = int mark"
    "bit (route_result st) 40 = must" "take_bit 8 (drop_bit 42 (route_result st)) = int (unat (rs_capture_flags st))"
proof -
  note low = low_bits(1) [of outbound] low_bits(1) [of "rs_capture_flags st"] low_bits(2) [OF assms(2)]
  note b = result_bits(2) [OF assms(1)]
  show "take_bit 8 (route_result st) = int (unat outbound)"
    by (rule bit_eqI) (auto simp: bit_take_bit_iff b simp del: of_nat_unat dest: low)
  show "take_bit 32 (drop_bit 8 (route_result st)) = int mark"
    by (rule bit_eqI) (auto simp: bit_take_bit_iff bit_drop_bit_eq b simp del: of_nat_unat dest: low)
  show "bit (route_result st) 40 = must" using low(1) [of 40] low(3) [of 32] by (auto simp: b simp del: of_nat_unat)
  show "take_bit 8 (drop_bit 42 (route_result st)) = int (unat (rs_capture_flags st))"
    by (rule bit_eqI) (auto simp: bit_take_bit_iff bit_drop_bit_eq b simp del: of_nat_unat dest: low)
qed

lemma profile_id_fields:
  "kr_saddr (params\<lparr>kr_profile_id := i\<rparr>) = kr_saddr params"
  "kr_daddr (params\<lparr>kr_profile_id := i\<rparr>) = kr_daddr params"
  "kr_pname (params\<lparr>kr_profile_id := i\<rparr>) = kr_pname params"
  "kr_ifindex (params\<lparr>kr_profile_id := i\<rparr>) = kr_ifindex params"
  "kr_physinif (params\<lparr>kr_profile_id := i\<rparr>) = kr_physinif params"
  "kr_sport (params\<lparr>kr_profile_id := i\<rparr>) = kr_sport params"
  "kr_dport (params\<lparr>kr_profile_id := i\<rparr>) = kr_dport params"
  "kr_mac (params\<lparr>kr_profile_id := i\<rparr>) = kr_mac params"
  "kr_l4proto_type (params\<lparr>kr_profile_id := i\<rparr>) = kr_l4proto_type params"
  "kr_ipversion_type (params\<lparr>kr_profile_id := i\<rparr>) = kr_ipversion_type params"
  "kr_dscp (params\<lparr>kr_profile_id := i\<rparr>) = kr_dscp params"
  "kr_isdns (params\<lparr>kr_profile_id := i\<rparr>) = kr_isdns params"
  "kr_has_pname (params\<lparr>kr_profile_id := i\<rparr>) = kr_has_pname params"
  by simp_all

lemma agrees_profile_id: "kernel_agrees km (params\<lparr>kr_profile_id := i\<rparr>) m p = kernel_agrees km params m p"
  unfolding kernel_agrees_def packet_agrees_def fields_agree_def lpm_agrees_def domain_agrees_def kernel_key_def http_client_allowed_def route_outbound_alive_def
    profile_id_fields ..

definition selected_profile :: "kernel_maps \<Rightarrow> route_params \<Rightarrow> kernel_profile option" where
  "selected_profile km params = km_profile km (case km_interface km (kr_ifindex params) of Some i \<Rightarrow> i | None \<Rightarrow> km_default km)"

lemma route_decides:
  assumes u: "uploaded km m spans" and a: "kernel_agrees km params m p" and st: "ri_stage p = RouteFromIngress" and sk: "simulate_kernel p"
    and v: "addr_port_IsValid (ri_src p)" "addr_port_IsValid (ri_dst p)" and ne: "0 < spanExecutionLen spans"
    and sel: "selected_profile km params = encodeRoutingProfile spans"
  obtains ks d tr where "evaluateSpans m spans p = Some (d, tr)" "decision_rel ks d" "route km params = route_result ks"
proof -
  obtain profile where prof: "encodeRoutingProfile spans = Some profile" "program_in km profile (profile_program m spans p)"
    using uploaded_program [OF u st] by blast
  define params' where "params' = params\<lparr>kr_profile_id := (case km_interface km (kr_ifindex params) of Some i \<Rightarrow> i | None \<Rightarrow> km_default km)\<rparr>"
  have a': "kernel_agrees km params' m p" unfolding params'_def agrees_profile_id by (rule a)
  define ks where "ks = route_repeat MaxMatchSetLen km params' profile route_ctx0 route_start"
  have wf: "wf_spans spans" "spans_in m spans" using u by (simp_all add: uploaded_def)
  have len: "kp_length profile = length (flat spans)" "length (flat spans) \<le> MaxMatchSetLen" "0 < length (flat spans)"
    using prof(2) ne spanExecutionLen_flat [OF wf(1)] by (simp_all add: program_in_def)
  define res where "res = vm_run m p True (profile_program m spans p) 0 (initial_state p)"
  have e: "evaluateSpans m spans p = Some res" using evaluateSpans_vm [OF wf v] sk by (simp add: res_def)
  have "decision_rel ks (fst res)"
    unfolding ks_def res_def by (rule run_agrees [OF a' prof(2) start_rel]) (use len in \<open>simp_all add: route_start_def\<close>)
  moreover have "route km params = route_result ks"
    using sel prof(1) len by (simp add: route_def Let_def ks_def params'_def selected_profile_def)
  ultimately show ?thesis using that [of "fst res" "snd res" ks] e by simp
qed

text \<open>The packed result of the kernel holds the fields of a decision of userspace.\<close>

definition packs :: "int \<Rightarrow> routing_error + routing_evaluation \<Rightarrow> bool" where
  "packs res d =
     (case d of
        Inl _ \<Rightarrow> res = - EPERM
      | Inr r \<Rightarrow> 0 \<le> res \<and> take_bit 8 res = int (unat (re_outbound r)) \<and> take_bit 32 (drop_bit 8 res) = int (re_mark r) \<and>
          take_bit 8 (drop_bit 42 res) = int (unat (re_captureFlags r)) \<and>
          (re_captureFlags r AND (captureDestination OR captureHTTPRequest) = 0 \<longrightarrow> bit res 40 = re_must r))"

lemma decision_packs: "decision_rel ks d \<Longrightarrow> packs (route_result ks) d"
proof (cases d)
  case (Inl e)
  assume "decision_rel ks d"
  then show ?thesis using Inl by (simp add: decision_rel_def packs_def route_result_def)
next
  case (Inr r)
  assume "decision_rel ks d"
  then obtain must where d: "rs_result ks = route_result_encode (re_outbound r) (re_mark r) must" "rs_capture_flags ks = re_captureFlags r"
    "re_mark r < u32_mod" "must = re_must r \<or> re_captureFlags r AND (captureDestination OR captureHTTPRequest) \<noteq> 0 \<and> re_outbound r = OutboundControlPlaneRouting"
    using Inr by (auto simp: decision_rel_def)
  show ?thesis unfolding packs_def Inr sum.case using result_bits(1) [OF d(1)] result_fields [OF d(1,3)] d(2,4) by auto
qed

text \<open>A profile inside the part of the pool that is uploaded, with instructions the kernel can run.\<close>

definition kernel_profile_ok :: "kernel_maps \<Rightarrow> routing_matcher \<Rightarrow> nat \<Rightarrow> routing_span list \<Rightarrow> bool" where
  "kernel_profile_ok km m rend spans \<longleftrightarrow> wf_spans spans \<and> list_all (\<lambda>s. sp_end s \<le> rend) spans \<and> 0 < spanExecutionLen spans \<and>
     spanExecutionLen spans \<le> MaxMatchSetLen \<and> rend \<le> MaxMatchSetLen \<and> rend \<le> length (rm_matches m) \<and> list_all (kernel_instr km) (take rend (rm_matches m))"

lemma pool_uploaded:
  assumes "kernel_profile_ok km m rend spans" "km_routing km = uploadRoutingPool (rm_matches m) rend"
  shows "uploaded km m spans"
proof -
  have k: "wf_spans spans" "list_all (\<lambda>s. sp_end s \<le> rend) spans" "spanExecutionLen spans \<le> MaxMatchSetLen" "rend \<le> MaxMatchSetLen"
    "rend \<le> length (rm_matches m)" "list_all (kernel_instr km) (take rend (rm_matches m))"
    using assms(1) by (simp_all add: kernel_profile_ok_def)
  have "kernel_instr km (rm_matches m ! i)" if "i < rend" for i using k(5,6) that by (simp add: list_all_length)
  moreover have "sp_end s \<le> rend" if "s \<in> set spans" for s using k(2) that by (simp add: list_all_iff)
  ultimately show ?thesis using k assms(2) unfolding uploaded_def spans_in_def uploadRoutingPool_def by fastforce
qed

section \<open>Properties\<close>

text \<open>
  Claim C5: the kernel and userspace take the same decision. Let the kernel hold the uploaded pool, the encoded profile
  of the interface and the keys of the prefix lists whose tries userspace has, and let the packet fields, the domain
  bits, the client admission and the outbound state be those of the input. Then the simulation of the kernel in
  userspace ends; it fails exactly when the kernel drops the packet, and otherwise the packed result of the kernel
  holds its outbound, its mark, its capture flags and, unless the packet is captured for its destination or its
  request, its must bit.
\<close>

theorem kernel_userspace_agree:
  assumes "kernel_profile_ok km m rend spans" "km_routing km = uploadRoutingPool (rm_matches m) rend" "lpm_uploaded km m cidrs"
    and "selected_profile km params = encodeRoutingProfile spans" "packet_agrees km params m p"
    and "ri_stage p = RouteFromIngress" "simulate_kernel p" "addr_port_IsValid (ri_src p)" "addr_port_IsValid (ri_dst p)"
  shows "\<exists>d tr. evaluateSpans m spans p = Some (d, tr) \<and> packs (route km params) d"
proof -
  have "kernel_agrees km params m p"
    using uploaded_lpm_agrees [OF _ assms(3), of params p] assms(5) by (simp add: kernel_agrees_def packet_agrees_def)
  moreover have "0 < spanExecutionLen spans" using assms(1) by (simp add: kernel_profile_ok_def)
  ultimately show ?thesis
    using route_decides [OF pool_uploaded [OF assms(1,2)] _ assms(6,7,8,9) _ assms(4)] decision_packs by metis
qed

text \<open>A pool that sends the sample prefixes to outbound 2 and the rest to outbound 0, and maps that hold it.\<close>

definition upload_pool :: "match_set list" where
  "upload_pool = [(match_set0 MT_IpSet)\<lparr>ms_outbound := 2, ms_mark := 7\<rparr>, match_set0 MT_Fallback]"

definition upload_spans :: "routing_span list" where
  "upload_spans = [\<lparr>sp_start = 0, sp_end = 2, sp_phase = PhaseRoute, sp_global = False\<rparr>]"

definition upload_maps :: kernel_maps where
  "upload_maps = \<lparr>km_lpm = (\<lambda>i. if i = 0 then Some (lpm_finds (newLpmMap sample_cidrs)) else None), km_http = None, km_domain = (\<lambda>_. None),
     km_connectivity = (\<lambda>_ _ _. Some 0), km_routing = uploadRoutingPool upload_pool 2, km_interface = (\<lambda>_. None),
     km_profile = (\<lambda>i. if i = 1 then encodeRoutingProfile upload_spans else None), km_default = 1\<rparr>"

definition upload_matcher :: "trie option \<Rightarrow> routing_matcher" where
  "upload_matcher t = sample_matcher\<lparr>rm_matches := upload_pool, rm_lpmMatcher := [t], rm_httpClientAllowed := Some (\<lambda>_ _. False)\<rparr>"

definition upload_params :: route_params where
  "upload_params = \<lparr>kr_saddr = addr_As16 (Addr4 1), kr_daddr = addr_As16 (Addr4 2), kr_pname = zero_value, kr_ifindex = 0, kr_profile_id = 0,
     kr_physinif = 0, kr_sport = 0xe803, kr_dport = 0x5000, kr_mac = replicate 6 0, kr_l4proto_type = 1, kr_ipversion_type = IpVersionFromAddr (Addr4 2),
     kr_dscp = 0, kr_isdns = False, kr_has_pname = False\<rparr>"

lemma upload_profile_ok: "kernel_profile_ok upload_maps (upload_matcher t) 2 upload_spans"
proof -
  have v: "value_index zero_value = 0" "length zero_value = 16" by code_simp+
  have "list_all (kernel_instr upload_maps) upload_pool"
    by (simp add: upload_pool_def kernel_instr_def match_set0_def v upload_maps_def)
  moreover have "wf_spans upload_spans" "spanExecutionLen upload_spans = 2"
    by (simp_all add: wf_spans_def upload_spans_def spanExecutionLen_def span_len_def u32_sub_def)
  moreover have "length upload_pool = 2" by (simp add: upload_pool_def)
  ultimately show ?thesis by (simp add: kernel_profile_ok_def upload_matcher_def upload_spans_def MaxMatchSetLen_def)
qed

lemma upload_packet: "packet_agrees upload_maps upload_params (upload_matcher t) (sample_input\<lparr>ri_kernel := True\<rparr>)"
proof -
  have "bpf_ntohs 0x5000 = 80" "bpf_ntohs 0xe803 = 1000" by code_simp+
  then show ?thesis
    by (simp add: packet_agrees_def fields_agree_def domain_agrees_def http_client_allowed_def route_outbound_alive_def upload_maps_def upload_params_def
      upload_matcher_def sample_matcher_def sample_input_def zero_value_def)
qed

theorem kernel_userspace_agree_witness:
  "\<exists>t d tr. evaluateSpans (upload_matcher t) upload_spans (sample_input\<lparr>ri_kernel := True\<rparr>) = Some (d, tr) \<and> packs (route upload_maps upload_params) d"
proof -
  have c: "\<forall>p \<in> set sample_cidrs. pfx_ok p" "length sample_cidrs < 2 ^ 22" by (simp_all add: sample_cidrs_def pfx_ok_def)
  then obtain t where "NewTrieFromPrefixes sample_cidrs = Inr t" using trie_of_prefixes [OF c] by blast
  then have l: "lpm_uploaded upload_maps (upload_matcher t) [sample_cidrs]"
    using c by (simp add: lpm_uploaded_def upload_maps_def upload_matcher_def list_all_iff)
  have "\<exists>d tr. evaluateSpans (upload_matcher t) upload_spans (sample_input\<lparr>ri_kernel := True\<rparr>) = Some (d, tr) \<and> packs (route upload_maps upload_params) d"
    by (rule kernel_userspace_agree [OF upload_profile_ok _ l _ upload_packet])
      (simp_all add: upload_maps_def upload_matcher_def selected_profile_def upload_params_def sample_input_def simulate_kernel_def addr_port_IsValid_def)
  then show ?thesis by blast
qed

text \<open>
  Claim C11: every profile of a compiled configuration can be uploaded: encoding it never writes past the array of
  steps, the encoded length is the number of instructions the profile executes, and every step refers to an
  instruction in the part of the pool that is uploaded.
\<close>

theorem compiled_uploads:
  assumes "cbind (prepareRoutingConfig g source) (\<lambda>r. compileRouting env (p\<lparr>pre_routing := r\<rparr>) outs) = Some (Inr b)"
    and "prof \<in> set (b_profiles b)"
  shows "\<exists>v. encodeRoutingProfile (pf_Spans prof) = Some v \<and> kp_length v = spanExecutionLen (pf_Spans prof) \<and> kp_length v \<le> MaxMatchSetLen \<and>
    (\<forall>n < kp_length v. kp_steps v ! n < b_routingEnd b \<and> uploadRoutingPool (b_rules b) (b_routingEnd b) (kp_steps v ! n) = Some (b_rules b ! (kp_steps v ! n)))"
proof -
  have b: "profiles_in b" "length (b_rules b) \<le> 3 * MaxMatchSetLen" "b_routingEnd b \<le> MaxMatchSetLen" using prepared_compiled [OF assms(1)] by blast+
  note c = compiled_profile [OF b(1,2) assms(2)]
  have "block_in (b_routingEnd b) (pf_Spans prof)" using b(1) assms(2) by (simp add: profiles_in_def)
  then have ends: "sp_end s \<le> b_routingEnd b" if "s \<in> set (pf_Spans prof)" for s using that by (auto simp: block_in_def list_all_iff span_in_def)
  have i: "i < b_routingEnd b" if "(k, i) \<in> set (flat (pf_Spans prof))" for k i
  proof -
    have "k < length (pf_Spans prof)" "i < sp_end (pf_Spans prof ! k)" using that by (auto simp: flat_def seq_from_def span_seq_def)
    then show ?thesis using ends [of "pf_Spans prof ! k"] by simp
  qed
  have len: "length (flat (pf_Spans prof)) = spanExecutionLen (pf_Spans prof)" by (rule spanExecutionLen_flat [OF c(1), symmetric])
  obtain v where v: "encodeRoutingProfile (pf_Spans prof) = Some v" "kp_length v = length (flat (pf_Spans prof))"
    "\<forall>n < length (flat (pf_Spans prof)). kp_steps v ! n = snd (flat (pf_Spans prof) ! n)"
    using encode_profile [of "pf_Spans prof"] c(3) len i b(3) by fastforce
  have st: "kp_steps v ! n < b_routingEnd b" if "n < kp_length v" for n
    using v(2,3) that i [of "fst (flat (pf_Spans prof) ! n)" "snd (flat (pf_Spans prof) ! n)"] by simp
  have "uploadRoutingPool (b_rules b) (b_routingEnd b) (kp_steps v ! n) = Some (b_rules b ! (kp_steps v ! n))" if "n < kp_length v" for n
    using st [OF that] b(3) by (simp add: uploadRoutingPool_def)
  then show ?thesis using st v(1,2) len c(3) by auto
qed

theorem compiled_uploads_witness:
  "\<exists>b prof v. cbind (prepareRoutingConfig sample_geo simple_config) (\<lambda>r. compileRouting sample_env (sample_rules\<lparr>pre_routing := r\<rparr>) [''direct'' \<mapsto> OutboundDirect]) = Some (Inr b) \<and>
     prof \<in> set (b_profiles b) \<and> encodeRoutingProfile (pf_Spans prof) = Some v"
proof -
  obtain b where b: "cbind (prepareRoutingConfig sample_geo simple_config) (\<lambda>r. compileRouting sample_env (sample_rules\<lparr>pre_routing := r\<rparr>) [''direct'' \<mapsto> OutboundDirect]) = Some (Inr b)"
    "b_profiles b \<noteq> []"
    using simple_program unfolding simple_prepares cbind_simps by blast
  then show ?thesis using compiled_uploads [OF b(1), of "hd (b_profiles b)"] hd_in_set by blast
qed

end
