(* ===== verification/Dns_Store.thy ===== *)
theory Dns_Store
  imports Go_Base "HOL-Library.AList"
begin

text \<open>
  The bounded store of \<^verbatim>\<open>pkg/dnscache/store.go\<close>: a map from keys to elements of a list in order of use, with
  a limit on the entries and on the bytes they account for. Elements are named by addresses, so that the map and
  the list share them as in the code; taking the last element of an empty list is the panic \<^const>\<open>None\<close>.
\<close>

section \<open>Data\<close>

definition i64 :: "int \<Rightarrow> int" where
  "i64 x = (x + 2 ^ 63) mod 2 ^ 64 - 2 ^ 63"

lemma i64_id: "- (2 ^ 63) \<le> x \<Longrightarrow> x < 2 ^ 63 \<Longrightarrow> i64 x = x"
  by (simp add: i64_def)

lemma i64_add: "i64 (i64 x + y) = i64 (x + y)"
  unfolding i64_def by (simp add: mod_simps algebra_simps)

lemma i64_add_right: "i64 (y + i64 x) = i64 (y + x)"
  using i64_add [of x y] by (simp add: add.commute)

lemma i64_diff: "i64 (i64 x - y) = i64 (x - y)"
  using i64_add [of x "- y"] by simp

record 'v cache_record =
  cr_Value :: 'v
  cr_ReceivedAt :: int
  cr_Expires :: int

record ('k, 'v) stored =
  sd_key :: 'k
  sd_Record :: "'v cache_record"
  sd_bytes :: int

record ('k, 'v) store =
  ds_entries :: "('k \<times> nat) list"
  ds_lru :: "(nat \<times> ('k, 'v) stored) list"
  ds_limit :: int
  ds_memoryLimit :: int
  ds_bytes :: int
  ds_hits :: u64
  ds_misses :: u64
  ds_expired :: u64
  ds_evicted :: u64
  ds_next :: nat

definition NewStore :: "int \<Rightarrow> int \<Rightarrow> ('k, 'v) store" where
  "NewStore entries memoryBytes =
     \<lparr>ds_entries = [], ds_lru = [], ds_limit = entries, ds_memoryLimit = memoryBytes, ds_bytes = 0,
      ds_hits = 0, ds_misses = 0, ds_expired = 0, ds_evicted = 0, ds_next = 0\<rparr>"

section \<open>Operations\<close>

text \<open>The list operations on an element that is known by its address.\<close>

definition elem_at :: "nat \<Rightarrow> ('k, 'v) store \<Rightarrow> ('k, 'v) stored option" where
  "elem_at a s = map_of (ds_lru s) a"

definition list_Remove :: "nat \<Rightarrow> (nat \<times> 'a) list \<Rightarrow> (nat \<times> 'a) list" where
  "list_Remove a xs = filter (\<lambda>(b, _). b \<noteq> a) xs"

definition MoveToFront :: "nat \<Rightarrow> (nat \<times> 'a) list \<Rightarrow> (nat \<times> 'a) list" where
  "MoveToFront a xs = filter (\<lambda>(b, _). b = a) xs @ list_Remove a xs"

definition store_remove :: "nat \<Rightarrow> ('k, 'v) store \<Rightarrow> ('k, 'v) store option" where
  "store_remove a s =
     (case elem_at a s of
        None \<Rightarrow> None
      | Some e \<Rightarrow> Some (s\<lparr>ds_entries := AList.delete (sd_key e) (ds_entries s), ds_bytes := i64 (ds_bytes s - sd_bytes e),
                           ds_lru := list_Remove a (ds_lru s)\<rparr>))"

definition store_get :: "'k \<Rightarrow> int \<Rightarrow> bool \<Rightarrow> ('k, 'v) store \<Rightarrow> (('k, 'v) store \<times> 'v cache_record option) option" where
  "store_get key now countMiss s =
     (let miss = (\<lambda>s1. (if countMiss then s1\<lparr>ds_misses := ds_misses s1 + 1\<rparr> else s1, None)) in
      case map_of (ds_entries s) key of
        None \<Rightarrow> Some (miss s)
      | Some a \<Rightarrow>
          (case elem_at a s of
             None \<Rightarrow> None
           | Some e \<Rightarrow>
               if now < cr_Expires (sd_Record e)
               then Some (s\<lparr>ds_lru := MoveToFront a (ds_lru s), ds_hits := ds_hits s + 1\<rparr>, Some (sd_Record e))
               else map_option (\<lambda>s1. miss (s1\<lparr>ds_expired := ds_expired s1 + 1\<rparr>)) (store_remove a s)))"

definition store_Get :: "'k \<Rightarrow> int \<Rightarrow> ('k, 'v) store \<Rightarrow> (('k, 'v) store \<times> 'v cache_record option) option" where
  "store_Get key now s = store_get key now True s"

definition GetIfPresent :: "'k \<Rightarrow> int \<Rightarrow> ('k, 'v) store \<Rightarrow> (('k, 'v) store \<times> 'v cache_record option) option" where
  "GetIfPresent key now s = store_get key now False s"

definition Peek :: "'k \<Rightarrow> ('k, 'v) store \<Rightarrow> 'v cache_record option option" where
  "Peek key s =
     (case map_of (ds_entries s) key of
        None \<Rightarrow> Some None
      | Some a \<Rightarrow> map_option (\<lambda>e. Some (sd_Record e)) (elem_at a s))"

definition store_full :: "int \<Rightarrow> ('k, 'v) store \<Rightarrow> bool" where
  "store_full bytes s \<longleftrightarrow> int (length (ds_entries s)) \<ge> ds_limit s \<or>
     ds_memoryLimit s > 0 \<and> bytes > i64 (ds_memoryLimit s - ds_bytes s)"

function evict :: "int \<Rightarrow> ('k, 'v) store \<Rightarrow> ('k, 'v) store option" where
  "evict bytes s =
     (if store_full bytes s
      then (if ds_lru s = [] then None
            else case store_remove (fst (last (ds_lru s))) s of
                   None \<Rightarrow> None
                 | Some s1 \<Rightarrow> evict bytes (s1\<lparr>ds_evicted := ds_evicted s1 + 1\<rparr>))
      else Some s)"
  by pat_completeness auto

lemma remove_last_shorter:
  assumes "ds_lru s \<noteq> []" "store_remove (fst (last (ds_lru s))) s = Some s1"
  shows "length (ds_lru s1) < length (ds_lru s)"
proof -
  have "length (list_Remove (fst (last xs)) xs) < length xs" if "xs \<noteq> []" for xs :: "(nat \<times> 'x) list"
    unfolding list_Remove_def using that last_in_set [OF that] by (intro length_filter_less) (auto simp: split_beta)
  then show ?thesis using assms by (auto simp: store_remove_def split: option.splits)
qed

termination evict
  by (relation "measure (\<lambda>(_, s). length (ds_lru s))") (auto simp: remove_last_shorter)

declare evict.simps [simp del]

definition store_Put :: "'k \<Rightarrow> 'v cache_record \<Rightarrow> int \<Rightarrow> ('k, 'v) store \<Rightarrow> (('k, 'v) store \<times> bool) option" where
  "store_Put key rec bytes s =
     (if ds_limit s \<le> 0 \<or> bytes < 0 \<or> ds_memoryLimit s > 0 \<and> bytes > ds_memoryLimit s then Some (s, False)
      else case (case map_of (ds_entries s) key of None \<Rightarrow> Some s | Some old \<Rightarrow> store_remove old s) of
             None \<Rightarrow> None
           | Some s1 \<Rightarrow>
               (case evict bytes s1 of
                  None \<Rightarrow> None
                | Some s2 \<Rightarrow>
                    Some (s2\<lparr>ds_entries := AList.update key (ds_next s2) (ds_entries s2),
                             ds_lru := (ds_next s2, \<lparr>sd_key = key, sd_Record = rec, sd_bytes = bytes\<rparr>) # ds_lru s2,
                             ds_bytes := i64 (ds_bytes s2 + bytes), ds_next := Suc (ds_next s2)\<rparr>, True)))"

text \<open>The iteration of a Go map visits the entries in some order; \<open>order\<close> is that order.\<close>

fun expire_loop :: "int \<Rightarrow> nat list \<Rightarrow> ('k, 'v) store \<Rightarrow> ('k, 'v) store option" where
  "expire_loop now [] s = Some s"
| "expire_loop now (a # order) s =
     (case elem_at a s of
        None \<Rightarrow> None
      | Some e \<Rightarrow>
          if now < cr_Expires (sd_Record e) then expire_loop now order s
          else (case store_remove a s of
                  None \<Rightarrow> None
                | Some s1 \<Rightarrow> expire_loop now order (s1\<lparr>ds_expired := ds_expired s1 + 1\<rparr>)))"

definition Expire :: "int \<Rightarrow> nat list \<Rightarrow> ('k, 'v) store \<Rightarrow> ('k, 'v) store option" where
  "Expire now order s = expire_loop now order s"

record store_stats =
  ss_Entries :: nat
  ss_Limit :: int
  ss_Bytes :: int
  ss_MemoryLimit :: int
  ss_Hits :: u64
  ss_Misses :: u64
  ss_Expired :: u64
  ss_Evicted :: u64

definition store_Snapshot :: "('k, 'v) store \<Rightarrow> store_stats" where
  "store_Snapshot s =
     \<lparr>ss_Entries = length (ds_entries s), ss_Limit = ds_limit s, ss_Bytes = ds_bytes s, ss_MemoryLimit = ds_memoryLimit s,
      ss_Hits = ds_hits s, ss_Misses = ds_misses s, ss_Expired = ds_expired s, ss_Evicted = ds_evicted s\<rparr>"

section \<open>The invariant\<close>

definition total_bytes :: "(nat \<times> ('k, 'v) stored) list \<Rightarrow> int" where
  "total_bytes xs = sum_list (map (sd_bytes \<circ> snd) xs)"

text \<open>The map and the list hold the same elements, and the bytes are those of the list.\<close>

definition shape :: "('k, 'v) store \<Rightarrow> bool" where
  "shape s \<longleftrightarrow> distinct (map fst (ds_lru s)) \<and> distinct (map (sd_key \<circ> snd) (ds_lru s)) \<and> distinct (map fst (ds_entries s)) \<and>
     set (ds_entries s) = (\<lambda>(a, e). (sd_key e, a)) ` set (ds_lru s) \<and>
     (\<forall>(a, e) \<in> set (ds_lru s). a < ds_next s \<and> 0 \<le> sd_bytes e) \<and>
     ds_bytes s = i64 (total_bytes (ds_lru s)) \<and> ds_memoryLimit s < 2 ^ 63 \<and>
     (ds_memoryLimit s > 0 \<longrightarrow> total_bytes (ds_lru s) \<le> ds_memoryLimit s)"

definition store_ok :: "('k, 'v) store \<Rightarrow> bool" where
  "store_ok s \<longleftrightarrow> shape s \<and> int (length (ds_entries s)) \<le> max 0 (ds_limit s)"

definition same_config :: "('k, 'v) store \<Rightarrow> ('k, 'v) store \<Rightarrow> bool" where
  "same_config s s' \<longleftrightarrow> ds_limit s' = ds_limit s \<and> ds_memoryLimit s' = ds_memoryLimit s"

lemma total_bytes_simps [simp]: "total_bytes [] = 0" "total_bytes (x # xs) = sd_bytes (snd x) + total_bytes xs"
    "total_bytes (xs @ ys) = total_bytes xs + total_bytes ys"
  by (simp_all add: total_bytes_def)

lemma shape_length: "shape s \<Longrightarrow> length (ds_entries s) = length (ds_lru s)"
proof -
  assume s: "shape s"
  have "inj_on (\<lambda>(a, e). (sd_key e, a)) (set (ds_lru s))"
    by (rule inj_on_imageI2 [of snd]) (use s in \<open>simp add: shape_def distinct_map comp_def split_beta\<close>)
  then have "card (set (ds_entries s)) = card (set (ds_lru s))" using s by (simp add: shape_def card_image)
  moreover have "distinct (ds_entries s)" "distinct (ds_lru s)" using s by (auto simp: shape_def distinct_map)
  ultimately show ?thesis by (simp add: distinct_card)
qed

lemma shape_elem: "shape s \<Longrightarrow> elem_at a s = Some e \<longleftrightarrow> (a, e) \<in> set (ds_lru s)"
  by (simp add: shape_def elem_at_def)

lemma shape_entry: "shape s \<Longrightarrow> map_of (ds_entries s) k = Some a \<longleftrightarrow> (\<exists>e. (a, e) \<in> set (ds_lru s) \<and> sd_key e = k)"
  by (auto simp: shape_def image_iff split: prod.splits)

lemma list_Remove_id: "a \<notin> fst ` set xs \<Longrightarrow> list_Remove a xs = xs"
  unfolding list_Remove_def filter_id_conv by force

lemma list_Remove_simps [simp]: "list_Remove a [] = []" "list_Remove a (x # xs) = (if fst x = a then list_Remove a xs else x # list_Remove a xs)"
    "list_Remove a (xs @ ys) = list_Remove a xs @ list_Remove a ys"
  by (auto simp: list_Remove_def)

lemma remove_split:
  assumes "distinct (map fst xs)" "(a, e) \<in> set xs"
  obtains ys zs where "xs = ys @ (a, e) # zs" "list_Remove a xs = ys @ zs"
proof -
  obtain ys zs where xs: "xs = ys @ (a, e) # zs" using split_list [OF assms(2)] by blast
  then have "a \<notin> fst ` set ys" "a \<notin> fst ` set zs" using assms(1) by auto
  then have "list_Remove a xs = ys @ zs" unfolding xs by (simp add: list_Remove_id)
  then show ?thesis using that xs by blast
qed

lemma store_remove_shape:
  assumes "shape s" "(a, e) \<in> set (ds_lru s)"
  shows "\<exists>s'. store_remove a s = Some s' \<and> shape s' \<and> ds_lru s' = list_Remove a (ds_lru s) \<and> same_config s s' \<and> ds_next s' = ds_next s"
proof -
  have d: "distinct (map fst (ds_lru s))" using assms(1) by (simp add: shape_def)
  obtain ys zs where x: "ds_lru s = ys @ (a, e) # zs" "list_Remove a (ds_lru s) = ys @ zs" by (rule remove_split [OF d assms(2)])
  define s' where "s' = s\<lparr>ds_entries := AList.delete (sd_key e) (ds_entries s), ds_bytes := i64 (ds_bytes s - sd_bytes e), ds_lru := ys @ zs\<rparr>"
  have r: "store_remove a s = Some s'"
    using assms x(2) by (simp add: store_remove_def shape_elem [OF assms(1), THEN iffD2] s'_def)
  have "sd_key e \<notin> (sd_key \<circ> snd) ` set (ys @ zs)" using assms(1) x(1) by (auto simp: shape_def)
  then have out: "(b, e') \<in> set ys \<Longrightarrow> sd_key e \<noteq> sd_key e'" "(b, e') \<in> set zs \<Longrightarrow> sd_key e \<noteq> sd_key e'" for b e' by force+
  have m: "set (AList.delete (sd_key e) (ds_entries s)) = (\<lambda>(a, e). (sd_key e, a)) ` set (ys @ zs)"
    using assms(1) x(1) out by (auto simp: shape_def AList.delete_eq)
  have "0 \<le> sd_bytes e" using assms by (auto simp: shape_def)
  then have "shape s'"
    using assms(1) x(1) m unfolding shape_def s'_def by (auto simp: i64_diff distinct_delete)
  then show ?thesis using r x(2) by (auto simp: s'_def same_config_def)
qed

section \<open>Eviction\<close>

definition fits :: "('k, 'v) store \<Rightarrow> int \<Rightarrow> (nat \<times> ('k, 'v) stored) list \<Rightarrow> bool" where
  "fits s bytes xs \<longleftrightarrow> int (length xs) < ds_limit s \<and> (ds_memoryLimit s > 0 \<longrightarrow> total_bytes xs + bytes \<le> ds_memoryLimit s)"

lemma total_bytes_nonneg: "\<forall>(a, e) \<in> set xs. 0 \<le> sd_bytes e \<Longrightarrow> 0 \<le> total_bytes xs"
  unfolding total_bytes_def by (rule sum_list_nonneg) auto

lemma store_full_fits: "shape s \<Longrightarrow> store_full bytes s \<longleftrightarrow> \<not> fits s bytes (ds_lru s)"
proof -
  assume s: "shape s"
  have "0 \<le> total_bytes (ds_lru s)" using s by (intro total_bytes_nonneg) (auto simp: shape_def)
  then have "i64 (ds_memoryLimit s - ds_bytes s) = ds_memoryLimit s - total_bytes (ds_lru s)" if "ds_memoryLimit s > 0"
    using s that i64_id [of "total_bytes (ds_lru s)"] i64_id [of "ds_memoryLimit s - total_bytes (ds_lru s)"] by (auto simp: shape_def)
  then show ?thesis using shape_length [OF s] by (auto simp: store_full_def fits_def)
qed

lemma list_Remove_last: "distinct (map fst xs) \<Longrightarrow> xs \<noteq> [] \<Longrightarrow> list_Remove (fst (last xs)) xs = butlast xs"
  by (induction xs rule: rev_induct) (simp_all add: list_Remove_id)

lemma evict_shape:
  assumes "shape s" "0 < ds_limit s" "ds_memoryLimit s > 0 \<longrightarrow> bytes \<le> ds_memoryLimit s"
  shows "\<exists>s' n. evict bytes s = Some s' \<and> shape s' \<and> same_config s s' \<and> ds_next s' = ds_next s \<and> ds_lru s' = take n (ds_lru s) \<and>
    fits s bytes (take n (ds_lru s)) \<and> (n < length (ds_lru s) \<longrightarrow> \<not> fits s bytes (take (Suc n) (ds_lru s)))"
  using assms
proof (induction bytes s rule: evict.induct)
  case (1 bytes s)
  show ?case
  proof (cases "store_full bytes s")
    case False
    then show ?thesis using "1.prems" store_full_fits [of s bytes] evict.simps [of bytes s]
      by (intro exI [of _ s] exI [of _ "length (ds_lru s)"]) (simp add: same_config_def)
  next
    case True
    have nf: "\<not> fits s bytes (ds_lru s)" using True "1.prems"(1) store_full_fits by blast
    then have ne: "ds_lru s \<noteq> []" using "1.prems"(2,3) by (auto simp: fits_def)
    have "(fst (last (ds_lru s)), snd (last (ds_lru s))) \<in> set (ds_lru s)" using last_in_set [OF ne] by simp
    moreover have "list_Remove (fst (last (ds_lru s))) (ds_lru s) = butlast (ds_lru s)"
      by (rule list_Remove_last) (use ne "1.prems"(1) in \<open>simp_all add: shape_def\<close>)
    ultimately obtain s1 where
      s1: "store_remove (fst (last (ds_lru s))) s = Some s1" "shape s1" "ds_lru s1 = butlast (ds_lru s)" "same_config s s1" "ds_next s1 = ds_next s"
      using store_remove_shape [OF "1.prems"(1)] by metis
    define s2 where "s2 = s1\<lparr>ds_evicted := ds_evicted s1 + 1\<rparr>"
    have s2: "shape s2" "same_config s s2" "ds_lru s2 = butlast (ds_lru s)" using s1 by (simp_all add: s2_def shape_def same_config_def)
    have f: "fits s2 = fits s" using s2(2) by (auto simp: fits_def same_config_def fun_eq_iff)
    obtain s' n where e: "evict bytes s2 = Some s'" "shape s'" "same_config s2 s'" "ds_next s' = ds_next s2" "ds_lru s' = take n (ds_lru s2)"
      "fits s bytes (take n (ds_lru s2))" "n < length (ds_lru s2) \<longrightarrow> \<not> fits s bytes (take (Suc n) (ds_lru s2))"
      using "1.IH" [OF True ne s1(1)] s2 "1.prems"(2,3) f unfolding s2_def [symmetric] by (auto simp: same_config_def)
    define k where "k = min n (length (ds_lru s) - 1)"
    have k: "take n (ds_lru s2) = take k (ds_lru s)" unfolding s2(3) k_def by (simp add: butlast_conv_take min.commute)
    have "\<not> fits s bytes (take (Suc k) (ds_lru s))"
    proof (cases "n < length (ds_lru s2)")
      case True
      then have "Suc n \<le> length (ds_lru s) - 1" "k = n" using s2(3) by (simp_all add: k_def)
      then show ?thesis using e(7) True s2(3) by (simp add: butlast_conv_take)
    next
      case False
      then have "Suc k = length (ds_lru s)" using ne s2(3) by (simp add: k_def)
      then show ?thesis using nf by simp
    qed
    moreover have "evict bytes s = Some s'" using evict.simps [of bytes s] True ne s1(1) e(1) by (simp add: s2_def)
    ultimately show ?thesis using e(2-6) k s1 s2 by (intro exI [of _ s'] exI [of _ k]) (simp add: same_config_def s2_def)
  qed
qed

section \<open>Every operation keeps the invariant\<close>

lemma MoveToFront_split:
  assumes "distinct (map fst xs)" "xs = ys @ (a, e) # zs"
  shows "MoveToFront a xs = (a, e) # ys @ zs"
proof -
  have "a \<notin> fst ` set ys" "a \<notin> fst ` set zs" using assms by auto
  then have "filter (\<lambda>(b, _). b = a) ys = []" "filter (\<lambda>(b, _). b = a) zs = []" by (force simp: filter_empty_conv)+
  then show ?thesis using \<open>a \<notin> fst ` set ys\<close> \<open>a \<notin> fst ` set zs\<close> unfolding assms(2) MoveToFront_def by (simp add: list_Remove_id)
qed

lemma shape_counters [simp]: "shape (s\<lparr>ds_hits := h\<rparr>) = shape s" "shape (s\<lparr>ds_misses := h\<rparr>) = shape s" "shape (s\<lparr>ds_expired := h\<rparr>) = shape s"
    "shape (s\<lparr>ds_evicted := h\<rparr>) = shape s"
  by (simp_all add: shape_def)

text \<open>What a lookup returns and leaves behind, as a specification on the elements in order of use.\<close>

definition spec_get :: "'k \<Rightarrow> int \<Rightarrow> ('k, 'v) stored list \<Rightarrow> ('k, 'v) stored list \<times> 'v cache_record option" where
  "spec_get key now xs =
     (case find (\<lambda>e. sd_key e = key) xs of
        None \<Rightarrow> (xs, None)
      | Some e \<Rightarrow> let rest = filter (\<lambda>e. sd_key e \<noteq> key) xs in
                   if now < cr_Expires (sd_Record e) then (e # rest, Some (sd_Record e)) else (rest, None))"

definition order_of_use :: "('k, 'v) store \<Rightarrow> ('k, 'v) stored list" where
  "order_of_use s = map snd (ds_lru s)"

lemma shape_split:
  assumes "shape s" "(a, e) \<in> set (ds_lru s)"
  obtains ys zs where "ds_lru s = ys @ (a, e) # zs" "list_Remove a (ds_lru s) = ys @ zs" "MoveToFront a (ds_lru s) = (a, e) # ys @ zs"
    "filter (\<lambda>x. sd_key x \<noteq> sd_key e) (order_of_use s) = map snd (ys @ zs)" "find (\<lambda>x. sd_key x = sd_key e) (order_of_use s) = Some e"
proof -
  have d: "distinct (map fst (ds_lru s))" "distinct (map (sd_key \<circ> snd) (ds_lru s))" using assms(1) by (simp_all add: shape_def)
  obtain ys zs where x: "ds_lru s = ys @ (a, e) # zs" "list_Remove a (ds_lru s) = ys @ zs" by (rule remove_split [OF d(1) assms(2)])
  have k: "sd_key e \<notin> (sd_key \<circ> snd) ` set ys" "sd_key e \<notin> (sd_key \<circ> snd) ` set zs" using d(2) x(1) by auto
  have id: "filter (\<lambda>x. sd_key x \<noteq> sd_key e) (map snd xs) = map snd xs" if "sd_key e \<notin> (sd_key \<circ> snd) ` set xs" for xs :: "(nat \<times> ('a, 'b) stored) list"
    unfolding filter_id_conv using that by force
  have "find (\<lambda>x. sd_key x = sd_key e) (map snd ys @ e # map snd zs) = Some e" using k(1) by (induction ys) auto
  then show ?thesis using that x MoveToFront_split [OF d(1) x(1)] id [OF k(1)] id [OF k(2)] by (simp add: order_of_use_def)
qed

lemma shape_front:
  assumes "shape s" "ds_lru s = ys @ x # zs"
  shows "shape (s\<lparr>ds_lru := x # ys @ zs\<rparr>)"
  using assms by (auto simp: shape_def add.left_commute)

lemma shape_find_None: "shape s \<Longrightarrow> map_of (ds_entries s) k = None \<Longrightarrow> find (\<lambda>e. sd_key e = k) (order_of_use s) = None"
proof -
  assume s: "shape s" and n: "map_of (ds_entries s) k = None"
  have "sd_key e \<noteq> k" if "e \<in> set (order_of_use s)" for e
    using shape_entry [OF s, of k] n that by (force simp: order_of_use_def)
  then show ?thesis by (simp add: find_None_iff)
qed

lemma store_get_spec:
  assumes "store_ok s"
  shows "\<exists>s' r. store_get key now countMiss s = Some (s', r) \<and> store_ok s' \<and> same_config s s' \<and> (order_of_use s', r) = spec_get key now (order_of_use s)"
proof -
  have sh: "shape s" using assms by (simp add: store_ok_def)
  show ?thesis
  proof (cases "map_of (ds_entries s) key")
    case None
    then show ?thesis using assms shape_find_None [OF sh None]
      by (auto simp: store_get_def spec_get_def store_ok_def same_config_def order_of_use_def)
  next
    case (Some a)
    then obtain e where e: "(a, e) \<in> set (ds_lru s)" "sd_key e = key" using shape_entry [OF sh] by blast
    obtain ys zs where x: "ds_lru s = ys @ (a, e) # zs" "list_Remove a (ds_lru s) = ys @ zs" "MoveToFront a (ds_lru s) = (a, e) # ys @ zs"
      "filter (\<lambda>x. sd_key x \<noteq> sd_key e) (order_of_use s) = map snd (ys @ zs)" "find (\<lambda>x. sd_key x = sd_key e) (order_of_use s) = Some e"
      by (rule shape_split [OF sh e(1)])
    have at: "elem_at a s = Some e" using shape_elem [OF sh] e(1) by simp
    show ?thesis
    proof (cases "now < cr_Expires (sd_Record e)")
      case True
      then show ?thesis using Some at x(3-5) e(2) shape_front [OF sh x(1)] assms
        by (simp add: store_get_def spec_get_def store_ok_def same_config_def order_of_use_def Let_def)
    next
      case False
      obtain s1 where s1: "store_remove a s = Some s1" "shape s1" "ds_lru s1 = ys @ zs" "same_config s s1"
        using store_remove_shape [OF sh e(1)] x(2) by auto
      have "length (ds_entries s1) \<le> length (ds_entries s)" using shape_length [OF s1(2)] shape_length [OF sh] s1(3) x(1) by simp
      then show ?thesis using False Some at x(4,5) e(2) s1 assms
        by (auto simp: store_get_def spec_get_def store_ok_def same_config_def order_of_use_def Let_def)
    qed
  qed
qed

definition room :: "('k, 'v) store \<Rightarrow> int \<Rightarrow> ('k, 'v) stored list \<Rightarrow> bool" where
  "room s bytes xs \<longleftrightarrow> int (length xs) < ds_limit s \<and> (ds_memoryLimit s > 0 \<longrightarrow> sum_list (map sd_bytes xs) + bytes \<le> ds_memoryLimit s)"

lemma fits_room: "fits s bytes xs = room s bytes (map snd xs)"
  by (simp add: fits_def room_def total_bytes_def comp_def)

definition accepts :: "('k, 'v) store \<Rightarrow> int \<Rightarrow> bool" where
  "accepts s bytes \<longleftrightarrow> 0 < ds_limit s \<and> 0 \<le> bytes \<and> (ds_memoryLimit s > 0 \<longrightarrow> bytes \<le> ds_memoryLimit s)"

lemma update_new: "k \<notin> fst ` set al \<Longrightarrow> AList.update k v al = al @ [(k, v)]"
  by (induction al) auto

text \<open>Adding a new element in front of a store that has room for it.\<close>

lemma shape_push:
  fixes s :: "('k, 'v) store" and rec :: "'v cache_record"
  assumes s: "shape s" and new: "key \<notin> sd_key ` set (order_of_use s)" and r: "fits s bytes (ds_lru s)" and b: "0 \<le> bytes"
  defines "s' \<equiv> s\<lparr>ds_entries := AList.update key (ds_next s) (ds_entries s),
      ds_lru := (ds_next s, \<lparr>sd_key = key, sd_Record = rec, sd_bytes = bytes\<rparr>) # ds_lru s, ds_bytes := i64 (ds_bytes s + bytes), ds_next := Suc (ds_next s)\<rparr>"
  shows "store_ok s'"
proof -
  have k: "key \<notin> fst ` set (ds_entries s)"
    using s new by (auto simp: shape_def order_of_use_def image_image split_beta)
  have "ds_next s \<notin> fst ` set (ds_lru s)" using s by (auto simp: shape_def)
  moreover have "key \<notin> (sd_key \<circ> snd) ` set (ds_lru s)" using new by (simp add: order_of_use_def image_image)
  moreover have "\<forall>(a, e) \<in> set (ds_lru s). a < Suc (ds_next s) \<and> 0 \<le> sd_bytes e" using s by (force simp: shape_def)
  ultimately have "shape s'"
    using s k r b unfolding shape_def s'_def by (auto simp: update_new fits_def i64_add_right add.commute)
  moreover have "int (length (ds_entries s')) \<le> ds_limit s'"
    using r shape_length [OF s] by (simp add: s'_def update_new [OF k] fits_def)
  ultimately show ?thesis by (simp add: store_ok_def)
qed

lemma store_Put_spec:
  assumes "store_ok s" "accepts s bytes"
  shows "\<exists>s' n. store_Put key rec bytes s = Some (s', True) \<and> store_ok s' \<and> same_config s s' \<and>
    order_of_use s' = \<lparr>sd_key = key, sd_Record = rec, sd_bytes = bytes\<rparr> # take n (filter (\<lambda>e. sd_key e \<noteq> key) (order_of_use s)) \<and>
    room s bytes (take n (filter (\<lambda>e. sd_key e \<noteq> key) (order_of_use s))) \<and>
    (n < length (filter (\<lambda>e. sd_key e \<noteq> key) (order_of_use s)) \<longrightarrow> \<not> room s bytes (take (Suc n) (filter (\<lambda>e. sd_key e \<noteq> key) (order_of_use s))))"
proof -
  have sh: "shape s" using assms(1) by (simp add: store_ok_def)
  have "\<exists>s1. (case map_of (ds_entries s) key of None \<Rightarrow> Some s | Some old \<Rightarrow> store_remove old s) = Some s1 \<and> shape s1 \<and> same_config s s1 \<and>
      order_of_use s1 = filter (\<lambda>e. sd_key e \<noteq> key) (order_of_use s)"
  proof (cases "map_of (ds_entries s) key")
    case None
    then have "filter (\<lambda>e. sd_key e \<noteq> key) (order_of_use s) = order_of_use s"
      using shape_find_None [OF sh None] by (auto simp: find_None_iff filter_id_conv)
    then show ?thesis using None sh by (simp add: same_config_def)
  next
    case (Some a)
    then obtain e where e: "(a, e) \<in> set (ds_lru s)" "sd_key e = key" using shape_entry [OF sh] by blast
    obtain ys zs where x: "list_Remove a (ds_lru s) = ys @ zs" "filter (\<lambda>x. sd_key x \<noteq> sd_key e) (order_of_use s) = map snd (ys @ zs)"
      by (rule shape_split [OF sh e(1)])
    then show ?thesis using store_remove_shape [OF sh e(1)] Some e(2) by (auto simp: order_of_use_def)
  qed
  then obtain s1 where s1: "(case map_of (ds_entries s) key of None \<Rightarrow> Some s | Some old \<Rightarrow> store_remove old s) = Some s1" "shape s1" "same_config s s1"
    "order_of_use s1 = filter (\<lambda>e. sd_key e \<noteq> key) (order_of_use s)" by blast
  have r: "room s1 = room s" using s1(3) by (auto simp: room_def same_config_def fun_eq_iff)
  obtain s2 n where s2: "evict bytes s1 = Some s2" "shape s2" "same_config s1 s2" "ds_lru s2 = take n (ds_lru s1)"
    "fits s1 bytes (take n (ds_lru s1))" "n < length (ds_lru s1) \<longrightarrow> \<not> fits s1 bytes (take (Suc n) (ds_lru s1))"
    using evict_shape [OF s1(2), of bytes] assms(2) s1(3) by (auto simp: accepts_def same_config_def)
  have o2: "order_of_use s2 = take n (filter (\<lambda>e. sd_key e \<noteq> key) (order_of_use s))"
    using s2(4) s1(4) [symmetric] by (simp add: order_of_use_def take_map)
  define s' where "s' = s2\<lparr>ds_entries := AList.update key (ds_next s2) (ds_entries s2),
      ds_lru := (ds_next s2, \<lparr>sd_key = key, sd_Record = rec, sd_bytes = bytes\<rparr>) # ds_lru s2, ds_bytes := i64 (ds_bytes s2 + bytes), ds_next := Suc (ds_next s2)\<rparr>"
  have ok: "store_ok s'"
    unfolding s'_def
  proof (rule shape_push [OF s2(2)])
    show "key \<notin> sd_key ` set (order_of_use s2)" unfolding o2 using set_take_subset by fastforce
    show "fits s2 bytes (ds_lru s2)" using s2(3-5) by (simp add: fits_def same_config_def)
  qed (use assms(2) in \<open>simp add: accepts_def\<close>)
  have p: "store_Put key rec bytes s = Some (s', True)"
    using assms(2) s1(1) s2(1) by (auto simp: store_Put_def accepts_def s'_def)
  have len: "length (ds_lru s1) = length (filter (\<lambda>e. sd_key e \<noteq> key) (order_of_use s))" using s1(4) by (metis length_map order_of_use_def)
  have "same_config s s'" using s1(3) s2(3) by (simp add: same_config_def s'_def)
  moreover have "order_of_use s' = \<lparr>sd_key = key, sd_Record = rec, sd_bytes = bytes\<rparr> # take n (filter (\<lambda>e. sd_key e \<noteq> key) (order_of_use s))"
    using o2 by (simp add: s'_def order_of_use_def)
  moreover have "fits s1 bytes (take m (ds_lru s1)) = room s bytes (take m (filter (\<lambda>e. sd_key e \<noteq> key) (order_of_use s)))" for m
    unfolding fits_room r take_map [symmetric] s1(4) [unfolded order_of_use_def [of s1], symmetric] ..
  ultimately show ?thesis using p ok s2(5,6) len by (intro exI [of _ s'] exI [of _ n]) simp
qed

lemma expire_loop_shape:
  "shape s \<Longrightarrow> distinct order \<Longrightarrow> set order \<subseteq> fst ` set (ds_lru s) \<Longrightarrow>
   \<exists>s'. expire_loop now order s = Some s' \<and> shape s' \<and> same_config s s' \<and>
     ds_lru s' = filter (\<lambda>(a, e). a \<notin> set order \<or> now < cr_Expires (sd_Record e)) (ds_lru s)"
proof (induction order arbitrary: s)
  case Nil
  then show ?case by (simp add: same_config_def case_prod_unfold)
next
  case (Cons a order)
  obtain e where e: "(a, e) \<in> set (ds_lru s)" using Cons.prems(3) by auto
  have at: "elem_at a s = Some e" using shape_elem [OF Cons.prems(1)] e by simp
  have d: "distinct (map fst (ds_lru s))" using Cons.prems(1) by (simp add: shape_def)
  have only: "e' = e" if "(a, e') \<in> set (ds_lru s)" for e' using d e that eq_key_imp_eq_value by metis
  show ?case
  proof (cases "now < cr_Expires (sd_Record e)")
    case True
    obtain s' where s': "expire_loop now order s = Some s'" "shape s'" "same_config s s'"
      "ds_lru s' = filter (\<lambda>(a, e). a \<notin> set order \<or> now < cr_Expires (sd_Record e)) (ds_lru s)"
      using Cons.IH [OF Cons.prems(1)] Cons.prems(2,3) by auto
    have "filter (\<lambda>(a, e). a \<notin> set order \<or> now < cr_Expires (sd_Record e)) (ds_lru s) =
        filter (\<lambda>(b, e). b \<notin> set (a # order) \<or> now < cr_Expires (sd_Record e)) (ds_lru s)"
      by (rule filter_cong [OF refl]) (use True only in auto)
    then show ?thesis using at True s' by (intro exI [of _ s']) simp
  next
    case False
    obtain s1 where s1: "store_remove a s = Some s1" "shape s1" "ds_lru s1 = list_Remove a (ds_lru s)" "same_config s s1"
      using store_remove_shape [OF Cons.prems(1) e] by auto
    define s2 where "s2 = s1\<lparr>ds_expired := ds_expired s1 + 1\<rparr>"
    have "set order \<subseteq> fst ` set (ds_lru s2)"
      using Cons.prems(2,3) s1(3) by (force simp: s2_def list_Remove_def)
    then obtain s' where s': "expire_loop now order s2 = Some s'" "shape s'" "same_config s2 s'"
      "ds_lru s' = filter (\<lambda>(a, e). a \<notin> set order \<or> now < cr_Expires (sd_Record e)) (ds_lru s2)"
      using Cons.IH [of s2] Cons.prems(2) s1(2) by (auto simp: s2_def)
    have "filter (\<lambda>(a, e). a \<notin> set order \<or> now < cr_Expires (sd_Record e)) (ds_lru s2) =
        filter (\<lambda>(b, e). b \<notin> set (a # order) \<or> now < cr_Expires (sd_Record e)) (ds_lru s)"
      unfolding s2_def using False only s1(3) by (auto simp: list_Remove_def intro!: filter_cong)
    then show ?thesis using at False s1 s' by (intro exI [of _ s']) (simp add: s2_def same_config_def)
  qed
qed

lemma Expire_spec:
  assumes "store_ok s" "distinct order" "set order = snd ` set (ds_entries s)"
  shows "\<exists>s'. Expire now order s = Some s' \<and> store_ok s' \<and> same_config s s' \<and>
    order_of_use s' = filter (\<lambda>e. now < cr_Expires (sd_Record e)) (order_of_use s)"
proof -
  have sh: "shape s" using assms(1) by (simp add: store_ok_def)
  then have o: "set order = fst ` set (ds_lru s)" using assms(3) by (auto simp: shape_def image_image split_beta)
  obtain s' where s': "expire_loop now order s = Some s'" "shape s'" "same_config s s'"
    "ds_lru s' = filter (\<lambda>(a, e). a \<notin> set order \<or> now < cr_Expires (sd_Record e)) (ds_lru s)"
    using expire_loop_shape [OF sh assms(2)] o by blast
  have l: "ds_lru s' = filter (\<lambda>x. now < cr_Expires (sd_Record (snd x))) (ds_lru s)"
    unfolding s'(4) o by (rule filter_cong) (force simp: split_beta)+
  have "length (ds_lru s') \<le> length (ds_lru s)" unfolding l by simp
  then have "store_ok s'" using assms(1) s'(2,3) shape_length [OF s'(2)] shape_length [OF sh] by (auto simp: store_ok_def same_config_def)
  moreover have "order_of_use s' = filter (\<lambda>e. now < cr_Expires (sd_Record e)) (order_of_use s)"
    by (simp add: l order_of_use_def filter_map comp_def)
  ultimately show ?thesis using s' by (auto simp: Expire_def)
qed

section \<open>Reachable stores\<close>

inductive store_reach :: "int \<Rightarrow> int \<Rightarrow> ('k, 'v) store \<Rightarrow> bool" for limit memory where
  reach_new: "store_reach limit memory (NewStore limit memory)"
| reach_get: "store_reach limit memory s \<Longrightarrow> store_get key now countMiss s = Some (s', r) \<Longrightarrow> store_reach limit memory s'"
| reach_put: "store_reach limit memory s \<Longrightarrow> store_Put key rec bytes s = Some (s', ok) \<Longrightarrow> store_reach limit memory s'"
| reach_expire: "store_reach limit memory s \<Longrightarrow> distinct order \<Longrightarrow> set order = snd ` set (ds_entries s) \<Longrightarrow> Expire now order s = Some s' \<Longrightarrow>
    store_reach limit memory s'"

lemma Put_rejects: "\<not> accepts s bytes \<Longrightarrow> store_Put key rec bytes s = Some (s, False)"
  by (auto simp: store_Put_def accepts_def)

lemma store_Put_ok:
  assumes "store_ok s"
  shows "\<exists>s' ok. store_Put key rec bytes s = Some (s', ok) \<and> store_ok s' \<and> same_config s s'"
  using store_Put_spec [OF assms] Put_rejects [of s bytes] assms by (cases "accepts s bytes") (fastforce simp: same_config_def)+

lemma reach_ok: "store_reach limit memory s \<Longrightarrow> memory < 2 ^ 63 \<Longrightarrow> store_ok s \<and> ds_limit s = limit \<and> ds_memoryLimit s = memory"
proof (induction rule: store_reach.induct)
  case reach_new
  then show ?case by (simp add: store_ok_def shape_def NewStore_def i64_def)
next
  case (reach_get s key now countMiss s' r)
  then show ?case using store_get_spec [of s key now countMiss] by (auto simp: same_config_def)
next
  case (reach_put s key rec bytes s' ok)
  then show ?case using store_Put_ok [of s key rec bytes] by (auto simp: same_config_def)
next
  case (reach_expire s order now s')
  then show ?case using Expire_spec [of s order now] by (auto simp: same_config_def)
qed

text \<open>
  Claim C18: in every state that a store reaches from its creation by lookups, insertions and expiry, in any order,
  the map and the list hold the same elements: a key is mapped to an address exactly when the element at that address
  in the list has this key, and no address and no key occurs twice. The entries never exceed a positive limit. The
  accounted bytes are the 64-bit sum of those of the elements; with a positive memory limit the sum is exact and
  never exceeds it.
\<close>

theorem store_reach_invariant:
  assumes "store_reach limit memory s" "memory < 2 ^ 63"
  shows "(\<forall>key a. map_of (ds_entries s) key = Some a \<longleftrightarrow> (\<exists>e. (a, e) \<in> set (ds_lru s) \<and> sd_key e = key)) \<and>
    distinct (map fst (ds_entries s)) \<and> distinct (map fst (ds_lru s)) \<and> distinct (map sd_key (order_of_use s)) \<and>
    int (length (ds_entries s)) \<le> max 0 limit \<and> length (ds_lru s) = length (ds_entries s) \<and>
    ds_bytes s = i64 (sum_list (map sd_bytes (order_of_use s))) \<and>
    (0 < memory \<longrightarrow> ds_bytes s = sum_list (map sd_bytes (order_of_use s)) \<and> ds_bytes s \<le> memory)"
proof -
  have ok: "store_ok s" "ds_limit s = limit" "ds_memoryLimit s = memory" using reach_ok [OF assms] by blast+
  then have sh: "shape s" by (simp add: store_ok_def)
  have sum: "sum_list (map sd_bytes (order_of_use s)) = total_bytes (ds_lru s)" by (simp add: total_bytes_def order_of_use_def comp_def)
  have "0 \<le> total_bytes (ds_lru s)" using sh by (intro total_bytes_nonneg) (auto simp: shape_def)
  then have "0 < memory \<longrightarrow> ds_bytes s = total_bytes (ds_lru s) \<and> ds_bytes s \<le> memory"
    using sh ok(3) assms(2) i64_id [of "total_bytes (ds_lru s)"] by (auto simp: shape_def)
  moreover have "\<forall>key a. map_of (ds_entries s) key = Some a \<longleftrightarrow> (\<exists>e. (a, e) \<in> set (ds_lru s) \<and> sd_key e = key)" using shape_entry [OF sh] by blast
  moreover have "distinct (map fst (ds_entries s))" "distinct (map fst (ds_lru s))" "distinct (map sd_key (order_of_use s))" "ds_bytes s = i64 (total_bytes (ds_lru s))"
    using sh by (simp_all add: shape_def order_of_use_def)
  moreover have "int (length (ds_entries s)) \<le> max 0 limit" "length (ds_lru s) = length (ds_entries s)"
    using ok shape_length [OF sh] by (simp_all add: store_ok_def)
  ultimately show ?thesis unfolding sum by blast
qed

text \<open>A store with two entries, the first of them used last.\<close>

definition sample_record :: "nat \<Rightarrow> nat cache_record" where
  "sample_record v = \<lparr>cr_Value = v, cr_ReceivedAt = 0, cr_Expires = 60\<rparr>"

definition sample_store :: "(string, nat) store" where
  "sample_store =
     \<lparr>ds_entries = [(''a'', 0), (''b'', 1)], ds_lru = [(0, \<lparr>sd_key = ''a'', sd_Record = sample_record 1, sd_bytes = 10\<rparr>), (1, \<lparr>sd_key = ''b'', sd_Record = sample_record 2, sd_bytes = 20\<rparr>)],
      ds_limit = 2, ds_memoryLimit = 40, ds_bytes = 30, ds_hits = 1, ds_misses = 0, ds_expired = 0, ds_evicted = 0, ds_next = 2\<rparr>"

lemma sample_store_reach: "store_reach 2 40 sample_store"
proof -
  define s0 where "s0 = (NewStore 2 40 :: (string, nat) store)"
  define s1 where "s1 = fst (the (store_Put ''a'' (sample_record 1) 10 s0))"
  define s2 where "s2 = fst (the (store_Put ''b'' (sample_record 2) 20 s1))"
  have 1: "store_Put ''a'' (sample_record 1) 10 s0 = Some (s1, True)"
    by (simp add: s1_def s0_def NewStore_def store_Put_def evict.simps store_full_def i64_def)
  have 2: "store_Put ''b'' (sample_record 2) 20 s1 = Some (s2, True)"
    by (simp add: s2_def s1_def s0_def NewStore_def store_Put_def evict.simps store_full_def i64_def)
  have 3: "store_get ''a'' 5 True s2 = Some (sample_store, Some (sample_record 1))"
    by (simp add: s2_def s1_def s0_def NewStore_def store_Put_def evict.simps store_full_def i64_def store_get_def elem_at_def sample_record_def
        sample_store_def MoveToFront_def)
  show ?thesis
    using reach_get [OF reach_put [OF reach_put [OF reach_new 1 [unfolded s0_def]] 2] 3] .
qed

theorem store_reach_invariant_witness:
  "store_reach 2 40 sample_store \<and> (\<exists>e. (1, e) \<in> set (ds_lru sample_store) \<and> sd_key e = ''b'') \<and> ds_bytes sample_store \<le> 40"
proof -
  have "map_of (ds_entries sample_store) ''b'' = Some 1" by (simp add: sample_store_def)
  moreover have "(2 :: int) ^ 63 > 40" "(0 :: int) < 40" by simp_all
  ultimately show ?thesis using sample_store_reach store_reach_invariant [OF sample_store_reach] by blast
qed

text \<open>
  Claim C23: no operation on a reachable store can fail: lookups find the element the map names, and eviction never
  takes the last element of an empty list, because the element to insert fits an empty store.
\<close>

theorem store_never_panics:
  assumes "store_reach limit memory s" "memory < 2 ^ 63"
  shows "store_get key now countMiss s \<noteq> None \<and> store_Put key rec bytes s \<noteq> None \<and> Peek key s \<noteq> None"
proof -
  have ok: "store_ok s" using reach_ok [OF assms] by blast
  have "Peek key s \<noteq> None"
    using ok shape_entry [of s key] shape_elem [of s] by (fastforce simp: Peek_def store_ok_def split: option.splits)
  then show ?thesis using store_get_spec [OF ok, of key now countMiss] store_Put_ok [OF ok, of key rec bytes] by auto
qed

theorem store_never_panics_witness:
  "store_reach 2 40 sample_store \<and> store_Put ''c'' (sample_record 3) 15 sample_store \<noteq> None"
  using sample_store_reach store_never_panics [OF sample_store_reach, of "''c''" 5 True "sample_record 3" 15] by simp

text \<open>
  Claim C24: lookup on the two linked structures refines lookup on the plain list of elements in order of use: a live
  entry is returned and becomes the most recent one, an expired one is removed, and nothing else changes.
\<close>

theorem store_get_refines:
  assumes "store_reach limit memory s" "memory < 2 ^ 63"
  shows "\<exists>s' r. store_get key now countMiss s = Some (s', r) \<and> (order_of_use s', r) = spec_get key now (order_of_use s)"
  using store_get_spec [of s key now countMiss] reach_ok [OF assms] by blast

theorem store_get_refines_witness:
  "\<exists>s' r. store_get ''b'' 5 True sample_store = Some (s', r) \<and> (order_of_use s', r) = spec_get ''b'' 5 (order_of_use sample_store)"
  using store_get_refines [OF sample_store_reach, of "''b''" 5 True] by simp

text \<open>
  Claim C19: an accepted insertion puts the new element in front, replaces an element of the same key, and evicts
  exactly as many least recently used elements as the limits demand: what is kept is a prefix of the order of use
  that leaves room for the new element, and one element more would not.
\<close>

theorem store_Put_evicts_least_recent:
  assumes "store_reach limit memory s" "memory < 2 ^ 63" "accepts s bytes"
  shows "\<exists>s' n. store_Put key rec bytes s = Some (s', True) \<and>
    order_of_use s' = \<lparr>sd_key = key, sd_Record = rec, sd_bytes = bytes\<rparr> # take n (filter (\<lambda>e. sd_key e \<noteq> key) (order_of_use s)) \<and>
    room s bytes (take n (filter (\<lambda>e. sd_key e \<noteq> key) (order_of_use s))) \<and>
    (n < length (filter (\<lambda>e. sd_key e \<noteq> key) (order_of_use s)) \<longrightarrow> \<not> room s bytes (take (Suc n) (filter (\<lambda>e. sd_key e \<noteq> key) (order_of_use s))))"
  using store_Put_spec [of s bytes key rec] reach_ok [OF assms(1,2)] assms(3) by blast

theorem store_Put_evicts_least_recent_witness:
  "accepts sample_store 15 \<and> (\<exists>s' n. store_Put ''c'' (sample_record 3) 15 sample_store = Some (s', True) \<and>
     order_of_use s' = \<lparr>sd_key = ''c'', sd_Record = sample_record 3, sd_bytes = 15\<rparr> # take n (filter (\<lambda>e. sd_key e \<noteq> ''c'') (order_of_use sample_store)))"
proof -
  have "accepts sample_store 15" by (simp add: accepts_def sample_store_def)
  then show ?thesis using store_Put_evicts_least_recent [OF sample_store_reach, of 15 "''c''" "sample_record 3"] by fastforce
qed

end
