(* ===== verification/Dns_Cache.thy ===== *)
theory Dns_Cache
  imports Dns_Store
begin

text \<open>
  The response cache of \<^verbatim>\<open>pkg/dnscache\<close> (\<^verbatim>\<open>cache.go\<close>, \<^verbatim>\<open>policy.go\<close>, \<^verbatim>\<open>edns.go\<close>): which replies are cached and for how
  long, how a stored reply is aged, and how it is replayed for a query. Messages have the fields of the DNS library
  that the cache reads; packing, unpacking and the name functions of that library are a record of functions. Times
  are nanoseconds. A missing message, which every function refuses, is left out.
\<close>

section \<open>Messages\<close>

datatype rr_data = RD_SOA nat | RD_OPT "bytes list" | RD_Other bytes

record rr =
  rr_Name :: string
  rr_Rrtype :: nat
  rr_Class :: nat
  rr_Ttl :: nat
  rr_data :: rr_data

record question =
  qn_Name :: string
  qn_Qtype :: nat
  qn_Qclass :: nat

record msg_hdr =
  mg_Id :: nat
  mg_Response :: bool
  mg_Opcode :: nat
  mg_Truncated :: bool
  mg_Rcode :: nat
  mg_flags :: "bool list"

record dns_msg =
  dm_Hdr :: msg_hdr
  dm_Question :: "question list"
  dm_Answer :: "rr list"
  dm_Ns :: "rr list"
  dm_Extra :: "rr list"

text \<open>Numbers of the protocol.\<close>

definition TypeSIG :: nat where "TypeSIG = 24"
definition TypeOPT :: nat where "TypeOPT = 41"
definition TypeRRSIG :: nat where "TypeRRSIG = 46"
definition TypeTKEY :: nat where "TypeTKEY = 249"
definition TypeTSIG :: nat where "TypeTSIG = 250"
definition TypeIXFR :: nat where "TypeIXFR = 251"
definition TypeAXFR :: nat where "TypeAXFR = 252"
definition TypeANY :: nat where "TypeANY = 255"
definition ClassINET :: nat where "ClassINET = 1"
definition OpcodeQuery :: nat where "OpcodeQuery = 0"
definition RcodeSuccess :: nat where "RcodeSuccess = 0"
definition RcodeNameError :: nat where "RcodeNameError = 3"
definition max_u32 :: nat where "max_u32 = 4294967295"

record dns_lib =
  dn_Pack :: "dns_msg \<Rightarrow> bytes option"
  dn_Unpack :: "bytes \<Rightarrow> dns_msg option"
  dn_IsDomainName :: "string \<Rightarrow> bool"
  dn_CanonicalName :: "string \<Rightarrow> string"
  dn_Version :: "rr \<Rightarrow> nat"
  dn_UDPSize :: "rr \<Rightarrow> nat"
  dn_Do :: "rr \<Rightarrow> bool"
  dn_Len :: "rr \<Rightarrow> nat"
  dn_PackRR :: "rr \<Rightarrow> bytes option"
  dn_IsEdns0 :: "dns_msg \<Rightarrow> rr option"
  dn_SetEdns0 :: "nat \<Rightarrow> bool \<Rightarrow> dns_msg \<Rightarrow> dns_msg"

definition dm_sections :: "dns_msg \<Rightarrow> rr list" where
  "dm_sections m = dm_Answer m @ dm_Ns m @ dm_Extra m"

section \<open>Policy\<close>

definition Signed :: "dns_msg \<Rightarrow> bool" where
  "Signed m \<longleftrightarrow> list_ex (\<lambda>r. rr_Rrtype r \<in> {TypeRRSIG, TypeTSIG, TypeSIG}) (dm_sections m)"

text \<open>The minimum of the SOA records of a negative answer, or \<^const>\<open>None\<close> for the early return.\<close>

fun prepare_soa :: "rr list \<Rightarrow> nat \<Rightarrow> bool \<Rightarrow> (nat \<times> bool) option" where
  "prepare_soa [] ttl soa = Some (ttl, soa)"
| "prepare_soa (r # rs) ttl soa =
     (case rr_data r of
        RD_SOA minttl \<Rightarrow> if minttl \<ge> 2147483648 then None else prepare_soa rs (min ttl minttl) True
      | _ \<Rightarrow> prepare_soa rs ttl soa)"

fun prepare_ttls :: "rr list \<Rightarrow> nat \<Rightarrow> nat option" where
  "prepare_ttls [] ttl = Some ttl"
| "prepare_ttls (r # rs) ttl =
     (if rr_Rrtype r = TypeOPT then prepare_ttls rs ttl
      else if rr_Ttl r \<ge> 2147483648 then None
      else prepare_ttls rs (min ttl (rr_Ttl r)))"

definition clamp_soa :: "nat \<Rightarrow> rr \<Rightarrow> rr" where
  "clamp_soa ttl r = (case rr_data r of RD_SOA _ \<Rightarrow> r\<lparr>rr_Ttl := min (rr_Ttl r) ttl\<rparr> | _ \<Rightarrow> r)"

definition negative_answer :: "nat \<Rightarrow> dns_msg \<Rightarrow> bool" where
  "negative_answer qtype m \<longleftrightarrow> \<not> list_ex (\<lambda>r. rr_Rrtype r = qtype \<or> qtype = TypeANY) (dm_Answer m) \<or> mg_Rcode (dm_Hdr m) = RcodeNameError"

definition Prepare :: "nat \<Rightarrow> dns_msg \<Rightarrow> nat \<times> dns_msg" where
  "Prepare qtype m =
     (if \<not> mg_Response (dm_Hdr m) \<or> mg_Truncated (dm_Hdr m) \<or> Signed m \<or> (mg_Rcode (dm_Hdr m) \<noteq> RcodeSuccess \<and> mg_Rcode (dm_Hdr m) \<noteq> RcodeNameError)
      then (0, m)
      else let negative = negative_answer qtype m in
           case (if negative then prepare_soa (dm_Ns m) max_u32 False else Some (max_u32, False)) of
             None \<Rightarrow> (0, m)
           | Some (ttl0, soa) \<Rightarrow>
               (case prepare_ttls (dm_sections m) ttl0 of
                  None \<Rightarrow> (0, m)
                | Some ttl \<Rightarrow>
                    if ttl = max_u32 \<or> ttl = 0 \<or> negative \<and> \<not> soa then (0, m)
                    else (ttl, if negative then m\<lparr>dm_Ns := map (clamp_soa ttl) (dm_Ns m)\<rparr> else m)))"

definition age_rr :: "nat \<Rightarrow> rr \<Rightarrow> rr" where
  "age_rr elapsed r = (if rr_Rrtype r \<noteq> TypeOPT then r\<lparr>rr_Ttl := rr_Ttl r - min (rr_Ttl r) elapsed\<rparr> else r)"

definition Age :: "dns_msg \<Rightarrow> nat \<Rightarrow> dns_msg" where
  "Age m elapsed = m\<lparr>dm_Answer := map (age_rr elapsed) (dm_Answer m), dm_Ns := map (age_rr elapsed) (dm_Ns m), dm_Extra := map (age_rr elapsed) (dm_Extra m)\<rparr>"

section \<open>EDNS and query keys\<close>

fun edns_loop :: "dns_lib \<Rightarrow> rr list \<Rightarrow> rr option \<Rightarrow> rr option option" where
  "edns_loop lib [] result = Some result"
| "edns_loop lib (r # rs) result =
     (case rr_data r of
        RD_OPT _ \<Rightarrow> if result \<noteq> None \<or> rr_Name r \<noteq> ''.'' \<or> dn_Version lib r \<noteq> 0 then None else edns_loop lib rs (Some r)
      | _ \<Rightarrow> edns_loop lib rs result)"

text \<open>The OPT record, if any; \<^const>\<open>None\<close> is the result that is not ok.\<close>

definition EDNS :: "dns_lib \<Rightarrow> dns_msg \<Rightarrow> rr option option" where
  "EDNS lib m = edns_loop lib (dm_Extra m) None"

definition StripOPT :: "dns_msg \<Rightarrow> dns_msg" where
  "StripOPT m = m\<lparr>dm_Extra := filter (\<lambda>r. rr_Rrtype r \<noteq> TypeOPT) (dm_Extra m)\<rparr>"

definition Replay :: "dns_lib \<Rightarrow> dns_msg \<Rightarrow> dns_msg \<Rightarrow> dns_msg" where
  "Replay lib response query =
     (let r = StripOPT (response\<lparr>dm_Hdr := (dm_Hdr response)\<lparr>mg_Id := mg_Id (dm_Hdr query)\<rparr>, dm_Question := dm_Question query\<rparr>) in
      case dn_IsEdns0 lib query of None \<Rightarrow> r | Some opt \<Rightarrow> dn_SetEdns0 lib (dn_UDPSize lib opt) (dn_Do lib opt) r)"

record query_key =
  qk_Question :: question
  qk_Header :: msg_hdr
  qk_HasEDNS :: bool
  qk_UDPSize :: nat
  qk_EDNSFlags :: nat
  qk_Options :: bytes

fun rr_IsOPT :: "rr_data \<Rightarrow> bool" where
  "rr_IsOPT (RD_OPT _) = True"
| "rr_IsOPT _ = False"

fun opt_options :: "rr_data \<Rightarrow> bytes list" where
  "opt_options (RD_OPT opts) = opts"
| "opt_options _ = []"

definition QueryKey :: "dns_lib \<Rightarrow> dns_msg \<Rightarrow> query_key option" where
  "QueryKey lib m =
     (case dm_Question m of
        [q] \<Rightarrow>
          if mg_Response (dm_Hdr m) \<or> mg_Opcode (dm_Hdr m) \<noteq> OpcodeQuery \<or> qn_Qclass q \<noteq> ClassINET \<or> dm_Answer m \<noteq> [] \<or> dm_Ns m \<noteq> [] \<or>
             mg_Truncated (dm_Hdr m) \<or> mg_Rcode (dm_Hdr m) \<noteq> 0 then None
          else if qn_Qtype q \<in> {TypeAXFR, TypeIXFR, TypeTKEY} then None
          else if \<not> dn_IsDomainName lib (qn_Name q) then None
          else if \<not> list_all (\<lambda>r. rr_IsOPT (rr_data r)) (dm_Extra m) then None
          else (case EDNS lib m of
                  None \<Rightarrow> None
                | Some opt \<Rightarrow>
                    let key = \<lparr>qk_Question = q\<lparr>qn_Name := dn_CanonicalName lib (qn_Name q)\<rparr>, qk_Header = (dm_Hdr m)\<lparr>mg_Id := 0\<rparr>,
                               qk_HasEDNS = False, qk_UDPSize = 0, qk_EDNSFlags = 0, qk_Options = []\<rparr> in
                    (case opt of
                       None \<Rightarrow> Some key
                     | Some o1 \<Rightarrow>
                         let key1 = key\<lparr>qk_HasEDNS := True, qk_UDPSize := dn_UDPSize lib o1, qk_EDNSFlags := rr_Ttl o1\<rparr> in
                         if opt_options (rr_data o1) = [] then Some key1
                         else if dn_Len lib o1 > 4096 then None
                         else (case dn_PackRR lib o1 of None \<Rightarrow> None | Some wire \<Rightarrow> Some (key1\<lparr>qk_Options := wire\<rparr>))))
      | _ \<Rightarrow> None)"

section \<open>The cache\<close>

record cache_key =
  ck_Namespace :: string
  ck_Query :: query_key

type_synonym dns_cache = "(cache_key, bytes) store"

definition second :: int where "second = 1000000000"

definition Cache_New :: "int \<Rightarrow> int \<Rightarrow> dns_cache" where
  "Cache_New entries memoryBytes = NewStore (if memoryBytes \<le> 0 then 0 else entries) memoryBytes"

text \<open>\<^verbatim>\<open>Time.Sub\<close> saturates at the range of a duration; the quotient is converted to 32 bits.\<close>

definition elapsed_seconds :: "int \<Rightarrow> int \<Rightarrow> nat" where
  "elapsed_seconds now received =
     (let d = max (- (2 ^ 63)) (min (2 ^ 63 - 1) (now - received)) in
      nat (max 0 (if d < 0 then - ((- d) div second) else d div second) mod 4294967296))"

definition Cache_Get :: "dns_lib \<Rightarrow> cache_key \<Rightarrow> int \<Rightarrow> dns_cache \<Rightarrow> (dns_cache \<times> dns_msg option) option" where
  "Cache_Get lib key now c =
     (case store_Get key now c of
        None \<Rightarrow> None
      | Some (c1, None) \<Rightarrow> Some (c1, None)
      | Some (c1, Some e) \<Rightarrow>
          (case dn_Unpack lib (cr_Value e) of
             None \<Rightarrow> Some (c1, None)
           | Some m \<Rightarrow> Some (c1, Some (Age m (elapsed_seconds now (cr_ReceivedAt e))))))"

definition Cache_Put :: "dns_lib \<Rightarrow> cache_key \<Rightarrow> nat \<Rightarrow> dns_msg \<Rightarrow> int \<Rightarrow> dns_cache \<Rightarrow> (dns_cache \<times> bool) option" where
  "Cache_Put lib key qtype m received c =
     (if ds_limit c \<le> 0 \<or> ds_memoryLimit c \<le> 0 then Some (c, False)
      else let (ttl, m1) = Prepare qtype m in
           if ttl = 0 then Some (c, False)
           else case dn_Pack lib m1 of
             None \<Rightarrow> Some (c, False)
           | Some wire \<Rightarrow>
               let bytes = int (length wire + length (ck_Namespace key) + length (qn_Name (qk_Question (ck_Query key))) + length (qk_Options (ck_Query key)) + 512) in
               if bytes > ds_memoryLimit c then Some (c, False)
               else store_Put key \<lparr>cr_Value = wire, cr_ReceivedAt = received, cr_Expires = received + int ttl * second\<rparr> bytes c)"

section \<open>What the cache needs of a store\<close>

text \<open>
  The contract of a store of records: operations keep its invariant, a lookup returns an unexpired record that is
  held for the key, an accepted insertion leaves the inserted record as the only one of its key, and a rejected one
  adds nothing.
\<close>

locale record_store =
  fixes get :: "'k \<Rightarrow> int \<Rightarrow> 's \<Rightarrow> ('s \<times> 'v cache_record option) option"
    and put :: "'k \<Rightarrow> 'v cache_record \<Rightarrow> int \<Rightarrow> 's \<Rightarrow> ('s \<times> bool) option"
    and held :: "'s \<Rightarrow> ('k \<times> 'v cache_record) set"
    and inv :: "'s \<Rightarrow> bool"
  assumes get_law: "inv s \<Longrightarrow> \<exists>s' r. get key now s = Some (s', r) \<and> inv s' \<and> held s' \<subseteq> held s \<and> (\<forall>rec. r = Some rec \<longrightarrow> (key, rec) \<in> held s \<and> now < cr_Expires rec)"
    and put_law: "inv s \<Longrightarrow> \<exists>s' ok. put key rec bytes s = Some (s', ok) \<and> inv s' \<and> held s' \<subseteq> (if ok then insert (key, rec) {x \<in> held s. fst x \<noteq> key} else held s)"
begin

lemma get_provenance:
  assumes "inv s" "\<forall>(k, r) \<in> held s. P k r" "get key now s = Some (s', found)"
  shows "inv s'" "\<forall>(k, r) \<in> held s'. P k r" "found = Some rec \<Longrightarrow> P key rec \<and> now < cr_Expires rec"
proof -
  obtain s1 r where g: "get key now s = Some (s1, r)" "inv s1" "held s1 \<subseteq> held s" "\<forall>rec. r = Some rec \<longrightarrow> (key, rec) \<in> held s \<and> now < cr_Expires rec"
    using get_law [OF assms(1), of key now] by blast
  then show "inv s'" "\<forall>(k, r) \<in> held s'. P k r" "found = Some rec \<Longrightarrow> P key rec \<and> now < cr_Expires rec" using assms(2,3) by auto
qed

text \<open>What holds of the records carries over when it is kept for the other keys and holds of the inserted record.\<close>

lemma put_provenance:
  assumes "inv s" "\<forall>(k, r) \<in> held s. P k r" "put key rec bytes s = Some (s', ok)"
    and "ok \<Longrightarrow> P' key rec" "\<And>k r. ok \<Longrightarrow> k \<noteq> key \<Longrightarrow> P k r \<Longrightarrow> P' k r" "\<And>k r. \<not> ok \<Longrightarrow> P k r \<Longrightarrow> P' k r"
  shows "inv s'" "\<forall>(k, r) \<in> held s'. P' k r"
proof -
  have p: "inv s'" "held s' \<subseteq> (if ok then insert (key, rec) {x \<in> held s. fst x \<noteq> key} else held s)"
    using put_law [OF assms(1), of key rec bytes] assms(3) by auto
  then show "inv s'" by blast
  show "\<forall>(k, r) \<in> held s'. P' k r" using p(2) assms(2,4-6) by (cases ok) fastforce+
qed

end

definition store_held :: "('k, 'v) store \<Rightarrow> ('k \<times> 'v cache_record) set" where
  "store_held s = (\<lambda>e. (sd_key e, sd_Record e)) ` set (order_of_use s)"

lemma store_Get_law:
  assumes "store_ok s"
  shows "\<exists>s' r. store_Get key now s = Some (s', r) \<and> store_ok s' \<and> store_held s' \<subseteq> store_held s \<and>
    (\<forall>rec. r = Some rec \<longrightarrow> (key, rec) \<in> store_held s \<and> now < cr_Expires rec)"
proof -
  obtain s' r where g: "store_get key now True s = Some (s', r)" "store_ok s'" "(order_of_use s', r) = spec_get key now (order_of_use s)"
    using store_get_spec [OF assms, of key now True] by blast
  have "set (order_of_use s') \<subseteq> set (order_of_use s) \<and> (\<forall>rec. r = Some rec \<longrightarrow> (\<exists>e \<in> set (order_of_use s). sd_key e = key \<and> sd_Record e = rec \<and> now < cr_Expires rec))"
  proof (cases "find (\<lambda>e. sd_key e = key) (order_of_use s)")
    case None
    then show ?thesis using g(3) by (simp add: spec_get_def)
  next
    case (Some e)
    then have "e \<in> set (order_of_use s)" "sd_key e = key" by (auto simp: find_Some_iff)
    then show ?thesis using g(3) Some by (auto simp: spec_get_def Let_def split: if_splits)
  qed
  then show ?thesis using g(1,2) unfolding store_Get_def store_held_def by fastforce
qed

lemma store_Put_law:
  assumes "store_ok s"
  shows "\<exists>s' ok. store_Put key rec bytes s = Some (s', ok) \<and> store_ok s' \<and>
    store_held s' \<subseteq> (if ok then insert (key, rec) {x \<in> store_held s. fst x \<noteq> key} else store_held s)"
proof (cases "accepts s bytes")
  case True
  then obtain s' n where p: "store_Put key rec bytes s = Some (s', True)" "store_ok s'"
    "order_of_use s' = \<lparr>sd_key = key, sd_Record = rec, sd_bytes = bytes\<rparr> # take n (filter (\<lambda>e. sd_key e \<noteq> key) (order_of_use s))"
    using store_Put_spec [OF assms True, of key rec] by blast
  have "set (take n (filter (\<lambda>e. sd_key e \<noteq> key) (order_of_use s))) \<subseteq> {e \<in> set (order_of_use s). sd_key e \<noteq> key}"
    using set_take_subset [of n "filter (\<lambda>e. sd_key e \<noteq> key) (order_of_use s)"] by simp
  then have "store_held s' \<subseteq> insert (key, rec) {x \<in> store_held s. fst x \<noteq> key}" unfolding store_held_def p(3) by auto
  then show ?thesis using p(1,2) by (intro exI [of _ s'] exI [of _ True]) simp
next
  case False
  show ?thesis unfolding Put_rejects [OF False] using assms by auto
qed

interpretation answers: record_store store_Get store_Put store_held store_ok
  by unfold_locales (rule store_Get_law store_Put_law; assumption)+

section \<open>Lifetimes\<close>

lemma prepare_ttls_Cons:
  assumes "prepare_ttls (r # rs) ttl = Some t"
  shows "rr_Rrtype r = TypeOPT \<and> prepare_ttls rs ttl = Some t \<or> rr_Rrtype r \<noteq> TypeOPT \<and> rr_Ttl r < 2147483648 \<and> prepare_ttls rs (min ttl (rr_Ttl r)) = Some t"
  using assms by (cases "rr_Rrtype r = TypeOPT"; cases "rr_Ttl r \<ge> 2147483648") simp_all

lemma prepare_ttls_bounds:
  "prepare_ttls rs ttl = Some t \<Longrightarrow> t \<le> ttl \<and> (\<forall>r \<in> set rs. rr_Rrtype r \<noteq> TypeOPT \<longrightarrow> t \<le> rr_Ttl r \<and> rr_Ttl r < 2147483648)"
proof (induction rs arbitrary: ttl)
  case (Cons r rs)
  from prepare_ttls_Cons [OF Cons.prems] show ?case
  proof (elim disjE conjE)
    assume o: "rr_Rrtype r = TypeOPT" "prepare_ttls rs ttl = Some t"
    then show ?thesis using Cons.IH [OF o(2)] by simp
  next
    assume o: "rr_Rrtype r \<noteq> TypeOPT" "rr_Ttl r < 2147483648" "prepare_ttls rs (min ttl (rr_Ttl r)) = Some t"
    then show ?thesis using Cons.IH [OF o(3)] by simp
  qed
qed simp

lemma prepare_ttls_attained:
  "prepare_ttls rs ttl = Some t \<Longrightarrow> t = ttl \<or> (\<exists>r \<in> set rs. rr_Rrtype r \<noteq> TypeOPT \<and> t = rr_Ttl r)"
proof (induction rs arbitrary: ttl)
  case (Cons r rs)
  from prepare_ttls_Cons [OF Cons.prems] show ?case
  proof (elim disjE conjE)
    assume "prepare_ttls rs ttl = Some t"
    then show ?thesis using Cons.IH by auto
  next
    assume o: "rr_Rrtype r \<noteq> TypeOPT" "prepare_ttls rs (min ttl (rr_Ttl r)) = Some t"
    have "min ttl (rr_Ttl r) = ttl \<or> min ttl (rr_Ttl r) = rr_Ttl r" by linarith
    then show ?thesis using Cons.IH [OF o(2)] o(1) by auto
  qed
qed simp

lemma prepare_soa_bounds:
  "prepare_soa rs ttl soa = Some (t, found) \<Longrightarrow> t \<le> ttl \<and> (\<forall>r \<in> set rs. \<forall>n. rr_data r = RD_SOA n \<longrightarrow> t \<le> n \<and> n < 2147483648) \<and>
    (found \<longleftrightarrow> soa \<or> (\<exists>r \<in> set rs. \<exists>n. rr_data r = RD_SOA n))"
proof (induction rs arbitrary: ttl soa)
  case (Cons r rs)
  show ?case
  proof (cases "rr_data r")
    case (RD_SOA n)
    then have p: "prepare_soa rs (min ttl n) True = Some (t, found)" "n < 2147483648"
      using Cons.prems by (cases "n \<ge> 2147483648"; simp)+
    show ?thesis using Cons.IH [OF p(1)] RD_SOA p(2) by simp
  next
    case (RD_OPT x)
    then have "prepare_soa rs ttl soa = Some (t, found)" using Cons.prems by simp
    then show ?thesis using Cons.IH RD_OPT by simp
  next
    case (RD_Other x)
    then have "prepare_soa rs ttl soa = Some (t, found)" using Cons.prems by simp
    then show ?thesis using Cons.IH RD_Other by simp
  qed
qed simp

text \<open>The lifetime of a reply that is cached, and the message that is stored.\<close>

lemma Prepare_cases:
  assumes "Prepare qtype m = (ttl, m')" "ttl \<noteq> 0"
  shows "\<exists>ttl0 soa. ttl \<noteq> max_u32 \<and>
    (if negative_answer qtype m then prepare_soa (dm_Ns m) max_u32 False else Some (max_u32, False)) = Some (ttl0, soa) \<and>
    prepare_ttls (dm_sections m) ttl0 = Some ttl \<and> (negative_answer qtype m \<longrightarrow> soa) \<and>
    m' = (if negative_answer qtype m then m\<lparr>dm_Ns := map (clamp_soa ttl) (dm_Ns m)\<rparr> else m)"
proof -
  define start where "start = (if negative_answer qtype m then prepare_soa (dm_Ns m) max_u32 False else Some (max_u32, False))"
  have p: "(case start of None \<Rightarrow> (0, m) | Some (ttl0, soa) \<Rightarrow> (case prepare_ttls (dm_sections m) ttl0 of None \<Rightarrow> (0, m)
      | Some ttl \<Rightarrow> if ttl = max_u32 \<or> ttl = 0 \<or> negative_answer qtype m \<and> \<not> soa then (0, m)
          else (ttl, if negative_answer qtype m then m\<lparr>dm_Ns := map (clamp_soa ttl) (dm_Ns m)\<rparr> else m))) = (ttl, m')"
    using assms unfolding Prepare_def Let_def start_def [symmetric] by (simp split: if_split_asm)
  obtain ttl0 soa where s: "start = Some (ttl0, soa)" using p assms(2) by (cases start) auto
  obtain t where t: "prepare_ttls (dm_sections m) ttl0 = Some t" using p assms(2) s by (cases "prepare_ttls (dm_sections m) ttl0") auto
  have n: "\<not> (t = max_u32 \<or> t = 0 \<or> negative_answer qtype m \<and> \<not> soa)"
  proof
    assume c: "t = max_u32 \<or> t = 0 \<or> negative_answer qtype m \<and> \<not> soa"
    show False using p assms(2) unfolding s t option.case prod.case if_P [OF c] by simp
  qed
  have "t = ttl" "m' = (if negative_answer qtype m then m\<lparr>dm_Ns := map (clamp_soa ttl) (dm_Ns m)\<rparr> else m)"
    using p unfolding s t option.case prod.case if_not_P [OF n] prod.inject by blast+
  then show ?thesis using n s t unfolding start_def by blast
qed

lemma clamp_soa_same: "ttl \<le> rr_Ttl r \<Longrightarrow> rr_Ttl (clamp_soa ttl r) = (case rr_data r of RD_SOA _ \<Rightarrow> ttl | _ \<Rightarrow> rr_Ttl r)"
  "rr_Rrtype (clamp_soa ttl r) = rr_Rrtype r" "rr_data (clamp_soa ttl r) = rr_data r" "rr_Ttl (clamp_soa ttl r) \<le> rr_Ttl r"
  by (auto simp: clamp_soa_def split: rr_data.splits)

lemma Prepare_lifetime:
  assumes "Prepare qtype m = (ttl, m')" "ttl \<noteq> 0"
  shows "ttl < 2147483648" "\<forall>r \<in> set (dm_sections m). rr_Rrtype r \<noteq> TypeOPT \<longrightarrow> ttl \<le> rr_Ttl r"
    "\<forall>r \<in> set (dm_sections m'). rr_Rrtype r \<noteq> TypeOPT \<longrightarrow> ttl \<le> rr_Ttl r"
    "list_all2 (\<lambda>r r'. rr_Ttl r' \<le> rr_Ttl r \<and> rr_Rrtype r' = rr_Rrtype r \<and> rr_data r' = rr_data r) (dm_sections m) (dm_sections m')"
    "negative_answer qtype m \<Longrightarrow> (\<exists>r \<in> set (dm_Ns m). \<exists>n. rr_data r = RD_SOA n) \<and> (\<forall>r \<in> set (dm_Ns m). \<forall>n. rr_data r = RD_SOA n \<longrightarrow> ttl \<le> n)"
proof -
  obtain ttl0 soa where p: "ttl \<noteq> max_u32" "(if negative_answer qtype m then prepare_soa (dm_Ns m) max_u32 False else Some (max_u32, False)) = Some (ttl0, soa)"
    "prepare_ttls (dm_sections m) ttl0 = Some ttl" "negative_answer qtype m \<longrightarrow> soa"
    "m' = (if negative_answer qtype m then m\<lparr>dm_Ns := map (clamp_soa ttl) (dm_Ns m)\<rparr> else m)"
    using Prepare_cases [OF assms] by blast
  note b = prepare_ttls_bounds [OF p(3)]
  show lower: "\<forall>r \<in> set (dm_sections m). rr_Rrtype r \<noteq> TypeOPT \<longrightarrow> ttl \<le> rr_Ttl r" using b by blast
  have soas: "(\<exists>r \<in> set (dm_Ns m). \<exists>n. rr_data r = RD_SOA n) \<and> (\<forall>r \<in> set (dm_Ns m). \<forall>n. rr_data r = RD_SOA n \<longrightarrow> ttl \<le> n \<and> n < 2147483648)"
    if "negative_answer qtype m"
  proof -
    have q: "prepare_soa (dm_Ns m) max_u32 False = Some (ttl0, soa)" "soa" "ttl \<le> ttl0" using p(2,4) b that by simp_all
    show ?thesis using prepare_soa_bounds [OF q(1)] q(2,3) by (meson order_trans)
  qed
  then show "(\<exists>r \<in> set (dm_Ns m). \<exists>n. rr_data r = RD_SOA n) \<and> (\<forall>r \<in> set (dm_Ns m). \<forall>n. rr_data r = RD_SOA n \<longrightarrow> ttl \<le> n)"
    if "negative_answer qtype m" using that by blast
  have clamp: "rr_Rrtype r \<noteq> TypeOPT \<longrightarrow> ttl \<le> rr_Ttl (clamp_soa ttl r)" if "r \<in> set (dm_Ns m)" for r
    using lower that by (cases "rr_data r") (auto simp: dm_sections_def clamp_soa_def)
  show "\<forall>r \<in> set (dm_sections m'). rr_Rrtype r \<noteq> TypeOPT \<longrightarrow> ttl \<le> rr_Ttl r"
  proof (cases "negative_answer qtype m")
    case True
    then show ?thesis using p(5) lower clamp by (auto simp: dm_sections_def clamp_soa_same(2))
  qed (use p(5) lower in simp)
  show "list_all2 (\<lambda>r r'. rr_Ttl r' \<le> rr_Ttl r \<and> rr_Rrtype r' = rr_Rrtype r \<and> rr_data r' = rr_data r) (dm_sections m) (dm_sections m')"
    unfolding p(5) by (simp add: dm_sections_def list_all2_appendI list.rel_map clamp_soa_same list_all2_same)
  show "ttl < 2147483648"
  proof (cases "negative_answer qtype m")
    case True
    then show ?thesis using soas by (meson order_le_less_trans)
  next
    case False
    then have "ttl \<noteq> ttl0" using p(1,2) by simp
    then show ?thesis using prepare_ttls_attained [OF p(3)] b by auto
  qed
qed

section \<open>Answers of the cache\<close>

text \<open>
  The insertions that the cache accepted, the latest first: the key, the type of the query, the reply and the time of
  its receipt.
\<close>

type_synonym cache_log = "(cache_key \<times> nat \<times> dns_msg \<times> int) list"

inductive cache_reach :: "dns_lib \<Rightarrow> int \<Rightarrow> int \<Rightarrow> cache_log \<Rightarrow> dns_cache \<Rightarrow> bool" for lib entries memory where
  new: "cache_reach lib entries memory [] (Cache_New entries memory)"
| get: "cache_reach lib entries memory log c \<Longrightarrow> Cache_Get lib key now c = Some (c', r) \<Longrightarrow> cache_reach lib entries memory log c'"
| put: "cache_reach lib entries memory log c \<Longrightarrow> Cache_Put lib key qtype m received c = Some (c', ok) \<Longrightarrow>
    cache_reach lib entries memory (if ok then (key, qtype, m, received) # log else log) c'"

text \<open>A record of a key that the cache made of the reply inserted last under this key.\<close>

definition cached_from :: "dns_lib \<Rightarrow> cache_log \<Rightarrow> cache_key \<Rightarrow> bytes cache_record \<Rightarrow> bool" where
  "cached_from lib log key rec \<longleftrightarrow>
     (\<exists>qtype m ttl m'. map_of log key = Some (qtype, m, cr_ReceivedAt rec) \<and> Prepare qtype m = (ttl, m') \<and> ttl \<noteq> 0 \<and>
        dn_Pack lib m' = Some (cr_Value rec) \<and> cr_Expires rec = cr_ReceivedAt rec + int ttl * second)"

lemma NewStore_ok: "memory < 2 ^ 63 \<Longrightarrow> store_ok (NewStore limit memory)" "store_held (NewStore limit memory) = {}"
  by (simp_all add: store_ok_def shape_def NewStore_def i64_def store_held_def order_of_use_def)

lemma Cache_Get_store: "Cache_Get lib key now c = Some (c', r) \<Longrightarrow> \<exists>found. store_Get key now c = Some (c', found)"
  by (cases "store_Get key now c") (auto simp: Cache_Get_def split: option.splits)

lemma Cache_Put_store:
  assumes "Cache_Put lib key qtype m received c = Some (c', ok)"
  shows "c' = c \<and> \<not> ok \<or> (\<exists>rec bytes. store_Put key rec bytes c = Some (c', ok) \<and> cached_from lib ((key, qtype, m, received) # log) key rec)"
proof -
  obtain ttl m' where p: "Prepare qtype m = (ttl, m')" by fastforce
  show ?thesis
  proof (cases "(ds_limit c \<le> 0 \<or> ds_memoryLimit c \<le> 0) \<or> ttl = 0 \<or> dn_Pack lib m' = None")
    case True
    then show ?thesis using assms by (auto simp: Cache_Put_def p split: if_splits)
  next
    case False
    then obtain wire where w: "dn_Pack lib m' = Some wire" by blast
    define rec where "rec = \<lparr>cr_Value = wire, cr_ReceivedAt = received, cr_Expires = received + int ttl * second\<rparr>"
    have "cached_from lib ((key, qtype, m, received) # log) key rec" using p w False by (simp add: cached_from_def rec_def)
    moreover have "c' = c \<and> \<not> ok \<or> (\<exists>bytes. store_Put key rec bytes c = Some (c', ok))"
      using assms False w unfolding Cache_Put_def p prod.case Let_def by (simp add: rec_def [symmetric] split: if_split_asm) blast
    ultimately show ?thesis by blast
  qed
qed

lemma cached_from_other: "k \<noteq> key \<Longrightarrow> cached_from lib ((key, qtype, m, received) # log) k rec = cached_from lib log k rec"
  by (simp add: cached_from_def)

lemma cache_provenance:
  "cache_reach lib entries memory log c \<Longrightarrow> memory < 2 ^ 63 \<Longrightarrow> store_ok c \<and> (\<forall>(k, rec) \<in> store_held c. cached_from lib log k rec)"
proof (induction rule: cache_reach.induct)
  case new
  then show ?case unfolding Cache_New_def by (simp add: NewStore_ok)
next
  case (get log c key now c' r)
  obtain found where f: "store_Get key now c = Some (c', found)" using Cache_Get_store [OF get.hyps(2)] by blast
  have "store_ok c" "\<forall>(k, rec) \<in> store_held c. cached_from lib log k rec" using get by simp_all
  from answers.get_provenance(1,2) [OF this f] show ?case by blast
next
  case (put log c key qtype m received c' ok)
  have o: "store_ok c" "\<forall>(k, rec) \<in> store_held c. cached_from lib log k rec" using put by simp_all
  from Cache_Put_store [OF put.hyps(2), of log] show ?case
  proof (elim disjE exE conjE)
    fix rec bytes
    assume s: "store_Put key rec bytes c = Some (c', ok)" "cached_from lib ((key, qtype, m, received) # log) key rec"
    show ?thesis
      using answers.put_provenance [OF o s(1), where P' = "cached_from lib (if ok then (key, qtype, m, received) # log else log)"] s(2)
      by (simp add: cached_from_other)
  qed (use o in simp)
qed

lemma elapsed_exact:
  assumes "now < received + int ttl * second" "ttl < 2147483648" "ttl \<noteq> 0"
  shows "elapsed_seconds now received = nat ((now - received) div second)" "elapsed_seconds now received < ttl"
proof -
  have s: "second = 1000000000" by (simp add: second_def)
  define d where "d = now - received"
  have d: "d < int ttl * 1000000000" "int ttl * 1000000000 < 2 ^ 63" using assms(1,2) by (simp_all add: d_def s)
  have "elapsed_seconds now received = nat (d div 1000000000) \<and> nat (d div 1000000000) < ttl"
  proof (cases "d < 0")
    case True
    then have "elapsed_seconds now received = 0"
      unfolding elapsed_seconds_def d_def [symmetric] s Let_def by (simp add: min_def max_def pos_imp_zdiv_nonneg_iff)
    moreover have "d div 1000000000 \<le> 0" using True by simp
    ultimately show ?thesis using assms(3) by simp
  next
    case False
    define q where "q = d div 1000000000"
    have q: "0 \<le> q" "q < int ttl" using False d(1) unfolding q_def by linarith+
    have "max (- (2 ^ 63)) (min (2 ^ 63 - 1) d) = d" using False d by simp
    then have "elapsed_seconds now received = nat (max 0 q mod 4294967296)"
      using False unfolding elapsed_seconds_def d_def [symmetric] s Let_def q_def by simp
    moreover have "max 0 q mod 4294967296 = q" using q assms(2) by simp
    ultimately show ?thesis using q unfolding q_def [symmetric] by simp
  qed
  then show "elapsed_seconds now received = nat ((now - received) div second)" "elapsed_seconds now received < ttl"
    unfolding s d_def by simp_all
qed

lemma Age_sections: "dm_sections (Age m n) = map (age_rr n) (dm_sections m)"
  by (simp add: dm_sections_def Age_def)

lemma QueryKey_question:
  "QueryKey lib q = Some k \<Longrightarrow> \<exists>a. dm_Question q = [a] \<and> qk_Question k = a\<lparr>qn_Name := dn_CanonicalName lib (qn_Name a)\<rparr>"
  by (auto simp: QueryKey_def Let_def split: list.splits if_splits option.splits)

lemma Replay_shape:
  assumes "\<And>udp d m. \<exists>opt. rr_Rrtype opt = TypeOPT \<and> dn_SetEdns0 lib udp d m = m\<lparr>dm_Extra := dm_Extra m @ [opt]\<rparr>"
  shows "\<exists>tail. Replay lib response q = response\<lparr>dm_Hdr := (dm_Hdr response)\<lparr>mg_Id := mg_Id (dm_Hdr q)\<rparr>, dm_Question := dm_Question q,
      dm_Extra := filter (\<lambda>r. rr_Rrtype r \<noteq> TypeOPT) (dm_Extra response) @ tail\<rparr> \<and>
    (\<forall>r \<in> set tail. rr_Rrtype r = TypeOPT) \<and> length tail = (if dn_IsEdns0 lib q = None then 0 else 1)"
proof (cases "dn_IsEdns0 lib q")
  case None
  then show ?thesis by (intro exI [of _ "[]"]) (simp add: Replay_def StripOPT_def Let_def)
next
  case (Some opt)
  obtain opt1 where o: "rr_Rrtype opt1 = TypeOPT"
    "dn_SetEdns0 lib (dn_UDPSize lib opt) (dn_Do lib opt) (StripOPT (response\<lparr>dm_Hdr := (dm_Hdr response)\<lparr>mg_Id := mg_Id (dm_Hdr q)\<rparr>, dm_Question := dm_Question q\<rparr>)) =
      (let m = StripOPT (response\<lparr>dm_Hdr := (dm_Hdr response)\<lparr>mg_Id := mg_Id (dm_Hdr q)\<rparr>, dm_Question := dm_Question q\<rparr>) in m\<lparr>dm_Extra := dm_Extra m @ [opt1]\<rparr>)"
    unfolding Let_def using assms by blast
  then show ?thesis using Some by (intro exI [of _ "[opt1]"]) (simp add: Replay_def StripOPT_def Let_def)
qed

section \<open>Properties\<close>

text \<open>
  Claim C7: an answer of the cache is the reply inserted last under its key, aged. Whatever sequence of lookups and
  insertions leads to a cache, an answer for a key is made of the reply of the latest accepted insertion under this
  key: it is the prepared form of that reply, and every record but OPT has lost exactly the whole seconds since the
  receipt of that reply, which hits do not renew, and still has time to live, never more than the reply gave it. The
  lifetime of the reply has not ended. Unpacking is assumed to invert packing.
\<close>

theorem cache_answer_fresh:
  assumes "\<forall>m w. dn_Pack lib m = Some w \<longrightarrow> dn_Unpack lib w = Some m" "cache_reach lib entries memory log c" "memory < 2 ^ 63"
    and "Cache_Get lib key now c = Some (c', Some answer)"
  shows "\<exists>qtype m received ttl m' age. map_of log key = Some (qtype, m, received) \<and> Prepare qtype m = (ttl, m') \<and>
    age = nat ((now - received) div second) \<and> age < ttl \<and>
    dm_Hdr answer = dm_Hdr m' \<and> dm_Question answer = dm_Question m' \<and>
    list_all2 (\<lambda>r r'. r' = (if rr_Rrtype r = TypeOPT then r else r\<lparr>rr_Ttl := rr_Ttl r - age\<rparr>)) (dm_sections m') (dm_sections answer) \<and>
    list_all2 (\<lambda>r r'. rr_Rrtype r' = rr_Rrtype r \<and> rr_data r' = rr_data r \<and>
      (rr_Rrtype r \<noteq> TypeOPT \<longrightarrow> 0 < rr_Ttl r' \<and> rr_Ttl r' + age \<le> rr_Ttl r)) (dm_sections m) (dm_sections answer)"
proof -
  obtain rec where g: "store_Get key now c = Some (c', Some rec)"
    and u: "map_option (\<lambda>m. Age m (elapsed_seconds now (cr_ReceivedAt rec))) (dn_Unpack lib (cr_Value rec)) = Some answer"
    using assms(4) by (cases "store_Get key now c") (auto simp: Cache_Get_def split: option.splits)
  have o: "store_ok c" "\<forall>(k, rec) \<in> store_held c. cached_from lib log k rec" using cache_provenance [OF assms(2,3)] by blast+
  have "cached_from lib log key rec" "now < cr_Expires rec" using answers.get_provenance(3) [OF o g refl] by blast+
  then obtain qtype m ttl m' where c: "map_of log key = Some (qtype, m, cr_ReceivedAt rec)" "Prepare qtype m = (ttl, m')" "ttl \<noteq> 0"
    "dn_Pack lib m' = Some (cr_Value rec)" "now < cr_ReceivedAt rec + int ttl * second"
    by (auto simp: cached_from_def)
  define n where "n = nat ((now - cr_ReceivedAt rec) div second)"
  note l = Prepare_lifetime [OF c(2,3)]
  have e: "elapsed_seconds now (cr_ReceivedAt rec) = n" "n < ttl" using elapsed_exact [OF c(5) l(1) c(3)] by (simp_all add: n_def)
  have a: "answer = Age m' n" using u assms(1) c(4) e(1) by simp
  have "list_all2 (\<lambda>r r'. rr_Rrtype (age_rr n r') = rr_Rrtype r \<and> rr_data (age_rr n r') = rr_data r \<and>
      (rr_Rrtype r \<noteq> TypeOPT \<longrightarrow> 0 < rr_Ttl (age_rr n r') \<and> rr_Ttl (age_rr n r') + n \<le> rr_Ttl r)) (dm_sections m) (dm_sections m')"
    using l(4)
  proof (rule list.rel_mono_strong)
    fix r r' assume "r' \<in> set (dm_sections m')" and k: "rr_Ttl r' \<le> rr_Ttl r \<and> rr_Rrtype r' = rr_Rrtype r \<and> rr_data r' = rr_data r"
    then have "rr_Rrtype r' \<noteq> TypeOPT \<longrightarrow> n < rr_Ttl r'" using l(3) e(2) by (meson order_less_le_trans)
    then show "rr_Rrtype (age_rr n r') = rr_Rrtype r \<and> rr_data (age_rr n r') = rr_data r \<and>
      (rr_Rrtype r \<noteq> TypeOPT \<longrightarrow> 0 < rr_Ttl (age_rr n r') \<and> rr_Ttl (age_rr n r') + n \<le> rr_Ttl r)"
      using k by (auto simp: age_rr_def)
  qed
  then have "list_all2 (\<lambda>r r'. rr_Rrtype r' = rr_Rrtype r \<and> rr_data r' = rr_data r \<and>
      (rr_Rrtype r \<noteq> TypeOPT \<longrightarrow> 0 < rr_Ttl r' \<and> rr_Ttl r' + n \<le> rr_Ttl r)) (dm_sections m) (dm_sections answer)"
    by (simp add: a Age_sections list.rel_map)
  moreover have "list_all2 (\<lambda>r r'. r' = (if rr_Rrtype r = TypeOPT then r else r\<lparr>rr_Ttl := rr_Ttl r - n\<rparr>)) (dm_sections m') (dm_sections answer)"
    unfolding a Age_sections list.rel_map by (rule list.rel_refl) (simp add: age_rr_def min_def)
  moreover have "dm_Hdr answer = dm_Hdr m'" "dm_Question answer = dm_Question m'" by (simp_all add: a Age_def)
  ultimately show ?thesis using c(1,2) e(2) n_def by blast
qed

text \<open>A reply with one address that lives five minutes, and a library that packs only it.\<close>

definition sample_reply :: dns_msg where
  "sample_reply = \<lparr>dm_Hdr = \<lparr>mg_Id = 7, mg_Response = True, mg_Opcode = 0, mg_Truncated = False, mg_Rcode = 0, mg_flags = []\<rparr>, dm_Question = [],
     dm_Answer = [\<lparr>rr_Name = ''a.'', rr_Rrtype = 1, rr_Class = 1, rr_Ttl = 300, rr_data = RD_Other [1, 2, 3, 4]\<rparr>], dm_Ns = [], dm_Extra = []\<rparr>"

definition sample_opt :: "nat \<Rightarrow> rr" where
  "sample_opt udp = \<lparr>rr_Name = ''.'', rr_Rrtype = TypeOPT, rr_Class = udp, rr_Ttl = 0, rr_data = RD_OPT []\<rparr>"

text \<open>Queries for the same address with any identity, which negotiate EDNS.\<close>

definition sample_query :: "nat \<Rightarrow> dns_msg" where
  "sample_query n = \<lparr>dm_Hdr = \<lparr>mg_Id = n, mg_Response = False, mg_Opcode = 0, mg_Truncated = False, mg_Rcode = 0, mg_flags = [True]\<rparr>,
     dm_Question = [\<lparr>qn_Name = ''a.'', qn_Qtype = 1, qn_Qclass = 1\<rparr>], dm_Answer = [], dm_Ns = [], dm_Extra = [sample_opt 512]\<rparr>"

definition sample_query_key :: query_key where
  "sample_query_key = \<lparr>qk_Question = \<lparr>qn_Name = ''a.'', qn_Qtype = 1, qn_Qclass = 1\<rparr>,
     qk_Header = \<lparr>mg_Id = 0, mg_Response = False, mg_Opcode = 0, mg_Truncated = False, mg_Rcode = 0, mg_flags = [True]\<rparr>,
     qk_HasEDNS = True, qk_UDPSize = 512, qk_EDNSFlags = 0, qk_Options = []\<rparr>"

definition sample_dns :: dns_lib where
  "sample_dns = \<lparr>dn_Pack = (\<lambda>m. if m = sample_reply then Some [1] else None), dn_Unpack = (\<lambda>_. Some sample_reply), dn_IsDomainName = (\<lambda>_. True),
     dn_CanonicalName = (\<lambda>n. n), dn_Version = (\<lambda>_. 0), dn_UDPSize = (\<lambda>_. 512), dn_Do = (\<lambda>_. False), dn_Len = (\<lambda>_. 11), dn_PackRR = (\<lambda>_. None),
     dn_IsEdns0 = (\<lambda>m. find (\<lambda>r. rr_Rrtype r = TypeOPT) (dm_Extra m)), dn_SetEdns0 = (\<lambda>udp _ m. m\<lparr>dm_Extra := dm_Extra m @ [sample_opt udp]\<rparr>)\<rparr>"

definition sample_key :: cache_key where
  "sample_key = \<lparr>ck_Namespace = [], ck_Query = \<lparr>qk_Question = \<lparr>qn_Name = ''a.'', qn_Qtype = 1, qn_Qclass = 1\<rparr>,
     qk_Header = dm_Hdr sample_reply, qk_HasEDNS = False, qk_UDPSize = 0, qk_EDNSFlags = 0, qk_Options = []\<rparr>\<rparr>"

lemma sample_prepared: "Prepare 1 sample_reply = (300, sample_reply)"
  by (simp add: Prepare_def sample_reply_def Signed_def dm_sections_def negative_answer_def RcodeSuccess_def RcodeNameError_def TypeRRSIG_def TypeTSIG_def TypeSIG_def
      TypeOPT_def TypeANY_def max_u32_def Let_def)

lemma sample_cached:
  "\<exists>c c'. cache_reach sample_dns 4 4096 [(sample_key, 1, sample_reply, 0)] c \<and> Cache_Get sample_dns sample_key 5000000000 c = Some (c', Some (Age sample_reply 5))"
proof -
  have pack: "dn_Pack sample_dns sample_reply = Some [1]" "dn_Unpack sample_dns w = Some sample_reply" for w by (simp_all add: sample_dns_def)
  define rec where "rec = \<lparr>cr_Value = [1 :: u8], cr_ReceivedAt = 0, cr_Expires = int 300 * second\<rparr>"
  define bytes where "bytes = int (length ([1] :: bytes) + length (ck_Namespace sample_key) + length (qn_Name (qk_Question (ck_Query sample_key))) + length (qk_Options (ck_Query sample_key)) + 512)"
  have b: "bytes = 515" by (simp add: bytes_def sample_key_def)
  have new: "ds_limit (Cache_New 4 4096) = 4" "ds_memoryLimit (Cache_New 4 4096) = 4096" "ds_entries (Cache_New 4 4096) = []" "ds_bytes (Cache_New 4 4096) = 0"
    by (simp_all add: Cache_New_def NewStore_def)
  have nf: "\<not> store_full 515 (Cache_New 4 4096)" by (simp add: store_full_def new i64_id)
  define c where "c = (Cache_New 4 4096)\<lparr>ds_entries := [(sample_key, ds_next (Cache_New 4 4096))],
    ds_lru := (ds_next (Cache_New 4 4096), \<lparr>sd_key = sample_key, sd_Record = rec, sd_bytes = 515\<rparr>) # ds_lru (Cache_New 4 4096),
    ds_bytes := i64 515, ds_next := Suc (ds_next (Cache_New 4 4096))\<rparr>"
  have ev: "evict 515 (Cache_New 4 4096) = Some (Cache_New 4 4096)" by (subst evict.simps) (simp add: nf)
  have "store_Put sample_key rec 515 (Cache_New 4 4096) = Some (c, True)"
    by (simp add: store_Put_def new ev c_def)
  then have "Cache_Put sample_dns sample_key 1 sample_reply 0 (Cache_New 4 4096) = Some (c, True)"
    unfolding Cache_Put_def sample_prepared prod.case Let_def pack option.case bytes_def [symmetric] b by (simp add: new rec_def)
  then have r: "cache_reach sample_dns 4 4096 [(sample_key, 1, sample_reply, 0)] c" using cache_reach.put [OF cache_reach.new] by fastforce
  have "\<exists>c'. store_Get sample_key 5000000000 c = Some (c', Some rec)"
    by (simp add: store_Get_def store_get_def c_def elem_at_def rec_def second_def)
  then obtain c' where g: "store_Get sample_key 5000000000 c = Some (c', Some rec)" by blast
  have "elapsed_seconds 5000000000 0 = 5" by (simp add: elapsed_seconds_def second_def)
  then have "Cache_Get sample_dns sample_key 5000000000 c = Some (c', Some (Age sample_reply 5))"
    by (simp add: Cache_Get_def g pack rec_def)
  then show ?thesis using r by blast
qed

theorem cache_answer_fresh_witness:
  "\<exists>c c' answer. cache_reach sample_dns 4 4096 [(sample_key, 1, sample_reply, 0)] c \<and>
     Cache_Get sample_dns sample_key 5000000000 c = Some (c', Some answer) \<and> map rr_Ttl (dm_sections answer) = [295]"
proof -
  obtain c c' answer where c: "cache_reach sample_dns 4 4096 [(sample_key, 1, sample_reply, 0)] c" "Cache_Get sample_dns sample_key 5000000000 c = Some (c', Some answer)"
    using sample_cached by blast
  have p: "\<forall>m w. dn_Pack sample_dns m = Some w \<longrightarrow> dn_Unpack sample_dns w = Some m" "(4096 :: int) < 2 ^ 63" by (simp_all add: sample_dns_def)
  from cache_answer_fresh [OF p(1) c(1) p(2) c(2)] obtain qtype m received ttl m' age where
    a: "map_of [(sample_key, 1, sample_reply, 0)] sample_key = Some (qtype, m, received)" "Prepare qtype m = (ttl, m')" "age = nat ((5000000000 - received) div second)"
    "list_all2 (\<lambda>r r'. r' = (if rr_Rrtype r = TypeOPT then r else r\<lparr>rr_Ttl := rr_Ttl r - age\<rparr>)) (dm_sections m') (dm_sections answer)"
    by blast
  then have e: "m' = sample_reply" "age = 5" using sample_prepared by (auto simp: second_def)
  have "list_all2 (\<lambda>r r'. r' = (if rr_Rrtype r = TypeOPT then r else r\<lparr>rr_Ttl := rr_Ttl r - 5\<rparr>)) (dm_sections sample_reply) (dm_sections answer)"
    using a(4) unfolding e .
  then have "map rr_Ttl (dm_sections answer) = [295]" by (auto simp: dm_sections_def sample_reply_def TypeOPT_def list_all2_Cons1)
  then show ?thesis using c by (intro exI [of _ c] exI [of _ c'] exI [of _ answer]) simp
qed

text \<open>
  Claim C37: the lifetime of a cached reply is bounded by all its records: it is below 2^31 seconds and at most the
  time to live of every record but OPT; a negative answer is cached only with an SOA record and at most for its
  minimum. Preparation changes nothing but times to live, and only downwards.
\<close>

theorem Prepare_bounds:
  assumes "Prepare qtype m = (ttl, m')" "ttl \<noteq> 0"
  shows "ttl < 2147483648 \<and> (\<forall>r \<in> set (dm_sections m). rr_Rrtype r \<noteq> TypeOPT \<longrightarrow> ttl \<le> rr_Ttl r) \<and>
    (negative_answer qtype m \<longrightarrow> (\<exists>r \<in> set (dm_Ns m). \<exists>n. rr_data r = RD_SOA n) \<and> (\<forall>r \<in> set (dm_Ns m). \<forall>n. rr_data r = RD_SOA n \<longrightarrow> ttl \<le> n)) \<and>
    list_all2 (\<lambda>r r'. rr_Ttl r' \<le> rr_Ttl r \<and> rr_Rrtype r' = rr_Rrtype r \<and> rr_data r' = rr_data r) (dm_sections m) (dm_sections m')"
  using Prepare_lifetime [OF assms] by blast

theorem Prepare_bounds_witness:
  "Prepare 1 sample_reply = (300, sample_reply) \<and> (300 :: nat) \<noteq> 0 \<and> list_all (\<lambda>r. 300 \<le> rr_Ttl r) (dm_Answer sample_reply)"
proof -
  have "300 \<le> rr_Ttl r" if "r \<in> set (dm_Answer sample_reply)" for r
  proof -
    have "r \<in> set (dm_sections sample_reply)" "rr_Rrtype r \<noteq> TypeOPT" using that by (simp_all add: dm_sections_def sample_reply_def TypeOPT_def)
    then show ?thesis using Prepare_bounds [OF sample_prepared] by simp
  qed
  then show ?thesis using sample_prepared by (simp add: list_all_iff)
qed

text \<open>
  Claim C38: a stored response is replayed as an answer to the query at hand. When a response was stored under the key
  of one query and the key of another query is the same, the replay has the identity and the question of the second
  query, which asks for the same name up to its canonical form with the same type and class; it has the records of
  the response except its control data, and one OPT record exactly when the second query negotiates EDNS. The
  hypothesis is what the library documents: \<^verbatim>\<open>SetEdns0\<close> appends one OPT record to the additional section.
\<close>

theorem Replay_answers_query:
  assumes keys: "QueryKey lib q1 = Some k" "QueryKey lib q2 = Some k"
    and appends: "\<And>udp d m. \<exists>opt. rr_Rrtype opt = TypeOPT \<and> dn_SetEdns0 lib udp d m = m\<lparr>dm_Extra := dm_Extra m @ [opt]\<rparr>"
  shows "(\<exists>a b. dm_Question q1 = [a] \<and> dm_Question (Replay lib response q2) = [b] \<and> dm_Question q2 = [b] \<and>
      dn_CanonicalName lib (qn_Name a) = dn_CanonicalName lib (qn_Name b) \<and> qn_Qtype a = qn_Qtype b \<and> qn_Qclass a = qn_Qclass b) \<and>
    mg_Id (dm_Hdr (Replay lib response q2)) = mg_Id (dm_Hdr q2) \<and>
    dm_Answer (Replay lib response q2) = dm_Answer response \<and>
    dm_Ns (Replay lib response q2) = dm_Ns response \<and>
    filter (\<lambda>r. rr_Rrtype r \<noteq> TypeOPT) (dm_Extra (Replay lib response q2)) = filter (\<lambda>r. rr_Rrtype r \<noteq> TypeOPT) (dm_Extra response) \<and>
    length (filter (\<lambda>r. rr_Rrtype r = TypeOPT) (dm_Extra (Replay lib response q2))) = (if dn_IsEdns0 lib q2 = None then 0 else 1)"
proof -
  let ?r = "Replay lib response q2"
  obtain a b where ab: "dm_Question q1 = [a]" "dm_Question q2 = [b]" "a\<lparr>qn_Name := dn_CanonicalName lib (qn_Name a)\<rparr> = b\<lparr>qn_Name := dn_CanonicalName lib (qn_Name b)\<rparr>"
    using QueryKey_question [OF keys(1)] QueryKey_question [OF keys(2)] by metis
  obtain tail where r: "?r = response\<lparr>dm_Hdr := (dm_Hdr response)\<lparr>mg_Id := mg_Id (dm_Hdr q2)\<rparr>, dm_Question := dm_Question q2,
      dm_Extra := filter (\<lambda>r. rr_Rrtype r \<noteq> TypeOPT) (dm_Extra response) @ tail\<rparr>"
    and tail: "\<forall>r \<in> set tail. rr_Rrtype r = TypeOPT" "length tail = (if dn_IsEdns0 lib q2 = None then 0 else 1)"
    using Replay_shape [OF appends] by blast
  have "qn_Name (a\<lparr>qn_Name := dn_CanonicalName lib (qn_Name a)\<rparr>) = qn_Name (b\<lparr>qn_Name := dn_CanonicalName lib (qn_Name b)\<rparr>)"
    "qn_Qtype (a\<lparr>qn_Name := dn_CanonicalName lib (qn_Name a)\<rparr>) = qn_Qtype (b\<lparr>qn_Name := dn_CanonicalName lib (qn_Name b)\<rparr>)"
    "qn_Qclass (a\<lparr>qn_Name := dn_CanonicalName lib (qn_Name a)\<rparr>) = qn_Qclass (b\<lparr>qn_Name := dn_CanonicalName lib (qn_Name b)\<rparr>)"
    unfolding ab(3) by (rule refl)+
  then have 1: "\<exists>a b. dm_Question q1 = [a] \<and> dm_Question ?r = [b] \<and> dm_Question q2 = [b] \<and>
      dn_CanonicalName lib (qn_Name a) = dn_CanonicalName lib (qn_Name b) \<and> qn_Qtype a = qn_Qtype b \<and> qn_Qclass a = qn_Qclass b"
    using ab(1,2) r by simp
  have 2: "mg_Id (dm_Hdr ?r) = mg_Id (dm_Hdr q2)" "dm_Answer ?r = dm_Answer response" "dm_Ns ?r = dm_Ns response" unfolding r by simp_all
  have "filter (\<lambda>r. rr_Rrtype r \<noteq> TypeOPT) tail = []" "filter (\<lambda>r. rr_Rrtype r = TypeOPT) tail = tail"
    using tail(1) by (simp_all add: filter_empty_conv)
  then have 3: "filter (\<lambda>r. rr_Rrtype r \<noteq> TypeOPT) (dm_Extra ?r) = filter (\<lambda>r. rr_Rrtype r \<noteq> TypeOPT) (dm_Extra response)"
    "length (filter (\<lambda>r. rr_Rrtype r = TypeOPT) (dm_Extra ?r)) = (if dn_IsEdns0 lib q2 = None then 0 else 1)"
    unfolding r using tail(2) by simp_all
  show ?thesis using 1 2 3 by blast
qed

theorem Replay_answers_query_witness:
  "QueryKey sample_dns (sample_query 3) = Some sample_query_key \<and> QueryKey sample_dns (sample_query 7) = Some sample_query_key \<and>
    mg_Id (dm_Hdr (Replay sample_dns sample_reply (sample_query 7))) = 7 \<and>
    length (filter (\<lambda>r. rr_Rrtype r = TypeOPT) (dm_Extra (Replay sample_dns sample_reply (sample_query 7)))) = 1"
proof -
  have k: "QueryKey sample_dns (sample_query n) = Some sample_query_key" for n
    by (simp add: QueryKey_def EDNS_def sample_query_def sample_query_key_def sample_dns_def sample_opt_def OpcodeQuery_def ClassINET_def TypeAXFR_def TypeIXFR_def TypeTKEY_def)
  have a: "\<exists>opt. rr_Rrtype opt = TypeOPT \<and> dn_SetEdns0 sample_dns udp d m = m\<lparr>dm_Extra := dm_Extra m @ [opt]\<rparr>" for udp d m
    by (rule exI [of _ "sample_opt udp"]) (simp add: sample_dns_def sample_opt_def)
  have q: "mg_Id (dm_Hdr (sample_query 7)) = 7" "dn_IsEdns0 sample_dns (sample_query 7) \<noteq> None"
    by (simp_all add: sample_query_def sample_dns_def sample_opt_def)
  show ?thesis using Replay_answers_query [OF k [of 3] k [of 7] a, of sample_reply] k q by simp
qed

end
