(* ===== verification/Http2_Flow.thy ===== *)
theory Http2_Flow
  imports Go_Base
begin

text \<open>
  Flow control of HTTP/2 (\<^verbatim>\<open>internal/http2/flow.go\<close>): inbound windows with the credit that is not sent yet, and
  outbound windows of streams that share the window of their connection. A panic is \<^const>\<open>None\<close>; 32-bit arithmetic
  is written out with its wrap-around. A stream without a connection, which only tests have, is left out.
\<close>

section \<open>Signed 32-bit arithmetic\<close>

definition i32 :: "int \<Rightarrow> int" where
  "i32 x = (x + 2147483648) mod 4294967296 - 2147483648"

lemma i32_in_range [simp]: "- 2147483648 \<le> x \<Longrightarrow> x < 2147483648 \<Longrightarrow> i32 x = x"
  by (simp add: i32_def)

definition inflowMinRefresh :: int where "inflowMinRefresh = 4096"
definition maxFlowWindow :: int where "maxFlowWindow = 2147483647"
definition initialWindowSize :: int where "initialWindowSize = 65535"

section \<open>Inbound windows\<close>

record inflow =
  if_avail :: int
  if_unsent :: int

definition inflow_init :: "int \<Rightarrow> inflow" where
  "inflow_init n = \<lparr>if_avail = n, if_unsent = 0\<rparr>"

text \<open>The argument is a number of buffered bytes, far below the range of \<^verbatim>\<open>int64\<close>, in which the code adds: the two sums
  are exact, and only the conversions back to \<^verbatim>\<open>int32\<close> can change a value.\<close>

definition inflow_add :: "int \<Rightarrow> inflow \<Rightarrow> (inflow \<times> int) option" where
  "inflow_add n f =
     (if n < 0 then None
      else let unsent = if_unsent f + n in
           if unsent + if_avail f > maxFlowWindow then None
           else let f1 = f\<lparr>if_unsent := i32 unsent\<rparr> in
                if if_unsent f1 < inflowMinRefresh \<and> if_unsent f1 < if_avail f1 then Some (f1, 0)
                else Some (f1\<lparr>if_avail := i32 (if_avail f1 + if_unsent f1), if_unsent := 0\<rparr>, i32 unsent))"

definition inflow_take :: "int \<Rightarrow> inflow \<Rightarrow> bool \<times> inflow" where
  "inflow_take n f =
     (if n > if_avail f mod 4294967296 then (False, f)
      else (True, f\<lparr>if_avail := i32 (if_avail f - i32 n)\<rparr>))"

definition takeInflows :: "int \<Rightarrow> inflow \<Rightarrow> inflow \<Rightarrow> bool \<times> inflow \<times> inflow" where
  "takeInflows n f1 f2 =
     (if n > if_avail f1 mod 4294967296 \<or> n > if_avail f2 mod 4294967296 then (False, f1, f2)
      else (True, f1\<lparr>if_avail := i32 (if_avail f1 - i32 n)\<rparr>, f2\<lparr>if_avail := i32 (if_avail f2 - i32 n)\<rparr>))"

text \<open>
  The windows that a connection can reach, with the bytes that were returned to the window, those the peer sent, and
  those granted to the peer in window updates.
\<close>

inductive inflow_reach :: "int \<Rightarrow> inflow \<Rightarrow> int \<Rightarrow> int \<Rightarrow> int \<Rightarrow> bool" where
  start: "0 \<le> n \<Longrightarrow> n \<le> maxFlowWindow \<Longrightarrow> inflow_reach n (inflow_init n) 0 0 0"
| add: "inflow_reach n f added taken granted \<Longrightarrow> inflow_add k f = Some (f', u) \<Longrightarrow> inflow_reach n f' (added + k) taken (granted + u)"
| take: "inflow_reach n f added taken granted \<Longrightarrow> 0 \<le> k \<Longrightarrow> k < 4294967296 \<Longrightarrow> inflow_take k f = (True, f') \<Longrightarrow>
    inflow_reach n f' added (taken + k) granted"

lemma inflow_add_Some:
  assumes "0 \<le> if_avail f" "0 \<le> if_unsent f" "inflow_add k f = Some (f', u)"
  shows "0 \<le> k" "0 \<le> if_unsent f'" "if_unsent f' < inflowMinRefresh" "if_avail f' + if_unsent f' = if_avail f + if_unsent f + k" "if_avail f' = if_avail f + u"
    "0 \<le> u" "if_avail f' + if_unsent f' \<le> maxFlowWindow" "if_avail f = 0 \<Longrightarrow> if_unsent f' = 0"
  using assms by (auto simp: inflow_add_def Let_def maxFlowWindow_def inflowMinRefresh_def split: if_splits)

lemma inflow_take_Some:
  assumes "0 \<le> if_avail f" "if_avail f \<le> maxFlowWindow" "0 \<le> k"
  shows "k \<le> if_avail f \<Longrightarrow> inflow_take k f = (True, f\<lparr>if_avail := if_avail f - k\<rparr>)" "if_avail f < k \<Longrightarrow> inflow_take k f = (False, f)"
  using assms by (auto simp: inflow_take_def maxFlowWindow_def)

lemma inflow_invariant:
  "inflow_reach n f added taken granted \<Longrightarrow>
    0 \<le> if_avail f \<and> 0 \<le> if_unsent f \<and> if_unsent f < inflowMinRefresh \<and> if_avail f + if_unsent f \<le> maxFlowWindow \<and>
    if_avail f = n + granted - taken \<and> if_avail f + if_unsent f = n + added - taken \<and> n \<le> maxFlowWindow"
proof (induction rule: inflow_reach.induct)
  case (start n)
  then show ?case by (simp add: inflow_init_def inflowMinRefresh_def)
next
  case (add n f added taken granted k f' u)
  then have "0 \<le> if_avail f" "0 \<le> if_unsent f" by simp_all
  note a = inflow_add_Some [OF this add.hyps(2)]
  show ?case using a add.IH by linarith
next
  case (take n f added taken granted k f')
  have f: "0 \<le> if_avail f" "if_avail f \<le> maxFlowWindow" using take.IH by linarith+
  have "k \<le> if_avail f" using inflow_take_Some(2) [OF f take.hyps(2)] take.hyps(4) by fastforce
  then have "f' = f\<lparr>if_avail := if_avail f - k\<rparr>" using inflow_take_Some(1) [OF f take.hyps(2)] take.hyps(4) by simp
  then have "if_avail f' = if_avail f - k" "if_unsent f' = if_unsent f" by simp_all
  then show ?case using take.IH take.hyps(2) \<open>k \<le> if_avail f\<close> by linarith
qed

section \<open>Outbound windows\<close>

record connOutflow =
  co_initial :: int
  co_n :: int
  co_flowErr :: bool

definition connOutflow_init :: connOutflow where
  "connOutflow_init = \<lparr>co_initial = initialWindowSize, co_n = initialWindowSize, co_flowErr = False\<rparr>"

definition changeInitialWindowSize :: "int \<Rightarrow> connOutflow \<Rightarrow> bool \<times> connOutflow" where
  "changeInitialWindowSize window c =
     (if window > maxFlowWindow then (False, c\<lparr>co_flowErr := True\<rparr>) else (True, c\<lparr>co_initial := i32 window\<rparr>))"

definition connOutflow_add :: "int \<Rightarrow> connOutflow \<Rightarrow> bool \<times> connOutflow" where
  "connOutflow_add n c =
     (if co_n c + n > maxFlowWindow then (False, c\<lparr>co_flowErr := True\<rparr>) else (True, c\<lparr>co_n := i32 (co_n c + n)\<rparr>))"

text \<open>The operations of a stream take its delta and the shared window.\<close>

definition outflow_available :: "int \<Rightarrow> connOutflow \<Rightarrow> (int \<times> bool) \<times> connOutflow" where
  "outflow_available delta c =
     (if co_flowErr c then ((0, False), c)
      else let n = co_initial c + delta in
           if n > maxFlowWindow then ((0, False), c\<lparr>co_flowErr := True\<rparr>)
           else ((min (i32 n) (co_n c), True), c))"

definition outflow_take :: "int \<Rightarrow> int \<Rightarrow> connOutflow \<Rightarrow> (int \<times> connOutflow) option" where
  "outflow_take n delta c =
     (case outflow_available delta c of
        ((avail, _), c1) \<Rightarrow> if n > avail then None else Some (i32 (delta - n), c1\<lparr>co_n := i32 (co_n c1 - n)\<rparr>))"

definition outflow_add :: "int \<Rightarrow> int \<Rightarrow> connOutflow \<Rightarrow> bool \<times> int \<times> connOutflow" where
  "outflow_add n delta c =
     (let avail = co_initial c + delta in
      if avail > maxFlowWindow then (False, delta, c\<lparr>co_flowErr := True\<rparr>)
      else if avail + n > maxFlowWindow then (False, delta, c)
      else (True, i32 (delta + n), c))"

text \<open>
  The reachable windows of a connection and its streams. The last arguments are the credit granted to the
  connection, the bytes sent on it, the credit granted to every stream and the bytes sent on every stream.
\<close>

inductive outflow_reach :: "connOutflow \<Rightarrow> (nat \<Rightarrow> int) \<Rightarrow> int \<Rightarrow> int \<Rightarrow> (nat \<Rightarrow> int) \<Rightarrow> (nat \<Rightarrow> int) \<Rightarrow> bool" where
  start: "outflow_reach connOutflow_init (\<lambda>_. 0) 0 0 (\<lambda>_. 0) (\<lambda>_. 0)"
| settings: "outflow_reach c d g t gs ts \<Longrightarrow> 0 \<le> window \<Longrightarrow> changeInitialWindowSize window c = (ok, c') \<Longrightarrow> outflow_reach c' d g t gs ts"
| conn_update: "outflow_reach c d g t gs ts \<Longrightarrow> 0 \<le> k \<Longrightarrow> k \<le> maxFlowWindow \<Longrightarrow> connOutflow_add k c = (ok, c') \<Longrightarrow>
    outflow_reach c' d (if ok then g + k else g) t gs ts"
| stream_update: "outflow_reach c d g t gs ts \<Longrightarrow> 0 \<le> k \<Longrightarrow> k \<le> maxFlowWindow \<Longrightarrow> outflow_add k (d s) c = (ok, d', c') \<Longrightarrow>
    outflow_reach c' (d(s := d')) g t (if ok then gs(s := gs s + k) else gs) ts"
| send: "outflow_reach c d g t gs ts \<Longrightarrow> 0 \<le> k \<Longrightarrow> outflow_take k (d s) c = Some (d', c') \<Longrightarrow>
    outflow_reach c' (d(s := d')) g (t + k) gs (ts(s := ts s + k))"

definition streams_ok :: "(nat \<Rightarrow> int) \<Rightarrow> (nat \<Rightarrow> int) \<Rightarrow> (nat \<Rightarrow> int) \<Rightarrow> bool" where
  "streams_ok d gs ts \<longleftrightarrow> (\<forall>s. - maxFlowWindow \<le> d s \<and> d s \<le> maxFlowWindow \<and> d s = gs s - ts s)"

lemma streams_okD: "streams_ok d gs ts \<Longrightarrow> - maxFlowWindow \<le> d s" "streams_ok d gs ts \<Longrightarrow> d s \<le> maxFlowWindow" "streams_ok d gs ts \<Longrightarrow> d s = gs s - ts s"
  unfolding streams_ok_def by blast+

lemma streams_ok_upd:
  assumes "streams_ok d gs ts" "- maxFlowWindow \<le> d'" "d' \<le> maxFlowWindow" "d' = g' - t'"
  shows "streams_ok (d(s := d')) (gs(s := g')) (ts(s := t'))"
  unfolding streams_ok_def
proof (rule allI)
  fix r show "- maxFlowWindow \<le> (d(s := d')) r \<and> (d(s := d')) r \<le> maxFlowWindow \<and> (d(s := d')) r = (gs(s := g')) r - (ts(s := t')) r"
    using assms streams_okD [OF assms(1), of r] by (cases "r = s") auto
qed

definition outflow_ok :: "connOutflow \<Rightarrow> (nat \<Rightarrow> int) \<Rightarrow> int \<Rightarrow> int \<Rightarrow> (nat \<Rightarrow> int) \<Rightarrow> (nat \<Rightarrow> int) \<Rightarrow> bool" where
  "outflow_ok c d g t gs ts \<longleftrightarrow> 0 \<le> co_n c \<and> co_n c \<le> maxFlowWindow \<and> 0 \<le> co_initial c \<and> co_initial c \<le> maxFlowWindow \<and>
     co_n c = initialWindowSize + g - t \<and> streams_ok d gs ts"

lemma outflow_take_Some:
  assumes "0 \<le> co_initial c" "co_initial c \<le> maxFlowWindow" "- maxFlowWindow \<le> d" "d \<le> maxFlowWindow" "0 \<le> co_n c" "co_n c \<le> maxFlowWindow"
    "0 \<le> k" "outflow_take k d c = Some (d', c')"
  shows "d' = d - k" "k \<le> co_n c" "co_n c' = co_n c - k" "co_initial c' = co_initial c" "0 < k \<Longrightarrow> k \<le> co_initial c + d" "0 < k \<Longrightarrow> \<not> co_flowErr c" "- maxFlowWindow \<le> d'"
  using assms by (auto simp: outflow_take_def outflow_available_def Let_def maxFlowWindow_def min_def split: if_splits prod.splits)

lemma outflow_invariant: "outflow_reach c d g t gs ts \<Longrightarrow> outflow_ok c d g t gs ts"
proof (induction rule: outflow_reach.induct)
  case start
  show ?case by (simp add: outflow_ok_def streams_ok_def connOutflow_init_def initialWindowSize_def maxFlowWindow_def)
next
  case (settings c d g t gs ts window ok c')
  then show ?case by (auto simp: outflow_ok_def changeInitialWindowSize_def maxFlowWindow_def split: if_splits)
next
  case (conn_update c d g t gs ts k ok c')
  then show ?case by (auto simp: outflow_ok_def connOutflow_add_def maxFlowWindow_def split: if_splits)
next
  case (stream_update c d g t gs ts k s ok d' c')
  then have o: "outflow_ok c d g t gs ts" by blast
  then have s: "0 \<le> co_initial c" "co_initial c \<le> maxFlowWindow" "streams_ok d gs ts" by (simp_all add: outflow_ok_def)
  note ds = streams_okD [OF s(3), of s]
  show ?case
  proof (cases ok)
    case True
    then have "d' = d s + k" "d' \<le> maxFlowWindow" "c' = c"
      using stream_update.hyps(2-4) s(1) ds(1) by (auto simp: outflow_add_def Let_def maxFlowWindow_def split: if_splits)
    moreover from this have "streams_ok (d(s := d')) (gs(s := gs s + k)) ts"
      using streams_ok_upd [OF s(3), of d' "gs s + k" "ts s" s] ds stream_update.hyps(2) by simp
    ultimately show ?thesis using o unfolding outflow_ok_def if_P [OF True] by blast
  next
    case False
    then have "d' = d s" "co_n c' = co_n c" "co_initial c' = co_initial c"
      using stream_update.hyps(4) by (auto simp: outflow_add_def Let_def split: if_splits)
    then show ?thesis using o False by (simp add: outflow_ok_def)
  qed
next
  case (send c d g t gs ts k s d' c')
  then have o: "0 \<le> co_initial c" "co_initial c \<le> maxFlowWindow" "0 \<le> co_n c" "co_n c \<le> maxFlowWindow" "co_n c = initialWindowSize + g - t" "streams_ok d gs ts"
    by (simp_all add: outflow_ok_def)
  note ds = streams_okD [OF o(6), of s]
  note k = outflow_take_Some [OF o(1,2) ds(1,2) o(3,4) send.hyps(2,3)]
  have "streams_ok (d(s := d')) gs (ts(s := ts s + k))"
    using streams_ok_upd [OF o(6), of d' "gs s" "ts s + k" s] k(1,7) ds send.hyps(2) by simp
  moreover have "0 \<le> co_n c'" "co_n c' \<le> maxFlowWindow" "co_n c' = initialWindowSize + g - (t + k)" "0 \<le> co_initial c'" "co_initial c' \<le> maxFlowWindow"
    using o k send.hyps(2) by linarith+
  ultimately show ?case unfolding outflow_ok_def by blast
qed

section \<open>Properties\<close>

text \<open>
  Claim C14: inbound flow control accounts for every byte. Whatever sequence of returns and receipts leads to a
  window, the window that the peer sees is the initial one plus what was granted minus what the peer sent, fewer
  than 4096 bytes of credit are withheld, nothing wraps around, a receipt is accepted exactly when it fits, and
  returning bytes never panics as long as no more bytes are returned than the peer sent. An empty window is
  refilled by the next return.
\<close>

theorem inflow_accounting:
  assumes "inflow_reach n f added taken granted"
  shows "if_avail f = n + granted - taken \<and> if_avail f + if_unsent f = n + added - taken \<and>
    0 \<le> if_avail f \<and> 0 \<le> if_unsent f \<and> if_unsent f < inflowMinRefresh \<and> if_avail f + if_unsent f \<le> maxFlowWindow \<and>
    (\<forall>k \<ge> 0. fst (inflow_take k f) \<longleftrightarrow> k \<le> if_avail f) \<and>
    (\<forall>k \<ge> 0. added + k \<le> taken \<longrightarrow> (\<exists>f' u. inflow_add k f = Some (f', u) \<and> (if_avail f = 0 \<longrightarrow> if_avail f' = if_unsent f + k)))"
proof -
  have i: "0 \<le> if_avail f" "0 \<le> if_unsent f" "if_unsent f < inflowMinRefresh" "if_avail f + if_unsent f \<le> maxFlowWindow"
    "if_avail f = n + granted - taken" "if_avail f + if_unsent f = n + added - taken" "n \<le> maxFlowWindow"
    using inflow_invariant [OF assms] by blast+
  have m: "if_avail f \<le> maxFlowWindow" using i by linarith
  have t: "fst (inflow_take k f) \<longleftrightarrow> k \<le> if_avail f" if "0 \<le> k" for k
    using inflow_take_Some [OF i(1) m that] by (cases "k \<le> if_avail f") auto
  have a: "\<exists>f' u. inflow_add k f = Some (f', u) \<and> (if_avail f = 0 \<longrightarrow> if_avail f' = if_unsent f + k)" if k: "0 \<le> k" "added + k \<le> taken" for k
  proof -
    have "\<not> if_unsent f + k + if_avail f > maxFlowWindow" using i(6,7) k(2) by linarith
    then have "inflow_add k f \<noteq> None" using k(1) by (simp add: inflow_add_def Let_def)
    then obtain f' u where e: "inflow_add k f = Some (f', u)" by auto
    show ?thesis using e inflow_add_Some(4,8) [OF i(1,2) e] by auto
  qed
  show ?thesis using i t a by blast
qed

theorem inflow_accounting_witness:
  "\<exists>f. inflow_reach 10 f 5 6 0 \<and> if_avail f = 4 \<and> if_unsent f = 5"
proof -
  have 1: "inflow_reach 10 (inflow_init 10) 0 0 0" by (rule inflow_reach.start) (simp_all add: maxFlowWindow_def)
  have 2: "inflow_reach 10 \<lparr>if_avail = 10, if_unsent = 5\<rparr> (0 + 5) 0 (0 + 0)"
    by (rule inflow_reach.add [OF 1]) (simp add: inflow_add_def inflow_init_def Let_def maxFlowWindow_def inflowMinRefresh_def)
  have 3: "inflow_reach 10 \<lparr>if_avail = 4, if_unsent = 5\<rparr> (0 + 5) (0 + 6) (0 + 0)"
    by (rule inflow_reach.take [OF 2]) (simp_all add: inflow_take_def)
  then show ?thesis using inflow_accounting [OF 3] by auto
qed

text \<open>
  Claim C15: outbound flow control never sends more than it was granted. In every reachable state of a connection and
  its streams the bytes sent are covered by the initial window and the window updates of the connection, the windows
  stay in their range without wrap-around, sending what a stream may send never panics, and it stays within the
  initial window and the updates of that stream.
\<close>

theorem outflow_within_window:
  assumes "outflow_reach c d granted sent gs ts"
  shows "sent \<le> initialWindowSize + granted \<and> co_n c = initialWindowSize + granted - sent \<and> co_n c \<le> maxFlowWindow \<and>
    (\<forall>s k. 0 < k \<and> k \<le> fst (fst (outflow_available (d s) c)) \<longrightarrow>
      (\<exists>d' c'. outflow_take k (d s) c = Some (d', c') \<and> ts s + k \<le> co_initial c + gs s \<and> outflow_reach c' (d(s := d')) granted (sent + k) gs (ts(s := ts s + k))))"
proof -
  have o: "outflow_ok c d granted sent gs ts" by (rule outflow_invariant [OF assms])
  have s: "\<exists>d' c'. outflow_take k (d s) c = Some (d', c') \<and> ts s + k \<le> co_initial c + gs s \<and> outflow_reach c' (d(s := d')) granted (sent + k) gs (ts(s := ts s + k))"
    if k: "0 < k" "k \<le> fst (fst (outflow_available (d s) c))" for s k
  proof -
    have "outflow_take k (d s) c \<noteq> None" using k(2) by (auto simp: outflow_take_def split: prod.splits)
    then obtain d' c' where e: "outflow_take k (d s) c = Some (d', c')" by auto
    have r: "0 \<le> co_initial c" "co_initial c \<le> maxFlowWindow" "- maxFlowWindow \<le> d s" "d s \<le> maxFlowWindow" "0 \<le> co_n c" "co_n c \<le> maxFlowWindow" "d s = gs s - ts s"
      using o streams_okD [of d gs ts s] by (simp_all add: outflow_ok_def)
    have "k \<le> co_initial c + d s" using outflow_take_Some(5) [OF r(1-6) _ e] k(1) by simp
    moreover have "outflow_reach c' (d(s := d')) granted (sent + k) gs (ts(s := ts s + k))" using outflow_reach.send [OF assms _ e] k(1) by simp
    ultimately show ?thesis using e r(7) by auto
  qed
  show ?thesis using o s by (simp add: outflow_ok_def)
qed

theorem outflow_within_window_witness:
  "\<exists>c d. outflow_reach c d 100 0 (\<lambda>_. 0) (\<lambda>_. 0) \<and> co_n c = 65635 \<and> (\<exists>d' c'. outflow_take 1000 (d 1) c = Some (d', c'))"
proof -
  define c where "c = connOutflow_init\<lparr>co_n := 65635\<rparr>"
  have "connOutflow_add 100 connOutflow_init = (True, c)"
    by (simp add: connOutflow_add_def connOutflow_init_def initialWindowSize_def maxFlowWindow_def c_def)
  then have r: "outflow_reach c (\<lambda>_. 0) 100 0 (\<lambda>_. 0) (\<lambda>_. 0)"
    using outflow_reach.conn_update [OF outflow_reach.start, of 100 True c] by (simp add: maxFlowWindow_def)
  have w: "0 < k \<Longrightarrow> k \<le> fst (fst (outflow_available 0 c)) \<Longrightarrow> \<exists>d' c'. outflow_take k 0 c = Some (d', c')" for k
    using outflow_within_window [OF r] by blast
  have "fst (fst (outflow_available 0 c)) = 65535"
    by (simp add: outflow_available_def c_def connOutflow_init_def initialWindowSize_def maxFlowWindow_def Let_def)
  then have "\<exists>d' c'. outflow_take 1000 0 c = Some (d', c')" using w [of 1000] by simp
  moreover have "co_n c = 65635" by (simp add: c_def)
  ultimately show ?thesis using r by blast
qed

end
