(* ===== verification/Http2_Sched.thy ===== *)
theory Http2_Sched
  imports Http2_Flow
begin

text \<open>
  Queues of frames to write (\<^verbatim>\<open>internal/http2/writesched.go\<close>): a queue in two stages whose first frame is written as far
  as flow control and the frame size limit allow, and the splitting of a DATA frame that does not fit. Streams are
  named by their number; the windows of \<^verbatim>\<open>flow.go\<close> and the limit of the connection are an explicit state. A panic
  is \<^const>\<open>None\<close>. The order between the queues of different streams is not modelled.
\<close>

section \<open>Requests\<close>

text \<open>A zero request has no writer. Writers other than those of DATA and RST_STREAM frames are told apart by a number.\<close>

datatype writeFramer = WriteNil | WriteData nat bytes bool | WriteStreamError nat | WriteOther nat

record frameWriteRequest =
  fw_write :: writeFramer
  fw_stream :: "nat option"
  fw_done :: "nat option"

definition zero_request :: frameWriteRequest where
  "zero_request = \<lparr>fw_write = WriteNil, fw_stream = None, fw_done = None\<rparr>"

definition wr_StreamID :: "frameWriteRequest \<Rightarrow> nat" where
  "wr_StreamID wr =
     (case fw_stream wr of
        None \<Rightarrow> (case fw_write wr of WriteStreamError sid \<Rightarrow> sid | _ \<Rightarrow> 0)
      | Some s \<Rightarrow> s)"

definition isControl :: "frameWriteRequest \<Rightarrow> bool" where
  "isControl wr \<longleftrightarrow> fw_stream wr = None"

definition DataSize :: "frameWriteRequest \<Rightarrow> nat" where
  "DataSize wr = (case fw_write wr of WriteData _ p _ \<Rightarrow> length p | _ \<Rightarrow> 0)"

record sched_env =
  se_conn :: connOutflow
  se_delta :: "nat \<Rightarrow> int"
  se_maxFrameSize :: int

definition stream_take :: "int \<Rightarrow> nat \<Rightarrow> sched_env \<Rightarrow> sched_env option" where
  "stream_take n s env =
     (case outflow_take n (se_delta env s) (se_conn env) of
        None \<Rightarrow> None
      | Some (d, c) \<Rightarrow> Some (env\<lparr>se_conn := c, se_delta := (se_delta env)(s := d)\<rparr>))"

datatype consume_result = Consumed0 | Consumed1 frameWriteRequest | Consumed2 frameWriteRequest frameWriteRequest

text \<open>The bytes that the given limit, the window and the frame size allow.\<close>

definition allowed_bytes :: "int \<Rightarrow> int \<Rightarrow> sched_env \<Rightarrow> int" where
  "allowed_bytes n avail env = (let allowed = min n avail in if se_maxFrameSize env < allowed then se_maxFrameSize env else allowed)"

definition Consume_data :: "int \<Rightarrow> frameWriteRequest \<Rightarrow> nat \<Rightarrow> bytes \<Rightarrow> bool \<Rightarrow> nat \<Rightarrow> sched_env \<Rightarrow> (sched_env \<times> consume_result) option" where
  "Consume_data n wr sid p e s env =
     (case outflow_available (se_delta env s) (se_conn env) of
        ((avail, ok), c) \<Rightarrow>
          let env1 = env\<lparr>se_conn := c\<rparr>;
              allowed = allowed_bytes n avail env1 in
          if \<not> ok then Some (env1, Consumed0)
          else if allowed \<le> 0 then Some (env1, Consumed0)
          else if int (length p) > allowed
          then (case stream_take allowed s env1 of
                  None \<Rightarrow> None
                | Some env2 \<Rightarrow>
                    Some (env2, Consumed2 \<lparr>fw_write = WriteData sid (take (nat allowed) p) False, fw_stream = Some s, fw_done = None\<rparr>
                                          \<lparr>fw_write = WriteData sid (drop (nat allowed) p) e, fw_stream = Some s, fw_done = fw_done wr\<rparr>))
          else (case stream_take (i32 (int (length p))) s env1 of None \<Rightarrow> None | Some env2 \<Rightarrow> Some (env2, Consumed1 wr)))"

definition Consume :: "int \<Rightarrow> frameWriteRequest \<Rightarrow> sched_env \<Rightarrow> (sched_env \<times> consume_result) option" where
  "Consume n wr env =
     (case fw_write wr of
        WriteData sid p e \<Rightarrow>
          if p = [] then Some (env, Consumed1 wr)
          else (case fw_stream wr of None \<Rightarrow> None | Some s \<Rightarrow> Consume_data n wr sid p e s env)
      | _ \<Rightarrow> Some (env, Consumed1 wr))"

section \<open>Queues\<close>

record writeQueue =
  wq_currQueue :: "frameWriteRequest list"
  wq_nextQueue :: "frameWriteRequest list"
  wq_currPos :: nat

definition new_queue :: writeQueue where
  "new_queue = \<lparr>wq_currQueue = [], wq_nextQueue = [], wq_currPos = 0\<rparr>"

definition wq_empty :: "writeQueue \<Rightarrow> bool" where
  "wq_empty q \<longleftrightarrow> int (length (wq_currQueue q)) - int (wq_currPos q) + int (length (wq_nextQueue q)) = 0"

definition wq_push :: "frameWriteRequest \<Rightarrow> writeQueue \<Rightarrow> writeQueue" where
  "wq_push wr q = q\<lparr>wq_nextQueue := wq_nextQueue q @ [wr]\<rparr>"

definition wq_shift :: "writeQueue \<Rightarrow> (writeQueue \<times> frameWriteRequest) option" where
  "wq_shift q =
     (if wq_empty q then None
      else let q1 = (if wq_currPos q \<ge> length (wq_currQueue q) then \<lparr>wq_currQueue = wq_nextQueue q, wq_nextQueue = [], wq_currPos = 0\<rparr> else q) in
           if wq_currPos q1 < length (wq_currQueue q1)
           then Some (q1\<lparr>wq_currQueue := (wq_currQueue q1)[wq_currPos q1 := zero_request], wq_currPos := wq_currPos q1 + 1\<rparr>, wq_currQueue q1 ! wq_currPos q1)
           else None)"

definition wq_peek :: "writeQueue \<Rightarrow> frameWriteRequest option" where
  "wq_peek q =
     (if wq_currPos q < length (wq_currQueue q) then Some (wq_currQueue q ! wq_currPos q)
      else case wq_nextQueue q of [] \<Rightarrow> None | wr # _ \<Rightarrow> Some wr)"

text \<open>Assignment through the pointer that \<^verbatim>\<open>peek\<close> returns.\<close>

definition wq_poke :: "frameWriteRequest \<Rightarrow> writeQueue \<Rightarrow> writeQueue option" where
  "wq_poke wr q =
     (if wq_currPos q < length (wq_currQueue q) then Some (q\<lparr>wq_currQueue := (wq_currQueue q)[wq_currPos q := wr]\<rparr>)
      else case wq_nextQueue q of [] \<Rightarrow> None | _ # wrs \<Rightarrow> Some (q\<lparr>wq_nextQueue := wr # wrs\<rparr>))"

definition wq_consume :: "int \<Rightarrow> sched_env \<Rightarrow> writeQueue \<Rightarrow> (sched_env \<times> writeQueue \<times> frameWriteRequest option) option" where
  "wq_consume n env q =
     (if wq_empty q then Some (env, q, None)
      else case wq_peek q of
        None \<Rightarrow> None
      | Some wr \<Rightarrow>
          (case Consume n wr env of
             None \<Rightarrow> None
           | Some (env1, Consumed0) \<Rightarrow> Some (env1, q, None)
           | Some (env1, Consumed1 consumed) \<Rightarrow> (case wq_shift q of None \<Rightarrow> None | Some (q1, _) \<Rightarrow> Some (env1, q1, Some consumed))
           | Some (env1, Consumed2 consumed rest) \<Rightarrow> (case wq_poke rest q of None \<Rightarrow> None | Some q1 \<Rightarrow> Some (env1, q1, Some consumed))))"

section \<open>A queue is a list\<close>

definition items :: "writeQueue \<Rightarrow> frameWriteRequest list" where
  "items q = drop (wq_currPos q) (wq_currQueue q) @ wq_nextQueue q"

definition wq_ok :: "writeQueue \<Rightarrow> bool" where
  "wq_ok q \<longleftrightarrow> wq_currPos q \<le> length (wq_currQueue q)"

lemma wq_empty_items: "wq_ok q \<Longrightarrow> wq_empty q \<longleftrightarrow> items q = []"
  unfolding wq_empty_def items_def wq_ok_def length_0_conv [symmetric] length_append length_drop by linarith

lemma wq_push_items: "wq_ok q \<Longrightarrow> wq_ok (wq_push wr q)" "items (wq_push wr q) = items q @ [wr]"
  by (simp_all add: wq_ok_def wq_push_def items_def)

lemma wq_peek_items: "wq_ok q \<Longrightarrow> items q = wr # wrs \<Longrightarrow> wq_peek q = Some wr"
  by (auto simp: wq_ok_def wq_peek_def items_def Cons_nth_drop_Suc [symmetric])

lemma wq_shift_items: "wq_ok q \<Longrightarrow> items q = wr # wrs \<Longrightarrow> \<exists>q'. wq_shift q = Some (q', wr) \<and> wq_ok q' \<and> items q' = wrs"
  by (cases "wq_currPos q < length (wq_currQueue q)")
    (auto simp: wq_shift_def wq_empty_items Let_def items_def wq_ok_def Cons_nth_drop_Suc [symmetric])

lemma wq_poke_items: "wq_ok q \<Longrightarrow> items q = wr # wrs \<Longrightarrow> \<exists>q'. wq_poke r q = Some q' \<and> wq_ok q' \<and> items q' = r # wrs"
  by (cases "wq_currPos q < length (wq_currQueue q)")
    (auto simp: wq_poke_def items_def wq_ok_def Cons_nth_drop_Suc [symmetric] drop_update_swap)

section \<open>Consuming a request\<close>

text \<open>What a request puts on the wire, independently of how its data is split, and the reply to its writer.\<close>

datatype frame_event = EvByte nat u8 | EvEnd nat | EvFrame writeFramer | EvDone nat

definition flat :: "frameWriteRequest \<Rightarrow> frame_event list" where
  "flat wr =
     (case fw_write wr of WriteData sid p e \<Rightarrow> map (EvByte sid) p @ (if e then [EvEnd sid] else []) | w \<Rightarrow> [EvFrame w]) @
     (case fw_done wr of None \<Rightarrow> [] | Some d \<Rightarrow> [EvDone d])"

definition on_stream :: "frameWriteRequest \<Rightarrow> bool" where
  "on_stream wr \<longleftrightarrow> DataSize wr = 0 \<or> fw_stream wr \<noteq> None"

text \<open>Flow control lets no byte of the request pass.\<close>

definition blocked :: "frameWriteRequest \<Rightarrow> sched_env \<Rightarrow> bool" where
  "blocked wr env \<longleftrightarrow> DataSize wr > 0 \<and>
     (case fw_stream wr of
        None \<Rightarrow> False
      | Some s \<Rightarrow> (case outflow_available (se_delta env s) (se_conn env) of ((avail, ok), _) \<Rightarrow> \<not> ok \<or> avail \<le> 0))"

fun consumed_ok :: "int \<Rightarrow> frameWriteRequest \<Rightarrow> sched_env \<Rightarrow> consume_result \<Rightarrow> bool" where
  "consumed_ok n wr env Consumed0 \<longleftrightarrow> n \<le> 0 \<or> blocked wr env"
| "consumed_ok n wr env (Consumed1 c) \<longleftrightarrow> c = wr \<and> (DataSize c > 0 \<longrightarrow> int (DataSize c) \<le> min n (se_maxFrameSize env))"
| "consumed_ok n wr env (Consumed2 c r) \<longleftrightarrow> flat c @ flat r = flat wr \<and> DataSize c > 0 \<and> int (DataSize c) \<le> min n (se_maxFrameSize env) \<and> on_stream r"

fun consumed_size :: "consume_result \<Rightarrow> nat" where
  "consumed_size Consumed0 = 0"
| "consumed_size (Consumed1 c) = DataSize c"
| "consumed_size (Consumed2 c r) = DataSize c"

lemma available_ok:
  assumes "outflow_available d c = ((avail, True), c1)"
  shows "c1 = c" "avail \<le> co_n c"
  using assms by (auto simp: outflow_available_def Let_def split: if_splits)

lemma available_keeps:
  assumes "outflow_reach c d g t gs ts" "outflow_available (d s) c = ((avail, ok), c1)"
  shows "\<exists>ts. outflow_reach c1 d g t gs ts"
proof (cases ok)
  case True
  then have "c1 = c" using available_ok(1) [of "d s" c avail c1] assms(2) by simp
  then show ?thesis using assms(1) by blast
next
  case False
  have o: "outflow_ok c d g t gs ts" by (rule outflow_invariant [OF assms(1)])
  have r: "- maxFlowWindow \<le> d s" "d s \<le> maxFlowWindow" "0 \<le> co_n c" "co_n c \<le> maxFlowWindow"
    using o streams_okD [of d gs ts s] by (simp_all add: outflow_ok_def)
  have a: "avail = 0" "co_n c1 = co_n c" using assms(2) False by (auto simp: outflow_available_def Let_def split: if_splits)
  have "i32 (d s - 0) = d s" "i32 (co_n c1 - 0) = co_n c1" using r a by (simp_all add: maxFlowWindow_def)
  then have "outflow_take 0 (d s) c = Some (d s, c1)" unfolding outflow_take_def assms(2) a(1) by simp
  from outflow_reach.send [OF assms(1) _ this] show ?thesis by auto
qed

lemma stream_take_reach:
  assumes "outflow_reach (se_conn env) (se_delta env) g t gs ts" "outflow_available (se_delta env s) (se_conn env) = ((avail, True), c1)" "0 \<le> k" "k \<le> avail"
  shows "\<exists>env'. stream_take k s (env\<lparr>se_conn := c1\<rparr>) = Some env' \<and> se_maxFrameSize env' = se_maxFrameSize env \<and> (\<exists>ts. outflow_reach (se_conn env') (se_delta env') g (t + k) gs ts)"
proof -
  have c1: "c1 = se_conn env" by (rule available_ok(1) [OF assms(2)])
  have "outflow_take k (se_delta env s) (se_conn env) \<noteq> None" unfolding outflow_take_def assms(2) using assms(4) by simp
  then obtain d' c' where e: "outflow_take k (se_delta env s) (se_conn env) = Some (d', c')" by auto
  have "outflow_reach c' ((se_delta env)(s := d')) g (t + k) gs (ts(s := ts s + k))" by (rule outflow_reach.send [OF assms(1,3) e])
  then show ?thesis unfolding c1 by (auto simp: stream_take_def e)
qed

lemma Consume_data_spec:
  assumes r: "outflow_reach (se_conn env) (se_delta env) g t gs ts" and wr: "fw_write wr = WriteData sid p e" "p \<noteq> []" "fw_stream wr = Some s"
    and m: "0 < se_maxFrameSize env"
  shows "\<exists>env' res. Consume_data n wr sid p e s env = Some (env', res) \<and> se_maxFrameSize env' = se_maxFrameSize env \<and> consumed_ok n wr env res \<and>
    (\<exists>ts. outflow_reach (se_conn env') (se_delta env') g (t + int (consumed_size res)) gs ts)"
proof -
  obtain avail ok c1 where a: "outflow_available (se_delta env s) (se_conn env) = ((avail, ok), c1)" by (metis prod.exhaust)
  let ?a = "allowed_bytes n avail (env\<lparr>se_conn := c1\<rparr>)"
  have size: "DataSize wr = length p" by (simp add: DataSize_def wr(1))
  have k: "\<exists>ts. outflow_reach c1 (se_delta env) g t gs ts" by (rule available_keeps [OF r a])
  show ?thesis
  proof (cases "\<not> ok \<or> ?a \<le> 0")
    case True
    then have "Consume_data n wr sid p e s env = Some (env\<lparr>se_conn := c1\<rparr>, Consumed0)" by (auto simp: Consume_data_def a Let_def)
    moreover have "n \<le> 0 \<or> blocked wr env" using True m wr(2) by (auto simp: blocked_def wr(3) a size allowed_bytes_def Let_def split: if_splits)
    ultimately show ?thesis using k by simp
  next
    case False
    then have ok: "ok" "0 < ?a" by simp_all
    then have a: "outflow_available (se_delta env s) (se_conn env) = ((avail, True), c1)" using a by simp
    have l: "?a \<le> avail" "?a \<le> min n (se_maxFrameSize env)" by (auto simp: min_def allowed_bytes_def Let_def)
    show ?thesis
    proof (cases "int (length p) > ?a")
      case True
      obtain env2 where e: "stream_take ?a s (env\<lparr>se_conn := c1\<rparr>) = Some env2" "se_maxFrameSize env2 = se_maxFrameSize env" "\<exists>ts. outflow_reach (se_conn env2) (se_delta env2) g (t + ?a) gs ts"
        using stream_take_reach [OF r a less_imp_le [OF ok(2)] l(1)] by blast
      let ?c = "\<lparr>fw_write = WriteData sid (take (nat ?a) p) False, fw_stream = Some s, fw_done = None\<rparr>"
      let ?r = "\<lparr>fw_write = WriteData sid (drop (nat ?a) p) e, fw_stream = Some s, fw_done = fw_done wr\<rparr>"
      have "Consume_data n wr sid p e s env = Some (env2, Consumed2 ?c ?r)" unfolding Consume_data_def a prod.case Let_def using e(1) ok(2) True by simp
      moreover have "int (DataSize ?c) = ?a" using True ok(2) by (simp add: DataSize_def)
      moreover have "flat ?c @ flat ?r = flat wr" by (simp add: flat_def wr(1) take_map [symmetric] drop_map [symmetric])
      ultimately show ?thesis using e ok(2) l(2) by (intro exI [of _ env2] exI [of _ "Consumed2 ?c ?r"]) (simp add: on_stream_def)
    next
      case False
      have "co_n (se_conn env) \<le> maxFlowWindow" using outflow_invariant [OF r] by (simp add: outflow_ok_def)
      then have "int (length p) \<le> 2147483647" using False l(1) available_ok(2) [OF a] by (simp add: maxFlowWindow_def)
      then have i: "i32 (int (length p)) = int (length p)" by simp
      have "int (length p) \<le> avail" using False l(1) by linarith
      from stream_take_reach [OF r a of_nat_0_le_iff this] obtain env2 where
        e: "stream_take (int (length p)) s (env\<lparr>se_conn := c1\<rparr>) = Some env2" "se_maxFrameSize env2 = se_maxFrameSize env" "\<exists>ts. outflow_reach (se_conn env2) (se_delta env2) g (t + int (length p)) gs ts"
        by blast
      have "Consume_data n wr sid p e s env = Some (env2, Consumed1 wr)" unfolding Consume_data_def a prod.case Let_def i using e(1) ok(2) False by simp
      moreover have "int (length p) \<le> min n (se_maxFrameSize env)" using False l(2) by linarith
      ultimately show ?thesis using e size by (intro exI [of _ env2] exI [of _ "Consumed1 wr"]) simp
    qed
  qed
qed

lemma Consume_spec:
  assumes "outflow_reach (se_conn env) (se_delta env) g t gs ts" "on_stream wr" "0 < se_maxFrameSize env"
  shows "\<exists>env' res. Consume n wr env = Some (env', res) \<and> se_maxFrameSize env' = se_maxFrameSize env \<and> consumed_ok n wr env res \<and>
    (\<exists>ts. outflow_reach (se_conn env') (se_delta env') g (t + int (consumed_size res)) gs ts)"
proof (cases "DataSize wr = 0")
  case True
  then have "Consume n wr env = Some (env, Consumed1 wr)" by (auto simp: Consume_def DataSize_def split: writeFramer.splits)
  then show ?thesis using assms(1) True by auto
next
  case False
  then obtain sid p e where w: "fw_write wr = WriteData sid p e" "p \<noteq> []" by (auto simp: DataSize_def split: writeFramer.splits)
  obtain s where s: "fw_stream wr = Some s" using assms(2) False by (auto simp: on_stream_def)
  have "Consume n wr env = Consume_data n wr sid p e s env" by (simp add: Consume_def w s)
  then show ?thesis using Consume_data_spec [OF assms(1) w s assms(3)] by simp
qed

section \<open>Serving a queue\<close>

text \<open>
  The states that a connection reaches with one queue, the requests pushed and the frames taken out so far, and the
  credit granted to the connection. The peer changes windows and the limit of the frame size in between.
\<close>

inductive sched_reach :: "sched_env \<Rightarrow> writeQueue \<Rightarrow> frameWriteRequest list \<Rightarrow> frameWriteRequest list \<Rightarrow> int \<Rightarrow> bool" where
  start: "0 < m \<Longrightarrow> sched_reach \<lparr>se_conn = connOutflow_init, se_delta = (\<lambda>_. 0), se_maxFrameSize = m\<rparr> new_queue [] [] 0"
| push: "sched_reach env q ins outs g \<Longrightarrow> on_stream wr \<Longrightarrow> sched_reach env (wq_push wr q) (ins @ [wr]) outs g"
| consume: "sched_reach env q ins outs g \<Longrightarrow> wq_consume n env q = Some (env', q', Some wr) \<Longrightarrow> sched_reach env' q' ins (outs @ [wr]) g"
| wait: "sched_reach env q ins outs g \<Longrightarrow> wq_consume n env q = Some (env', q', None) \<Longrightarrow> sched_reach env' q' ins outs g"
| frame_size: "sched_reach env q ins outs g \<Longrightarrow> 0 < m \<Longrightarrow> sched_reach (env\<lparr>se_maxFrameSize := m\<rparr>) q ins outs g"
| settings: "sched_reach env q ins outs g \<Longrightarrow> 0 \<le> window \<Longrightarrow> changeInitialWindowSize window (se_conn env) = (ok, c) \<Longrightarrow>
    sched_reach (env\<lparr>se_conn := c\<rparr>) q ins outs g"
| conn_update: "sched_reach env q ins outs g \<Longrightarrow> 0 \<le> k \<Longrightarrow> k \<le> maxFlowWindow \<Longrightarrow> connOutflow_add k (se_conn env) = (ok, c) \<Longrightarrow>
    sched_reach (env\<lparr>se_conn := c\<rparr>) q ins outs (if ok then g + k else g)"
| stream_update: "sched_reach env q ins outs g \<Longrightarrow> 0 \<le> k \<Longrightarrow> k \<le> maxFlowWindow \<Longrightarrow> outflow_add k (se_delta env s) (se_conn env) = (ok, d, c) \<Longrightarrow>
    sched_reach (env\<lparr>se_conn := c, se_delta := (se_delta env)(s := d)\<rparr>) q ins outs g"

definition wire :: "frameWriteRequest list \<Rightarrow> frame_event list" where
  "wire wrs = concat (map flat wrs)"

lemma wire_simps [simp]: "wire [] = []" "wire (wr # wrs) = flat wr @ wire wrs" "wire (xs @ ys) = wire xs @ wire ys"
  by (simp_all add: wire_def)

definition sent_bytes :: "frameWriteRequest list \<Rightarrow> int" where
  "sent_bytes wrs = int (sum_list (map DataSize wrs))"

lemma sent_bytes_simps [simp]: "sent_bytes [] = 0" "sent_bytes (wrs @ [wr]) = sent_bytes wrs + int (DataSize wr)"
  by (simp_all add: sent_bytes_def)

definition queue_inv :: "sched_env \<Rightarrow> writeQueue \<Rightarrow> bool" where
  "queue_inv env q \<longleftrightarrow> wq_ok q \<and> list_all on_stream (items q) \<and> 0 < se_maxFrameSize env"

fun taken_ok :: "int \<Rightarrow> sched_env \<Rightarrow> frameWriteRequest list \<Rightarrow> frameWriteRequest option \<Rightarrow> bool" where
  "taken_ok n env wrs None \<longleftrightarrow> wrs = [] \<or> n \<le> 0 \<or> blocked (hd wrs) env"
| "taken_ok n env wrs (Some wr) \<longleftrightarrow> DataSize wr = 0 \<or> int (DataSize wr) \<le> min n (se_maxFrameSize env)"

lemma wq_consume_spec:
  assumes r: "outflow_reach (se_conn env) (se_delta env) g t gs ts" and q: "queue_inv env q"
  shows "\<exists>env' q' res. wq_consume n env q = Some (env', q', res) \<and> queue_inv env' q' \<and> taken_ok n env (items q) res \<and>
    wire (case res of None \<Rightarrow> [] | Some wr \<Rightarrow> [wr]) @ wire (items q') = wire (items q) \<and>
    (\<exists>ts. outflow_reach (se_conn env') (se_delta env') g (t + (case res of None \<Rightarrow> 0 | Some wr \<Rightarrow> int (DataSize wr))) gs ts)"
proof (cases "items q")
  case Nil
  then have "wq_consume n env q = Some (env, q, None)" using q wq_empty_items [of q] by (simp add: wq_consume_def queue_inv_def)
  then show ?thesis using Nil q r by auto
next
  case (Cons wr wrs)
  have o: "wq_ok q" "on_stream wr" "list_all on_stream wrs" "0 < se_maxFrameSize env" using q by (simp_all add: queue_inv_def Cons)
  have e: "\<not> wq_empty q" "wq_peek q = Some wr" using wq_empty_items [OF o(1)] wq_peek_items [OF o(1) Cons] Cons by simp_all
  obtain env' res where c: "Consume n wr env = Some (env', res)" "se_maxFrameSize env' = se_maxFrameSize env" "consumed_ok n wr env res"
    "\<exists>ts. outflow_reach (se_conn env') (se_delta env') g (t + int (consumed_size res)) gs ts"
    using Consume_spec [OF r o(2,4)] by blast
  show ?thesis
  proof (cases res)
    case Consumed0
    then have "wq_consume n env q = Some (env', q, None)" by (simp add: wq_consume_def e c(1))
    then show ?thesis using Consumed0 c(2-4) q Cons by (auto simp: queue_inv_def)
  next
    case (Consumed1 x)
    obtain q' where s: "wq_shift q = Some (q', wr)" "wq_ok q'" "items q' = wrs" using wq_shift_items [OF o(1) Cons] by blast
    have "wq_consume n env q = Some (env', q', Some x)" by (simp add: wq_consume_def e c(1) Consumed1 s(1))
    then show ?thesis using Consumed1 c(2-4) s(2,3) o Cons by (auto simp: queue_inv_def)
  next
    case (Consumed2 x y)
    obtain q' where s: "wq_poke y q = Some q'" "wq_ok q'" "items q' = y # wrs" using wq_poke_items [OF o(1) Cons] by blast
    have "wq_consume n env q = Some (env', q', Some x)" by (simp add: wq_consume_def e c(1) Consumed2 s(1))
    then show ?thesis using Consumed2 c(2-4) s(2,3) o Cons by (auto simp: queue_inv_def)
  qed
qed

lemma sched_invariant:
  "sched_reach env q ins outs g \<Longrightarrow>
    queue_inv env q \<and> wire outs @ wire (items q) = wire ins \<and> (\<exists>gs ts. outflow_reach (se_conn env) (se_delta env) g (sent_bytes outs) gs ts)"
proof (induction rule: sched_reach.induct)
  case (start m)
  then show ?case using outflow_reach.start by (auto simp: queue_inv_def wq_ok_def new_queue_def items_def)
next
  case (push env q ins outs g wr)
  then show ?case by (auto simp: queue_inv_def wq_push_items)
next
  case (consume env q ins outs g n env' q' wr)
  then obtain gs ts where r: "outflow_reach (se_conn env) (se_delta env) g (sent_bytes outs) gs ts" by blast
  show ?case using wq_consume_spec [OF r conjunct1 [OF consume.IH], of n] consume.hyps(2) consume.IH by auto
next
  case (wait env q ins outs g n env' q')
  then obtain gs ts where r: "outflow_reach (se_conn env) (se_delta env) g (sent_bytes outs) gs ts" by blast
  show ?case using wq_consume_spec [OF r conjunct1 [OF wait.IH], of n] wait.hyps(2) wait.IH by auto
next
  case (frame_size env q ins outs g m)
  then show ?case by (auto simp: queue_inv_def)
next
  case (settings env q ins outs g window ok c)
  then show ?case using outflow_reach.settings [OF _ settings.hyps(2,3)] by (fastforce simp: queue_inv_def)
next
  case (conn_update env q ins outs g k ok c)
  then obtain gs ts where r: "outflow_reach (se_conn env) (se_delta env) g (sent_bytes outs) gs ts" by blast
  show ?case using outflow_reach.conn_update [OF r conn_update.hyps(2-4)] conn_update.IH by (cases ok; simp add: queue_inv_def) blast+
next
  case (stream_update env q ins outs g k s ok d c)
  then obtain gs ts where r: "outflow_reach (se_conn env) (se_delta env) g (sent_bytes outs) gs ts" by blast
  show ?case using outflow_reach.stream_update [OF r stream_update.hyps(2-4)] stream_update.IH by (simp add: queue_inv_def del: fun_upd_apply if_split) blast
qed

section \<open>Properties\<close>

text \<open>
  Claim C17: a queue delivers what was pushed. In every reachable state the frames taken out followed by those still
  queued carry exactly the bytes, ends of streams, other frames and replies that were pushed, in their order, however
  DATA frames were split; the data taken out is within the initial window and the credit granted to the connection.
  Taking out the next frame never panics; it yields a frame within the given limit and the frame size, and nothing
  only when the queue is empty or flow control blocks its first frame.
\<close>

theorem queue_delivers:
  assumes "sched_reach env q ins outs granted" "0 < n"
  shows "wire (outs @ items q) = wire ins \<and> sent_bytes outs \<le> initialWindowSize + granted \<and>
    (\<exists>env' q' res. wq_consume n env q = Some (env', q', res) \<and>
      (case res of
         None \<Rightarrow> items q = [] \<or> blocked (hd (items q)) env
       | Some wr \<Rightarrow> DataSize wr = 0 \<or> int (DataSize wr) \<le> min n (se_maxFrameSize env)))"
proof -
  have i: "queue_inv env q" "wire outs @ wire (items q) = wire ins" using sched_invariant [OF assms(1)] by blast+
  obtain gs ts where r: "outflow_reach (se_conn env) (se_delta env) granted (sent_bytes outs) gs ts" using sched_invariant [OF assms(1)] by blast
  have w: "sent_bytes outs \<le> initialWindowSize + granted" using outflow_invariant [OF r] by (simp add: outflow_ok_def)
  obtain env' q' res where c: "wq_consume n env q = Some (env', q', res)" "taken_ok n env (items q) res" using wq_consume_spec [OF r i(1)] by blast
  have "case res of None \<Rightarrow> items q = [] \<or> blocked (hd (items q)) env | Some wr \<Rightarrow> DataSize wr = 0 \<or> int (DataSize wr) \<le> min n (se_maxFrameSize env)"
    using c(2) assms(2) by (cases res) auto
  then show ?thesis using i(2) w c(1) by simp
qed

theorem queue_delivers_witness:
  "\<exists>env q. sched_reach env q [\<lparr>fw_write = WriteData 1 [7, 8, 9] True, fw_stream = Some 1, fw_done = None\<rparr>] [] 0 \<and> se_maxFrameSize env = 2 \<and>
     (\<exists>env' q' res. wq_consume 2147483647 env q = Some (env', q', res))"
proof -
  let ?wr = "\<lparr>fw_write = WriteData 1 [7, 8, 9] True, fw_stream = Some 1, fw_done = None\<rparr>"
  let ?env = "\<lparr>se_conn = connOutflow_init, se_delta = (\<lambda>_. 0), se_maxFrameSize = 2\<rparr>"
  have "sched_reach ?env (wq_push ?wr new_queue) ([] @ [?wr]) [] 0"
    by (rule sched_reach.push [OF sched_reach.start]) (simp_all add: on_stream_def)
  then have r: "sched_reach ?env (wq_push ?wr new_queue) [?wr] [] 0" by simp
  have "\<exists>env' q' res. wq_consume 2147483647 ?env (wq_push ?wr new_queue) = Some (env', q', res)"
    using queue_delivers [OF r, of 2147483647] by auto
  then show ?thesis using r by (intro exI [of _ ?env] exI [of _ "wq_push ?wr new_queue"]) simp
qed

end
