(* ===== verification/Http2_Buffer.thy ===== *)
theory Http2_Buffer
  imports Go_Base
begin

text \<open>
  The buffer of received data of an HTTP/2 stream (\<^verbatim>\<open>internal/http2/databuffer.go\<close>): a list of chunks of five sizes,
  read at its front and written at its end. A chunk from a pool has arbitrary contents, which are a function of the
  model. A panic is \<^const>\<open>None\<close>. The loops take one more than the bytes to copy as fuel, since every iteration
  copies at least one; running out is \<^const>\<open>None\<close>, too. The size counts bytes in memory and is an unbounded integer.
\<close>

definition int64 :: "int \<Rightarrow> int" where
  "int64 x = (x + 2 ^ 63) mod 2 ^ 64 - 2 ^ 63"

section \<open>Chunks\<close>

definition chunk_sizes :: "nat list" where
  "chunk_sizes = [1024, 2048, 4096, 8192, 16384]"

definition getDataBufferChunk :: "(nat \<Rightarrow> u8) \<Rightarrow> int \<Rightarrow> bytes" where
  "getDataBufferChunk old want =
     (if want \<le> 1024 then map old [0..<1024]
      else if want \<le> 2048 then map old [0..<2048]
      else if want \<le> 4096 then map old [0..<4096]
      else if want \<le> 8192 then map old [0..<8192]
      else map old [0..<16384])"

text \<open>Whether a chunk can be returned to its pool; otherwise the source panics.\<close>

definition putDataBufferChunk :: "bytes \<Rightarrow> bool" where
  "putDataBufferChunk p \<longleftrightarrow> length p \<in> set chunk_sizes"

section \<open>The buffer\<close>

record dataBuffer =
  db_chunks :: "bytes list"
  db_r :: nat
  db_w :: nat
  db_size :: int
  db_expected :: int

datatype buffer_error = errReadEmpty

definition bytesFromFirstChunk :: "dataBuffer \<Rightarrow> bytes option" where
  "bytesFromFirstChunk b =
     (case db_chunks b of
        [] \<Rightarrow> None
      | [c] \<Rightarrow> if db_r b \<le> db_w b \<and> db_w b \<le> length c then Some (take (db_w b - db_r b) (drop (db_r b) c)) else None
      | c # _ \<Rightarrow> if db_r b \<le> length c then Some (drop (db_r b) c) else None)"

text \<open>The end of an iteration of the read loop: a consumed first chunk goes back to its pool.\<close>

definition advance_chunk :: "dataBuffer \<Rightarrow> dataBuffer option" where
  "advance_chunk b =
     (case db_chunks b of
        [] \<Rightarrow> None
      | c # cs \<Rightarrow>
          if db_r b = length c
          then (if putDataBufferChunk c then Some (b\<lparr>db_chunks := cs, db_r := 0\<rparr>) else None)
          else Some b)"

fun read_loop :: "nat \<Rightarrow> nat \<Rightarrow> bytes \<Rightarrow> dataBuffer \<Rightarrow> (dataBuffer \<times> bytes) option" where
  "read_loop 0 k got b = None"
| "read_loop (Suc n) k got b =
     (if \<not> (k > 0 \<and> db_size b > 0) then Some (b, got)
      else case bytesFromFirstChunk b of
        None \<Rightarrow> None
      | Some readFrom \<Rightarrow>
          let copied = take k readFrom in
          case advance_chunk (b\<lparr>db_r := db_r b + length copied, db_size := db_size b - int (length copied)\<rparr>) of
            None \<Rightarrow> None
          | Some b1 \<Rightarrow> read_loop n (k - length copied) (got @ copied) b1)"

definition db_Read :: "nat \<Rightarrow> dataBuffer \<Rightarrow> (dataBuffer \<times> (buffer_error + bytes)) option" where
  "db_Read k b =
     (if db_size b = 0 then Some (b, Inl errReadEmpty)
      else case read_loop (Suc k) k [] b of None \<Rightarrow> None | Some (b1, got) \<Rightarrow> Some (b1, Inr got))"

definition db_Len :: "dataBuffer \<Rightarrow> int" where
  "db_Len b = db_size b"

definition lastChunkOrAlloc :: "(dataBuffer \<Rightarrow> nat \<Rightarrow> u8) \<Rightarrow> int \<Rightarrow> dataBuffer \<Rightarrow> dataBuffer" where
  "lastChunkOrAlloc pool want b =
     (if db_chunks b \<noteq> [] \<and> db_w b < length (last (db_chunks b)) then b
      else b\<lparr>db_chunks := db_chunks b @ [getDataBufferChunk (pool b) want], db_w := 0\<rparr>)"

text \<open>Copying into the last chunk of a buffer, at its write position.\<close>

definition copy_last :: "bytes \<Rightarrow> dataBuffer \<Rightarrow> dataBuffer" where
  "copy_last data b =
     (let c = last (db_chunks b) in
      b\<lparr>db_chunks := butlast (db_chunks b) @ [take (db_w b) c @ data @ drop (db_w b + length data) c], db_w := db_w b + length data,
        db_size := db_size b + int (length data), db_expected := int64 (db_expected b - int (length data))\<rparr>)"

fun write_loop :: "nat \<Rightarrow> (dataBuffer \<Rightarrow> nat \<Rightarrow> u8) \<Rightarrow> bytes \<Rightarrow> dataBuffer \<Rightarrow> dataBuffer option" where
  "write_loop 0 pool p b = None"
| "write_loop (Suc n) pool p b =
     (if p = [] then Some b
      else let b1 = lastChunkOrAlloc pool (max (db_expected b) (int (length p))) b;
               room = length (last (db_chunks b1)) - db_w b1 in
           write_loop n pool (drop room p) (copy_last (take room p) b1))"

definition db_Write :: "(dataBuffer \<Rightarrow> nat \<Rightarrow> u8) \<Rightarrow> bytes \<Rightarrow> dataBuffer \<Rightarrow> (dataBuffer \<times> nat) option" where
  "db_Write pool p b = (case write_loop (Suc (length p)) pool p b of None \<Rightarrow> None | Some b1 \<Rightarrow> Some (b1, length p))"

section \<open>What a buffer holds\<close>

definition filled :: "dataBuffer \<Rightarrow> bytes" where
  "filled b = (if db_chunks b = [] then [] else concat (butlast (db_chunks b)) @ take (db_w b) (last (db_chunks b)))"

definition contents :: "dataBuffer \<Rightarrow> bytes" where
  "contents b = drop (db_r b) (filled b)"

definition db_ok :: "dataBuffer \<Rightarrow> bool" where
  "db_ok b \<longleftrightarrow> list_all putDataBufferChunk (db_chunks b) \<and> db_size b = int (length (contents b)) \<and> db_r b \<le> length (filled b) \<and>
     (if db_chunks b = [] then db_r b = 0 else db_w b \<le> length (last (db_chunks b)) \<and> db_r b < length (hd (db_chunks b)))"

lemma chunk_bounds: "putDataBufferChunk c \<Longrightarrow> 0 < length c \<and> length c \<le> 16384"
  by (auto simp: putDataBufferChunk_def chunk_sizes_def)

lemma put_get [simp]: "putDataBufferChunk (getDataBufferChunk old want)"
  by (simp add: putDataBufferChunk_def chunk_sizes_def getDataBufferChunk_def)

section \<open>Writing\<close>

lemma lastChunkOrAlloc_ok:
  assumes "db_ok b"
  shows "db_ok (lastChunkOrAlloc pool want b)" "contents (lastChunkOrAlloc pool want b) = contents b" "db_chunks (lastChunkOrAlloc pool want b) \<noteq> []"
    "db_w (lastChunkOrAlloc pool want b) < length (last (db_chunks (lastChunkOrAlloc pool want b)))"
proof -
  let ?b = "lastChunkOrAlloc pool want b"
  have "db_ok ?b \<and> contents ?b = contents b \<and> db_chunks ?b \<noteq> [] \<and> db_w ?b < length (last (db_chunks ?b))"
  proof (cases "db_chunks b \<noteq> [] \<and> db_w b < length (last (db_chunks b))")
    case True
    then show ?thesis using assms by (simp add: lastChunkOrAlloc_def)
  next
    case False
    let ?c = "getDataBufferChunk (pool b) want"
    have e: "?b = b\<lparr>db_chunks := db_chunks b @ [?c], db_w := 0\<rparr>" using False unfolding lastChunkOrAlloc_def by (rule if_not_P)
    have c: "0 < length ?c" using chunk_bounds [OF put_get] by blast
    have f: "filled ?b = filled b"
    proof (cases "db_chunks b = []")
      case False
      then have "take (db_w b) (last (db_chunks b)) = last (db_chunks b)" using \<open>\<not> (db_chunks b \<noteq> [] \<and> _)\<close> by simp
      moreover have "concat (db_chunks b) = concat (butlast (db_chunks b)) @ last (db_chunks b)"
        using arg_cong [OF append_butlast_last_id [OF False], of concat] by simp
      ultimately show ?thesis using False unfolding e by (simp add: filled_def)
    qed (simp add: e filled_def)
    have h: "db_r b < length (hd (db_chunks b @ [?c]))" using assms c by (cases "db_chunks b") (auto simp: db_ok_def)
    have "db_ok ?b" using assms h c unfolding db_ok_def contents_def f unfolding e by simp
    then show ?thesis using f c by (simp add: contents_def e)
  qed
  then show "db_ok ?b" "contents ?b = contents b" "db_chunks ?b \<noteq> []" "db_w ?b < length (last (db_chunks ?b))" by blast+
qed

lemma copy_last_ok:
  assumes "db_ok b" "db_chunks b \<noteq> []" "db_w b + length data \<le> length (last (db_chunks b))"
  shows "db_ok (copy_last data b)" "contents (copy_last data b) = contents b @ data"
proof -
  let ?b = "copy_last data b"
  obtain cs c where cs: "db_chunks b = cs @ [c]" using assms(2) by (metis append_butlast_last_id)
  let ?c = "take (db_w b) c @ data @ drop (db_w b + length data) c"
  have b: "db_chunks ?b = cs @ [?c]" "db_w ?b = db_w b + length data" "db_r ?b = db_r b" "db_size ?b = db_size b + int (length data)"
    by (simp_all add: copy_last_def Let_def cs)
  have w: "db_w b + length data \<le> length c" "length ?c = length c" using assms(3) by (simp_all add: cs)
  have f: "filled ?b = filled b @ data" using w by (simp add: filled_def b cs)
  have o: "list_all putDataBufferChunk cs" "putDataBufferChunk c" "db_size b = int (length (contents b))" "db_r b \<le> length (filled b)" "db_r b < length (hd (cs @ [c]))"
    using assms(1) by (simp_all add: db_ok_def cs)
  show t: "contents ?b = contents b @ data" using o(4) by (simp add: contents_def f b)
  have "putDataBufferChunk ?c" using o(2) w(2) by (simp add: putDataBufferChunk_def)
  moreover have "db_r b < length (hd (cs @ [?c]))" using o(5) w(2) by (cases cs) simp_all
  ultimately show "db_ok ?b" unfolding db_ok_def t unfolding f using o w by (simp add: b)
qed

lemma write_loop_ok:
  "db_ok b \<Longrightarrow> length p < n \<Longrightarrow> \<exists>b'. write_loop n pool p b = Some b' \<and> db_ok b' \<and> contents b' = contents b @ p"
proof (induction n arbitrary: p b)
  case (Suc n)
  show ?case
  proof (cases "p = []")
    case False
    let ?b = "lastChunkOrAlloc pool (max (db_expected b) (int (length p))) b"
    let ?room = "length (last (db_chunks ?b)) - db_w ?b"
    note a = lastChunkOrAlloc_ok [OF Suc.prems(1), of pool "max (db_expected b) (int (length p))"]
    have "db_w ?b + length (take ?room p) \<le> length (last (db_chunks ?b))" unfolding length_take using a(4) by linarith
    note c = copy_last_ok [OF a(1,3) this]
    have "length (drop ?room p) < n" using Suc.prems(2) a(4) False by (cases p) auto
    from Suc.IH [OF c(1) this] show ?thesis using False a(2) c(2) by (simp add: Let_def)
  qed (use Suc.prems in simp)
qed simp

section \<open>Reading\<close>

lemma first_chunk:
  assumes "db_ok b" "0 < db_size b"
  shows "\<exists>front. bytesFromFirstChunk b = Some front \<and> front \<noteq> [] \<and> (\<exists>rest. contents b = front @ rest) \<and>
    db_r b + length front \<le> length (hd (db_chunks b)) \<and> db_chunks b \<noteq> []"
proof -
  have ne: "contents b \<noteq> []" using assms by (auto simp: db_ok_def)
  then obtain c cs where cs: "db_chunks b = c # cs" by (cases "db_chunks b") (auto simp: contents_def filled_def)
  have r: "db_r b < length c" "db_r b \<le> length (filled b)" "db_w b \<le> length (last (c # cs))" using assms(1) by (auto simp: db_ok_def cs)
  show ?thesis
  proof (cases cs)
    case Nil
    have w: "db_r b \<le> db_w b" "db_w b \<le> length c" using r(2,3) by (simp_all add: filled_def cs Nil)
    have "contents b = take (db_w b - db_r b) (drop (db_r b) c)" by (simp add: contents_def filled_def cs Nil drop_take)
    then show ?thesis using ne w by (auto simp: bytesFromFirstChunk_def cs Nil)
  next
    case (Cons d ds)
    have "filled b = c @ concat (butlast cs) @ take (db_w b) (last cs)" by (simp add: filled_def cs Cons)
    then have "contents b = drop (db_r b) c @ concat (butlast cs) @ take (db_w b) (last cs)" using r(1) by (simp add: contents_def)
    then show ?thesis using r(1) by (auto simp: bytesFromFirstChunk_def cs Cons)
  qed
qed

lemma advance_ok:
  assumes "db_ok b" "db_chunks b \<noteq> []" "db_r b + m \<le> length (hd (db_chunks b))" "m \<le> length (contents b)"
  shows "\<exists>b'. advance_chunk (b\<lparr>db_r := db_r b + m, db_size := db_size b - int m\<rparr>) = Some b' \<and> db_ok b' \<and> contents b' = drop m (contents b)"
proof -
  obtain c cs where cs: "db_chunks b = c # cs" using assms(2) by (cases "db_chunks b") auto
  let ?b = "b\<lparr>db_r := db_r b + m, db_size := db_size b - int m\<rparr>"
  have o: "list_all putDataBufferChunk cs" "putDataBufferChunk c" "db_size b = int (length (contents b))" "db_r b \<le> length (filled b)" "db_w b \<le> length (last (c # cs))"
    using assms(1) by (simp_all add: db_ok_def cs)
  have f: "filled ?b = filled b" by (simp add: filled_def)
  have t: "contents ?b = drop m (contents b)" unfolding contents_def f by (simp add: add.commute)
  have s: "db_size ?b = int (length (contents ?b))" "db_r ?b \<le> length (filled b)" using o(3,4) assms(4) unfolding t by (simp_all add: contents_def)
  show ?thesis
  proof (cases "db_r b + m = length c")
    case False
    then have "db_ok ?b" unfolding db_ok_def f using assms(3) s o by (simp add: cs)
    then show ?thesis using False t by (simp add: advance_chunk_def cs)
  next
    case True
    let ?d = "?b\<lparr>db_chunks := cs, db_r := 0\<rparr>"
    have "drop (length c) (filled b) = filled ?d"
      using o(4) s(2) True by (cases cs) (auto simp: filled_def cs)
    then have d: "contents ?d = contents ?b" unfolding contents_def f using True by simp
    have "0 < length (hd cs)" if "cs \<noteq> []" using that o(1) chunk_bounds by (cases cs) auto
    then have "db_ok ?d" using o s(1) unfolding db_ok_def d by (cases cs) auto
    then show ?thesis using True o(2) d t by (simp add: advance_chunk_def cs)
  qed
qed

lemma read_loop_ok:
  "db_ok b \<Longrightarrow> k < n \<Longrightarrow> \<exists>b'. read_loop n k got b = Some (b', got @ take k (contents b)) \<and> db_ok b' \<and> contents b' = drop k (contents b)"
proof (induction n arbitrary: k got b)
  case (Suc n)
  show ?case
  proof (cases "k > 0 \<and> db_size b > 0")
    case False
    then have "k = 0 \<or> contents b = []" using Suc.prems(1) by (auto simp: db_ok_def)
    then show ?thesis using False Suc.prems(1) by auto
  next
    case True
    obtain front rest where f: "bytesFromFirstChunk b = Some front" "front \<noteq> []" "contents b = front @ rest"
      "db_r b + length front \<le> length (hd (db_chunks b))" "db_chunks b \<noteq> []"
      using first_chunk [OF Suc.prems(1)] True by blast
    let ?m = "length (take k front)"
    have m: "db_r b + ?m \<le> length (hd (db_chunks b))" "?m \<le> length (contents b)" "0 < ?m" using f(2-4) True by auto
    obtain b1 where b1: "advance_chunk (b\<lparr>db_r := db_r b + ?m, db_size := db_size b - int ?m\<rparr>) = Some b1" "db_ok b1" "contents b1 = drop ?m (contents b)"
      using advance_ok [OF Suc.prems(1) f(5) m(1,2)] by blast
    have "k - ?m < n" using Suc.prems(2) m(3) conjunct1 [OF True] by linarith
    from Suc.IH [OF b1(2) this, of "got @ take k front"] obtain b' where b': "read_loop n (k - ?m) (got @ take k front) b1 = Some (b', (got @ take k front) @ take (k - ?m) (contents b1))"
      "db_ok b'" "contents b' = drop (k - ?m) (contents b1)" by blast
    have "read_loop (Suc n) k got b = read_loop n (k - ?m) (got @ take k front) b1"
      using True f(1) b1(1) by (simp add: Let_def)
    moreover have "take k front @ take (k - ?m) (contents b1) = take k (contents b)" "drop (k - ?m) (contents b1) = drop k (contents b)"
      unfolding b1(3) f(3) by (auto simp: min_def)
    ultimately show ?thesis using b' by simp
  qed
qed simp

section \<open>Sequences of operations\<close>

datatype db_op = Op_Write bytes | Op_Read nat
datatype db_result = Wrote nat | Got "buffer_error + bytes"

fun db_run :: "(dataBuffer \<Rightarrow> nat \<Rightarrow> u8) \<Rightarrow> db_op list \<Rightarrow> dataBuffer \<Rightarrow> (dataBuffer \<times> db_result list) option" where
  "db_run pool [] b = Some (b, [])"
| "db_run pool (Op_Write p # ops) b =
     (case db_Write pool p b of None \<Rightarrow> None | Some (b1, n) \<Rightarrow> map_option (apsnd ((#) (Wrote n))) (db_run pool ops b1))"
| "db_run pool (Op_Read k # ops) b =
     (case db_Read k b of None \<Rightarrow> None | Some (b1, got) \<Rightarrow> map_option (apsnd ((#) (Got got))) (db_run pool ops b1))"

text \<open>The specification: a queue of bytes.\<close>

fun queue_run :: "db_op list \<Rightarrow> bytes \<Rightarrow> bytes \<times> db_result list" where
  "queue_run [] q = (q, [])"
| "queue_run (Op_Write p # ops) q = apsnd ((#) (Wrote (length p))) (queue_run ops (q @ p))"
| "queue_run (Op_Read k # ops) q = apsnd ((#) (Got (if q = [] then Inl errReadEmpty else Inr (take k q)))) (queue_run ops (drop k q))"

definition empty_buffer :: "int \<Rightarrow> dataBuffer" where
  "empty_buffer expected = \<lparr>db_chunks = [], db_r = 0, db_w = 0, db_size = 0, db_expected = expected\<rparr>"

lemma db_Write_ok: "db_ok b \<Longrightarrow> \<exists>b'. db_Write pool p b = Some (b', length p) \<and> db_ok b' \<and> contents b' = contents b @ p"
  using write_loop_ok [of b p "Suc (length p)" pool] by (auto simp: db_Write_def)

lemma db_Read_ok:
  assumes "db_ok b"
  shows "\<exists>b'. db_Read k b = Some (b', if contents b = [] then Inl errReadEmpty else Inr (take k (contents b))) \<and> db_ok b' \<and> contents b' = drop k (contents b)"
proof (cases "contents b = []")
  case True
  then show ?thesis using assms by (simp add: db_Read_def db_ok_def)
next
  case False
  then have "db_size b \<noteq> 0" using assms by (simp add: db_ok_def)
  then show ?thesis using read_loop_ok [OF assms, of k "Suc k" "[]"] False by (auto simp: db_Read_def simp del: read_loop.simps)
qed

lemma db_run_ok:
  "db_ok b \<Longrightarrow> \<exists>b'. db_run pool ops b = Some (b', snd (queue_run ops (contents b))) \<and> db_ok b' \<and> contents b' = fst (queue_run ops (contents b))"
proof (induction ops arbitrary: b)
  case (Cons op ops)
  show ?case
  proof (cases op)
    case (Op_Write p)
    from db_Write_ok [OF Cons.prems, of pool p] obtain b1 where b1: "db_Write pool p b = Some (b1, length p)" "db_ok b1" "contents b1 = contents b @ p" by blast
    then show ?thesis using Cons.IH [OF b1(2)] Op_Write by auto
  next
    case (Op_Read k)
    from db_Read_ok [OF Cons.prems, of k] obtain b1 where b1: "db_Read k b = Some (b1, if contents b = [] then Inl errReadEmpty else Inr (take k (contents b)))"
      "db_ok b1" "contents b1 = drop k (contents b)" by blast
    then show ?thesis using Cons.IH [OF b1(2)] Op_Read by auto
  qed
qed simp

text \<open>Of the memory of a buffer at most one chunk at each end is not in use.\<close>

lemma db_memory:
  assumes "db_ok b"
  shows "sum_list (map length (db_chunks b)) \<le> length (contents b) + 32768"
proof (cases "db_chunks b = []")
  case False
  then obtain cs c where cs: "db_chunks b = cs @ [c]" by (metis append_butlast_last_id)
  have o: "list_all putDataBufferChunk (cs @ [c])" "db_r b < length (hd (cs @ [c]))" using assms by (simp_all add: db_ok_def cs)
  then have "putDataBufferChunk c" "putDataBufferChunk (hd (cs @ [c]))" by (simp, cases cs) simp_all
  then have "length c \<le> 16384" "db_r b \<le> 16384" using chunk_bounds o(2) by fastforce+
  moreover have "length (filled b) = sum_list (map length cs) + min (length c) (db_w b)" by (simp add: filled_def cs length_concat)
  ultimately show ?thesis by (simp add: contents_def cs)
qed simp

section \<open>Properties\<close>

text \<open>
  Claim C16: the buffer of a stream is a queue. Whatever sequence of writes and reads runs on a new buffer and
  whatever its chunks held before, no operation panics or runs forever, the results are those of a queue of bytes,
  the length is that of the queue, and the memory of the chunks exceeds the buffered bytes by at most twice the
  largest chunk.
\<close>

theorem dataBuffer_refines_queue:
  "\<exists>b. db_run pool ops (empty_buffer expected) = Some (b, snd (queue_run ops [])) \<and>
     db_Len b = int (length (fst (queue_run ops []))) \<and>
     sum_list (map length (db_chunks b)) \<le> length (fst (queue_run ops [])) + 2 * 16384"
proof -
  have e: "db_ok (empty_buffer expected)" "contents (empty_buffer expected) = []" by (simp_all add: db_ok_def contents_def filled_def empty_buffer_def)
  obtain b where b: "db_run pool ops (empty_buffer expected) = Some (b, snd (queue_run ops []))" "db_ok b" "contents b = fst (queue_run ops [])"
    using db_run_ok [OF e(1), of pool ops] unfolding e(2) by blast
  have "db_Len b = int (length (contents b))" using b(2) by (simp add: db_ok_def db_Len_def)
  then show ?thesis using b db_memory [OF b(2)] by simp
qed

end
