(* ===== verification/Http2_Frame.thy ===== *)
theory Http2_Frame
  imports Go_Base
begin

text \<open>
  The framing layer of HTTP/2 (\<^verbatim>\<open>internal/http2/frame.go\<close>): frame headers, the parser of every frame type, the
  writers, and the check of the order of header blocks. The reader of a framer is the list of bytes that are still
  to be read, its writer the list of bytes written so far; error tokens for counters and log lines are left out. A
  framer here has no header decoder; reading header blocks is the theory of meta headers.
\<close>

section \<open>Frame types, flags and errors\<close>

definition FrameData :: u8 where "FrameData = 0x0"
definition FrameHeaders :: u8 where "FrameHeaders = 0x1"
definition FramePriority :: u8 where "FramePriority = 0x2"
definition FrameRSTStream :: u8 where "FrameRSTStream = 0x3"
definition FrameSettings :: u8 where "FrameSettings = 0x4"
definition FramePushPromise :: u8 where "FramePushPromise = 0x5"
definition FramePing :: u8 where "FramePing = 0x6"
definition FrameGoAway :: u8 where "FrameGoAway = 0x7"
definition FrameWindowUpdate :: u8 where "FrameWindowUpdate = 0x8"
definition FrameContinuation :: u8 where "FrameContinuation = 0x9"
definition FramePriorityUpdate :: u8 where "FramePriorityUpdate = 0x10"

lemmas frame_types = FrameData_def FrameHeaders_def FramePriority_def FrameRSTStream_def FrameSettings_def FramePushPromise_def
  FramePing_def FrameGoAway_def FrameWindowUpdate_def FrameContinuation_def FramePriorityUpdate_def

definition FlagEndStream :: u8 where "FlagEndStream = 0x1"
definition FlagAck :: u8 where "FlagAck = 0x1"
definition FlagEndHeaders :: u8 where "FlagEndHeaders = 0x4"
definition FlagPadded :: u8 where "FlagPadded = 0x8"
definition FlagHeadersPriority :: u8 where "FlagHeadersPriority = 0x20"

lemmas frame_flags = FlagEndStream_def FlagAck_def FlagEndHeaders_def FlagPadded_def FlagHeadersPriority_def

definition Flags_Has :: "u8 \<Rightarrow> u8 \<Rightarrow> bool" where
  "Flags_Has f v \<longleftrightarrow> f AND v = v"

definition ErrCodeProtocol :: u32 where "ErrCodeProtocol = 0x1"
definition ErrCodeFlowControl :: u32 where "ErrCodeFlowControl = 0x3"
definition ErrCodeFrameSize :: u32 where "ErrCodeFrameSize = 0x6"
definition ErrCodeCompression :: u32 where "ErrCodeCompression = 0x9"

datatype header_error =
    headerFieldValueError string
  | headerFieldNameError string
  | pseudoHeaderError string
  | duplicatePseudoHeaderError string
  | errPseudoAfterRegular
  | errMixPseudoHeaderTypes

datatype error_detail =
    Reason string
  | InvalidHeader header_error
  | ExpectedContinuation u8 u32 u8 u32
  | ContinuationOfOther u32 u32
  | UnexpectedContinuation u32
  | PrioritySize nat
  | PriorityUpdateSize nat

datatype http2_error =
    ConnectionError u32
  | StreamError u32 u32
  | connError u32 error_detail
  | io_EOF
  | io_ErrUnexpectedEOF
  | ErrFrameTooLarge
  | LooksLikeHTTP1 http2_error
  | errStreamID
  | errDepStreamID
  | errPadLength
  | errPadBytes
  | IllegalWindowIncrement
  | SlicePanic
  | TypeAssertionPanic
  | IllegalReadsWithMetaHeaders

record frame_header =
  fh_Type :: u8
  fh_Flags :: u8
  fh_Length :: u32
  fh_StreamID :: u32

record priority_param =
  pp_StreamDep :: u32
  pp_Exclusive :: bool
  pp_Weight :: u8
  pp_urgency :: u8
  pp_incremental :: u8

definition priority_zero :: priority_param where
  "priority_zero = \<lparr>pp_StreamDep = 0, pp_Exclusive = False, pp_Weight = 0, pp_urgency = 0, pp_incremental = 0\<rparr>"

definition priority_IsZero :: "priority_param \<Rightarrow> bool" where
  "priority_IsZero p \<longleftrightarrow> p = priority_zero"

record setting =
  set_ID :: u16
  set_Val :: u32

definition SettingInitialWindowSize :: u16 where "SettingInitialWindowSize = 0x4"

datatype http2_frame =
    DataFrame frame_header bytes
  | HeadersFrame frame_header priority_param bytes
  | PriorityFrame frame_header priority_param
  | RSTStreamFrame frame_header u32
  | SettingsFrame frame_header bytes
  | PushPromiseFrame frame_header u32 bytes
  | PingFrame frame_header bytes
  | GoAwayFrame frame_header u32 u32 bytes
  | UnknownFrame frame_header bytes
  | WindowUpdateFrame frame_header u32
  | ContinuationFrame frame_header bytes
  | PriorityUpdateFrame frame_header bytes u32

fun frame_Header :: "http2_frame \<Rightarrow> frame_header" where
  "frame_Header (DataFrame h _) = h"
| "frame_Header (HeadersFrame h _ _) = h"
| "frame_Header (PriorityFrame h _) = h"
| "frame_Header (RSTStreamFrame h _) = h"
| "frame_Header (SettingsFrame h _) = h"
| "frame_Header (PushPromiseFrame h _ _) = h"
| "frame_Header (PingFrame h _) = h"
| "frame_Header (GoAwayFrame h _ _ _) = h"
| "frame_Header (UnknownFrame h _) = h"
| "frame_Header (WindowUpdateFrame h _) = h"
| "frame_Header (ContinuationFrame h _) = h"
| "frame_Header (PriorityUpdateFrame h _ _) = h"

section \<open>Parsers\<close>

text \<open>
  Slices and indexes: \<^verbatim>\<open>p[:n]\<close>, \<^verbatim>\<open>p[n:]\<close> and \<^verbatim>\<open>p[i]\<close> panic outside of the payload, the value \<^const>\<open>None\<close>. The bound
  of a slice is an integer, since the length of the padding is subtracted from the length of the payload.
\<close>

definition slice_to :: "bytes \<Rightarrow> int \<Rightarrow> bytes option" where
  "slice_to p n = (if 0 \<le> n \<and> n \<le> int (length p) then Some (take (nat n) p) else None)"

definition slice_from :: "bytes \<Rightarrow> nat \<Rightarrow> bytes option" where
  "slice_from p n = (if n \<le> length p then Some (drop n p) else None)"

definition byte_at :: "bytes \<Rightarrow> nat \<Rightarrow> u8 option" where
  "byte_at p i = (if i < length p then Some (p ! i) else None)"

definition readByte :: "bytes \<Rightarrow> http2_error + (bytes \<times> u8)" where
  "readByte p =
     (if length p = 0 then Inl io_ErrUnexpectedEOF
      else case (slice_from p 1, byte_at p 0) of (Some rest, Some b) \<Rightarrow> Inr (rest, b) | _ \<Rightarrow> Inl SlicePanic)"

definition readUint32 :: "bytes \<Rightarrow> http2_error + (bytes \<times> u32)" where
  "readUint32 p =
     (if length p < 4 then Inl io_ErrUnexpectedEOF
      else case (slice_from p 4, read_be32 p) of (Some rest, Some v) \<Rightarrow> Inr (rest, v) | _ \<Rightarrow> Inl SlicePanic)"

lemma readByte_simps [simp]: "readByte [] = Inl io_ErrUnexpectedEOF" "readByte (b # p) = Inr (p, b)"
  by (simp_all add: readByte_def slice_from_def byte_at_def)

text \<open>The payload without the padding at its end.\<close>

definition cut_pad :: "bytes \<Rightarrow> u8 \<Rightarrow> bytes option" where
  "cut_pad p pad = slice_to p (int (length p) - int (unat pad))"

text \<open>The optional pad length in front of a payload.\<close>

definition read_pad :: "frame_header \<Rightarrow> bytes \<Rightarrow> http2_error + (bytes \<times> u8)" where
  "read_pad fh p = (if Flags_Has (fh_Flags fh) FlagPadded then readByte p else Inr (p, 0))"

definition parseDataFrame :: "frame_header \<Rightarrow> bytes \<Rightarrow> http2_error + http2_frame" where
  "parseDataFrame fh payload0 =
     (if fh_StreamID fh = 0 then Inl (connError ErrCodeProtocol (Reason ''DATA frame with stream ID 0''))
      else case read_pad fh payload0 of
        Inl e \<Rightarrow> Inl e
      | Inr (payload, padSize) \<Rightarrow>
          if unat padSize > length payload then Inl (connError ErrCodeProtocol (Reason ''pad size larger than data payload''))
          else case cut_pad payload padSize of None \<Rightarrow> Inl SlicePanic | Some data \<Rightarrow> Inr (DataFrame fh data))"

definition NumSettings :: "bytes \<Rightarrow> nat" where
  "NumSettings p = length p div 6"

text \<open>Reading past the payload is a panic, the value \<^const>\<open>None\<close>.\<close>

definition Setting_at :: "bytes \<Rightarrow> nat \<Rightarrow> setting option" where
  "Setting_at p i =
     (case (read_be16 (drop (i * 6) p), read_be32 (drop (i * 6 + 2) p)) of
        (Some k, Some v) \<Rightarrow> Some \<lparr>set_ID = k, set_Val = v\<rparr>
      | _ \<Rightarrow> None)"

fun settings_Value :: "bytes \<Rightarrow> u16 \<Rightarrow> nat list \<Rightarrow> u32 option option" where
  "settings_Value p k [] = Some None"
| "settings_Value p k (i # is) =
     (case Setting_at p i of
        None \<Rightarrow> None
      | Some s \<Rightarrow> if set_ID s = k then Some (Some (set_Val s)) else settings_Value p k is)"

definition SettingsFrame_Value :: "bytes \<Rightarrow> u16 \<Rightarrow> u32 option option" where
  "SettingsFrame_Value p k = settings_Value p k [0..<NumSettings p]"

definition parseSettingsFrame :: "frame_header \<Rightarrow> bytes \<Rightarrow> http2_error + http2_frame" where
  "parseSettingsFrame fh p =
     (if Flags_Has (fh_Flags fh) FlagAck \<and> fh_Length fh > 0 then Inl (ConnectionError ErrCodeFrameSize)
      else if fh_StreamID fh \<noteq> 0 then Inl (ConnectionError ErrCodeProtocol)
      else if length p mod 6 \<noteq> 0 then Inl (ConnectionError ErrCodeFrameSize)
      else case SettingsFrame_Value p SettingInitialWindowSize of
        None \<Rightarrow> Inl SlicePanic
      | Some None \<Rightarrow> Inr (SettingsFrame fh p)
      | Some (Some v) \<Rightarrow> if v > 0x7fffffff then Inl (ConnectionError ErrCodeFlowControl) else Inr (SettingsFrame fh p))"

definition parsePingFrame :: "frame_header \<Rightarrow> bytes \<Rightarrow> http2_error + http2_frame" where
  "parsePingFrame fh payload =
     (if length payload \<noteq> 8 then Inl (ConnectionError ErrCodeFrameSize)
      else if fh_StreamID fh \<noteq> 0 then Inl (ConnectionError ErrCodeProtocol)
      else Inr (PingFrame fh payload))"

definition parseGoAwayFrame :: "frame_header \<Rightarrow> bytes \<Rightarrow> http2_error + http2_frame" where
  "parseGoAwayFrame fh p =
     (if fh_StreamID fh \<noteq> 0 then Inl (ConnectionError ErrCodeProtocol)
      else if length p < 8 then Inl (ConnectionError ErrCodeFrameSize)
      else case (read_be32 p, read_be32 (drop 4 p), slice_from p 8) of
        (Some s, Some c, Some debug) \<Rightarrow> Inr (GoAwayFrame fh (s AND 0x7fffffff) c debug)
      | _ \<Rightarrow> Inl SlicePanic)"

definition parseUnknownFrame :: "frame_header \<Rightarrow> bytes \<Rightarrow> http2_error + http2_frame" where
  "parseUnknownFrame fh p = Inr (UnknownFrame fh p)"

definition parseWindowUpdateFrame :: "frame_header \<Rightarrow> bytes \<Rightarrow> http2_error + http2_frame" where
  "parseWindowUpdateFrame fh p =
     (if length p \<noteq> 4 then Inl (ConnectionError ErrCodeFrameSize)
      else case read_be32 p of
        None \<Rightarrow> Inl SlicePanic
      | Some v \<Rightarrow>
          let inc = v AND 0x7fffffff
          in if inc = 0 then (if fh_StreamID fh = 0 then Inl (ConnectionError ErrCodeProtocol)
                              else Inl (StreamError (fh_StreamID fh) ErrCodeProtocol))
             else Inr (WindowUpdateFrame fh inc))"

definition read_priority :: "frame_header \<Rightarrow> bytes \<Rightarrow> http2_error + (bytes \<times> priority_param)" where
  "read_priority fh p =
     (if Flags_Has (fh_Flags fh) FlagHeadersPriority
      then (case readUint32 p of
              Inl e \<Rightarrow> Inl e
            | Inr (p1, v) \<Rightarrow>
                (case readByte p1 of
                   Inl e \<Rightarrow> Inl e
                 | Inr (p2, w) \<Rightarrow> Inr (p2, priority_zero\<lparr>pp_StreamDep := v AND 0x7fffffff, pp_Exclusive := (v \<noteq> v AND 0x7fffffff), pp_Weight := w\<rparr>)))
      else Inr (p, priority_zero))"

definition parseHeadersFrame :: "frame_header \<Rightarrow> bytes \<Rightarrow> http2_error + http2_frame" where
  "parseHeadersFrame fh p0 =
     (if fh_StreamID fh = 0 then Inl (connError ErrCodeProtocol (Reason ''HEADERS frame with stream ID 0''))
      else case read_pad fh p0 of
        Inl e \<Rightarrow> Inl e
      | Inr (p1, padLength) \<Rightarrow>
          (case read_priority fh p1 of
             Inl e \<Rightarrow> Inl e
           | Inr (p, priority) \<Rightarrow>
               if int (length p) - int (unat padLength) < 0 then Inl (StreamError (fh_StreamID fh) ErrCodeProtocol)
               else case cut_pad p padLength of None \<Rightarrow> Inl SlicePanic | Some frag \<Rightarrow> Inr (HeadersFrame fh priority frag)))"

definition parsePriorityFrame :: "frame_header \<Rightarrow> bytes \<Rightarrow> http2_error + http2_frame" where
  "parsePriorityFrame fh payload =
     (if fh_StreamID fh = 0 then Inl (connError ErrCodeProtocol (Reason ''PRIORITY frame with stream ID 0''))
      else if length payload \<noteq> 5 then Inl (connError ErrCodeFrameSize (PrioritySize (length payload)))
      else case (read_be32 payload, byte_at payload 4) of
        (Some v, Some weight) \<Rightarrow>
          let streamID = v AND 0x7fffffff
          in Inr (PriorityFrame fh (priority_zero\<lparr>pp_Weight := weight, pp_StreamDep := streamID, pp_Exclusive := (streamID \<noteq> v)\<rparr>))
      | _ \<Rightarrow> Inl SlicePanic)"

definition parsePriorityUpdateFrame :: "frame_header \<Rightarrow> bytes \<Rightarrow> http2_error + http2_frame" where
  "parsePriorityUpdateFrame fh payload =
     (if fh_StreamID fh \<noteq> 0 then Inl (connError ErrCodeProtocol (Reason ''PRIORITY_UPDATE frame with non-zero stream ID''))
      else if length payload < 4 then Inl (connError ErrCodeFrameSize (PriorityUpdateSize (length payload)))
      else case (read_be32 payload, slice_from payload 4) of
        (Some v, Some priority) \<Rightarrow>
         (let streamID = v AND 0x7fffffff
          in if streamID = 0 then Inl (connError ErrCodeProtocol (Reason ''PRIORITY_UPDATE frame with prioritized stream ID of zero''))
             else Inr (PriorityUpdateFrame fh priority streamID))
      | _ \<Rightarrow> Inl SlicePanic)"

definition parseRSTStreamFrame :: "frame_header \<Rightarrow> bytes \<Rightarrow> http2_error + http2_frame" where
  "parseRSTStreamFrame fh p =
     (if length p \<noteq> 4 then Inl (ConnectionError ErrCodeFrameSize)
      else if fh_StreamID fh = 0 then Inl (ConnectionError ErrCodeProtocol)
      else case read_be32 p of None \<Rightarrow> Inl SlicePanic | Some c \<Rightarrow> Inr (RSTStreamFrame fh c))"

definition parseContinuationFrame :: "frame_header \<Rightarrow> bytes \<Rightarrow> http2_error + http2_frame" where
  "parseContinuationFrame fh p =
     (if fh_StreamID fh = 0 then Inl (connError ErrCodeProtocol (Reason ''CONTINUATION frame with stream ID 0''))
      else Inr (ContinuationFrame fh p))"

definition parsePushPromise :: "frame_header \<Rightarrow> bytes \<Rightarrow> http2_error + http2_frame" where
  "parsePushPromise fh p0 =
     (if fh_StreamID fh = 0 then Inl (ConnectionError ErrCodeProtocol)
      else case read_pad fh p0 of
        Inl e \<Rightarrow> Inl e
      | Inr (p1, padLength) \<Rightarrow>
          (case readUint32 p1 of
             Inl e \<Rightarrow> Inl e
           | Inr (p, promise) \<Rightarrow>
               if unat padLength > length p then Inl (ConnectionError ErrCodeProtocol)
               else case cut_pad p padLength of None \<Rightarrow> Inl SlicePanic | Some frag \<Rightarrow> Inr (PushPromiseFrame fh (promise AND 0x7fffffff) frag)))"

definition typeFrameParser :: "u8 \<Rightarrow> frame_header \<Rightarrow> bytes \<Rightarrow> http2_error + http2_frame" where
  "typeFrameParser t =
     (if t = FrameData then parseDataFrame
      else if t = FrameHeaders then parseHeadersFrame
      else if t = FramePriority then parsePriorityFrame
      else if t = FrameRSTStream then parseRSTStreamFrame
      else if t = FrameSettings then parseSettingsFrame
      else if t = FramePushPromise then parsePushPromise
      else if t = FramePing then parsePingFrame
      else if t = FrameGoAway then parseGoAwayFrame
      else if t = FrameWindowUpdate then parseWindowUpdateFrame
      else if t = FrameContinuation then parseContinuationFrame
      else if t = FramePriorityUpdate then parsePriorityUpdateFrame
      else parseUnknownFrame)"

section \<open>The framer\<close>

definition frameHeaderLen :: nat where "frameHeaderLen = 9"
definition maxFrameSize :: u32 where "maxFrameSize = 0xffffff"

record framer =
  fr_r :: bytes
  fr_w :: bytes
  fr_wbuf :: bytes
  fr_errDetail :: "error_detail option"
  fr_lastHeaderStream :: u32
  fr_lastFrameType :: u8
  fr_maxReadSize :: u32
  fr_AllowIllegalWrites :: bool
  fr_AllowIllegalReads :: bool

definition SetMaxReadFrameSize :: "u32 \<Rightarrow> framer \<Rightarrow> framer" where
  "SetMaxReadFrameSize v fr = fr\<lparr>fr_maxReadSize := (if v > maxFrameSize then maxFrameSize else v)\<rparr>"

definition NewFramer :: "bytes \<Rightarrow> framer" where
  "NewFramer r =
     SetMaxReadFrameSize maxFrameSize
       \<lparr>fr_r = r, fr_w = [], fr_wbuf = [], fr_errDetail = None, fr_lastHeaderStream = 0, fr_lastFrameType = 0, fr_maxReadSize = 0,
        fr_AllowIllegalWrites = False, fr_AllowIllegalReads = False\<rparr>"

text \<open>\<^verbatim>\<open>io.ReadFull\<close> on the bytes that are left: a short read consumes them.\<close>

definition ReadFull :: "nat \<Rightarrow> framer \<Rightarrow> framer \<times> (http2_error + bytes)" where
  "ReadFull n fr =
     (if n \<le> length (fr_r fr) then (fr\<lparr>fr_r := drop n (fr_r fr)\<rparr>, Inr (take n (fr_r fr)))
      else if fr_r fr = [] then (fr, Inl io_EOF)
      else (fr\<lparr>fr_r := []\<rparr>, Inl io_ErrUnexpectedEOF))"

definition header_of :: "bytes \<Rightarrow> frame_header" where
  "header_of buf =
     \<lparr>fh_Type = buf ! 3, fh_Flags = buf ! 4,
      fh_Length = push_bit 16 (ucast (buf ! 0)) OR push_bit 8 (ucast (buf ! 1)) OR ucast (buf ! 2),
      fh_StreamID = (case read_be32 (drop 5 buf) of Some v \<Rightarrow> v AND 0x7fffffff | None \<Rightarrow> 0)\<rparr>"

definition zero_header :: frame_header where
  "zero_header = \<lparr>fh_Type = 0, fh_Flags = 0, fh_Length = 0, fh_StreamID = 0\<rparr>"

definition readFrameHeader :: "framer \<Rightarrow> framer \<times> frame_header \<times> http2_error option" where
  "readFrameHeader fr =
     (case ReadFull frameHeaderLen fr of
        (fr1, Inl e) \<Rightarrow> (fr1, zero_header, Some e)
      | (fr1, Inr buf) \<Rightarrow> (fr1, header_of buf, None))"

text \<open>The header that the bytes \<^verbatim>\<open>HTTP/1.1\<close> and a space look like.\<close>

definition invalidHTTP1LookingFrameHeader :: frame_header where
  "invalidHTTP1LookingFrameHeader = header_of [0x48, 0x54, 0x54, 0x50, 0x2f, 0x31, 0x2e, 0x31, 0x20]"

definition fr_connError :: "u32 \<Rightarrow> error_detail \<Rightarrow> framer \<Rightarrow> framer \<times> http2_error option" where
  "fr_connError code reason fr = (fr\<lparr>fr_errDetail := Some reason\<rparr>, Some (ConnectionError code))"

definition checkFrameOrder :: "frame_header \<Rightarrow> framer \<Rightarrow> framer \<times> http2_error option" where
  "checkFrameOrder fh fr0 =
     (let lastType = fr_lastFrameType fr0;
          fr = fr0\<lparr>fr_lastFrameType := fh_Type fh\<rparr>;
          next_order = (if fh_Type fh = FrameHeaders \<or> fh_Type fh = FrameContinuation
                        then fr\<lparr>fr_lastHeaderStream := (if Flags_Has (fh_Flags fh) FlagEndHeaders then 0 else fh_StreamID fh)\<rparr>
                        else fr)
      in if fr_AllowIllegalReads fr then (fr, None)
         else if fr_lastHeaderStream fr \<noteq> 0
         then (if fh_Type fh \<noteq> FrameContinuation
               then fr_connError ErrCodeProtocol (ExpectedContinuation (fh_Type fh) (fh_StreamID fh) lastType (fr_lastHeaderStream fr)) fr
               else if fh_StreamID fh \<noteq> fr_lastHeaderStream fr
               then fr_connError ErrCodeProtocol (ContinuationOfOther (fh_StreamID fh) (fr_lastHeaderStream fr)) fr
               else (next_order, None))
         else if fh_Type fh = FrameContinuation then fr_connError ErrCodeProtocol (UnexpectedContinuation (fh_StreamID fh)) fr
         else (next_order, None))"

definition ReadFrameHeader :: "framer \<Rightarrow> framer \<times> frame_header \<times> http2_error option" where
  "ReadFrameHeader fr0 =
     (let (fr, fh, err) = readFrameHeader (fr0\<lparr>fr_errDetail := None\<rparr>) in
      if err \<noteq> None then (fr, fh, err)
      else if fh_Length fh > fr_maxReadSize fr
      then (fr, fh, Some (if fh = invalidHTTP1LookingFrameHeader then LooksLikeHTTP1 ErrFrameTooLarge else ErrFrameTooLarge))
      else let (fr1, err1) = checkFrameOrder fh fr in (fr1, fh, err1))"

definition ReadFrameForHeader :: "frame_header \<Rightarrow> framer \<Rightarrow> framer \<times> (http2_error + http2_frame)" where
  "ReadFrameForHeader fh fr =
     (case ReadFull (unat (fh_Length fh)) fr of
        (fr1, Inl e) \<Rightarrow> (fr1, Inl (if fh = invalidHTTP1LookingFrameHeader then LooksLikeHTTP1 e else e))
      | (fr1, Inr payload) \<Rightarrow>
          (case typeFrameParser (fh_Type fh) fh payload of
             Inl (connError code reason) \<Rightarrow> (fr1\<lparr>fr_errDetail := Some reason\<rparr>, Inl (ConnectionError code))
           | Inl e \<Rightarrow> (fr1, Inl e)
           | Inr f \<Rightarrow> (fr1, Inr f)))"

definition ReadFrame :: "framer \<Rightarrow> framer \<times> (http2_error + http2_frame)" where
  "ReadFrame fr =
     (case ReadFrameHeader fr of
        (fr1, fh, Some e) \<Rightarrow> (fr1, Inl e)
      | (fr1, fh, None) \<Rightarrow> ReadFrameForHeader fh fr1)"

section \<open>Writers\<close>

definition validStreamIDOrZero :: "u32 \<Rightarrow> bool" where
  "validStreamIDOrZero streamID \<longleftrightarrow> streamID AND 0x80000000 = 0"

definition validStreamID :: "u32 \<Rightarrow> bool" where
  "validStreamID streamID \<longleftrightarrow> streamID \<noteq> 0 \<and> streamID AND 0x80000000 = 0"

definition startWrite :: "u8 \<Rightarrow> u8 \<Rightarrow> u32 \<Rightarrow> framer \<Rightarrow> framer" where
  "startWrite ftype flags streamID f = f\<lparr>fr_wbuf := [0, 0, 0, ftype, flags] @ be32 streamID\<rparr>"

definition writeBytes :: "bytes \<Rightarrow> framer \<Rightarrow> framer" where
  "writeBytes v f = f\<lparr>fr_wbuf := fr_wbuf f @ v\<rparr>"

definition writeUint16 :: "u16 \<Rightarrow> framer \<Rightarrow> framer" where
  "writeUint16 v f = f\<lparr>fr_wbuf := fr_wbuf f @ be16 v\<rparr>"

definition writeUint32 :: "u32 \<Rightarrow> framer \<Rightarrow> framer" where
  "writeUint32 v f = f\<lparr>fr_wbuf := fr_wbuf f @ be32 v\<rparr>"

definition length_bytes :: "nat \<Rightarrow> bytes" where
  "length_bytes n = [word_of_nat (drop_bit 16 n), word_of_nat (drop_bit 8 n), word_of_nat n]"

definition endWrite :: "framer \<Rightarrow> framer \<times> http2_error option" where
  "endWrite f =
     (let len = length (fr_wbuf f) - frameHeaderLen in
      if len \<ge> 16777216 then (f, Some ErrFrameTooLarge)
      else let wbuf = length_bytes len @ drop 3 (fr_wbuf f) in (f\<lparr>fr_wbuf := wbuf, fr_w := fr_w f @ wbuf\<rparr>, None))"

definition startWriteDataPadded :: "u32 \<Rightarrow> bool \<Rightarrow> bytes \<Rightarrow> bytes option \<Rightarrow> framer \<Rightarrow> framer \<times> http2_error option" where
  "startWriteDataPadded streamID endStream data pad f =
     (let padding = (case pad of None \<Rightarrow> [] | Some p \<Rightarrow> p) in
      if \<not> validStreamID streamID \<and> \<not> fr_AllowIllegalWrites f then (f, Some errStreamID)
      else if length padding > 255 then (f, Some errPadLength)
      else if \<not> fr_AllowIllegalWrites f \<and> \<not> list_all (\<lambda>b. b = 0) padding then (f, Some errPadBytes)
      else let flags = (if endStream then FlagEndStream else 0) OR (if pad \<noteq> None then FlagPadded else 0);
               f1 = startWrite FrameData flags streamID f;
               f2 = (if pad \<noteq> None then writeBytes [word_of_nat (length padding)] f1 else f1)
           in (writeBytes padding (writeBytes data f2), None))"

definition WriteDataPadded :: "u32 \<Rightarrow> bool \<Rightarrow> bytes \<Rightarrow> bytes option \<Rightarrow> framer \<Rightarrow> framer \<times> http2_error option" where
  "WriteDataPadded streamID endStream data pad f =
     (case startWriteDataPadded streamID endStream data pad f of (f1, Some e) \<Rightarrow> (f1, Some e) | (f1, None) \<Rightarrow> endWrite f1)"

definition WriteData :: "u32 \<Rightarrow> bool \<Rightarrow> bytes \<Rightarrow> framer \<Rightarrow> framer \<times> http2_error option" where
  "WriteData streamID endStream data f = WriteDataPadded streamID endStream data None f"

definition WriteSettings :: "setting list \<Rightarrow> framer \<Rightarrow> framer \<times> http2_error option" where
  "WriteSettings settings f = endWrite (fold (\<lambda>s f. writeUint32 (set_Val s) (writeUint16 (set_ID s) f)) settings (startWrite FrameSettings 0 0 f))"

definition WriteSettingsAck :: "framer \<Rightarrow> framer \<times> http2_error option" where
  "WriteSettingsAck f = endWrite (startWrite FrameSettings FlagAck 0 f)"

definition WritePing :: "bool \<Rightarrow> bytes \<Rightarrow> framer \<Rightarrow> framer \<times> http2_error option" where
  "WritePing ack data f = endWrite (writeBytes data (startWrite FramePing (if ack then FlagAck else 0) 0 f))"

definition WriteGoAway :: "u32 \<Rightarrow> u32 \<Rightarrow> bytes \<Rightarrow> framer \<Rightarrow> framer \<times> http2_error option" where
  "WriteGoAway maxStreamID code debugData f =
     endWrite (writeBytes debugData (writeUint32 code (writeUint32 (maxStreamID AND 0x7fffffff) (startWrite FrameGoAway 0 0 f))))"

definition WriteWindowUpdate :: "u32 \<Rightarrow> u32 \<Rightarrow> framer \<Rightarrow> framer \<times> http2_error option" where
  "WriteWindowUpdate streamID incr f =
     (if (incr < 1 \<or> incr > 2147483647) \<and> \<not> fr_AllowIllegalWrites f then (f, Some IllegalWindowIncrement)
      else endWrite (writeUint32 incr (startWrite FrameWindowUpdate 0 streamID f)))"

record headers_frame_param =
  hp_StreamID :: u32
  hp_BlockFragment :: bytes
  hp_EndStream :: bool
  hp_EndHeaders :: bool
  hp_PadLength :: u8
  hp_Priority :: priority_param

definition WriteHeaders :: "headers_frame_param \<Rightarrow> framer \<Rightarrow> framer \<times> http2_error option" where
  "WriteHeaders p f =
     (if \<not> validStreamID (hp_StreamID p) \<and> \<not> fr_AllowIllegalWrites f then (f, Some errStreamID)
      else let prio = hp_Priority p;
               flags = (if hp_PadLength p \<noteq> 0 then FlagPadded else 0) OR (if hp_EndStream p then FlagEndStream else 0)
                 OR (if hp_EndHeaders p then FlagEndHeaders else 0) OR (if \<not> priority_IsZero prio then FlagHeadersPriority else 0);
               f1 = startWrite FrameHeaders flags (hp_StreamID p) f;
               f2 = (if hp_PadLength p \<noteq> 0 then writeBytes [hp_PadLength p] f1 else f1)
           in if \<not> priority_IsZero prio \<and> \<not> validStreamIDOrZero (pp_StreamDep prio) \<and> \<not> fr_AllowIllegalWrites f then (f2, Some errDepStreamID)
              else let f3 = (if \<not> priority_IsZero prio
                             then writeBytes [pp_Weight prio] (writeUint32 (if pp_Exclusive prio then pp_StreamDep prio OR 0x80000000 else pp_StreamDep prio) f2)
                             else f2)
                   in endWrite (writeBytes (replicate (unat (hp_PadLength p)) 0) (writeBytes (hp_BlockFragment p) f3)))"

definition WritePriority :: "u32 \<Rightarrow> priority_param \<Rightarrow> framer \<Rightarrow> framer \<times> http2_error option" where
  "WritePriority streamID p f =
     (if \<not> validStreamID streamID \<and> \<not> fr_AllowIllegalWrites f then (f, Some errStreamID)
      else if \<not> validStreamIDOrZero (pp_StreamDep p) then (f, Some errDepStreamID)
      else endWrite (writeBytes [pp_Weight p]
             (writeUint32 (if pp_Exclusive p then pp_StreamDep p OR 0x80000000 else pp_StreamDep p) (startWrite FramePriority 0 streamID f))))"

definition WritePriorityUpdate :: "u32 \<Rightarrow> bytes \<Rightarrow> framer \<Rightarrow> framer \<times> http2_error option" where
  "WritePriorityUpdate streamID priority f =
     (if \<not> validStreamID streamID \<and> \<not> fr_AllowIllegalWrites f then (f, Some errStreamID)
      else endWrite (writeBytes priority (writeUint32 streamID (startWrite FramePriorityUpdate 0 0 f))))"

definition WriteRSTStream :: "u32 \<Rightarrow> u32 \<Rightarrow> framer \<Rightarrow> framer \<times> http2_error option" where
  "WriteRSTStream streamID code f =
     (if \<not> validStreamID streamID \<and> \<not> fr_AllowIllegalWrites f then (f, Some errStreamID)
      else endWrite (writeUint32 code (startWrite FrameRSTStream 0 streamID f)))"

definition WriteContinuation :: "u32 \<Rightarrow> bool \<Rightarrow> bytes \<Rightarrow> framer \<Rightarrow> framer \<times> http2_error option" where
  "WriteContinuation streamID endHeaders headerBlockFragment f =
     (if \<not> validStreamID streamID \<and> \<not> fr_AllowIllegalWrites f then (f, Some errStreamID)
      else endWrite (writeBytes headerBlockFragment (startWrite FrameContinuation (if endHeaders then FlagEndHeaders else 0) streamID f)))"

record push_promise_param =
  pm_StreamID :: u32
  pm_PromiseID :: u32
  pm_BlockFragment :: bytes
  pm_EndHeaders :: bool
  pm_PadLength :: u8

definition WritePushPromise :: "push_promise_param \<Rightarrow> framer \<Rightarrow> framer \<times> http2_error option" where
  "WritePushPromise p f =
     (if \<not> validStreamID (pm_StreamID p) \<and> \<not> fr_AllowIllegalWrites f then (f, Some errStreamID)
      else let flags = (if pm_PadLength p \<noteq> 0 then FlagPadded else 0) OR (if pm_EndHeaders p then FlagEndHeaders else 0);
               f1 = startWrite FramePushPromise flags (pm_StreamID p) f;
               f2 = (if pm_PadLength p \<noteq> 0 then writeBytes [pm_PadLength p] f1 else f1)
           in if \<not> validStreamID (pm_PromiseID p) \<and> \<not> fr_AllowIllegalWrites f then (f2, Some errStreamID)
              else endWrite (writeBytes (replicate (unat (pm_PadLength p)) 0) (writeBytes (pm_BlockFragment p) (writeUint32 (pm_PromiseID p) f2))))"

definition WriteRawFrame :: "u8 \<Rightarrow> u8 \<Rightarrow> u32 \<Rightarrow> bytes \<Rightarrow> framer \<Rightarrow> framer \<times> http2_error option" where
  "WriteRawFrame t flags streamID payload f = endWrite (writeBytes payload (startWrite t flags streamID f))"

end
