(* ===== verification/Http2_Codec.thy ===== *)
theory Http2_Codec
  imports Http2_Frame
begin

text \<open>
  What is written is what is read: the bytes of every writer of a framer, the frames its parsers return for them, and
  the order of header blocks that the reader accepts.
\<close>

section \<open>Words\<close>

lemma mask31: "(0x7fffffff :: u32) = mask 31" "(0x80000000 :: u32) = 2 ^ 31"
  by (simp_all add: mask_eq_exp_minus_1)

lemma high_bit: "bit (0x80000000 :: u32) n \<longleftrightarrow> n = 31"
  unfolding mask31 bit_exp_iff by auto

lemma valid_mask [simp]: "validStreamIDOrZero x \<Longrightarrow> x AND 0x7fffffff = x"
proof -
  assume "validStreamIDOrZero x"
  then have "\<not> bit x 31" unfolding validStreamIDOrZero_def mask31 and_exp_eq_0_iff_not_bit .
  then have "bit x n \<Longrightarrow> n < 31" for n using bit_imp_le_length [of x n] by (cases "n = 31") auto
  then show "x AND 0x7fffffff = x" unfolding mask31 by (intro bit_word_eqI) (auto simp: bit_simps)
qed

lemma valid_weaken: "validStreamID x \<Longrightarrow> validStreamIDOrZero x" "validStreamID x \<Longrightarrow> x \<noteq> 0"
  by (simp_all add: validStreamID_def validStreamIDOrZero_def)

lemma exclusive_bit:
  assumes "validStreamIDOrZero x"
  shows "(x OR 0x80000000) AND 0x7fffffff = x" "x OR 0x80000000 \<noteq> x"
proof -
  have "(x OR 0x80000000) AND 0x7fffffff = x AND 0x7fffffff"
    unfolding mask31(1) by (rule bit_word_eqI) (unfold bit_or_iff bit_and_iff bit_mask_iff high_bit, auto)
  then show "(x OR 0x80000000) AND 0x7fffffff = x" using assms by simp
  have "bit (x OR 0x80000000) 31" by (simp add: bit_or_iff high_bit)
  moreover have "\<not> bit x 31" using assms unfolding validStreamIDOrZero_def mask31 and_exp_eq_0_iff_not_bit .
  ultimately show "x OR 0x80000000 \<noteq> x" by metis
qed

lemma length_bytes_read:
  assumes "n < 16777216"
  shows "push_bit 16 (ucast (length_bytes n ! 0)) OR push_bit 8 (ucast (length_bytes n ! 1)) OR ucast (length_bytes n ! 2) = (word_of_nat n :: u32)"
proof (rule bit_word_eqI)
  have high: "bit n k \<Longrightarrow> k < 24" for k
  proof -
    have "take_bit 24 n = n" using assms by (simp add: take_bit_nat_eq_self)
    then show "bit n k \<Longrightarrow> k < 24" using bit_take_bit_iff [of 24 n k] by simp
  qed
  fix k assume "k < LENGTH(32)"
  then consider "k < 8" | "8 \<le> k" "k < 16" | "16 \<le> k" "k < 24" | "24 \<le> k" "k < 32" by fastforce
  then show "bit (push_bit 16 (ucast (length_bytes n ! 0)) OR push_bit 8 (ucast (length_bytes n ! 1)) OR ucast (length_bytes n ! 2) :: u32) k = bit (word_of_nat n :: u32) k"
    using high [of k] by cases (auto simp: length_bytes_def bit_simps)
qed

section \<open>A frame on the wire\<close>

definition wire :: "u8 \<Rightarrow> u8 \<Rightarrow> u32 \<Rightarrow> bytes \<Rightarrow> bytes" where
  "wire t fl sid payload = length_bytes (length payload) @ [t, fl] @ be32 sid @ payload"

definition wire_header :: "u8 \<Rightarrow> u8 \<Rightarrow> u32 \<Rightarrow> bytes \<Rightarrow> frame_header" where
  "wire_header t fl sid payload = \<lparr>fh_Type = t, fh_Flags = fl, fh_Length = word_of_nat (length payload), fh_StreamID = sid AND 0x7fffffff\<rparr>"

lemma endWrite_wire:
  assumes "endWrite f = (f', None)" "fr_wbuf f = [0, 0, 0, t, fl] @ be32 sid @ payload"
  shows "fr_w f' = fr_w f @ wire t fl sid payload" "length payload < 16777216" "fr_AllowIllegalWrites f' = fr_AllowIllegalWrites f"
  using assms by (auto simp: endWrite_def Let_def wire_def frameHeaderLen_def split: if_splits)

lemma header_of_wire:
  assumes "length payload < 16777216"
  shows "header_of (take 9 (wire t fl sid payload @ rest)) = wire_header t fl sid payload" "drop 9 (wire t fl sid payload @ rest) = payload @ rest"
    "9 \<le> length (wire t fl sid payload @ rest)"
proof -
  have l: "length (length_bytes n) = 3" for n by (simp add: length_bytes_def)
  obtain a b c where b4: "length_bytes (length payload) = [a, b, c]" by (simp add: length_bytes_def)
  have "take 9 (wire t fl sid payload @ rest) = [a, b, c, t, fl] @ be32 sid" by (simp add: wire_def b4 numeral_eq_Suc be32_def)
  moreover have "read_be32 (be32 sid) = Some sid" using read_be32_be32 [of sid "[]"] by simp
  moreover have "push_bit 16 (ucast a) OR push_bit 8 (ucast b) OR ucast c = (word_of_nat (length payload) :: u32)"
    using length_bytes_read [OF assms] by (simp add: b4)
  ultimately show "header_of (take 9 (wire t fl sid payload @ rest)) = wire_header t fl sid payload"
    by (simp add: header_of_def wire_header_def)
  show "drop 9 (wire t fl sid payload @ rest) = payload @ rest" "9 \<le> length (wire t fl sid payload @ rest)"
    by (simp_all add: wire_def l be32_def numeral_eq_Suc b4)
qed

section \<open>The order of header blocks\<close>

definition order_next :: "u32 \<Rightarrow> frame_header \<Rightarrow> u32 option" where
  "order_next open_stream fh =
     (let after = (if Flags_Has (fh_Flags fh) FlagEndHeaders then 0 else fh_StreamID fh) in
      if open_stream \<noteq> 0 then (if fh_Type fh = FrameContinuation \<and> fh_StreamID fh = open_stream then Some after else None)
      else if fh_Type fh = FrameContinuation then None
      else if fh_Type fh = FrameHeaders then Some after
      else Some 0)"

lemma checkFrameOrder_next:
  assumes "\<not> fr_AllowIllegalReads fr"
  shows "order_next (fr_lastHeaderStream fr) fh = Some n \<Longrightarrow>
      checkFrameOrder fh fr = (fr\<lparr>fr_lastFrameType := fh_Type fh, fr_lastHeaderStream := n\<rparr>, None)"
    and "order_next (fr_lastHeaderStream fr) fh = None \<Longrightarrow> \<exists>fr'. checkFrameOrder fh fr = (fr', Some (ConnectionError ErrCodeProtocol))"
  using assms by (auto simp: order_next_def checkFrameOrder_def Let_def fr_connError_def frame_types split: if_splits)

lemma read_wire:
  assumes r: "fr_r fr = wire t fl sid payload @ rest" and l: "length payload < 16777216" "length payload \<le> unat (fr_maxReadSize fr)"
    and o: "\<not> fr_AllowIllegalReads fr" "order_next (fr_lastHeaderStream fr) (wire_header t fl sid payload) = Some n"
    and p: "typeFrameParser t (wire_header t fl sid payload) payload = Inr g"
  shows "ReadFrame fr = (fr\<lparr>fr_errDetail := None, fr_lastFrameType := t, fr_lastHeaderStream := n, fr_r := rest\<rparr>, Inr g)"
proof -
  note h = header_of_wire [OF l(1), of t fl sid rest]
  define fr1 where "fr1 = fr\<lparr>fr_errDetail := None, fr_r := payload @ rest\<rparr>"
  have len: "unat (fh_Length (wire_header t fl sid payload)) = length payload"
    using l(1) by (simp add: wire_header_def unat_of_nat take_bit_nat_eq_self)
  have rh: "readFrameHeader (fr\<lparr>fr_errDetail := None\<rparr>) = (fr1, wire_header t fl sid payload, None)"
    using h by (simp add: readFrameHeader_def ReadFull_def frameHeaderLen_def r fr1_def)
  have "\<not> fh_Length (wire_header t fl sid payload) > fr_maxReadSize fr1"
    using l(2) len by (simp add: fr1_def word_less_nat_alt)
  moreover have "checkFrameOrder (wire_header t fl sid payload) fr1 = (fr1\<lparr>fr_lastFrameType := t, fr_lastHeaderStream := n\<rparr>, None)"
    using checkFrameOrder_next(1) [of fr1 "wire_header t fl sid payload" n] o by (simp add: fr1_def wire_header_def)
  ultimately have "ReadFrameHeader fr = (fr1\<lparr>fr_lastFrameType := t, fr_lastHeaderStream := n\<rparr>, wire_header t fl sid payload, None)"
    by (simp add: ReadFrameHeader_def rh)
  moreover have "fh_Type (wire_header t fl sid payload) = t" by (simp add: wire_header_def)
  ultimately show ?thesis using p len by (simp add: ReadFrame_def ReadFrameForHeader_def ReadFull_def fr1_def)
qed

section \<open>What a writer puts on the wire\<close>

datatype write_op =
    W_Data u32 bool bytes "bytes option"
  | W_Headers headers_frame_param
  | W_Priority u32 priority_param
  | W_RSTStream u32 u32
  | W_Settings "setting list"
  | W_SettingsAck
  | W_PushPromise push_promise_param
  | W_Ping bool bytes
  | W_GoAway u32 u32 bytes
  | W_WindowUpdate u32 u32
  | W_Continuation u32 bool bytes
  | W_PriorityUpdate u32 bytes
  | W_Raw u8 u8 u32 bytes

fun op_write :: "write_op \<Rightarrow> framer \<Rightarrow> framer \<times> http2_error option" where
  "op_write (W_Data sid end_stream data pad) = WriteDataPadded sid end_stream data pad"
| "op_write (W_Headers p) = WriteHeaders p"
| "op_write (W_Priority sid p) = WritePriority sid p"
| "op_write (W_RSTStream sid code) = WriteRSTStream sid code"
| "op_write (W_Settings settings) = WriteSettings settings"
| "op_write W_SettingsAck = WriteSettingsAck"
| "op_write (W_PushPromise p) = WritePushPromise p"
| "op_write (W_Ping ack data) = WritePing ack data"
| "op_write (W_GoAway sid code data) = WriteGoAway sid code data"
| "op_write (W_WindowUpdate sid incr) = WriteWindowUpdate sid incr"
| "op_write (W_Continuation sid end_headers frag) = WriteContinuation sid end_headers frag"
| "op_write (W_PriorityUpdate sid priority) = WritePriorityUpdate sid priority"
| "op_write (W_Raw t flags sid payload) = WriteRawFrame t flags sid payload"

definition setting_bytes :: "setting \<Rightarrow> bytes" where
  "setting_bytes s = be16 (set_ID s) @ be32 (set_Val s)"

definition priority_word :: "priority_param \<Rightarrow> u32" where
  "priority_word p = (if pp_Exclusive p then pp_StreamDep p OR 0x80000000 else pp_StreamDep p)"

definition pad_byte :: "u8 \<Rightarrow> bytes" where
  "pad_byte n = (if n \<noteq> 0 then [n] else [])"

fun op_type :: "write_op \<Rightarrow> u8" where
  "op_type (W_Data _ _ _ _) = FrameData"
| "op_type (W_Headers _) = FrameHeaders"
| "op_type (W_Priority _ _) = FramePriority"
| "op_type (W_RSTStream _ _) = FrameRSTStream"
| "op_type (W_Settings _) = FrameSettings"
| "op_type W_SettingsAck = FrameSettings"
| "op_type (W_PushPromise _) = FramePushPromise"
| "op_type (W_Ping _ _) = FramePing"
| "op_type (W_GoAway _ _ _) = FrameGoAway"
| "op_type (W_WindowUpdate _ _) = FrameWindowUpdate"
| "op_type (W_Continuation _ _ _) = FrameContinuation"
| "op_type (W_PriorityUpdate _ _) = FramePriorityUpdate"
| "op_type (W_Raw t _ _ _) = t"

fun op_flags :: "write_op \<Rightarrow> u8" where
  "op_flags (W_Data _ end_stream _ pad) = (if end_stream then FlagEndStream else 0) OR (if pad \<noteq> None then FlagPadded else 0)"
| "op_flags (W_Headers p) = (if hp_PadLength p \<noteq> 0 then FlagPadded else 0) OR (if hp_EndStream p then FlagEndStream else 0)
     OR (if hp_EndHeaders p then FlagEndHeaders else 0) OR (if \<not> priority_IsZero (hp_Priority p) then FlagHeadersPriority else 0)"
| "op_flags W_SettingsAck = FlagAck"
| "op_flags (W_PushPromise p) = (if pm_PadLength p \<noteq> 0 then FlagPadded else 0) OR (if pm_EndHeaders p then FlagEndHeaders else 0)"
| "op_flags (W_Ping ack _) = (if ack then FlagAck else 0)"
| "op_flags (W_Continuation _ end_headers _) = (if end_headers then FlagEndHeaders else 0)"
| "op_flags (W_Raw _ flags _ _) = flags"
| "op_flags _ = 0"

fun op_stream :: "write_op \<Rightarrow> u32" where
  "op_stream (W_Data sid _ _ _) = sid"
| "op_stream (W_Headers p) = hp_StreamID p"
| "op_stream (W_Priority sid _) = sid"
| "op_stream (W_RSTStream sid _) = sid"
| "op_stream (W_PushPromise p) = pm_StreamID p"
| "op_stream (W_WindowUpdate sid _) = sid"
| "op_stream (W_Continuation sid _ _) = sid"
| "op_stream (W_Raw _ _ sid _) = sid"
| "op_stream _ = 0"

fun op_payload :: "write_op \<Rightarrow> bytes" where
  "op_payload (W_Data _ _ data pad) = (case pad of None \<Rightarrow> data | Some p \<Rightarrow> word_of_nat (length p) # data @ p)"
| "op_payload (W_Headers p) = pad_byte (hp_PadLength p) @
     (if priority_IsZero (hp_Priority p) then [] else be32 (priority_word (hp_Priority p)) @ [pp_Weight (hp_Priority p)]) @
     hp_BlockFragment p @ replicate (unat (hp_PadLength p)) 0"
| "op_payload (W_Priority _ p) = be32 (priority_word p) @ [pp_Weight p]"
| "op_payload (W_RSTStream _ code) = be32 code"
| "op_payload (W_Settings settings) = concat (map setting_bytes settings)"
| "op_payload W_SettingsAck = []"
| "op_payload (W_PushPromise p) = pad_byte (pm_PadLength p) @ be32 (pm_PromiseID p) @ pm_BlockFragment p @ replicate (unat (pm_PadLength p)) 0"
| "op_payload (W_Ping _ data) = data"
| "op_payload (W_GoAway sid code data) = be32 (sid AND 0x7fffffff) @ be32 code @ data"
| "op_payload (W_WindowUpdate _ incr) = be32 incr"
| "op_payload (W_Continuation _ _ frag) = frag"
| "op_payload (W_PriorityUpdate sid priority) = be32 sid @ priority"
| "op_payload (W_Raw _ _ _ payload) = payload"

definition op_wire :: "write_op \<Rightarrow> bytes" where
  "op_wire op = wire (op_type op) (op_flags op) (op_stream op) (op_payload op)"

lemma settings_wbuf:
  "fr_wbuf (fold (\<lambda>s f. writeUint32 (set_Val s) (writeUint16 (set_ID s) f)) settings f) = fr_wbuf f @ concat (map setting_bytes settings)"
  "fr_w (fold (\<lambda>s f. writeUint32 (set_Val s) (writeUint16 (set_ID s) f)) settings f) = fr_w f"
  "fr_AllowIllegalWrites (fold (\<lambda>s f. writeUint32 (set_Val s) (writeUint16 (set_ID s) f)) settings f) = fr_AllowIllegalWrites f"
  by (induction settings arbitrary: f) (simp_all add: writeUint32_def writeUint16_def setting_bytes_def)

lemma op_ends:
  assumes "op_write op f = (f', None)"
  shows "\<exists>f1. endWrite f1 = (f', None) \<and> fr_wbuf f1 = [0, 0, 0, op_type op, op_flags op] @ be32 (op_stream op) @ op_payload op \<and> fr_w f1 = fr_w f \<and>
    fr_AllowIllegalWrites f1 = fr_AllowIllegalWrites f"
proof (cases op)
  case (W_Settings settings)
  have "endWrite (fold (\<lambda>s f. writeUint32 (set_Val s) (writeUint16 (set_ID s) f)) settings (startWrite FrameSettings 0 0 f)) = (f', None)"
    using assms W_Settings by (simp add: WriteSettings_def)
  then show ?thesis by (intro exI conjI) (assumption, simp_all add: W_Settings settings_wbuf startWrite_def)
qed (use assms in \<open>auto simp: WriteDataPadded_def startWriteDataPadded_def WriteHeaders_def WritePriority_def WriteRSTStream_def WriteSettingsAck_def
    WritePushPromise_def WritePing_def WriteGoAway_def WriteWindowUpdate_def WriteContinuation_def WritePriorityUpdate_def WriteRawFrame_def Let_def
    startWrite_def writeBytes_def writeUint32_def pad_byte_def priority_word_def split: if_splits option.splits\<close>)

lemma op_written:
  assumes "op_write op f = (f', None)"
  shows "fr_w f' = fr_w f @ op_wire op" "length (op_payload op) < 16777216" "fr_AllowIllegalWrites f' = fr_AllowIllegalWrites f"
proof -
  obtain f1 where "endWrite f1 = (f', None)" "fr_wbuf f1 = [0, 0, 0, op_type op, op_flags op] @ be32 (op_stream op) @ op_payload op" "fr_w f1 = fr_w f"
    "fr_AllowIllegalWrites f1 = fr_AllowIllegalWrites f"
    using op_ends [OF assms] by blast
  then show "fr_w f' = fr_w f @ op_wire op" "length (op_payload op) < 16777216" "fr_AllowIllegalWrites f' = fr_AllowIllegalWrites f"
    using endWrite_wire [of f1 f' "op_type op" "op_flags op" "op_stream op" "op_payload op"] by (simp_all add: op_wire_def)
qed

section \<open>What a parser makes of it\<close>

definition op_header :: "write_op \<Rightarrow> frame_header" where
  "op_header op = wire_header (op_type op) (op_flags op) (op_stream op) (op_payload op)"

text \<open>The frame that a writer stands for; the wire has no room for the urgency and the increment of a priority.\<close>

fun op_frame :: "write_op \<Rightarrow> http2_frame" where
  "op_frame (W_Data sid e data pad) = DataFrame (op_header (W_Data sid e data pad)) data"
| "op_frame (W_Headers p) = HeadersFrame (op_header (W_Headers p)) ((hp_Priority p)\<lparr>pp_urgency := 0, pp_incremental := 0\<rparr>) (hp_BlockFragment p)"
| "op_frame (W_Priority sid p) = PriorityFrame (op_header (W_Priority sid p)) (p\<lparr>pp_urgency := 0, pp_incremental := 0\<rparr>)"
| "op_frame (W_RSTStream sid code) = RSTStreamFrame (op_header (W_RSTStream sid code)) code"
| "op_frame (W_Settings settings) = SettingsFrame (op_header (W_Settings settings)) (op_payload (W_Settings settings))"
| "op_frame W_SettingsAck = SettingsFrame (op_header W_SettingsAck) []"
| "op_frame (W_PushPromise p) = PushPromiseFrame (op_header (W_PushPromise p)) (pm_PromiseID p) (pm_BlockFragment p)"
| "op_frame (W_Ping ack data) = PingFrame (op_header (W_Ping ack data)) data"
| "op_frame (W_GoAway sid code data) = GoAwayFrame (op_header (W_GoAway sid code data)) (sid AND 0x7fffffff) code data"
| "op_frame (W_WindowUpdate sid incr) = WindowUpdateFrame (op_header (W_WindowUpdate sid incr)) incr"
| "op_frame (W_Continuation sid e frag) = ContinuationFrame (op_header (W_Continuation sid e frag)) frag"
| "op_frame (W_PriorityUpdate sid priority) = PriorityUpdateFrame (op_header (W_PriorityUpdate sid priority)) priority sid"
| "op_frame (W_Raw t fl sid payload) = UnknownFrame (op_header (W_Raw t fl sid payload)) payload"

text \<open>What the writers do not check and the readers do.\<close>

fun op_readable :: "write_op \<Rightarrow> bool" where
  "op_readable (W_Settings settings) =
     (case find (\<lambda>s. set_ID s = SettingInitialWindowSize) settings of None \<Rightarrow> True | Some s \<Rightarrow> set_Val s \<le> 0x7fffffff)"
| "op_readable (W_WindowUpdate sid _) = validStreamIDOrZero sid"
| "op_readable (W_Ping _ data) = (length data = 8)"
| "op_readable (W_Raw t _ sid _) = (validStreamIDOrZero sid \<and> (0x9 < t \<and> t \<noteq> 0x10))"
| "op_readable _ = True"

lemma data_flags:
  "Flags_Has ((if a then FlagEndStream else 0) OR (if b then FlagPadded else 0)) FlagPadded = b"
  by (simp add: Flags_Has_def frame_flags)

lemma headers_flags:
  "Flags_Has ((if a then FlagPadded else 0) OR (if b then FlagEndStream else 0) OR (if c then FlagEndHeaders else 0) OR (if d then FlagHeadersPriority else 0)) FlagPadded = a"
  "Flags_Has ((if a then FlagPadded else 0) OR (if b then FlagEndStream else 0) OR (if c then FlagEndHeaders else 0) OR (if d then FlagHeadersPriority else 0)) FlagHeadersPriority = d"
  by (simp_all add: Flags_Has_def frame_flags)

lemma push_flags:
  "Flags_Has ((if a then FlagPadded else 0) OR (if b then FlagEndHeaders else 0)) FlagPadded = a"
  by (simp add: Flags_Has_def frame_flags)

lemma length_settings: "length (concat (map setting_bytes settings)) = 6 * length settings"
  by (induction settings) (simp_all add: setting_bytes_def)

lemma drop_settings: "i \<le> length settings \<Longrightarrow> drop (i * 6) (concat (map setting_bytes settings)) = concat (map setting_bytes (drop i settings))"
proof (induction settings arbitrary: i)
  case (Cons s settings)
  show ?case
  proof (cases i)
    case (Suc j)
    have "length (setting_bytes s) = 6" by (simp add: setting_bytes_def)
    then show ?thesis using Cons Suc by simp
  qed simp
qed simp

lemma Setting_at_bytes:
  assumes "i < length settings"
  shows "Setting_at (concat (map setting_bytes settings)) i = Some (settings ! i)"
proof -
  have d: "drop (i * 6) (concat (map setting_bytes settings)) = setting_bytes (settings ! i) @ concat (map setting_bytes (drop (Suc i) settings))"
    using drop_settings [of i settings] assms by (simp add: Cons_nth_drop_Suc [symmetric])
  have "drop (i * 6 + 2) (concat (map setting_bytes settings)) = drop 2 (drop (i * 6) (concat (map setting_bytes settings)))" by (simp add: add.commute)
  then show ?thesis unfolding Setting_at_def d by (simp add: setting_bytes_def codec_simps)
qed

lemma settings_Value_find:
  assumes "\<forall>i \<in> set is. i < length settings"
  shows "settings_Value (concat (map setting_bytes settings)) k is = Some (map_option set_Val (find (\<lambda>s. set_ID s = k) (map ((!) settings) is)))"
  using assms by (induction "is") (simp_all add: Setting_at_bytes)

lemma SettingsFrame_Value_bytes:
  "SettingsFrame_Value (concat (map setting_bytes settings)) k = Some (map_option set_Val (find (\<lambda>s. set_ID s = k) settings))"
  by (simp add: SettingsFrame_Value_def NumSettings_def length_settings settings_Value_find map_nth)

lemma read_priority_word:
  assumes "validStreamIDOrZero (pp_StreamDep p)"
  shows "priority_word p AND 0x7fffffff = pp_StreamDep p" "(priority_word p \<noteq> pp_StreamDep p) = pp_Exclusive p" "(pp_StreamDep p \<noteq> priority_word p) = pp_Exclusive p"
  using exclusive_bit [OF assms] assms by (auto simp: priority_word_def)

lemma priority_rebuild: "priority_zero\<lparr>pp_StreamDep := pp_StreamDep p, pp_Exclusive := pp_Exclusive p, pp_Weight := pp_Weight p\<rparr> = p\<lparr>pp_urgency := 0, pp_incremental := 0\<rparr>"
  by (cases p) (simp add: priority_zero_def)

lemma read_be32_only [simp]: "read_be32 (be32 v) = Some v"
  using read_be32_be32 [of v "[]"] by simp

lemma typeFrameParser_types:
  "typeFrameParser FrameData = parseDataFrame" "typeFrameParser FrameHeaders = parseHeadersFrame" "typeFrameParser FramePriority = parsePriorityFrame"
  "typeFrameParser FrameRSTStream = parseRSTStreamFrame" "typeFrameParser FrameSettings = parseSettingsFrame"
  "typeFrameParser FramePushPromise = parsePushPromise" "typeFrameParser FramePing = parsePingFrame" "typeFrameParser FrameGoAway = parseGoAwayFrame"
  "typeFrameParser FrameWindowUpdate = parseWindowUpdateFrame" "typeFrameParser FrameContinuation = parseContinuationFrame"
  "typeFrameParser FramePriorityUpdate = parsePriorityUpdateFrame"
  by (simp_all add: typeFrameParser_def frame_types)

lemma typeFrameParser_unknown: "0x9 < t \<Longrightarrow> t \<noteq> 0x10 \<Longrightarrow> typeFrameParser t = parseUnknownFrame"
  by (auto simp: typeFrameParser_def frame_types)

lemma header_fields:
  "fh_Type (op_header op) = op_type op" "fh_Flags (op_header op) = op_flags op" "fh_Length (op_header op) = word_of_nat (length (op_payload op))"
  "fh_StreamID (op_header op) = op_stream op AND 0x7fffffff"
  by (simp_all add: op_header_def wire_header_def)

lemma cut_pad_take: "unat pad \<le> length p \<Longrightarrow> cut_pad p pad = Some (take (length p - unat pad) p)"
proof -
  assume "unat pad \<le> length p"
  then have "0 \<le> int (length p) - int (unat pad) \<and> int (length p) - int (unat pad) \<le> int (length p)" "nat (int (length p) - int (unat pad)) = length p - unat pad"
    by linarith+
  then show ?thesis unfolding cut_pad_def slice_to_def by (metis (no_types, lifting))
qed

lemma cut_pad_simps [simp]: "cut_pad p 0 = Some p" "length q = unat pad \<Longrightarrow> cut_pad (data @ q) pad = Some data"
  by (simp_all add: cut_pad_take)

lemma slice_from_app [simp]: "length p = n \<Longrightarrow> slice_from (p @ q) n = Some q" "n \<le> length p \<Longrightarrow> slice_from p n \<noteq> None"
  by (simp_all add: slice_from_def)

lemma readUint32_be32 [simp]: "readUint32 (be32 v @ p) = Inr (p, v)"
  by (simp add: readUint32_def codec_simps)

lemma data_parsed:
  assumes "op_write (W_Data sid e data pad) f = (f', None)" "\<not> fr_AllowIllegalWrites f"
  shows "parseDataFrame (op_header (W_Data sid e data pad)) (op_payload (W_Data sid e data pad)) = Inr (op_frame (W_Data sid e data pad))"
proof -
  have v: "validStreamID sid" and len: "pad = Some q \<Longrightarrow> length q \<le> 255" for q
    using assms by (auto simp: WriteDataPadded_def startWriteDataPadded_def Let_def split: if_splits option.splits)
  have u: "unat (word_of_nat (length q) :: u8) = length q" if "pad = Some q" for q
    using len [OF that] by (simp add: unat_of_nat take_bit_nat_eq_self)
  have fl: "Flags_Has (op_flags (W_Data sid e data pad)) FlagPadded = (pad \<noteq> None)" unfolding op_flags.simps by (rule data_flags)
  show ?thesis using fl valid_weaken [OF v]
    by (cases pad) (simp_all add: parseDataFrame_def read_pad_def header_fields u del: op_flags.simps)
qed

lemma headers_parsed:
  assumes "op_write (W_Headers p) f = (f', None)" "\<not> fr_AllowIllegalWrites f"
  shows "parseHeadersFrame (op_header (W_Headers p)) (op_payload (W_Headers p)) = Inr (op_frame (W_Headers p))"
proof -
  have v: "validStreamID (hp_StreamID p)" and dep: "\<not> priority_IsZero (hp_Priority p) \<Longrightarrow> validStreamIDOrZero (pp_StreamDep (hp_Priority p))"
    using assms by (auto simp: WriteHeaders_def Let_def split: if_splits)
  have fl: "Flags_Has (op_flags (W_Headers p)) FlagPadded = (hp_PadLength p \<noteq> 0)"
    "Flags_Has (op_flags (W_Headers p)) FlagHeadersPriority = (\<not> priority_IsZero (hp_Priority p))"
    unfolding op_flags.simps by (rule headers_flags)+
  define rest where "rest = hp_BlockFragment p @ replicate (unat (hp_PadLength p)) 0"
  have pad: "read_pad (op_header (W_Headers p)) (op_payload (W_Headers p)) =
      Inr ((if priority_IsZero (hp_Priority p) then [] else be32 (priority_word (hp_Priority p)) @ [pp_Weight (hp_Priority p)]) @ rest, hp_PadLength p)"
    by (simp add: read_pad_def header_fields fl pad_byte_def rest_def del: op_flags.simps)
  have prio: "read_priority (op_header (W_Headers p)) ((if priority_IsZero (hp_Priority p) then [] else be32 (priority_word (hp_Priority p)) @ [pp_Weight (hp_Priority p)]) @ rest) =
      Inr (rest, (hp_Priority p)\<lparr>pp_urgency := 0, pp_incremental := 0\<rparr>)"
  proof (cases "priority_IsZero (hp_Priority p)")
    case True
    then show ?thesis by (simp add: read_priority_def header_fields fl del: op_flags.simps) (simp add: priority_IsZero_def priority_zero_def)
  next
    case False
    note w = read_priority_word [OF dep [OF False]]
    show ?thesis using False w
      by (simp add: read_priority_def header_fields fl codec_simps priority_rebuild del: op_flags.simps)
  qed
  have sid: "fh_StreamID (op_header (W_Headers p)) \<noteq> 0" using valid_weaken [OF v] by (simp add: header_fields)
  show ?thesis unfolding parseHeadersFrame_def pad sum.case prod.case prio using sid by (simp add: rest_def)
qed

lemma push_parsed:
  assumes "op_write (W_PushPromise p) f = (f', None)" "\<not> fr_AllowIllegalWrites f"
  shows "parsePushPromise (op_header (W_PushPromise p)) (op_payload (W_PushPromise p)) = Inr (op_frame (W_PushPromise p))"
proof -
  have v: "validStreamID (pm_StreamID p)" "validStreamID (pm_PromiseID p)"
    using assms by (auto simp: WritePushPromise_def Let_def split: if_splits)
  have fl: "Flags_Has (op_flags (W_PushPromise p)) FlagPadded = (pm_PadLength p \<noteq> 0)" unfolding op_flags.simps by (rule push_flags)
  have pad: "read_pad (op_header (W_PushPromise p)) (op_payload (W_PushPromise p)) =
      Inr (be32 (pm_PromiseID p) @ pm_BlockFragment p @ replicate (unat (pm_PadLength p)) 0, pm_PadLength p)"
    by (simp add: read_pad_def header_fields fl pad_byte_def del: op_flags.simps)
  have sid: "fh_StreamID (op_header (W_PushPromise p)) \<noteq> 0" using valid_weaken [OF v(1)] by (simp add: header_fields)
  show ?thesis unfolding parsePushPromise_def pad sum.case prod.case using sid valid_weaken [OF v(2)]
    by (simp add: codec_simps)
qed

lemma settings_parsed:
  assumes "op_readable (W_Settings settings)"
  shows "parseSettingsFrame (op_header (W_Settings settings)) (op_payload (W_Settings settings)) = Inr (op_frame (W_Settings settings))"
  using assms by (auto simp: parseSettingsFrame_def header_fields Flags_Has_def FlagAck_def length_settings SettingsFrame_Value_bytes split: option.splits)

lemma plain_parsed:
  assumes "op_write op f = (f', None)" "\<not> fr_AllowIllegalWrites f" "op_readable op"
  shows "op = W_Priority sid p \<Longrightarrow> parsePriorityFrame (op_header op) (op_payload op) = Inr (op_frame op)"
    "op = W_WindowUpdate sid incr \<Longrightarrow> parseWindowUpdateFrame (op_header op) (op_payload op) = Inr (op_frame op)"
    "op = W_PriorityUpdate sid prio \<Longrightarrow> parsePriorityUpdateFrame (op_header op) (op_payload op) = Inr (op_frame op)"
    "op = W_GoAway sid code data \<Longrightarrow> parseGoAwayFrame (op_header op) (op_payload op) = Inr (op_frame op)"
proof -
  show "parsePriorityFrame (op_header op) (op_payload op) = Inr (op_frame op)" if "op = W_Priority sid p"
  proof -
    have v: "validStreamID sid" "validStreamIDOrZero (pp_StreamDep p)" using assms that by (auto simp: WritePriority_def split: if_splits)
    have "priority_zero\<lparr>pp_Weight := pp_Weight p, pp_StreamDep := pp_StreamDep p, pp_Exclusive := pp_Exclusive p\<rparr> = p\<lparr>pp_urgency := 0, pp_incremental := 0\<rparr>"
      by (cases p) (simp add: priority_zero_def)
    then show ?thesis using read_priority_word [OF v(2)] valid_weaken [OF v(1)] that
      by (simp add: parsePriorityFrame_def header_fields codec_simps Let_def byte_at_def nth_append)
  qed
  show "parseWindowUpdateFrame (op_header op) (op_payload op) = Inr (op_frame op)" if "op = W_WindowUpdate sid incr"
  proof -
    have i: "incr \<noteq> 0" "incr \<le> 2147483647" using assms that by (auto simp: WriteWindowUpdate_def not_less split: if_splits)
    have "unat (take_bit 31 incr) = unat incr"
      unfolding unsigned_take_bit_eq by (rule take_bit_nat_eq_self) (use i(2) in \<open>simp add: word_le_nat_alt\<close>)
    then have "incr AND 0x7fffffff = incr" unfolding mask31(1) take_bit_eq_mask [symmetric] by (rule unsigned_word_eqI)
    then show ?thesis using that i(1) by (simp add: parseWindowUpdateFrame_def)
  qed
  show "parsePriorityUpdateFrame (op_header op) (op_payload op) = Inr (op_frame op)" if "op = W_PriorityUpdate sid prio"
  proof -
    have v: "validStreamID sid" using assms that by (auto simp: WritePriorityUpdate_def split: if_splits)
    show ?thesis using valid_weaken [OF v] that by (simp add: parsePriorityUpdateFrame_def header_fields codec_simps Let_def)
  qed
  show "parseGoAwayFrame (op_header op) (op_payload op) = Inr (op_frame op)" if "op = W_GoAway sid code data"
    using that by (simp add: parseGoAwayFrame_def header_fields codec_simps slice_from_def and.assoc)
qed

lemma op_parsed:
  assumes "op_write op f = (f', None)" "\<not> fr_AllowIllegalWrites f" "op_readable op"
  shows "typeFrameParser (op_type op) (op_header op) (op_payload op) = Inr (op_frame op)"
proof (cases op)
  case (W_RSTStream sid code)
  then have v: "validStreamID sid" using assms by (auto simp: WriteRSTStream_def split: if_splits)
  show ?thesis using W_RSTStream valid_weaken [OF v] by (simp add: typeFrameParser_types parseRSTStreamFrame_def header_fields)
next
  case (W_Continuation sid e frag)
  then have v: "validStreamID sid" using assms by (auto simp: WriteContinuation_def split: if_splits)
  show ?thesis using W_Continuation valid_weaken [OF v] by (simp add: typeFrameParser_types parseContinuationFrame_def header_fields)
qed (use assms data_parsed headers_parsed push_parsed settings_parsed plain_parsed [OF assms] in
    \<open>simp_all add: typeFrameParser_types typeFrameParser_unknown parseSettingsFrame_def parsePingFrame_def parseUnknownFrame_def header_fields
      SettingsFrame_Value_def NumSettings_def\<close>)

section \<open>Streams of frames\<close>

fun write_all :: "write_op list \<Rightarrow> framer \<Rightarrow> framer \<times> http2_error option" where
  "write_all [] f = (f, None)"
| "write_all (op # ops) f = (case op_write op f of (f1, Some e) \<Rightarrow> (f1, Some e) | (f1, None) \<Rightarrow> write_all ops f1)"

fun read_all :: "nat \<Rightarrow> framer \<Rightarrow> framer \<times> (http2_error + http2_frame list)" where
  "read_all 0 fr = (fr, Inr [])"
| "read_all (Suc n) fr =
     (case ReadFrame fr of
        (fr1, Inl e) \<Rightarrow> (fr1, Inl e)
      | (fr1, Inr g) \<Rightarrow> (case read_all n fr1 of (fr2, Inl e) \<Rightarrow> (fr2, Inl e) | (fr2, Inr gs) \<Rightarrow> (fr2, Inr (g # gs))))"

text \<open>Header blocks are contiguous: the reader follows the stream whose block is open, or zero.\<close>

fun order_run :: "u32 \<Rightarrow> write_op list \<Rightarrow> u32 option" where
  "order_run s [] = Some s"
| "order_run s (op # ops) = (case order_next s (op_header op) of None \<Rightarrow> None | Some s' \<Rightarrow> order_run s' ops)"

lemma write_all_wire:
  "write_all ops f = (f', None) \<Longrightarrow> \<not> fr_AllowIllegalWrites f \<Longrightarrow> list_all op_readable ops \<Longrightarrow>
    fr_w f' = fr_w f @ concat (map op_wire ops) \<and> list_all (\<lambda>op. length (op_payload op) < 16777216 \<and> typeFrameParser (op_type op) (op_header op) (op_payload op) = Inr (op_frame op)) ops"
proof (induction ops arbitrary: f)
  case (Cons op ops)
  obtain f1 where w: "op_write op f = (f1, None)" "write_all ops f1 = (f', None)"
    using Cons.prems(1) by (auto split: prod.splits option.splits)
  have ok: "op_readable op" "list_all op_readable ops" using Cons.prems(3) by simp_all
  have "\<not> fr_AllowIllegalWrites f1" using op_written(3) [OF w(1)] Cons.prems(2) by simp
  then show ?case using Cons.IH [OF w(2) _ ok(2)] op_written(1,2) [OF w(1)] op_parsed [OF w(1) Cons.prems(2) ok(1)] by simp
qed simp

lemma read_all_wire:
  "fr_r fr = concat (map op_wire ops) @ rest \<Longrightarrow> \<not> fr_AllowIllegalReads fr \<Longrightarrow> order_run (fr_lastHeaderStream fr) ops = Some s \<Longrightarrow>
    list_all (\<lambda>op. length (op_payload op) < 16777216 \<and> typeFrameParser (op_type op) (op_header op) (op_payload op) = Inr (op_frame op)) ops \<Longrightarrow>
    list_all (\<lambda>op. length (op_payload op) \<le> unat (fr_maxReadSize fr)) ops \<Longrightarrow>
    \<exists>fr'. read_all (length ops) fr = (fr', Inr (map op_frame ops)) \<and> fr_r fr' = rest \<and> fr_lastHeaderStream fr' = s"
proof (induction ops arbitrary: fr)
  case (Cons op ops)
  obtain s1 where o: "order_next (fr_lastHeaderStream fr) (op_header op) = Some s1" "order_run s1 ops = Some s"
    using Cons.prems(3) by (auto split: option.splits)
  define fr1 where "fr1 = fr\<lparr>fr_errDetail := None, fr_lastFrameType := op_type op, fr_lastHeaderStream := s1, fr_r := concat (map op_wire ops) @ rest\<rparr>"
  have "ReadFrame fr = (fr1, Inr (op_frame op))"
    unfolding fr1_def
    by (rule read_wire [where t = "op_type op" and fl = "op_flags op" and sid = "op_stream op" and payload = "op_payload op"])
      (use Cons.prems o in \<open>simp_all add: op_wire_def [of op] op_header_def [of op]\<close>)
  moreover obtain fr' where "read_all (length ops) fr1 = (fr', Inr (map op_frame ops))" "fr_r fr' = rest" "fr_lastHeaderStream fr' = s"
    using Cons.IH [of fr1] Cons.prems o(2) by (auto simp: fr1_def)
  ultimately show ?case by simp
qed simp

section \<open>Properties\<close>

text \<open>
  Claim C6: frames survive the wire. Let a framer that does not allow illegal writes write a sequence of frames, of
  every frame type, with padding and priorities, without an error. Provided that header blocks are contiguous, no
  frame exceeds the size that the reader admits, and the values the writers do not check are legal, a framer that
  reads those bytes returns exactly these frames in this order and leaves nothing.
\<close>

theorem http2_frames_roundtrip:
  assumes "write_all ops w = (w', None)" "\<not> fr_AllowIllegalWrites w" "fr_w w = []"
    and "list_all op_readable ops" "order_run 0 ops \<noteq> None" "limit \<le> maxFrameSize" "list_all (\<lambda>op. length (op_payload op) \<le> unat limit) ops"
  shows "\<exists>r. read_all (length ops) (SetMaxReadFrameSize limit (NewFramer (fr_w w'))) = (r, Inr (map op_frame ops)) \<and> fr_r r = []"
proof -
  define r0 where "r0 = SetMaxReadFrameSize limit (NewFramer (fr_w w'))"
  have w: "fr_w w' = concat (map op_wire ops)"
    "list_all (\<lambda>op. length (op_payload op) < 16777216 \<and> typeFrameParser (op_type op) (op_header op) (op_payload op) = Inr (op_frame op)) ops"
    using write_all_wire [OF assms(1,2,4)] assms(3) by simp_all
  have r0: "fr_r r0 = concat (map op_wire ops) @ []" "\<not> fr_AllowIllegalReads r0" "fr_lastHeaderStream r0 = 0" "fr_maxReadSize r0 = limit"
    using assms(6) w(1) by (simp_all add: r0_def SetMaxReadFrameSize_def NewFramer_def not_less [symmetric])
  obtain s where "order_run 0 ops = Some s" using assms(5) by blast
  then show ?thesis using read_all_wire [OF r0(1,2) _ w(2)] r0(3,4) assms(7) unfolding r0_def by auto
qed

text \<open>A connection that opens a padded header block with a priority, continues it and sends padded data.\<close>

definition sample_ops :: "write_op list" where
  "sample_ops =
     [W_Settings [\<lparr>set_ID = 4, set_Val = 65535\<rparr>],
      W_Headers \<lparr>hp_StreamID = 1, hp_BlockFragment = [0x82], hp_EndStream = False, hp_EndHeaders = False, hp_PadLength = 2,
        hp_Priority = \<lparr>pp_StreamDep = 3, pp_Exclusive = True, pp_Weight = 15, pp_urgency = 0, pp_incremental = 0\<rparr>\<rparr>,
      W_Continuation 1 True [0x86],
      W_Data 1 True [1, 2, 3] (Some [0, 0]),
      W_WindowUpdate 0 1000,
      W_GoAway 1 0 []]"

lemma sample_written: "\<exists>w'. write_all sample_ops (NewFramer []) = (w', None)"
proof -
  have v: "validStreamID 1" "validStreamIDOrZero 3" by (simp_all add: validStreamID_def validStreamIDOrZero_def)
  show ?thesis
    by (simp add: sample_ops_def WriteSettings_def WriteHeaders_def WriteContinuation_def WriteDataPadded_def startWriteDataPadded_def WriteWindowUpdate_def WriteGoAway_def
      v endWrite_def Let_def writeUint16_def writeUint32_def writeBytes_def startWrite_def priority_IsZero_def priority_zero_def be32_def be16_def frameHeaderLen_def)
qed

lemma sample_order: "order_run 0 sample_ops = Some 0"
  by (simp add: sample_ops_def order_next_def header_fields Let_def frame_types frame_flags Flags_Has_def)

theorem http2_frames_roundtrip_witness:
  "\<exists>w' r. write_all sample_ops (NewFramer []) = (w', None) \<and>
     read_all 6 (SetMaxReadFrameSize 16384 (NewFramer (fr_w w'))) = (r, Inr (map op_frame sample_ops)) \<and> fr_r r = []"
proof -
  obtain w' where w: "write_all sample_ops (NewFramer []) = (w', None)" using sample_written by blast
  have "\<not> fr_AllowIllegalWrites (NewFramer [])" "fr_w (NewFramer []) = []" by (simp_all add: NewFramer_def SetMaxReadFrameSize_def)
  moreover have "list_all op_readable sample_ops"
    by (simp add: sample_ops_def SettingInitialWindowSize_def validStreamIDOrZero_def)
  moreover have "order_run 0 sample_ops \<noteq> None" by (simp add: sample_order)
  moreover have "(16384 :: u32) \<le> maxFrameSize" by (simp add: maxFrameSize_def)
  moreover have "list_all (\<lambda>op. length (op_payload op) \<le> unat (16384 :: u32)) sample_ops"
    by (simp add: sample_ops_def pad_byte_def priority_IsZero_def priority_zero_def setting_bytes_def)
  moreover have "length sample_ops = 6" by (simp add: sample_ops_def)
  ultimately show ?thesis using http2_frames_roundtrip [OF w, of 16384] w by metis
qed

lemma read_be32_long: "4 \<le> length p \<Longrightarrow> \<exists>v. read_be32 p = Some v"
  by (cases p rule: read_be32.cases) simp_all

lemma read_be16_long: "2 \<le> length p \<Longrightarrow> \<exists>v. read_be16 p = Some v"
  by (cases p rule: read_be16.cases) simp_all

lemma Setting_at_long:
  assumes "i < NumSettings p"
  shows "Setting_at p i \<noteq> None"
proof -
  have "i * 6 + 6 \<le> length p" using assms by (simp add: NumSettings_def)
  then have "\<exists>v. read_be16 (drop (i * 6) p) = Some v" "\<exists>v. read_be32 (drop (i * 6 + 2) p) = Some v"
    by (intro read_be16_long read_be32_long; simp)+
  then show ?thesis by (auto simp: Setting_at_def)
qed

lemma settings_Value_long: "\<forall>i \<in> set is. i < NumSettings p \<Longrightarrow> settings_Value p k is \<noteq> None"
proof (induction "is")
  case (Cons i "is")
  then show ?case using Setting_at_long [of i p] by auto
qed simp

lemma parser_no_panic:
  assumes pe: "pe \<in> {SlicePanic, TypeAssertionPanic}"
  shows "typeFrameParser t fh p \<noteq> Inl pe"
proof -
  have b: "4 \<le> length q \<Longrightarrow> \<exists>v. read_be32 q = Some v" for q by (rule read_be32_long)
  have sf: "n \<le> length q \<Longrightarrow> slice_from q n = Some (drop n q)" for n q by (simp add: slice_from_def)
  have e: "readByte q \<noteq> Inl pe" "read_pad fh q \<noteq> Inl pe" for q using pe by (cases q; auto simp: read_pad_def)+
  have u: "readUint32 q \<noteq> Inl pe" for q using pe b [of q] sf [of 4 q] by (cases "length q < 4") (auto simp: readUint32_def)
  have pr: "read_priority fh q \<noteq> Inl pe" for q using e u pe by (auto simp: read_priority_def split: sum.splits)
  have c: "cut_pad q pad = None \<Longrightarrow> length q < unat pad" for q pad using cut_pad_take [of pad q] by fastforce
  have ci: "cut_pad q pad = None \<Longrightarrow> int (length q) < uint pad" for q pad using c [of q pad] unfolding unat_eq_nat_uint zless_nat_eq_int_zless .
  have v: "SettingsFrame_Value p k \<noteq> None" for k unfolding SettingsFrame_Value_def by (rule settings_Value_long) simp
  have "parseDataFrame fh p \<noteq> Inl pe" using e(2) [of p] pe by (auto simp: parseDataFrame_def dest!: c split: sum.splits option.splits)
  moreover have "parseHeadersFrame fh p \<noteq> Inl pe" using e(2) [of p] pr pe by (auto simp: parseHeadersFrame_def dest!: ci split: sum.splits option.splits)
  moreover have "parsePushPromise fh p \<noteq> Inl pe" using e(2) [of p] u pe by (auto simp: parsePushPromise_def dest!: c split: sum.splits option.splits)
  moreover have "parseSettingsFrame fh p \<noteq> Inl pe" using v [of SettingInitialWindowSize] pe by (auto simp: parseSettingsFrame_def split: option.splits)
  moreover have "parseGoAwayFrame fh p \<noteq> Inl pe"
  proof (cases "length p < 8")
    case False
    then obtain v w where "read_be32 p = Some v" "read_be32 (drop 4 p) = Some w" "slice_from p 8 = Some (drop 8 p)"
      using b [of p] b [of "drop 4 p"] sf [of 8 p] by fastforce
    then show ?thesis using pe by (auto simp: parseGoAwayFrame_def)
  qed (use pe in \<open>auto simp: parseGoAwayFrame_def\<close>)
  moreover have "parsePriorityFrame fh p \<noteq> Inl pe" using b [of p] pe by (cases "length p = 5") (auto simp: parsePriorityFrame_def byte_at_def Let_def)
  moreover have "parsePriorityUpdateFrame fh p \<noteq> Inl pe"
    using b [of p] sf [of 4 p] pe by (cases "length p < 4") (auto simp: parsePriorityUpdateFrame_def Let_def split: if_splits)
  moreover have "parseRSTStreamFrame fh p \<noteq> Inl pe" "parseWindowUpdateFrame fh p \<noteq> Inl pe"
    using b [of p] pe by (auto simp: parseRSTStreamFrame_def parseWindowUpdateFrame_def Let_def split: if_splits option.splits)
  moreover have "parsePingFrame fh p \<noteq> Inl pe" "parseContinuationFrame fh p \<noteq> Inl pe" "parseUnknownFrame fh p \<noteq> Inl pe"
    using pe by (auto simp: parsePingFrame_def parseContinuationFrame_def parseUnknownFrame_def)
  ultimately show ?thesis by (simp add: typeFrameParser_def)
qed

lemma read_no_panic:
  assumes pe: "pe \<in> {SlicePanic, TypeAssertionPanic}"
  shows "snd (ReadFrame fr) \<noteq> Inl pe"
proof -
  have r: "snd (ReadFull n f) \<noteq> Inl pe" for n f using pe by (auto simp: ReadFull_def)
  have f: "snd (ReadFrameForHeader fh f) \<noteq> Inl pe" for fh f
  proof (cases "snd (ReadFull (unat (fh_Length fh)) f)")
    case (Inl e)
    then show ?thesis using r [of "unat (fh_Length fh)" f] pe by (auto simp: ReadFrameForHeader_def split: prod.splits if_splits)
  next
    case (Inr payload)
    then show ?thesis using parser_no_panic [OF pe, of "fh_Type fh" fh payload] pe
      by (cases "ReadFull (unat (fh_Length fh)) f") (auto simp: ReadFrameForHeader_def split: sum.splits http2_error.splits)
  qed
  have c: "snd (checkFrameOrder fh f) \<noteq> Some pe" for fh f
    using pe by (auto simp: checkFrameOrder_def fr_connError_def Let_def)
  have h: "snd (snd (ReadFrameHeader f)) \<noteq> Some pe" for f
  proof -
    have "snd (snd (readFrameHeader (f\<lparr>fr_errDetail := None\<rparr>))) \<noteq> Some pe"
      using r [of frameHeaderLen "f\<lparr>fr_errDetail := None\<rparr>"] by (auto simp: readFrameHeader_def split: prod.splits sum.splits)
    moreover have "pe \<noteq> ErrFrameTooLarge" "pe \<noteq> LooksLikeHTTP1 q" for q using pe by auto
    ultimately show ?thesis using c by (auto simp: ReadFrameHeader_def Let_def split: prod.splits) (metis snd_conv)+
  qed
  obtain fr1 fh err where e: "ReadFrameHeader fr = (fr1, fh, err)" by (cases "ReadFrameHeader fr")
  show ?thesis using h [of fr] f [of fh fr1] by (cases err) (simp_all add: ReadFrame_def e)
qed

text \<open>
  Claim C34: reading never indexes past a payload. Slices, cut padding and indexes of the parsers panic out of range in
  the model, and every one of them is behind a check of the length: reading a frame from any input in any state gives
  a frame or an error other than that panic.
\<close>

theorem ReadFrame_no_panic: "snd (ReadFrame fr) \<noteq> Inl SlicePanic"
  by (rule read_no_panic) simp

lemma open_block_continues:
  assumes "\<not> fr_AllowIllegalReads fr" "fr_lastHeaderStream fr \<noteq> 0" "ReadFrame fr = (fr', Inr g)"
  shows "\<exists>h frag. g = ContinuationFrame h frag \<and> fh_StreamID h = fr_lastHeaderStream fr \<and>
    fr_lastHeaderStream fr' = (if Flags_Has (fh_Flags h) FlagEndHeaders then 0 else fr_lastHeaderStream fr)"
proof -
  obtain fr1 fh where h: "ReadFrameHeader fr = (fr1, fh, None)" "ReadFrameForHeader fh fr1 = (fr', Inr g)"
    using assms(3) by (auto simp: ReadFrame_def split: prod.splits option.splits)
  define fr0 where "fr0 = fr\<lparr>fr_errDetail := None, fr_r := drop frameHeaderLen (fr_r fr)\<rparr>"
  have c: "fr_lastHeaderStream fr0 = fr_lastHeaderStream fr" "fr_AllowIllegalReads fr0 = fr_AllowIllegalReads fr" by (simp_all add: fr0_def)
  have "checkFrameOrder fh fr0 = (fr1, None)" unfolding fr0_def
    using h(1) by (auto simp: ReadFrameHeader_def readFrameHeader_def ReadFull_def Let_def split: prod.splits sum.splits if_splits)
  then have o: "fh_Type fh = FrameContinuation" "fh_StreamID fh = fr_lastHeaderStream fr"
    "fr_lastHeaderStream fr1 = (if Flags_Has (fh_Flags fh) FlagEndHeaders then 0 else fr_lastHeaderStream fr)"
    using c assms(1,2) by (auto simp: checkFrameOrder_def fr_connError_def Let_def split: if_splits)
  have "typeFrameParser (fh_Type fh) fh p = Inr g \<Longrightarrow> g = ContinuationFrame fh p" for p
    unfolding o(1) typeFrameParser_types by (auto simp: parseContinuationFrame_def split: if_splits)
  then have "\<exists>p. g = ContinuationFrame fh p \<and> fr_lastHeaderStream fr' = fr_lastHeaderStream fr1"
    using h(2) by (auto simp: ReadFrameForHeader_def ReadFull_def split: prod.splits sum.splits http2_error.splits if_splits)
  then show ?thesis using o by auto
qed

text \<open>
  Claim C12: an open header block is only ever continued. After a header frame without the flag that ends its headers,
  the next frame that is read without an error is a CONTINUATION of the same stream, which the merge of header blocks
  relies on for an unchecked type assertion.
\<close>

theorem continuation_guaranteed:
  assumes "\<not> fr_AllowIllegalReads fr" "fr_lastHeaderStream fr \<noteq> 0" "ReadFrame fr = (fr', Inr g)"
  shows "\<exists>h frag. g = ContinuationFrame h frag \<and> fh_StreamID h = fr_lastHeaderStream fr \<and>
    fr_lastHeaderStream fr' = (if Flags_Has (fh_Flags h) FlagEndHeaders then 0 else fr_lastHeaderStream fr)"
  by (rule open_block_continues [OF assms])

definition open_framer :: framer where
  "open_framer = (NewFramer (wire FrameContinuation FlagEndHeaders 7 [0x86]))\<lparr>fr_lastHeaderStream := 7, fr_lastFrameType := FrameHeaders\<rparr>"

theorem continuation_guaranteed_witness:
  "\<exists>fr' g h frag. ReadFrame open_framer = (fr', Inr g) \<and> g = ContinuationFrame h frag \<and> fh_StreamID h = 7"
proof -
  have n: "order_next 7 (wire_header FrameContinuation FlagEndHeaders 7 [0x86]) = Some 0"
    by (simp add: order_next_def wire_header_def Flags_Has_def frame_flags Let_def)
  have p: "typeFrameParser FrameContinuation (wire_header FrameContinuation FlagEndHeaders 7 [0x86]) [0x86] =
      Inr (ContinuationFrame (wire_header FrameContinuation FlagEndHeaders 7 [0x86]) [0x86])"
    by (simp add: typeFrameParser_types parseContinuationFrame_def wire_header_def)
  have o: "\<not> fr_AllowIllegalReads open_framer" "fr_lastHeaderStream open_framer = 7" "fr_maxReadSize open_framer = maxFrameSize"
    "fr_r open_framer = wire FrameContinuation FlagEndHeaders 7 [0x86] @ []"
    by (simp_all add: open_framer_def NewFramer_def SetMaxReadFrameSize_def)
  obtain fr' g where r: "ReadFrame open_framer = (fr', Inr g)"
    using read_wire [OF o(4) _ _ o(1) _ p, of 0] n o(2,3) by (auto simp: maxFrameSize_def)
  show ?thesis using continuation_guaranteed [OF o(1) _ r] o(2) r by auto
qed

end
