(* ===== verification/Http2_Meta.thy ===== *)
theory Http2_Meta
  imports Http2_Codec
begin

text \<open>
  Header blocks (\<^verbatim>\<open>readMetaFrame\<close> and \<^verbatim>\<open>checkPseudos\<close> of \<^verbatim>\<open>internal/http2/frame.go\<close>): a HEADERS frame and its
  continuations are decoded and checked field by field, within budgets for header and trailer fields. The HPACK
  decoder and the character tests of \<^verbatim>\<open>httpguts\<close> are a record of functions: a write to the decoder gives its next
  state, the fields it decodes in order, and whether it failed. Names are compared byte by byte; a rune test stands
  for the test of the byte, as no token rune is outside ASCII.
\<close>

section \<open>Fields and budgets\<close>

record header_field =
  hf_Name :: string
  hf_Value :: string

record 'd meta_lib =
  ml_Write :: "'d \<Rightarrow> bytes \<Rightarrow> 'd \<times> header_field list \<times> bool"
  ml_Close :: "'d \<Rightarrow> bool"
  ml_Size :: "header_field \<Rightarrow> nat"
  ml_IsPseudo :: "header_field \<Rightarrow> bool"
  ml_ValidHeaderFieldValue :: "string \<Rightarrow> bool"
  ml_IsTokenRune :: "char \<Rightarrow> bool"

text \<open>The limits of the framer: \<^verbatim>\<open>MaxHeaderListSize\<close> and \<^verbatim>\<open>MaxHeaderValueCount\<close>.\<close>

record header_limits =
  hl_MaxHeaderListSize :: nat
  hl_MaxHeaderValueCount :: int

definition maxHeaderListSize :: "header_limits \<Rightarrow> nat" where
  "maxHeaderListSize l = (if hl_MaxHeaderListSize l = 0 then 16777216 else hl_MaxHeaderListSize l)"

record header_budget =
  bg_remainSize :: nat
  bg_count :: int

record meta_state =
  mt_Fields :: "header_field list"
  mt_Truncated :: bool
  mt_headers :: header_budget
  mt_trailers :: header_budget
  mt_sawRegular :: bool
  mt_invalid :: "header_error option"
  mt_emit :: bool

definition meta_start :: "header_limits \<Rightarrow> meta_state" where
  "meta_start l = \<lparr>mt_Fields = [], mt_Truncated = False, mt_headers = \<lparr>bg_remainSize = maxHeaderListSize l, bg_count = 0\<rparr>,
     mt_trailers = \<lparr>bg_remainSize = maxHeaderListSize l, bg_count = 0\<rparr>, mt_sawRegular = False, mt_invalid = None, mt_emit = True\<rparr>"

definition validWireHeaderFieldName :: "'d meta_lib \<Rightarrow> string \<Rightarrow> bool" where
  "validWireHeaderFieldName lib v \<longleftrightarrow> v \<noteq> [] \<and> list_all (\<lambda>c. ml_IsTokenRune lib c \<and> \<not> (65 \<le> (of_char c :: nat) \<and> of_char c \<le> (90 :: nat))) v"

section \<open>The emit function\<close>

text \<open>The checks of a field: its value, the order of pseudo headers, and the name of a regular field.\<close>

definition emit_check :: "'d meta_lib \<Rightarrow> header_field \<Rightarrow> meta_state \<Rightarrow> meta_state" where
  "emit_check lib hf st =
     (let st1 = (if \<not> ml_ValidHeaderFieldValue lib (hf_Value hf) then st\<lparr>mt_invalid := Some (headerFieldValueError (hf_Name hf))\<rparr> else st)
      in if prefix '':'' (hf_Name hf)
         then (if mt_sawRegular st1 then st1\<lparr>mt_invalid := Some errPseudoAfterRegular\<rparr> else st1)
         else let st2 = st1\<lparr>mt_sawRegular := True\<rparr>
              in if \<not> validWireHeaderFieldName lib (hf_Name hf) then st2\<lparr>mt_invalid := Some (headerFieldNameError (hf_Name hf))\<rparr> else st2)"

definition trailer_count :: "header_field \<Rightarrow> nat" where
  "trailer_count hf = count_list (hf_Value hf) CHR '','' + 1"

definition field_size :: "'d meta_lib \<Rightarrow> header_field \<Rightarrow> nat" where
  "field_size lib hf =
     (if hf_Name hf = ''trailer''
      then u32_add ((length (hf_Value hf) + 1 - trailer_count hf) mod u32_mod) (trailer_count hf mod u32_mod * ml_Size lib \<lparr>hf_Name = [], hf_Value = []\<rparr>)
      else ml_Size lib hf)"

definition emit_field :: "'d meta_lib \<Rightarrow> header_limits \<Rightarrow> header_field \<Rightarrow> meta_state \<Rightarrow> meta_state" where
  "emit_field lib l hf st0 =
     (let st = emit_check lib hf st0 in
      if mt_invalid st \<noteq> None then st\<lparr>mt_emit := False\<rparr>
      else let trailer = (hf_Name hf = ''trailer'');
               budget = (if trailer then mt_trailers st else mt_headers st);
               budget1 = budget\<lparr>bg_count := bg_count budget + (if trailer then int (trailer_count hf) else 1)\<rparr>;
               limit = hl_MaxHeaderValueCount l
           in if (limit > 0 \<and> bg_count budget1 > limit) \<or> field_size lib hf > bg_remainSize budget1
              then let st1 = (if trailer then st\<lparr>mt_trailers := budget1\<rparr> else st\<lparr>mt_headers := budget1\<rparr>)
                   in st1\<lparr>mt_emit := False, mt_Truncated := True, mt_headers := (mt_headers st1)\<lparr>bg_remainSize := 0\<rparr>, mt_trailers := (mt_trailers st1)\<lparr>bg_remainSize := 0\<rparr>\<rparr>
              else let budget2 = budget1\<lparr>bg_remainSize := bg_remainSize budget1 - field_size lib hf\<rparr>;
                       st1 = (if trailer then st\<lparr>mt_trailers := budget2\<rparr> else st\<lparr>mt_headers := budget2\<rparr>)
                   in st1\<lparr>mt_Fields := mt_Fields st1 @ [hf]\<rparr>)"

text \<open>A decoder whose emission is disabled decodes on without calling the function.\<close>

fun emit_fields :: "'d meta_lib \<Rightarrow> header_limits \<Rightarrow> header_field list \<Rightarrow> meta_state \<Rightarrow> meta_state" where
  "emit_fields lib l [] st = st"
| "emit_fields lib l (hf # hfs) st = (if mt_emit st then emit_fields lib l hfs (emit_field lib l hf st) else st)"

section \<open>Pseudo headers\<close>

fun PseudoFields :: "'d meta_lib \<Rightarrow> header_field list \<Rightarrow> header_field list" where
  "PseudoFields lib [] = []"
| "PseudoFields lib (hf # hfs) = (if \<not> ml_IsPseudo lib hf then [] else hf # PseudoFields lib hfs)"

definition request_pseudos :: "string list" where
  "request_pseudos = ['':method'', '':path'', '':scheme'', '':authority'', '':protocol'']"

fun pseudo_loop :: "header_field list \<Rightarrow> header_field list \<Rightarrow> bool \<Rightarrow> bool \<Rightarrow> header_error option" where
  "pseudo_loop seen [] isRequest isResponse = (if isRequest \<and> isResponse then Some errMixPseudoHeaderTypes else None)"
| "pseudo_loop seen (hf # hfs) isRequest isResponse =
     (let req = (hf_Name hf \<in> set request_pseudos); resp = (hf_Name hf = '':status'') in
      if \<not> req \<and> \<not> resp then Some (pseudoHeaderError (hf_Name hf))
      else if list_ex (\<lambda>hf2. hf_Name hf = hf_Name hf2) seen then Some (duplicatePseudoHeaderError (hf_Name hf))
      else pseudo_loop (seen @ [hf]) hfs (isRequest \<or> req) (isResponse \<or> resp))"

definition checkPseudos :: "'d meta_lib \<Rightarrow> header_field list \<Rightarrow> header_error option" where
  "checkPseudos lib hfs = pseudo_loop [] (PseudoFields lib hfs) False False"

section \<open>Reading a header block\<close>

record meta_headers_frame =
  mh_Header :: frame_header
  mh_Priority :: priority_param
  mh_Fields :: "header_field list"
  mh_Truncated :: bool

type_synonym 'd meta_result = "framer \<times> 'd \<times> meta_headers_frame option \<times> http2_error option"

definition meta_frame :: "frame_header \<Rightarrow> priority_param \<Rightarrow> meta_state \<Rightarrow> meta_headers_frame" where
  "meta_frame h p st = \<lparr>mh_Header = h, mh_Priority = p, mh_Fields = mt_Fields st, mh_Truncated = mt_Truncated st\<rparr>"

text \<open>After the last fragment: the decoder is closed, then invalid fields and pseudo headers are reported.\<close>

definition meta_finish :: "'d meta_lib \<Rightarrow> frame_header \<Rightarrow> priority_param \<Rightarrow> framer \<Rightarrow> 'd \<Rightarrow> meta_state \<Rightarrow> 'd meta_result" where
  "meta_finish lib h p fr d st =
     (if \<not> ml_Close lib d then (fr, d, Some (meta_frame h p st), Some (ConnectionError ErrCodeCompression))
      else case mt_invalid st of
        Some e \<Rightarrow> (fr\<lparr>fr_errDetail := Some (InvalidHeader e)\<rparr>, d, None, Some (StreamError (fh_StreamID h) ErrCodeProtocol))
      | None \<Rightarrow>
          (case checkPseudos lib (mt_Fields st) of
             Some e \<Rightarrow> (fr\<lparr>fr_errDetail := Some (InvalidHeader e)\<rparr>, d, None, Some (StreamError (fh_StreamID h) ErrCodeProtocol))
           | None \<Rightarrow> (fr, d, Some (meta_frame h p st), None)))"

text \<open>
  The loop over the fragments. The sum of the remaining budgets is 32 bits wide. The fuel is one more than the number
  of bytes to read, and every frame that is read takes at least its header from them; \<^const>\<open>None\<close> is running out of it.
\<close>

fun meta_loop :: "nat \<Rightarrow> 'd meta_lib \<Rightarrow> header_limits \<Rightarrow> frame_header \<Rightarrow> priority_param \<Rightarrow> bytes \<Rightarrow> bool \<Rightarrow> framer \<Rightarrow> 'd \<Rightarrow> meta_state \<Rightarrow> 'd meta_result option" where
  "meta_loop 0 lib l h p frag ended fr d st = None"
| "meta_loop (Suc n) lib l h p frag ended fr d st =
     (if int (length frag) > 2 * int (u32_add (bg_remainSize (mt_headers st)) (bg_remainSize (mt_trailers st)))
      then Some (fr, d, Some (meta_frame h p st), Some (ConnectionError ErrCodeProtocol))
      else if mt_invalid st \<noteq> None then Some (fr, d, Some (meta_frame h p st), Some (ConnectionError ErrCodeProtocol))
      else case ml_Write lib d frag of
        (d1, hfs, ok) \<Rightarrow>
          let st1 = emit_fields lib l hfs st in
          if \<not> ok then Some (fr, d1, Some (meta_frame h p st1), Some (ConnectionError ErrCodeCompression))
          else if ended then Some (meta_finish lib h p fr d1 st1)
          else (case ReadFrame fr of
                  (fr1, Inl e) \<Rightarrow> Some (fr1, d1, None, Some e)
                | (fr1, Inr (ContinuationFrame ch cfrag)) \<Rightarrow> meta_loop n lib l h p cfrag (Flags_Has (fh_Flags ch) FlagEndHeaders) fr1 d1 st1
                | (fr1, Inr _) \<Rightarrow> Some (fr1, d1, None, Some TypeAssertionPanic)))"

definition readMetaFrame :: "'d meta_lib \<Rightarrow> header_limits \<Rightarrow> frame_header \<Rightarrow> priority_param \<Rightarrow> bytes \<Rightarrow> framer \<Rightarrow> 'd \<Rightarrow> 'd meta_result option" where
  "readMetaFrame lib l h p frag fr d =
     (if fr_AllowIllegalReads fr then Some (fr, d, None, Some IllegalReadsWithMetaHeaders)
      else meta_loop (Suc (length (fr_r fr))) lib l h p frag (Flags_Has (fh_Flags h) FlagEndHeaders) fr d (meta_start l))"

text \<open>Reading a frame with a header decoder: a HEADERS frame becomes a merged header block.\<close>

definition ReadFrameMeta :: "'d meta_lib \<Rightarrow> header_limits \<Rightarrow> framer \<Rightarrow> 'd \<Rightarrow> (framer \<times> 'd \<times> (http2_frame + meta_headers_frame) option \<times> http2_error option) option" where
  "ReadFrameMeta lib l fr d =
     (case ReadFrame fr of
        (fr1, Inl e) \<Rightarrow> Some (fr1, d, None, Some e)
      | (fr1, Inr (HeadersFrame h p frag)) \<Rightarrow>
          (case readMetaFrame lib l h p frag fr1 d of
             None \<Rightarrow> None
           | Some (fr2, d2, mh, err) \<Rightarrow> Some (fr2, d2, map_option Inr mh, err))
      | (fr1, Inr g) \<Rightarrow> Some (fr1, d, Some (Inl g), None))"

section \<open>Fields that are kept\<close>

abbreviation pseudo :: "header_field \<Rightarrow> bool" where
  "pseudo hf \<equiv> prefix '':'' (hf_Name hf)"

definition field_ok :: "'d meta_lib \<Rightarrow> header_field \<Rightarrow> bool" where
  "field_ok lib hf \<longleftrightarrow> ml_ValidHeaderFieldValue lib (hf_Value hf) \<and> (pseudo hf \<or> validWireHeaderFieldName lib (hf_Name hf))"

definition pseudo_first :: "header_field list \<Rightarrow> bool" where
  "pseudo_first hfs \<longleftrightarrow> (\<exists>ps rs. hfs = ps @ rs \<and> list_all pseudo ps \<and> list_all (\<lambda>hf. \<not> pseudo hf) rs)"

definition headers_of :: "header_field list \<Rightarrow> header_field list" where
  "headers_of hfs = filter (\<lambda>hf. hf_Name hf \<noteq> ''trailer'') hfs"

definition trailers_of :: "header_field list \<Rightarrow> header_field list" where
  "trailers_of hfs = filter (\<lambda>hf. hf_Name hf = ''trailer'') hfs"

definition meta_inv :: "'d meta_lib \<Rightarrow> header_limits \<Rightarrow> meta_state \<Rightarrow> bool" where
  "meta_inv lib l st \<longleftrightarrow> list_all (field_ok lib) (mt_Fields st) \<and> pseudo_first (mt_Fields st) \<and> (mt_sawRegular st \<or> list_all pseudo (mt_Fields st)) \<and>
     sum_list (map (field_size lib) (headers_of (mt_Fields st))) + bg_remainSize (mt_headers st) \<le> maxHeaderListSize l \<and>
     sum_list (map (field_size lib) (trailers_of (mt_Fields st))) + bg_remainSize (mt_trailers st) \<le> maxHeaderListSize l \<and>
     int (length (headers_of (mt_Fields st))) \<le> bg_count (mt_headers st) \<and>
     (hl_MaxHeaderValueCount l > 0 \<longrightarrow> int (length (headers_of (mt_Fields st))) \<le> hl_MaxHeaderValueCount l)"

lemma emit_check_keeps:
  "mt_Fields (emit_check lib hf st) = mt_Fields st" "mt_headers (emit_check lib hf st) = mt_headers st" "mt_trailers (emit_check lib hf st) = mt_trailers st"
  "mt_sawRegular (emit_check lib hf st) = (mt_sawRegular st \<or> \<not> pseudo hf)"
  by (auto simp: emit_check_def Let_def)

lemma emit_check_ok:
  assumes "mt_invalid (emit_check lib hf st) = None"
  shows "field_ok lib hf" "pseudo hf \<Longrightarrow> \<not> mt_sawRegular st"
  using assms by (auto simp: emit_check_def field_ok_def Let_def split: if_splits)

lemma pseudo_first_snoc:
  assumes "pseudo_first hfs" "pseudo hf \<Longrightarrow> list_all pseudo hfs"
  shows "pseudo_first (hfs @ [hf])"
proof (cases "pseudo hf")
  case True
  then have "list_all pseudo (hfs @ [hf])" using assms(2) by simp
  then show ?thesis unfolding pseudo_first_def by (intro exI [of _ "hfs @ [hf]"] exI [of _ "[]"]) simp
next
  case False
  obtain ps rs where "hfs = ps @ rs" "list_all pseudo ps" "list_all (\<lambda>hf. \<not> pseudo hf) rs" using assms(1) unfolding pseudo_first_def by blast
  then show ?thesis unfolding pseudo_first_def using False by (intro exI [of _ ps] exI [of _ "rs @ [hf]"]) simp
qed

lemma emit_field_inv:
  assumes i: "meta_inv lib l st"
  shows "meta_inv lib l (emit_field lib l hf st)"
proof -
  define st1 where "st1 = emit_check lib hf st"
  have i1: "meta_inv lib l st1" using i by (auto simp: meta_inv_def st1_def emit_check_keeps)
  show ?thesis
  proof (cases "mt_invalid st1 = None")
    case False
    then show ?thesis using i1 by (auto simp: emit_field_def Let_def st1_def [symmetric] meta_inv_def)
  next
    case True
    have ok: "field_ok lib hf" "pseudo hf \<Longrightarrow> list_all pseudo (mt_Fields st1)" "mt_sawRegular st1 \<or> pseudo hf"
      using emit_check_ok [OF True [unfolded st1_def]] i by (auto simp: st1_def emit_check_keeps meta_inv_def)
    have p: "pseudo_first (mt_Fields st1 @ [hf])" using pseudo_first_snoc [OF _ ok(2)] i1 by (simp add: meta_inv_def)
    show ?thesis
      using i1 ok p True
      by (auto simp: emit_field_def Let_def st1_def [symmetric] meta_inv_def headers_of_def trailers_of_def split: if_splits)
  qed
qed

lemma emit_fields_inv: "meta_inv lib l st \<Longrightarrow> meta_inv lib l (emit_fields lib l hfs st)"
  by (induction hfs arbitrary: st) (simp_all add: emit_field_inv)

lemma meta_start_inv: "meta_inv lib l (meta_start l)"
  by (simp add: meta_inv_def meta_start_def pseudo_first_def headers_of_def trailers_of_def)

section \<open>Pseudo headers that are kept\<close>

lemma pseudo_loop_None:
  "pseudo_loop seen hfs req resp = None \<Longrightarrow> distinct (map hf_Name seen) \<Longrightarrow>
    distinct (map hf_Name (seen @ hfs)) \<and> (\<forall>hf \<in> set hfs. hf_Name hf \<in> set request_pseudos \<or> hf_Name hf = '':status'') \<and>
    \<not> ((req \<or> (\<exists>hf \<in> set hfs. hf_Name hf \<in> set request_pseudos)) \<and> (resp \<or> (\<exists>hf \<in> set hfs. hf_Name hf = '':status'')))"
proof (induction hfs arbitrary: seen req resp)
  case (Cons hf hfs)
  have n: "hf_Name hf \<in> set request_pseudos \<or> hf_Name hf = '':status''" "hf_Name hf \<notin> hf_Name ` set seen"
    "pseudo_loop (seen @ [hf]) hfs (req \<or> hf_Name hf \<in> set request_pseudos) (resp \<or> hf_Name hf = '':status'') = None"
    using Cons.prems(1) by (auto simp: Let_def list_ex_iff split: if_splits)
  have "distinct (map hf_Name (seen @ [hf]))" using Cons.prems(2) n(2) by auto
  then show ?case using Cons.IH [OF n(3)] n(1) by auto
qed (auto split: if_splits)

lemma PseudoFields_filter:
  assumes "\<And>hf. ml_IsPseudo lib hf = pseudo hf" "pseudo_first hfs"
  shows "PseudoFields lib hfs = filter pseudo hfs"
proof -
  obtain ps rs where h: "hfs = ps @ rs" "list_all pseudo ps" "list_all (\<lambda>hf. \<not> pseudo hf) rs" using assms(2) unfolding pseudo_first_def by blast
  have r: "filter pseudo rs = []" "PseudoFields lib rs = []" using h(3) assms(1) by (auto simp: filter_empty_conv list_all_iff) (cases rs; auto)
  have "PseudoFields lib (ps @ rs) = ps" using h(2) r(2) assms(1) by (induction ps) auto
  moreover have "filter pseudo ps = ps" using h(2) by (simp add: list_all_iff)
  ultimately show ?thesis using r(1) by (simp add: h(1))
qed

section \<open>The loop\<close>

lemma ReadFrame_consumes: "ReadFrame fr = (fr', Inr g) \<Longrightarrow> length (fr_r fr') < length (fr_r fr) \<and> fr_AllowIllegalReads fr' = fr_AllowIllegalReads fr"
proof -
  assume r: "ReadFrame fr = (fr', Inr g)"
  obtain fr1 fh where h: "ReadFrameHeader fr = (fr1, fh, None)" "ReadFrameForHeader fh fr1 = (fr', Inr g)"
    using r by (auto simp: ReadFrame_def split: prod.splits option.splits)
  have c: "checkFrameOrder fh f = (f', e) \<Longrightarrow> fr_r f' = fr_r f \<and> fr_AllowIllegalReads f' = fr_AllowIllegalReads f" for fh f f' e
    by (auto simp: checkFrameOrder_def fr_connError_def Let_def split: if_splits)
  have "length (fr_r fr1) < length (fr_r fr) \<and> fr_AllowIllegalReads fr1 = fr_AllowIllegalReads fr"
    using h(1) by (auto simp: ReadFrameHeader_def readFrameHeader_def ReadFull_def frameHeaderLen_def Let_def split: prod.splits sum.splits if_splits dest!: c)
  moreover have "length (fr_r fr') \<le> length (fr_r fr1) \<and> fr_AllowIllegalReads fr' = fr_AllowIllegalReads fr1"
    using h(2) by (auto simp: ReadFrameForHeader_def ReadFull_def split: prod.splits sum.splits http2_error.splits if_splits)
  ultimately show ?thesis by linarith
qed

lemma meta_finish_panic: "snd (snd (snd (meta_finish lib h p fr d st))) \<noteq> Some TypeAssertionPanic"
  by (auto simp: meta_finish_def split: option.splits)

lemma ReadFrame_no_assertion: "snd (ReadFrame fr) \<noteq> Inl TypeAssertionPanic"
  by (rule read_no_panic) simp

lemma meta_loop_total:
  "length (fr_r fr) < n \<Longrightarrow> \<not> fr_AllowIllegalReads fr \<Longrightarrow> ended \<or> fr_lastHeaderStream fr \<noteq> 0 \<Longrightarrow>
    \<exists>r. meta_loop n lib l h p frag ended fr d st = Some r \<and> snd (snd (snd r)) \<noteq> Some TypeAssertionPanic"
proof (induction n arbitrary: frag ended fr d st)
  case (Suc n)
  obtain d1 hfs ok where w: "ml_Write lib d frag = (d1, hfs, ok)" by (cases "ml_Write lib d frag")
  define st1 where "st1 = emit_fields lib l hfs st"
  show ?case
  proof (cases "int (length frag) > 2 * int (u32_add (bg_remainSize (mt_headers st)) (bg_remainSize (mt_trailers st))) \<or> mt_invalid st \<noteq> None \<or> \<not> ok \<or> ended")
    case True
    then show ?thesis using meta_finish_panic [of lib h p fr d1 st1] by (cases "meta_finish lib h p fr d1 st1") (auto simp: w Let_def st1_def)
  next
    case False
    then have go: "meta_loop (Suc n) lib l h p frag ended fr d st = (case ReadFrame fr of
          (fr1, Inl e) \<Rightarrow> Some (fr1, d1, None, Some e)
        | (fr1, Inr (ContinuationFrame ch cfrag)) \<Rightarrow> meta_loop n lib l h p cfrag (Flags_Has (fh_Flags ch) FlagEndHeaders) fr1 d1 st1
        | (fr1, Inr _) \<Rightarrow> Some (fr1, d1, None, Some TypeAssertionPanic))"
      unfolding st1_def by (simp add: w Let_def)
    have open_block: "fr_lastHeaderStream fr \<noteq> 0" using False Suc.prems(3) by blast
    obtain fr1 res where r: "ReadFrame fr = (fr1, res)" by (cases "ReadFrame fr")
    show ?thesis
    proof (cases res)
      case (Inl e)
      then show ?thesis using go r ReadFrame_no_assertion [of fr] by auto
    next
      case (Inr g)
      obtain ch cfrag where g: "g = ContinuationFrame ch cfrag" "fr_lastHeaderStream fr1 = (if Flags_Has (fh_Flags ch) FlagEndHeaders then 0 else fr_lastHeaderStream fr)"
        using open_block_continues [OF Suc.prems(2) open_block, of fr1 g] r Inr by blast
      have "length (fr_r fr1) < n" "\<not> fr_AllowIllegalReads fr1" using ReadFrame_consumes [of fr fr1 g] r Inr Suc.prems(1,2) by auto
      then show ?thesis unfolding go r Inr g prod.case sum.case http2_frame.case using Suc.IH g(2) open_block by simp
    qed
  qed
qed simp

lemma meta_loop_kept:
  "meta_loop n lib l h p frag ended fr d st = Some (fr', d', Some mh, None) \<Longrightarrow> meta_inv lib l st \<Longrightarrow>
    \<exists>st'. meta_inv lib l st' \<and> mh = meta_frame h p st' \<and> mt_invalid st' = None \<and> checkPseudos lib (mt_Fields st') = None"
proof (induction n arbitrary: frag ended fr d st)
  case (Suc n)
  obtain d1 hfs ok where w: "ml_Write lib d frag = (d1, hfs, ok)" by (cases "ml_Write lib d frag")
  define st1 where "st1 = emit_fields lib l hfs st"
  have i: "meta_inv lib l st1" using emit_fields_inv [OF Suc.prems(2)] by (simp add: st1_def)
  have ok: "ok" using Suc.prems(1) by (auto simp: w Let_def split: if_splits)
  show ?case
  proof (cases ended)
    case True
    then have "meta_finish lib h p fr d1 st1 = (fr', d', Some mh, None)" using Suc.prems(1) ok by (auto simp: w Let_def st1_def split: if_splits)
    then show ?thesis using i by (auto simp: meta_finish_def split: if_splits option.splits)
  next
    case False
    obtain fr1 res where r: "ReadFrame fr = (fr1, res)" by (cases "ReadFrame fr")
    have "\<exists>ch cfrag. res = Inr (ContinuationFrame ch cfrag) \<and> meta_loop n lib l h p cfrag (Flags_Has (fh_Flags ch) FlagEndHeaders) fr1 d1 st1 = Some (fr', d', Some mh, None)"
      using Suc.prems(1) ok False by (auto simp: w r Let_def st1_def split: if_splits sum.splits http2_frame.splits)
    then show ?thesis using Suc.IH i by blast
  qed
qed simp

lemma headers_open:
  assumes "\<not> fr_AllowIllegalReads fr" "ReadFrame fr = (fr', Inr (HeadersFrame h p frag))"
  shows "Flags_Has (fh_Flags h) FlagEndHeaders \<or> fr_lastHeaderStream fr' \<noteq> 0"
proof -
  obtain fr1 fh where h: "ReadFrameHeader fr = (fr1, fh, None)" "ReadFrameForHeader fh fr1 = (fr', Inr (HeadersFrame h p frag))"
    using assms(2) by (auto simp: ReadFrame_def split: prod.splits option.splits)
  define fr0 where "fr0 = fr\<lparr>fr_errDetail := None, fr_r := drop frameHeaderLen (fr_r fr)\<rparr>"
  have c: "checkFrameOrder fh fr0 = (fr1, None)" "\<not> fr_AllowIllegalReads fr0" unfolding fr0_def
    using h(1) assms(1) by (auto simp: ReadFrameHeader_def readFrameHeader_def ReadFull_def Let_def split: prod.splits sum.splits if_splits)
  obtain payload where t: "typeFrameParser (fh_Type fh) fh payload = Inr (HeadersFrame h p frag)" "fr_lastHeaderStream fr' = fr_lastHeaderStream fr1"
    using h(2) by (auto simp: ReadFrameForHeader_def ReadFull_def split: prod.splits sum.splits http2_error.splits if_splits)
  have k: "fh_Type fh = FrameHeaders" "h = fh" "fh_StreamID fh \<noteq> 0"
    using t(1) by (auto simp: typeFrameParser_def parseDataFrame_def parseHeadersFrame_def parsePriorityFrame_def parseRSTStreamFrame_def parseSettingsFrame_def
      parsePushPromise_def parsePingFrame_def parseGoAwayFrame_def parseWindowUpdateFrame_def parseContinuationFrame_def parsePriorityUpdateFrame_def
      parseUnknownFrame_def Let_def split: if_splits sum.splits option.splits)
  show ?thesis using c k t(2) by (auto simp: checkFrameOrder_def fr_connError_def Let_def frame_types split: if_splits)
qed

section \<open>Properties\<close>

text \<open>
  Claim C35: reading with a header decoder always ends, and the type assertion on the frames that continue a header
  block never fails: from any bytes and any state, with any decoder, there is a frame or an error.
\<close>

theorem ReadFrameMeta_total:
  "\<exists>r. ReadFrameMeta lib l fr d = Some r \<and> snd (snd (snd r)) \<noteq> Some TypeAssertionPanic"
proof -
  obtain fr1 res where r: "ReadFrame fr = (fr1, res)" by (cases "ReadFrame fr")
  show ?thesis
  proof (cases "\<exists>h p frag. res = Inr (HeadersFrame h p frag)")
    case False
    then show ?thesis using ReadFrame_no_assertion [of fr] r by (auto simp: ReadFrameMeta_def split: sum.splits http2_frame.splits)
  next
    case True
    then obtain h p frag where g: "res = Inr (HeadersFrame h p frag)" by blast
    have "\<exists>q. readMetaFrame lib l h p frag fr1 d = Some q \<and> snd (snd (snd q)) \<noteq> Some TypeAssertionPanic"
    proof (cases "fr_AllowIllegalReads fr1")
      case False
      then have "\<not> fr_AllowIllegalReads fr" using ReadFrame_consumes [of fr fr1] r g by simp
      then have "Flags_Has (fh_Flags h) FlagEndHeaders \<or> fr_lastHeaderStream fr1 \<noteq> 0" using headers_open r g by blast
      then show ?thesis unfolding readMetaFrame_def if_not_P [OF False] by (intro meta_loop_total) (use False in simp_all)
    qed (simp add: readMetaFrame_def)
    then show ?thesis by (auto simp: ReadFrameMeta_def r g)
  qed
qed

text \<open>
  Claim C13: a header block that is accepted is well formed: every value is valid, every regular name is a valid name
  in lower case, pseudo headers come first, are known, occur once and do not mix those of requests and responses, and
  the fields stay within the limits on their size and their number.
\<close>

theorem meta_headers_wellformed:
  assumes "\<forall>hf. ml_IsPseudo lib hf = pseudo hf" "ReadFrameMeta lib l fr d = Some (fr', d', Some (Inr mh), None)"
  shows "list_all (field_ok lib) (mh_Fields mh) \<and> pseudo_first (mh_Fields mh) \<and> distinct (map hf_Name (filter pseudo (mh_Fields mh))) \<and>
    (\<forall>hf \<in> set (filter pseudo (mh_Fields mh)). hf_Name hf \<in> set request_pseudos \<or> hf_Name hf = '':status'') \<and>
    \<not> ((\<exists>hf \<in> set (mh_Fields mh). hf_Name hf \<in> set request_pseudos) \<and> (\<exists>hf \<in> set (mh_Fields mh). hf_Name hf = '':status'')) \<and>
    sum_list (map (field_size lib) (headers_of (mh_Fields mh))) \<le> maxHeaderListSize l \<and>
    sum_list (map (field_size lib) (trailers_of (mh_Fields mh))) \<le> maxHeaderListSize l \<and>
    (hl_MaxHeaderValueCount l > 0 \<longrightarrow> int (length (headers_of (mh_Fields mh))) \<le> hl_MaxHeaderValueCount l)"
proof -
  obtain h p frag fr1 where "readMetaFrame lib l h p frag fr1 d = Some (fr', d', Some mh, None)"
    using assms(2) by (auto simp: ReadFrameMeta_def split: prod.splits sum.splits http2_frame.splits option.splits)
  then have "meta_loop (Suc (length (fr_r fr1))) lib l h p frag (Flags_Has (fh_Flags h) FlagEndHeaders) fr1 d (meta_start l) = Some (fr', d', Some mh, None)"
    by (auto simp: readMetaFrame_def split: if_splits)
  from meta_loop_kept [OF this meta_start_inv] obtain st where st: "meta_inv lib l st" "mh = meta_frame h p st" "checkPseudos lib (mt_Fields st) = None" by blast
  have m: "mh_Fields mh = mt_Fields st" using st(2) by (simp add: meta_frame_def)
  have f: "list_all (field_ok lib) (mh_Fields mh)" "pseudo_first (mh_Fields mh)"
    "sum_list (map (field_size lib) (headers_of (mh_Fields mh))) \<le> maxHeaderListSize l"
    "sum_list (map (field_size lib) (trailers_of (mh_Fields mh))) \<le> maxHeaderListSize l"
    "hl_MaxHeaderValueCount l > 0 \<longrightarrow> int (length (headers_of (mh_Fields mh))) \<le> hl_MaxHeaderValueCount l"
    using st(1) unfolding m meta_inv_def by linarith+
  have "pseudo_loop [] (filter pseudo (mh_Fields mh)) False False = None"
    using st(3) PseudoFields_filter [of lib "mh_Fields mh"] assms(1) f(2) by (simp add: checkPseudos_def m)
  note ps = pseudo_loop_None [OF this]
  have named: "hf_Name hf \<in> set request_pseudos \<or> hf_Name hf = '':status'' \<Longrightarrow> pseudo hf" for hf by (auto simp: request_pseudos_def)
  then have "\<not> ((\<exists>hf \<in> set (mh_Fields mh). hf_Name hf \<in> set request_pseudos) \<and> (\<exists>hf \<in> set (mh_Fields mh). hf_Name hf = '':status''))"
    using ps by auto
  then show ?thesis using f ps by simp
qed

text \<open>A decoder that reads one fixed request from every fragment.\<close>

definition sample_meta_lib :: "unit meta_lib" where
  "sample_meta_lib = \<lparr>ml_Write = (\<lambda>d _. (d, [\<lparr>hf_Name = '':method'', hf_Value = ''GET''\<rparr>, \<lparr>hf_Name = ''accept'', hf_Value = ''x''\<rparr>], True)), ml_Close = (\<lambda>_. True),
     ml_Size = (\<lambda>hf. length (hf_Name hf) + length (hf_Value hf) + 32), ml_IsPseudo = (\<lambda>hf. prefix '':'' (hf_Name hf)),
     ml_ValidHeaderFieldValue = (\<lambda>_. True), ml_IsTokenRune = (\<lambda>_. True)\<rparr>"

definition sample_limits :: header_limits where
  "sample_limits = \<lparr>hl_MaxHeaderListSize = 1000, hl_MaxHeaderValueCount = 10\<rparr>"

definition request_framer :: framer where
  "request_framer = NewFramer (wire FrameHeaders FlagEndHeaders 1 [0x82])"

lemma request_read: "\<exists>fr'. ReadFrame request_framer = (fr', Inr (HeadersFrame (wire_header FrameHeaders FlagEndHeaders 1 [0x82]) priority_zero [0x82])) \<and>
  \<not> fr_AllowIllegalReads fr'"
proof -
  have o: "order_next 0 (wire_header FrameHeaders FlagEndHeaders 1 [0x82]) = Some 0"
    by (simp add: order_next_def wire_header_def Flags_Has_def frame_flags frame_types Let_def)
  have p: "typeFrameParser FrameHeaders (wire_header FrameHeaders FlagEndHeaders 1 [0x82]) [0x82] =
      Inr (HeadersFrame (wire_header FrameHeaders FlagEndHeaders 1 [0x82]) priority_zero [0x82])"
    by (simp add: typeFrameParser_types parseHeadersFrame_def read_pad_def read_priority_def wire_header_def Flags_Has_def frame_flags)
  have f: "\<not> fr_AllowIllegalReads request_framer" "fr_lastHeaderStream request_framer = 0" "fr_maxReadSize request_framer = maxFrameSize"
    "fr_r request_framer = wire FrameHeaders FlagEndHeaders 1 [0x82] @ []"
    by (simp_all add: request_framer_def NewFramer_def SetMaxReadFrameSize_def)
  show ?thesis using read_wire [OF f(4) _ _ f(1) _ p, of 0] o f(1,2,3) by (auto simp: maxFrameSize_def)
qed

lemma request_meta: "\<exists>fr' mh. ReadFrameMeta sample_meta_lib sample_limits request_framer () = Some (fr', (), Some (Inr mh), None)"
proof -
  obtain fr' where r: "ReadFrame request_framer = (fr', Inr (HeadersFrame (wire_header FrameHeaders FlagEndHeaders 1 [0x82]) priority_zero [0x82]))"
    "\<not> fr_AllowIllegalReads fr'"
    using request_read by blast
  have e: "Flags_Has (fh_Flags (wire_header FrameHeaders FlagEndHeaders 1 [0x82])) FlagEndHeaders" by (simp add: wire_header_def Flags_Has_def frame_flags)
  show ?thesis
    by (simp add: ReadFrameMeta_def r readMetaFrame_def e meta_start_def maxHeaderListSize_def sample_limits_def u32_add_def sample_meta_lib_def emit_field_def emit_check_def
      validWireHeaderFieldName_def field_size_def meta_finish_def checkPseudos_def request_pseudos_def Let_def of_char_def)
qed

theorem meta_headers_wellformed_witness:
  "\<exists>fr' mh. ReadFrameMeta sample_meta_lib sample_limits request_framer () = Some (fr', (), Some (Inr mh), None) \<and> pseudo_first (mh_Fields mh)"
proof -
  obtain fr' mh where m: "ReadFrameMeta sample_meta_lib sample_limits request_framer () = Some (fr', (), Some (Inr mh), None)" using request_meta by blast
  have "\<forall>hf. ml_IsPseudo sample_meta_lib hf = pseudo hf" by (simp add: sample_meta_lib_def)
  from meta_headers_wellformed [OF this m] show ?thesis using m by blast
qed

text \<open>
  Claim C36: the check that skips oversized header blocks adds the two budgets in 32 bits. With a limit of exactly
  two gigabytes the sum wraps around to zero, and the first fragment of every header block is rejected as too large,
  however small it is.
\<close>

theorem meta_budget_wraps:
  assumes "hl_MaxHeaderListSize l = 2147483648" "frag \<noteq> []" "\<not> fr_AllowIllegalReads fr"
  shows "readMetaFrame lib l h p frag fr d = Some (fr, d, Some (meta_frame h p (meta_start l)), Some (ConnectionError ErrCodeProtocol))"
  using assms by (simp add: readMetaFrame_def meta_start_def maxHeaderListSize_def u32_add_def)

theorem meta_budget_wraps_witness:
  "readMetaFrame sample_meta_lib \<lparr>hl_MaxHeaderListSize = 2147483648, hl_MaxHeaderValueCount = 0\<rparr> zero_header priority_zero [0x82] (NewFramer []) () =
     Some (NewFramer [], (), Some (meta_frame zero_header priority_zero (meta_start \<lparr>hl_MaxHeaderListSize = 2147483648, hl_MaxHeaderValueCount = 0\<rparr>)),
       Some (ConnectionError ErrCodeProtocol))"
  by (rule meta_budget_wraps) (simp_all add: NewFramer_def SetMaxReadFrameSize_def)

end
