(* ===== verification/Spec2Isabelle.thy ===== *)
theory Spec2Isabelle
  imports Routing_Semantics Routing_Refs Routing_Emit Routing_Encode Domain_Matcher Rule_Optimizer Compile_Eval Kernel_Agree Dns_Cache Http2_Sched Http2_Buffer Http2_Meta
begin

text \<open>
  A verification development for dae, a transparent proxy. Its routing configuration names rule sets and
  policies; preparation optimizes the rules and expands geodata, compilation turns every selected policy into a
  profile, a list of spans in one shared pool of instructions, and an interpreter evaluates the profile of a packet
  over address tries, a domain matcher and packet metadata. The theories follow that chain.

  \<^bold>\<open>Prelude.\<close> \<open>Go_Base\<close>: machine integers with their wrap-around, byte orders and generic lemmas; \<open>Go_Strings\<close>:
  the string and number functions of the Go library that the sources call; \<open>Netip\<close> and \<open>Netip_Parse\<close>: addresses and
  prefixes of \<^verbatim>\<open>net/netip\<close> and their parsers.

  \<^bold>\<open>Tries.\<close> \<open>Bitlist\<close> models \<^verbatim>\<open>pkg/trie/internal/bitlist\<close>; \<open>Rank_Select\<close>, \<open>Succinct_Trie\<close>, \<open>Trie_Segments\<close>,
  \<open>Trie_Layout\<close> and \<open>Trie_Correct\<close> model \<^verbatim>\<open>pkg/trie/trie.go\<close>: breadth-first construction, rank and select
  indexes and both queries. The trie answers exactly the prefix question, also on the IPv4 shortcut.
  \<open>Domain_Matcher\<close> models \<^verbatim>\<open>component/routing/domain_matcher\<close>; on names without the marks of the matcher the bit of a
  set is set exactly when one of its patterns matches, and on every other name there is an answer too. The sets are
  numbered by their position, as the builder numbers them, so that \<^verbatim>\<open>AddSet\<close> never sees an index out of range.
  Aho-Corasick automata, regular expressions and Unicode case mapping are the record
  \<open>domain_lib\<close>, with their documented behaviour as hypotheses.

  \<^bold>\<open>Interpreter.\<close> \<open>Routing_VM\<close> models \<^verbatim>\<open>control/routing_instruction.go\<close>, \<^verbatim>\<open>routing_predicate.go\<close>,
  \<^verbatim>\<open>routing_cursor.go\<close>, \<^verbatim>\<open>routing_profile.go\<close> and \<^verbatim>\<open>routing_matcher_userspace.go\<close>. \<open>Routing_Cursor\<close> flattens spans to
  one instruction sequence; \<open>Routing_Semantics\<close> gives rules, clauses and nested conditional blocks a three-valued
  first-match meaning and proves the interpreter to compute it. The fuel of the loop is the number of instructions
  plus one; every jump is forward, so it is enough on well-formed spans.

  \<^bold>\<open>Kernel.\<close> \<open>Kernel_Route\<close> models \<^verbatim>\<open>control/kern/routing.h\<close> and \<^verbatim>\<open>http_clients.h\<close>, the interpreter of the same
  instructions in eBPF, over lookup functions for its maps. Its fixed number of iterations is enough for every profile
  it accepts, and its packed decision can be read back. \<open>Kernel_Agree\<close> models the upload of profiles, instruction pool
  and prefix keys: a compiled program fits the maps of the kernel, and on a program whose instructions are
  as the upload expects them both interpreters take the same decision. They differ only in the must flag of a captured packet, which the userspace simulation drops.

  \<^bold>\<open>Configuration.\<close> \<open>Config_Syntax\<close> models \<^verbatim>\<open>pkg/config_parser/section.go\<close>, \<open>Routing_Parse\<close> the value parsers of
  \<^verbatim>\<open>component/routing/function_parser.go\<close> and \<^verbatim>\<open>matcher_builder.go\<close>, \<open>Routing_Config\<close> the routing section of
  \<^verbatim>\<open>config/\<close>. \<open>Routing_Refs\<close> shows that validation ends and that what it accepts has acyclic references of bounded
  depth. The recursion of the reference check is bounded by the stack it keeps; the classification of rule sets and
  the compiler recurse without such a guard and take the maximal reference depth as fuel, where running out is \<open>None\<close>.
  \<open>Rule_Optimizer\<close> models \<^verbatim>\<open>component/routing/optimizer.go\<close>: merging, sorting and removing
  duplicates keep the action of the first rule that holds, and rewriting the aliases gives the short names their meaning. A
  \<^verbatim>\<open>client\<close> or \<^verbatim>\<open>interface\<close> function counts as not holding there: what is compiled for it is empty until run time.

  \<^bold>\<open>Program.\<close> \<open>Routing_Build\<close> models \<^verbatim>\<open>control/routing_matcher_builder.go\<close>, jump encoding and block validation;
  \<open>Routing_Emit\<close> and \<open>Routing_Encode\<close> relate the emitted instructions and their jumps to the rules they come from.
  \<open>Routing_Compile\<close> models the profile, rule set, flow and capture compilers, \<open>Routing_Prepare\<close> the preparation of a
  configuration. \<open>Builder_Frame\<close>, \<open>Routing_Profiles\<close>, \<open>Compile_Invariant\<close>, \<open>Compile_Profiles\<close>, \<open>Compile_Total\<close> and
  \<open>Compile_Eval\<close> carry the invariant of the compiler through all of it and into the interpreter. Routes and flow rules are resolved by one routine over a
  provided program; its contract is the locale \<open>rule_set_provider\<close>, interpreted for both. Preparation and
  compilation always end, a compiled program stays within the limits, and each of its profiles is evaluated to a
  decision or to the error that no rule applies, without a panic, an unknown instruction or a jump out of the profile.

  \<^bold>\<open>DNS cache.\<close> \<open>Dns_Store\<close> models \<^verbatim>\<open>pkg/dnscache/store.go\<close>: a map and a list in order of use that share elements,
  with 64-bit accounting. In every reachable state both agree and the limits hold, no operation panics, lookup
  refines lookup on the plain list, and insertion evicts exactly the least recently used elements. \<open>Dns_Cache\<close> models
  \<^verbatim>\<open>cache.go\<close>, \<^verbatim>\<open>policy.go\<close> and \<^verbatim>\<open>edns.go\<close> over it; the messages of the DNS library are records and its functions the
  record \<open>dns_lib\<close>. The locale \<open>record_store\<close> says what the cache needs of a store and is interpreted on the one above.
  Every answer of the cache is the prepared reply that was last put under its key, with every time to live lowered by exactly
  the whole seconds between that \<^verbatim>\<open>Put\<close> and the \<^verbatim>\<open>Get\<close>, and it is given before its expiry only.

  \<^bold>\<open>HTTP/2.\<close> \<open>Http2_Frame\<close> models the parsers, the writers and the reader of \<^verbatim>\<open>internal/http2/frame.go\<close>. \<open>Http2_Codec\<close>
  shows that a sequence of frames written without an error is read back, when the writer does not allow illegal writes,
  header blocks are contiguous, frames are within the limit of the reader, and the values that the writers do not check are legal;
  that no input makes a slice expression or an index of a parser panic; and that an open header block is continued or the read fails. \<open>Http2_Meta\<close> models the merging of header blocks over an
  arbitrary HPACK decoder: it ends, never fails its type assertion, and what it accepts is well formed and within the
  limits; a limit of two gigabytes makes the 32-bit sum of its budgets wrap around. The fuel of the merge is one more than the
  number of unread bytes, since every frame read takes at least nine. \<open>Http2_Flow\<close> models \<^verbatim>\<open>flow.go\<close>: in every
  reachable state the windows account exactly for what was granted, sent, received and returned. \<open>Http2_Buffer\<close>
  models \<^verbatim>\<open>databuffer.go\<close>, whose chunks refine a queue of bytes; its loops copy a byte at least in every iteration, so that
  one more than the bytes to copy is enough fuel. \<open>Http2_Sched\<close> models the write queues of \<^verbatim>\<open>writesched.go\<close> over these windows:
  what is taken out is what was pushed, however it is split, and never more than was granted.

  \<^bold>\<open>Conventions.\<close> An operation that can fail returns a sum with the error on the left; a Go panic is \<open>None\<close> or an
  error of its own: \<open>BuildPanic\<close> in the builder, \<open>RoutingPanic\<close> in the interpreter, \<open>TriePanic\<close> in the tries, \<open>SlicePanic\<close> and
  \<open>TypeAssertionPanic\<close> in the framer; \<open>outcome\<close> adds \<open>None\<close> for an exceeded bound. Positions and jump distances are natural numbers
  with the arithmetic of \<^verbatim>\<open>uint32\<close> written out. Go maps are functions or association lists, and where the order of
  an iteration is visible it is a parameter. The match set limit is the default of a setting that may range from 32 to 65536. Two
  alphabets of a trie are compared by their content, where the code compares the pointers of its two fixed alphabets.

  \<^bold>\<open>Not modelled.\<close> The packet path of the kernel program in C; the generated lexer and grammar, so
  that the model starts at the syntax tree; geodata files, the SHA-256 function, regular expressions and
  Aho-Corasick automata, which are parameters; the wire format of DNS
  messages, HPACK and the character tests of header fields, also parameters; of the HTTP/2 framer the invalidation of
  buffers, its counters and the printing of frames; the order in which its schedulers
  serve several streams, a ring of pointers; system calls that write BPF maps; outbound protocols, HTTP/2
  connections, interception, plugins, DNS relay, connection handling, network binding, the daemon, its API and the web
  interface, which are services over sockets, timers and the operating system. Log lines and error texts are
  kept only as far as they distinguish errors.
\<close>

end
